(* ===== verification/Prelude.thy ===== *)
theory Prelude
  imports Main "HOL-Library.AList" "HOL-Library.Multiset" "HOL-Library.Char_ord"
    "HOL-Library.List_Lexorder" "HOL-Library.Product_Lexorder" "HOL-Library.Option_ord"
begin

text \<open>
  Shared vocabulary of the development: the Python values the components are written in
  (insertion-ordered dictionaries, result values for code that raises, the string methods
  the sources call) and the generic lemmas about them.

  A Python \<open>dict\<close> is an association list in insertion order: \<open>map_of\<close> is \<open>dict.get\<close>,
  \<open>AList.update\<close> is item assignment (an existing key keeps its place, a new one goes to the
  end), \<open>AList.delete\<close> is \<open>del\<close>. A function that may raise returns a value of a sum type,
  \<open>Inl\<close> for the exception.
\<close>

section \<open>Collections of simplification rules\<close>

named_theorems dict_simps \<open>rewrite rules for dictionaries\<close>
named_theorems res_simps \<open>rewrite rules for computations that may raise\<close>
named_theorems str_simps \<open>definitions of the string methods, for evaluation\<close>

section \<open>Dictionaries\<close>

type_synonym ('k, 'v) dict = "('k \<times> 'v) list"

definition keys :: "('k, 'v) dict \<Rightarrow> 'k list" where
  "keys d = map fst d"

definition vals :: "('k, 'v) dict \<Rightarrow> 'v list" where
  "vals d = map snd d"

definition wf_dict :: "('k, 'v) dict \<Rightarrow> bool" where
  "wf_dict d \<longleftrightarrow> distinct (map fst d)"

lemma keys_Nil [simp]: "keys [] = []"
  by (simp add: keys_def)

lemma keys_Cons [simp]: "keys (p # d) = fst p # keys d"
  by (simp add: keys_def)

lemma keys_append [simp]: "keys (d @ e) = keys d @ keys e"
  by (simp add: keys_def)

lemma vals_Nil [simp]: "vals [] = []"
  by (simp add: vals_def)

lemma vals_Cons [simp]: "vals (p # d) = snd p # vals d"
  by (simp add: vals_def)

lemma length_keys [simp]: "length (keys d) = length d"
  by (simp add: keys_def)

lemma wf_dict_Nil [simp]: "wf_dict []"
  by (simp add: wf_dict_def)

lemma wf_dict_keys: "wf_dict d \<longleftrightarrow> distinct (keys d)"
  by (simp add: wf_dict_def keys_def)

lemma wf_dict_update [simp]: "wf_dict d \<Longrightarrow> wf_dict (AList.update k v d)"
  by (simp add: wf_dict_def distinct_update)

lemma wf_dict_delete [simp]: "wf_dict d \<Longrightarrow> wf_dict (AList.delete k d)"
  by (simp add: wf_dict_def distinct_delete)

lemma map_of_update [simp]: "map_of (AList.update k v d) x = (if x = k then Some v else map_of d x)"
  by (simp add: update_conv')

lemma map_of_delete [simp]: "map_of (AList.delete k d) x = (if x = k then None else map_of d x)"
  by (simp add: delete_conv')

lemma keys_map_of: "k \<in> set (keys d) \<longleftrightarrow> map_of d k \<noteq> None"
  by (simp add: keys_def map_of_eq_None_iff)

lemma map_of_None_keys: "map_of d k = None \<longleftrightarrow> k \<notin> set (keys d)"
  by (simp add: keys_def map_of_eq_None_iff)

lemma map_of_Some_keys: "map_of d k = Some v \<Longrightarrow> k \<in> set (keys d)"
  using keys_map_of[of k d] by simp

lemma map_of_keysE:
  assumes "k \<in> set (keys d)"
  obtains v where "map_of d k = Some v"
  using assms by (auto simp: keys_map_of)

lemma set_keys_update [simp]: "set (keys (AList.update k v d)) = insert k (set (keys d))"
  by (auto simp: keys_map_of split: if_splits)

lemma set_keys_delete [simp]: "set (keys (AList.delete k d)) = set (keys d) - {k}"
  by (auto simp: keys_map_of split: if_splits)

lemma update_fresh: "k \<notin> set (keys d) \<Longrightarrow> AList.update k v d = d @ [(k, v)]"
  by (induction d) (auto simp: keys_def)

lemma keys_update_fresh: "k \<notin> set (keys d) \<Longrightarrow> keys (AList.update k v d) = keys d @ [k]"
  by (simp add: update_fresh)

lemma keys_update_old: "k \<in> set (keys d) \<Longrightarrow> keys (AList.update k v d) = keys d"
  by (induction d) (auto simp: keys_def)

lemma map_of_wf_iff: "wf_dict d \<Longrightarrow> map_of d k = Some v \<longleftrightarrow> (k, v) \<in> set d"
  by (simp add: wf_dict_def map_of_eq_Some_iff)

lemma length_delete_less:
  assumes "k \<in> set (keys d)"
  shows "length (AList.delete k d) < length d"
proof -
  from assms obtain p where "p \<in> set d" and "fst p = k" by (auto simp: keys_def)
  then have "length (filter (\<lambda>q. fst q \<noteq> k) d) < length d"
    by (intro length_filter_less) auto
  moreover have "AList.delete k d = filter (\<lambda>q. fst q \<noteq> k) d"
    by (induction d) auto
  ultimately show ?thesis by simp
qed

lemma delete_filter: "AList.delete k d = filter (\<lambda>(x, _). x \<noteq> k) d"
  by (induction d) auto

lemma keys_filter: "keys (filter (\<lambda>(k, _). Q k) d) = filter Q (keys d)"
  by (induction d) auto

lemma keys_map_values: "keys (map (\<lambda>(k, v). (k, f k v)) d) = keys d"
  by (induction d) auto

lemma map_of_map_values:
  "map_of (map (\<lambda>(k, v). (k, f k v)) d) x = map_option (f x) (map_of d x)"
  by (induction d) auto

lemma delete_absent: "map_of d k = None \<Longrightarrow> AList.delete k d = d"
  by (induction d) (auto simp: split: if_splits)

lemma vals_delete:
  "wf_dict d \<Longrightarrow> map_of d k = Some v \<Longrightarrow> mset (vals d) = add_mset v (mset (vals (AList.delete k d)))"
proof (induction d)
  case (Cons p d)
  obtain k' v' where p: "p = (k', v')" by (cases p)
  show ?case
  proof (cases "k' = k")
    case True
    then have "map_of d k = None" using Cons.prems(1) p by (simp add: wf_dict_def map_of_eq_None_iff)
    with True Cons.prems(2) p show ?thesis by (simp add: delete_absent)
  next
    case False
    with Cons p show ?thesis by (simp add: wf_dict_def)
  qed
qed simp

lemma length_delete:
  "wf_dict d \<Longrightarrow> map_of d k = Some v \<Longrightarrow> Suc (length (AList.delete k d)) = length d"
  using arg_cong[OF vals_delete[of d k v], of size] by (simp add: vals_def)

text \<open>\<open>dict.fromkeys\<close> as the sources use it: the values in order of first occurrence.\<close>

fun fromkeys_from :: "'a list \<Rightarrow> 'a list \<Rightarrow> 'a list" where
  "fromkeys_from seen [] = []"
| "fromkeys_from seen (x # xs) =
     (if x \<in> set seen then fromkeys_from seen xs else x # fromkeys_from (x # seen) xs)"

definition fromkeys :: "'a list \<Rightarrow> 'a list" where
  "fromkeys xs = fromkeys_from [] xs"

lemma set_fromkeys_from: "set (fromkeys_from seen xs) = set xs - set seen"
  by (induction xs arbitrary: seen) auto

lemma distinct_fromkeys_from: "distinct (fromkeys_from seen xs)"
  by (induction xs arbitrary: seen) (auto simp: set_fromkeys_from)

lemma set_fromkeys [simp]: "set (fromkeys xs) = set xs"
  by (simp add: fromkeys_def set_fromkeys_from)

lemma distinct_fromkeys [simp]: "distinct (fromkeys xs)"
  by (simp add: fromkeys_def distinct_fromkeys_from)

lemma fromkeys_from_distinct:
  "distinct xs \<Longrightarrow> set xs \<inter> set seen = {} \<Longrightarrow> fromkeys_from seen xs = xs"
  by (induction xs arbitrary: seen) auto

lemma fromkeys_id: "distinct xs \<Longrightarrow> fromkeys xs = xs"
  by (simp add: fromkeys_def fromkeys_from_distinct)

section \<open>Computations that may raise\<close>

definition and_then :: "'e + 'a \<Rightarrow> ('a \<Rightarrow> 'e + 'b) \<Rightarrow> 'e + 'b" where
  "and_then r f = (case r of Inl e \<Rightarrow> Inl e | Inr x \<Rightarrow> f x)"

text \<open>\<open>if bad: raise e\<close>.\<close>

definition raise_if :: "bool \<Rightarrow> 'e \<Rightarrow> 'e + unit" where
  "raise_if bad e = (if bad then Inl e else Inr ())"

fun map_res :: "('a \<Rightarrow> 'e + 'b) \<Rightarrow> 'a list \<Rightarrow> 'e + 'b list" where
  "map_res f [] = Inr []"
| "map_res f (x # xs) =
     (case f x of Inl e \<Rightarrow> Inl e
      | Inr y \<Rightarrow> (case map_res f xs of Inl e \<Rightarrow> Inl e | Inr ys \<Rightarrow> Inr (y # ys)))"

fun fold_res :: "('s \<Rightarrow> 'a \<Rightarrow> 'e + 's) \<Rightarrow> 's \<Rightarrow> 'a list \<Rightarrow> 'e + 's" where
  "fold_res f s [] = Inr s"
| "fold_res f s (x # xs) = (case f s x of Inl e \<Rightarrow> Inl e | Inr s' \<Rightarrow> fold_res f s' xs)"

text \<open>The same over computations that may yield nothing.\<close>

fun map_opt :: "('a \<Rightarrow> 'b option) \<Rightarrow> 'a list \<Rightarrow> 'b list option" where
  "map_opt f [] = Some []"
| "map_opt f (x # xs) = Option.bind (f x) (\<lambda>y. map_option ((#) y) (map_opt f xs))"

definition is_ok :: "'e + 'a \<Rightarrow> bool" where
  "is_ok r = (case r of Inl _ \<Rightarrow> False | Inr _ \<Rightarrow> True)"

lemma and_then_Inr [simp]: "and_then (Inr x) f = f x"
  by (simp add: and_then_def)

lemma and_then_Inl [simp]: "and_then (Inl e) f = Inl e"
  by (simp add: and_then_def)

lemma and_then_eq_Inr [res_simps]:
  "and_then r f = Inr y \<longleftrightarrow> (\<exists>x. r = Inr x \<and> f x = Inr y)"
  by (cases r) auto

lemma and_then_eq_Inl [res_simps]:
  "and_then r f = Inl e \<longleftrightarrow> r = Inl e \<or> (\<exists>x. r = Inr x \<and> f x = Inl e)"
  by (cases r) auto

lemma raise_if_eq_Inr [res_simps]: "raise_if b e = Inr u \<longleftrightarrow> \<not> b"
  by (simp add: raise_if_def)

lemma raise_if_eq_Inl [res_simps]: "raise_if b e = Inl e' \<longleftrightarrow> b \<and> e' = e"
  by (auto simp: raise_if_def)

lemma raise_if_False [simp]: "raise_if False e = Inr ()"
  by (simp add: raise_if_def)

lemma raise_if_True [simp]: "raise_if True e = Inl e"
  by (simp add: raise_if_def)

lemma is_ok_simps [simp]: "is_ok (Inr x)" "\<not> is_ok (Inl e)"
  by (simp_all add: is_ok_def)

lemma map_res_Inr_iff [res_simps]:
  "map_res f xs = Inr ys \<longleftrightarrow> list_all2 (\<lambda>x y. f x = Inr y) xs ys"
proof (induction xs arbitrary: ys)
  case Nil
  then show ?case by auto
next
  case (Cons x xs)
  show ?case
  proof (cases "\<exists>y zs. f x = Inr y \<and> map_res f xs = Inr zs")
    case True
    then obtain y zs where "f x = Inr y" and zs: "map_res f xs = Inr zs" by blast
    moreover have "list_all2 (\<lambda>x y. f x = Inr y) xs us \<longleftrightarrow> us = zs" for us
      using Cons.IH[of us] zs by auto
    ultimately show ?thesis by (auto simp: list_all2_Cons1)
  next
    case False
    then show ?thesis
      using Cons.IH by (auto simp: list_all2_Cons1 split: sum.splits)
  qed
qed

lemma map_res_InrD: "map_res f xs = Inr ys \<Longrightarrow> x \<in> set xs \<Longrightarrow> \<exists>y \<in> set ys. f x = Inr y"
  by (auto simp: res_simps list_all2_conv_all_nth in_set_conv_nth)

lemma map_res_InrD2: "map_res f xs = Inr ys \<Longrightarrow> y \<in> set ys \<Longrightarrow> \<exists>x \<in> set xs. f x = Inr y"
  by (auto simp: res_simps list_all2_conv_all_nth in_set_conv_nth) (metis nth_mem)

lemma map_res_Inl: "map_res f xs = Inl e \<Longrightarrow> \<exists>x \<in> set xs. f x = Inl e"
  by (induction xs) (auto split: sum.splits)

lemma fold_res_append:
  "fold_res f s (xs @ ys) = and_then (fold_res f s xs) (\<lambda>s'. fold_res f s' ys)"
  by (induction xs arbitrary: s) (auto split: sum.splits)

lemma fold_res_invariant:
  assumes "fold_res f s xs = Inr t" and "P s"
    and "\<And>s x s'. x \<in> set xs \<Longrightarrow> P s \<Longrightarrow> f s x = Inr s' \<Longrightarrow> P s'"
  shows "P t"
  using assms
proof (induction xs arbitrary: s)
  case Nil
  then show ?case by simp
next
  case (Cons x xs)
  from Cons.prems(1) obtain s' where s': "f s x = Inr s'" and rest: "fold_res f s' xs = Inr t"
    by (auto split: sum.splits)
  have "P s'" using Cons.prems(2,3) s' by (meson list.set_intros(1))
  then show ?case using Cons.IH [OF rest] Cons.prems(3) by (meson list.set_intros(2))
qed

lemma fold_res_each:
  assumes "fold_res f s xs = Inr t" and "x \<in> set xs"
    and step: "\<And>s x s'. x \<in> set xs \<Longrightarrow> f s x = Inr s' \<Longrightarrow> le s s' \<and> Q x s'"
    and mono: "\<And>x s s'. Q x s \<Longrightarrow> le s s' \<Longrightarrow> Q x s'"
  shows "Q x t"
proof -
  from split_list[OF assms(2)] obtain ys zs where xs: "xs = ys @ x # zs" by blast
  with assms(1) obtain s1 where "fold_res f s ys = Inr s1" and tail: "fold_res f s1 (x # zs) = Inr t"
    by (auto simp: fold_res_append and_then_eq_Inr)
  then obtain s2 where "f s1 x = Inr s2" and rest: "fold_res f s2 zs = Inr t"
    by (cases "f s1 x") auto
  with step assms(2) have "Q x s2" by blast
  show ?thesis
  proof (rule fold_res_invariant[OF rest, where P = "Q x", OF \<open>Q x s2\<close>])
    fix u y v
    assume "y \<in> set zs" and "Q x u" and "f u y = Inr v"
    with step[of y u v] mono xs show "Q x v" by auto
  qed
qed

lemma fold_res_unit:
  assumes "fold_res (\<lambda>_. g) u xs = Inr (v :: unit)" and "x \<in> set xs"
  shows "g x = Inr ()"
  using assms by (induction xs arbitrary: u) (auto split: sum.splits)

lemma map_res_cong: "(\<And>x. x \<in> set xs \<Longrightarrow> f x = g x) \<Longrightarrow> map_res f xs = map_res g xs"
  by (induction xs) (auto split: sum.split)

lemma map_res_total: "(\<And>x. x \<in> set xs \<Longrightarrow> \<exists>y. f x = Inr y) \<Longrightarrow> \<exists>ys. map_res f xs = Inr ys"
  by (induction xs) (auto split: sum.splits, (metis sum.distinct(1))+)

lemma map_res_each:
  "(\<And>x. x \<in> set xs \<Longrightarrow> \<exists>y. f x = Inr y \<and> P y) \<Longrightarrow> \<exists>ys. map_res f xs = Inr ys \<and> (\<forall>y \<in> set ys. P y)"
proof (induction xs)
  case (Cons x xs)
  then obtain y ys where "f x = Inr y" "P y" "map_res f xs = Inr ys" "\<forall>y \<in> set ys. P y" by (metis list.set_intros)
  then show ?case by simp
qed simp

lemma map_opt_total:
  "(\<And>x. x \<in> set xs \<Longrightarrow> \<exists>y. f x = Some y \<and> P x y) \<Longrightarrow> \<exists>ys. map_opt f xs = Some ys \<and> list_all2 P xs ys"
proof (induction xs)
  case (Cons x xs)
  obtain y where "f x = Some y" "P x y" using Cons.prems[of x] by auto
  moreover obtain ys where "map_opt f xs = Some ys" "list_all2 P xs ys" using Cons by auto
  ultimately show ?case by simp
qed simp

section \<open>Strings\<close>

text \<open>
  Python strings are modelled by \<open>string\<close>, with the characters of the model restricted to
  one byte. The definitions below agree with the \<open>str\<close> methods on ASCII text.
\<close>

definition startswith :: "string \<Rightarrow> string \<Rightarrow> bool" where
  "startswith s p \<longleftrightarrow> take (length p) s = p"

definition endswith :: "string \<Rightarrow> string \<Rightarrow> bool" where
  "endswith s p \<longleftrightarrow> length p \<le> length s \<and> drop (length s - length p) s = p"

definition removeprefix :: "string \<Rightarrow> string \<Rightarrow> string" where
  "removeprefix s p = (if startswith s p then drop (length p) s else s)"

text \<open>\<open>s.partition(c)\<close> for a one-character separator: the part before, whether the
  separator occurs, the part after.\<close>

definition partition_at :: "char \<Rightarrow> string \<Rightarrow> string \<times> bool \<times> string" where
  "partition_at c s = (takeWhile (\<lambda>x. x \<noteq> c) s, c \<in> set s, drop 1 (dropWhile (\<lambda>x. x \<noteq> c) s))"

definition is_letter :: "char \<Rightarrow> bool" where
  "is_letter c \<longleftrightarrow> (let n = (of_char c :: nat) in (65 \<le> n \<and> n \<le> 90) \<or> (97 \<le> n \<and> n \<le> 122))"

definition is_digit :: "char \<Rightarrow> bool" where
  "is_digit c \<longleftrightarrow> (let n = (of_char c :: nat) in 48 \<le> n \<and> n \<le> 57)"

definition isidentifier :: "string \<Rightarrow> bool" where
  "isidentifier s \<longleftrightarrow>
     (case s of [] \<Rightarrow> False
      | c # cs \<Rightarrow> (is_letter c \<or> c = CHR ''_'')
          \<and> list_all (\<lambda>x. is_letter x \<or> is_digit x \<or> x = CHR ''_'') cs)"

definition is_space :: "char \<Rightarrow> bool" where
  "is_space c \<longleftrightarrow> (let n = (of_char c :: nat) in (9 \<le> n \<and> n \<le> 13) \<or> (28 \<le> n \<and> n \<le> 32))"

definition lstrip :: "string \<Rightarrow> string" where
  "lstrip s = dropWhile is_space s"

definition rstrip :: "string \<Rightarrow> string" where
  "rstrip s = rev (dropWhile is_space (rev s))"

definition strip :: "string \<Rightarrow> string" where
  "strip s = rstrip (lstrip s)"

fun join :: "string \<Rightarrow> string list \<Rightarrow> string" where
  "join sep [] = []"
| "join sep [x] = x"
| "join sep (x # y # xs) = x @ sep @ join sep (y # xs)"

definition replace_char :: "char \<Rightarrow> char \<Rightarrow> string \<Rightarrow> string" where
  "replace_char a b s = map (\<lambda>c. if c = a then b else c) s"

text \<open>The decimal text of an integer.\<close>

fun show_nat :: "nat \<Rightarrow> string" where
  "show_nat n = (if n < 10 then [char_of (48 + n)] else show_nat (n div 10) @ [char_of (48 + n mod 10)])"

declare show_nat.simps [simp del]

definition show_int :: "int \<Rightarrow> string" where
  "show_int n = (if n < 0 then ''-'' else '''') @ show_nat (nat \<bar>n\<bar>)"

text \<open>\<open>repr\<close> of a string and of a list of strings, for printable text.\<close>

definition repr_str :: "string \<Rightarrow> string" where
  "repr_str s =
     (let q = (if CHR 0x27 \<in> set s \<and> CHR 0x22 \<notin> set s then CHR 0x22 else CHR 0x27)
      in [q] @ concat (map (\<lambda>c. if c = CHR 0x5C \<or> c = q then [CHR 0x5C, c] else [c]) s) @ [q])"

definition repr_list :: "string list \<Rightarrow> string" where
  "repr_list xs = ''['' @ join '', '' (map repr_str xs) @ '']''"

lemmas string_method_defs [str_simps] =
  startswith_def endswith_def removeprefix_def partition_at_def is_letter_def is_digit_def
  isidentifier_def is_space_def lstrip_def rstrip_def strip_def replace_char_def

lemma startswith_append: "startswith (p @ s) p"
  by (simp add: startswith_def)

lemma startswith_iff: "startswith s p \<longleftrightarrow> (\<exists>t. s = p @ t)"
proof
  assume "startswith s p"
  then have "s = p @ drop (length p) s"
    by (metis append_take_drop_id startswith_def)
  then show "\<exists>t. s = p @ t" by blast
next
  assume "\<exists>t. s = p @ t"
  then show "startswith s p" by (auto simp: startswith_append)
qed

lemma removeprefix_append [simp]: "removeprefix (p @ s) p = s"
  by (simp add: removeprefix_def startswith_append)

lemma partition_at_append:
  "c \<notin> set a \<Longrightarrow> partition_at c (a @ c # b) = (a, True, b)"
  by (induction a) (auto simp: partition_at_def)

lemma partition_at_none: "c \<notin> set a \<Longrightarrow> partition_at c a = (a, False, [])"
  by (induction a) (auto simp: partition_at_def)

lemma isidentifier_no_dot: "isidentifier s \<Longrightarrow> CHR ''.'' \<notin> set s"
  by (cases s)
     (auto simp: isidentifier_def is_letter_def is_digit_def list_all_iff Let_def)

lemma isidentifier_no_dollar: "isidentifier s \<Longrightarrow> CHR ''$'' \<notin> set s"
  by (cases s)
     (auto simp: isidentifier_def is_letter_def is_digit_def list_all_iff Let_def)

lemma isidentifier_nonempty: "isidentifier s \<Longrightarrow> s \<noteq> []"
  by (auto simp: isidentifier_def)

section \<open>Lists\<close>

lemma list_all2_keys: "list_all2 (\<lambda>x y. fst y = fst x \<and> P x y) xs ys \<Longrightarrow> keys ys = keys xs"
  by (induction rule: list_all2_induct) auto

lemma list_all2_right: "list_all2 P xs ys \<Longrightarrow> y \<in> set ys \<Longrightarrow> \<exists>x \<in> set xs. P x y"
  by (induction rule: list_all2_induct) auto

lemma list_all2_left: "list_all2 P xs ys \<Longrightarrow> x \<in> set xs \<Longrightarrow> \<exists>y \<in> set ys. P x y"
  by (induction rule: list_all2_induct) auto

lemma foldl_inv: "P s \<Longrightarrow> (\<And>s x. P s \<Longrightarrow> P (f s x)) \<Longrightarrow> P (foldl f s xs)"
  by (induction xs arbitrary: s) auto

lemma foldl_same: "(\<And>s x. g (f s x) = g s) \<Longrightarrow> g (foldl f s xs) = g s"
  by (induction xs arbitrary: s) auto

lemma arg_min_list_le: "x \<in> set xs \<Longrightarrow> f (arg_min_list f xs) \<le> f x"
  using f_arg_min_list_f[of xs f] by (cases xs) auto

section \<open>Sorting by a key\<close>

text \<open>\<open>sorted(xs, key=f)\<close> is the library's stable \<open>sort_key\<close>.\<close>

lemma distinct_sort_key: "distinct (sort_key f xs) \<longleftrightarrow> distinct xs"
  by (metis mset_sort distinct_count_atmost_1 set_mset_mset)

end
