(* ===== verification/Stage_Graph.thy ===== *)
theory Stage_Graph
  imports Prelude
begin

text \<open>
  The configured execution graph of a stage (\<open>engine/execution/graph.py\<close>): the node and stage
  configuration models with their validators, and the ordering of nodes by dependency,
  \<open>_topological_order\<close>. The ordering is proved sound (a permutation of the nodes in which every
  predecessor comes earlier) and complete (it fails exactly on cyclic graphs).
\<close>

section \<open>Configuration models and their validators\<close>

datatype input_binding = One string | Many "string list"

datatype result_format = Sarif | Json | Html | Csv

record configured_node =
  cn_inputs :: "(string, input_binding) dict"
  cn_depends_on :: "string list"
  cn_max_concurrency :: "int option"
  cn_model :: "string option"
  cn_capabilities :: "string list"
  cn_formats :: "result_format list option"
  cn_filename :: "string option"

datatype stage_outputs = OutNames "string list" | OutMap "(string, string) dict"

record stage_configuration =
  sc_depends_on :: "string list"
  sc_inputs :: "(string, string) dict"
  sc_outputs :: stage_outputs
  sc_nodes :: "(string, configured_node) dict"

datatype config_error =
    FieldError string
  | ModelBlank
  | CapabilitiesNotUnique
  | InvalidCapabilities "string list"
  | FilenameBlank
  | FilenameNeedsFormats
  | FilenameNotExtensionless
  | StageWithoutNodes
  | InvalidDependencies "string list"
  | OutputsNotUnique
  | InvalidOutputs "string list"

text \<open>
  \<open>pathlib\<close>: a POSIX path drops empty and \<open>.\<close> components; \<open>name\<close> is the last component;
  \<open>suffix\<close> starts at the last dot when that dot is neither the first nor the last character.
\<close>

fun split_on :: "char \<Rightarrow> string \<Rightarrow> string list" where
  "split_on c [] = [[]]"
| "split_on c (x # xs) =
     (if x = c then [] # split_on c xs
      else (case split_on c xs of [] \<Rightarrow> [[x]] | p # ps \<Rightarrow> (x # p) # ps))"

definition path_parts :: "string \<Rightarrow> string list" where
  "path_parts s = filter (\<lambda>p. p \<noteq> [] \<and> p \<noteq> ''.'') (split_on (CHR ''/'') s)"

definition path_name :: "string \<Rightarrow> string" where
  "path_name s = (case rev (path_parts s) of [] \<Rightarrow> [] | p # _ \<Rightarrow> p)"

definition path_suffix :: "string \<Rightarrow> string" where
  "path_suffix s =
     (let name = path_name s; ext = takeWhile (\<lambda>x. x \<noteq> CHR ''.'') (rev name);
          i = length name - length ext - 1
      in if CHR ''.'' \<in> set name \<and> 0 < i \<and> ext \<noteq> [] then CHR ''.'' # rev ext else [])"

text \<open>
  Field constraints (\<open>ge=1\<close>, \<open>min_length=1\<close>) are checked before the model validator
  \<open>validate_capabilities\<close> runs.
\<close>

definition configured_node_fields :: "configured_node \<Rightarrow> config_error + unit" where
  "configured_node_fields n =
     and_then (raise_if (\<exists>k. cn_max_concurrency n = Some k \<and> k < 1) (FieldError ''max_concurrency''))
     (\<lambda>_. and_then (raise_if (cn_model n = Some []) (FieldError ''model''))
     (\<lambda>_. raise_if (cn_filename n = Some []) (FieldError ''filename'')))"

definition validate_capabilities :: "configured_node \<Rightarrow> config_error + configured_node" where
  "validate_capabilities n =
     and_then (raise_if (case cn_model n of None \<Rightarrow> False | Some m \<Rightarrow> strip m = []) ModelBlank)
     (\<lambda>_. and_then (raise_if (card (set (cn_capabilities n)) \<noteq> length (cn_capabilities n))
             CapabilitiesNotUnique)
     (\<lambda>_. let invalid = filter (\<lambda>c. \<not> isidentifier c) (cn_capabilities n) in
          and_then (raise_if (invalid \<noteq> []) (InvalidCapabilities (sort invalid)))
     (\<lambda>_. case cn_filename n of
            None \<Rightarrow> Inr n
          | Some f \<Rightarrow>
              and_then (raise_if (strip f = []) FilenameBlank)
              (\<lambda>_. and_then (raise_if (cn_formats n = None \<or> cn_formats n = Some []) FilenameNeedsFormats)
              (\<lambda>_. and_then (raise_if (path_name f \<in> {'''', ''.'', ''..''} \<or> path_suffix f \<noteq> [])
                      FilenameNotExtensionless)
              (\<lambda>_. Inr n))))))"

definition output_names :: "stage_outputs \<Rightarrow> string list" where
  "output_names out = (case out of OutNames ns \<Rightarrow> ns | OutMap d \<Rightarrow> keys d)"

definition require_nodes :: "stage_configuration \<Rightarrow> config_error + stage_configuration" where
  "require_nodes st =
     and_then (raise_if (sc_nodes st = []) StageWithoutNodes)
     (\<lambda>_. let bad_deps = filter (\<lambda>n. \<not> isidentifier n) (sc_depends_on st);
              names = output_names (sc_outputs st);
              bad_outs = filter (\<lambda>n. \<not> isidentifier n) names
          in and_then (raise_if (bad_deps \<noteq> []) (InvalidDependencies (sort bad_deps)))
     (\<lambda>_. and_then (raise_if (card (set names) \<noteq> length names) OutputsNotUnique)
     (\<lambda>_. and_then (raise_if (bad_outs \<noteq> []) (InvalidOutputs (sort bad_outs)))
     (\<lambda>_. Inr st))))"

text \<open>What a validated model guarantees.\<close>

lemma card_set_ne_length: "card (set xs) \<noteq> length xs \<longleftrightarrow> \<not> distinct xs"
  by (metis card_distinct distinct_card)

lemma validate_capabilities_ok:
  assumes "validate_capabilities n = Inr m"
  shows "m = n" and "distinct (cn_capabilities n)"
    and "\<forall>c \<in> set (cn_capabilities n). isidentifier c"
    and "\<And>f. cn_filename n = Some f \<Longrightarrow>
           \<exists>fs. cn_formats n = Some fs \<and> fs \<noteq> [] \<and> path_name f \<noteq> [] \<and> path_suffix f = []"
  using assms
  by (auto simp: validate_capabilities_def res_simps card_set_ne_length filter_empty_conv Let_def
      split: option.splits)

lemma require_nodes_ok:
  assumes "require_nodes st = Inr st'"
  shows "st' = st" and "sc_nodes st \<noteq> []" and "distinct (output_names (sc_outputs st))"
    and "\<forall>n \<in> set (output_names (sc_outputs st)). isidentifier n"
    and "\<forall>n \<in> set (sc_depends_on st). isidentifier n"
  using assms
  by (auto simp: require_nodes_def res_simps card_set_ne_length filter_empty_conv Let_def)

section \<open>\<open>_topological_order\<close>\<close>

datatype 'k topo_error = CycleError "'k list" | TopoKeyError 'k

text \<open>The inner loop \<open>for name in ready: order.append(name); del remaining[name]\<close>.\<close>

fun take_ready :: "('k, 'k set) dict \<Rightarrow> 'k list \<Rightarrow> 'k list
    \<Rightarrow> 'k topo_error + ('k list \<times> ('k, 'k set) dict)" where
  "take_ready remaining order [] = Inr (order, remaining)"
| "take_ready remaining order (name # ready) =
     (if name \<in> set (keys remaining)
      then take_ready (AList.delete name remaining) (order @ [name]) ready
      else Inl (TopoKeyError name))"

definition ready_names :: "('k, 'k set) dict \<Rightarrow> 'k list \<Rightarrow> 'k list" where
  "ready_names remaining preferred =
     filter (\<lambda>name. case map_of remaining name of None \<Rightarrow> False | Some d \<Rightarrow> d = {}) preferred"

definition difference_update :: "('k, 'k set) dict \<Rightarrow> 'k list \<Rightarrow> ('k, 'k set) dict" where
  "difference_update remaining ready = map (\<lambda>(name, d). (name, d - set ready)) remaining"

lemma take_ready_shrinks:
  "take_ready remaining order ready = Inr (order', remaining') \<Longrightarrow>
   length remaining' + length ready \<le> length remaining"
proof (induction ready arbitrary: remaining order)
  case Nil
  then show ?case by simp
next
  case (Cons name ready)
  then have "name \<in> set (keys remaining)"
    and "take_ready (AList.delete name remaining) (order @ [name]) ready = Inr (order', remaining')"
    by (auto split: if_splits)
  with Cons.IH length_delete_less[of name remaining] show ?case by fastforce
qed

function topo_loop :: "('k::linorder, 'k set) dict \<Rightarrow> 'k list \<Rightarrow> 'k list
    \<Rightarrow> 'k topo_error + 'k list" where
  "topo_loop remaining preferred order =
     (if remaining = [] then Inr order
      else let ready = ready_names remaining preferred in
        if ready = [] then Inl (CycleError (sort (keys remaining)))
        else (case take_ready remaining order ready of
            Inl e \<Rightarrow> Inl e
          | Inr (order', remaining') \<Rightarrow>
              topo_loop (difference_update remaining' ready) preferred order'))"
  by pat_completeness auto
termination
proof (relation "measure (\<lambda>(remaining, _, _). length remaining)")
  show "wf (measure (\<lambda>(remaining, _, _). length remaining))" by simp
next
  fix remaining :: "('k, 'k set) dict" and preferred order ready order' remaining' x
  assume "remaining \<noteq> []" "ready = ready_names remaining preferred" "ready \<noteq> []"
    "take_ready remaining order ready = Inr x" "(order', remaining') = x"
  then have "length remaining' + length ready \<le> length remaining" and "0 < length ready"
    using take_ready_shrinks[of remaining order ready order' remaining'] by simp_all
  then have "length remaining' < length remaining" by linarith
  then show "((difference_update remaining' ready, preferred, order'), remaining, preferred, order)
      \<in> measure (\<lambda>(remaining, _, _). length remaining)"
    by (simp add: difference_update_def)
qed

declare topo_loop.simps [simp del]

definition topological_order :: "('k::linorder, 'k set) dict \<Rightarrow> 'k list \<Rightarrow> 'k topo_error + 'k list" where
  "topological_order predecessors preferred_order = topo_loop predecessors preferred_order []"

subsection \<open>What the loop keeps\<close>

definition preds_before :: "('k \<Rightarrow> 'k set) \<Rightarrow> 'k list \<Rightarrow> bool" where
  "preds_before P order \<longleftrightarrow> (\<forall>ys n zs. order = ys @ n # zs \<longrightarrow> P n \<subseteq> set ys)"

lemma preds_before_Nil [simp]: "preds_before P []"
  by (simp add: preds_before_def)

lemma preds_before_snoc:
  "preds_before P (order @ [x]) \<longleftrightarrow> preds_before P order \<and> P x \<subseteq> set order"
proof
  assume *: "preds_before P (order @ [x])"
  have "P n \<subseteq> set ys" if "order = ys @ n # zs" for ys n zs
    using * that unfolding preds_before_def by (metis append.assoc append_Cons)
  with * show "preds_before P order \<and> P x \<subseteq> set order"
    unfolding preds_before_def by blast
next
  assume *: "preds_before P order \<and> P x \<subseteq> set order"
  show "preds_before P (order @ [x])"
    unfolding preds_before_def
  proof (intro allI impI)
    fix ys n zs
    assume eq: "order @ [x] = ys @ n # zs"
    show "P n \<subseteq> set ys"
    proof (cases zs rule: rev_cases)
      case Nil
      with eq * show ?thesis by simp
    next
      case (snoc zs' z)
      with eq have "order = ys @ n # zs'" by simp
      with * show ?thesis unfolding preds_before_def by blast
    qed
  qed
qed

lemma preds_before_append:
  "preds_before P order \<Longrightarrow> (\<And>n. n \<in> set xs \<Longrightarrow> P n \<subseteq> set order) \<Longrightarrow> preds_before P (order @ xs)"
proof (induction xs rule: rev_induct)
  case Nil
  then show ?case by simp
next
  case (snoc x xs)
  then have "preds_before P (order @ xs)" by simp
  moreover have "P x \<subseteq> set (order @ xs)" using snoc.prems(2)[of x] by auto
  ultimately show ?case by (metis append.assoc preds_before_snoc)
qed

lemma take_ready_Inr:
  "take_ready remaining order ready = Inr (order', remaining') \<Longrightarrow>
   order' = order @ ready \<and> distinct ready \<and> set ready \<subseteq> set (keys remaining) \<and>
   remaining' = filter (\<lambda>(k, _). k \<notin> set ready) remaining"
proof (induction ready arbitrary: remaining order)
  case Nil
  then show ?case by simp
next
  case (Cons name ready)
  then have name: "name \<in> set (keys remaining)"
    and rest: "take_ready (AList.delete name remaining) (order @ [name]) ready = Inr (order', remaining')"
    by (auto split: if_splits)
  from Cons.IH[OF rest] have IH: "order' = order @ name # ready" "distinct ready"
    "set ready \<subseteq> set (keys remaining) - {name}"
    "remaining' = filter (\<lambda>(k, _). k \<notin> set ready) (AList.delete name remaining)" by auto
  from IH(4) have "remaining' = filter (\<lambda>(k, _). k \<notin> set (name # ready)) remaining"
    by (auto simp: delete_filter case_prod_beta intro!: filter_cong)
  with IH(1-3) name show ?case by auto
qed

lemma take_ready_ok:
  "distinct ready \<Longrightarrow> set ready \<subseteq> set (keys remaining) \<Longrightarrow>
   \<exists>r. take_ready remaining order ready = Inr r"
proof (induction ready arbitrary: remaining order)
  case Nil
  then show ?case by simp
next
  case (Cons name ready)
  then have "set ready \<subseteq> set (keys (AList.delete name remaining))" by auto
  with Cons show ?case by simp
qed

text \<open>The loop invariant: what has been ordered so far and what remains, relative to the
  predecessor function \<open>P\<close> of the whole graph.\<close>

definition topo_inv :: "('k \<Rightarrow> 'k set) \<Rightarrow> 'k set \<Rightarrow> ('k, 'k set) dict \<Rightarrow> 'k list \<Rightarrow> bool" where
  "topo_inv P N remaining order \<longleftrightarrow>
     wf_dict remaining \<and> distinct order \<and> set order \<inter> set (keys remaining) = {} \<and>
     set order \<union> set (keys remaining) = N \<and> preds_before P order \<and>
     (\<forall>(n, d) \<in> set remaining. d = P n - set order)"

lemma topo_inv_step:
  assumes inv: "topo_inv P N remaining order"
    and step: "take_ready remaining order (ready_names remaining preferred) = Inr (order', remaining')"
  shows "topo_inv P N (difference_update remaining' (ready_names remaining preferred)) order'"
proof -
  let ?ready = "ready_names remaining preferred"
  from take_ready_Inr[OF step] have o: "order' = order @ ?ready"
    and d: "distinct ?ready" and sub: "set ?ready \<subseteq> set (keys remaining)"
    and r: "remaining' = filter (\<lambda>(k, _). k \<notin> set ?ready) remaining" by auto
  have keys': "keys (difference_update remaining' ?ready) = filter (\<lambda>k. k \<notin> set ?ready) (keys remaining)"
    unfolding r difference_update_def keys_map_values by (rule keys_filter)
  have ready_preds: "P n \<subseteq> set order" if "n \<in> set ?ready" for n
  proof -
    from that have "map_of remaining n = Some {}"
      by (auto simp: ready_names_def split: option.splits)
    then have "(n, {}) \<in> set remaining" by (rule map_of_SomeD)
    with inv show ?thesis by (auto simp: topo_inv_def)
  qed
  have "preds_before P order'"
    unfolding o using inv ready_preds by (intro preds_before_append) (auto simp: topo_inv_def)
  moreover have "\<forall>(n, d) \<in> set (difference_update remaining' ?ready). d = P n - set order'"
    using inv by (auto simp: topo_inv_def difference_update_def r o)
  moreover have "distinct order'"
    using inv d sub by (auto simp: o topo_inv_def)
  moreover have "wf_dict (difference_update remaining' ?ready)"
    using inv by (simp add: wf_dict_keys keys' topo_inv_def)
  ultimately show ?thesis
    using inv sub by (auto simp: topo_inv_def keys' o)
qed

lemma topo_loop_sound:
  "topo_loop remaining preferred order = Inr res \<Longrightarrow> topo_inv P N remaining order \<Longrightarrow>
   distinct res \<and> set res = N \<and> preds_before P res"
proof (induction remaining preferred order rule: topo_loop.induct)
  case (1 remaining preferred order)
  show ?case
  proof (cases "remaining = []")
    case True
    with "1.prems" show ?thesis by (auto simp: topo_loop.simps topo_inv_def)
  next
    case False
    let ?ready = "ready_names remaining preferred"
    from "1.prems"(1) False obtain order' remaining' where
      ready: "?ready \<noteq> []" and
      step: "take_ready remaining order ?ready = Inr (order', remaining')" and
      rest: "topo_loop (difference_update remaining' ?ready) preferred order' = Inr res"
      by (subst (asm) topo_loop.simps) (auto simp: Let_def split: if_splits sum.splits prod.splits)
    show ?thesis
      using "1.IH"[OF False refl ready step refl rest topo_inv_step[OF "1.prems"(2) step]] .
  qed
qed

text \<open>When nothing is ready, the remaining nodes all wait for a remaining node.\<close>

definition all_wait :: "('k \<Rightarrow> 'k set) \<Rightarrow> 'k set \<Rightarrow> bool" where
  "all_wait P W \<longleftrightarrow> W \<noteq> {} \<and> (\<forall>n \<in> W. P n \<inter> W \<noteq> {})"

lemma topo_loop_error:
  "topo_loop remaining preferred order = Inl e \<Longrightarrow> topo_inv P N remaining order \<Longrightarrow>
   distinct preferred \<Longrightarrow> N \<subseteq> set preferred \<Longrightarrow> (\<forall>n \<in> N. P n \<subseteq> N) \<Longrightarrow>
   \<exists>W. e = CycleError (sorted_list_of_set W) \<and> W \<subseteq> N \<and> all_wait P W"
proof (induction remaining preferred order rule: topo_loop.induct)
  case (1 remaining preferred order)
  let ?ready = "ready_names remaining preferred"
  from "1.prems"(1) have ne: "remaining \<noteq> []" by (auto simp: topo_loop.simps)
  show ?case
  proof (cases "?ready = []")
    case True
    let ?W = "set (keys remaining)"
    have "P n \<inter> ?W \<noteq> {}" if n: "n \<in> ?W" for n
    proof -
      from n obtain d where d: "map_of remaining n = Some d" by (rule map_of_keysE)
      then have "(n, d) \<in> set remaining" by (rule map_of_SomeD)
      with "1.prems"(2) have deq: "d = P n - set order" by (auto simp: topo_inv_def)
      from n "1.prems"(2,4) have "n \<in> set preferred" by (auto simp: topo_inv_def)
      with True d have "d \<noteq> {}" by (auto simp: ready_names_def filter_empty_conv)
      then obtain p where "p \<in> P n" "p \<notin> set order" using deq by auto
      moreover have "p \<in> N" using \<open>p \<in> P n\<close> n "1.prems"(2,5) by (auto simp: topo_inv_def)
      ultimately show ?thesis using "1.prems"(2) by (auto simp: topo_inv_def)
    qed
    moreover have "e = CycleError (sort (keys remaining))"
      using "1.prems"(1) ne True by (auto simp: topo_loop.simps)
    moreover have "sort (keys remaining) = sorted_list_of_set ?W"
      using "1.prems"(2) by (simp add: topo_inv_def wf_dict_keys sorted_list_of_set_sort_remdups distinct_remdups_id)
    moreover have "?W \<subseteq> N" using "1.prems"(2) by (auto simp: topo_inv_def)
    ultimately show ?thesis using ne by (auto simp: all_wait_def keys_def)
  next
    case False
    have "distinct ?ready" using "1.prems"(3) by (simp add: ready_names_def)
    moreover have "set ?ready \<subseteq> set (keys remaining)"
      by (auto simp: ready_names_def keys_map_of split: option.splits)
    ultimately obtain r where "take_ready remaining order ?ready = Inr r"
      using take_ready_ok by blast
    then obtain order' remaining' where
      step: "take_ready remaining order ?ready = Inr (order', remaining')"
      by (cases r) auto
    from "1.prems"(1) ne False step
    have rest: "topo_loop (difference_update remaining' ?ready) preferred order' = Inl e"
      by (subst (asm) topo_loop.simps) (simp add: Let_def)
    show ?thesis
      using "1.IH"[OF ne refl False step refl rest topo_inv_step[OF "1.prems"(2) step]
          "1.prems"(3,4,5)] .
  qed
qed

subsection \<open>The graph of a predecessor dictionary\<close>

definition preds_of :: "('k, 'k set) dict \<Rightarrow> 'k \<Rightarrow> 'k set" where
  "preds_of preds n = (case map_of preds n of None \<Rightarrow> {} | Some d \<Rightarrow> d)"

definition pred_edges :: "('k, 'k set) dict \<Rightarrow> ('k \<times> 'k) set" where
  "pred_edges preds = {(p, n). p \<in> preds_of preds n}"

definition closed_preds :: "('k, 'k set) dict \<Rightarrow> bool" where
  "closed_preds preds \<longleftrightarrow> (\<forall>(n, d) \<in> set preds. d \<subseteq> set (keys preds))"

lemma topo_inv_init: "wf_dict preds \<Longrightarrow> topo_inv (preds_of preds) (set (keys preds)) preds []"
  by (auto simp: topo_inv_def preds_of_def wf_dict_def)

lemma preds_of_closed: "closed_preds preds \<Longrightarrow> preds_of preds n \<subseteq> set (keys preds)"
  by (auto simp: closed_preds_def preds_of_def split: option.splits dest!: map_of_SomeD)

lemma all_wait_not_acyclic:
  assumes "all_wait P W" and "finite W"
  shows "\<not> acyclic {(p, n). p \<in> P n}"
proof
  let ?R = "{(p, n). p \<in> P n} \<inter> W \<times> W"
  assume "acyclic {(p, n). p \<in> P n}"
  then have "acyclic ?R" by (rule acyclic_subset) blast
  moreover have "finite ?R" using assms(2) by (meson finite_Int finite_SigmaI)
  ultimately have "wf ?R" by (simp add: finite_acyclic_wf)
  moreover from assms(1) obtain w where "w \<in> W" by (auto simp: all_wait_def)
  ultimately obtain z where "z \<in> W" and min: "\<forall>y. (y, z) \<in> ?R \<longrightarrow> y \<notin> W"
    unfolding wf_eq_minimal by blast
  from assms(1) \<open>z \<in> W\<close> obtain y where "y \<in> P z" "y \<in> W" by (auto simp: all_wait_def)
  with min \<open>z \<in> W\<close> show False by blast
qed

lemma preds_before_acyclic:
  assumes "preds_before P order" and "\<And>n. n \<notin> set order \<Longrightarrow> P n = {}"
  shows "acyclic {(p, n). p \<in> P n}"
proof (rule acyclicI_order [where f = "\<lambda>n. - int (length (takeWhile (\<lambda>m. m \<noteq> n) order))"])
  fix a b
  assume "(a, b) \<in> {(p, n). p \<in> P n}"
  then have ab: "a \<in> P b" by simp
  with assms(2) have "b \<in> set order" by blast
  then obtain ys zs where dec: "order = ys @ b # zs" and "b \<notin> set ys"
    by (meson split_list_first)
  have "a \<in> set ys" using assms(1) dec ab unfolding preds_before_def by blast
  then have "takeWhile (\<lambda>m. m \<noteq> a) order = takeWhile (\<lambda>m. m \<noteq> a) ys"
    using dec by (simp add: takeWhile_append1)
  moreover have "length (takeWhile (\<lambda>m. m \<noteq> a) ys) < length ys"
    by (metis \<open>a \<in> set ys\<close> length_takeWhile_le nat_less_le set_takeWhileD takeWhile_eq_take take_all)
  moreover have "takeWhile (\<lambda>m. m \<noteq> b) order = ys"
    using dec \<open>b \<notin> set ys\<close> by (induction ys arbitrary: order) auto
  ultimately show "- int (length (takeWhile (\<lambda>m. m \<noteq> b) order))
      < - int (length (takeWhile (\<lambda>m. m \<noteq> a) order))"
    by simp
qed

subsection \<open>Correctness of the ordering\<close>

text \<open>
  C1. Whenever \<open>_topological_order\<close> returns, its result lists every node of the predecessor
  dictionary exactly once, and each node stands after all of its predecessors.
\<close>

theorem topological_order_sound:
  assumes "wf_dict predecessors"
    and "topological_order predecessors preferred_order = Inr order"
  shows "distinct order \<and> set order = set (keys predecessors) \<and>
    (\<forall>ys n zs d. order = ys @ n # zs \<and> map_of predecessors n = Some d \<longrightarrow> d \<subseteq> set ys)"
proof -
  have "distinct order \<and> set order = set (keys predecessors) \<and> preds_before (preds_of predecessors) order"
    using topo_loop_sound[OF assms(2)[unfolded topological_order_def] topo_inv_init[OF assms(1)]] .
  then show ?thesis
    unfolding preds_before_def by (force simp: preds_of_def)
qed

theorem topological_order_sound_witness:
  "topological_order [(''result'', {''scan'', ''index''}), (''scan'', {''index''}), (''index'', {})]
     [''result'', ''scan'', ''index''] = Inr [''index'', ''scan'', ''result'']
   \<and> distinct [''index'', ''scan'', ''result'']"
proof -
  let ?p = "[(''result'', {''scan'', ''index''}), (''scan'', {''index''}), (''index'', {})]"
  have h: "wf_dict ?p" by (simp add: wf_dict_def)
  have r: "topological_order ?p [''result'', ''scan'', ''index''] = Inr [''index'', ''scan'', ''result'']"
    by code_simp
  show ?thesis using topological_order_sound[OF h r] r by blast
qed

text \<open>
  C2. On a dictionary whose predecessors are nodes of the dictionary, with a preferred order
  that lists every node once, \<open>_topological_order\<close> returns exactly when the dependency
  relation is acyclic; otherwise it raises the cycle error, and the names it reports are a
  set of nodes each of which waits for another one of the set. It never raises \<open>KeyError\<close>.
\<close>

theorem topological_order_complete:
  assumes "wf_dict predecessors" and "closed_preds predecessors"
    and "distinct preferred_order" and "set (keys predecessors) \<subseteq> set preferred_order"
  shows "((\<exists>order. topological_order predecessors preferred_order = Inr order)
            \<longleftrightarrow> acyclic (pred_edges predecessors)) \<and>
    (\<forall>e. topological_order predecessors preferred_order = Inl e \<longrightarrow>
       (\<exists>W. e = CycleError (sorted_list_of_set W) \<and> W \<subseteq> set (keys predecessors) \<and>
            W \<noteq> {} \<and> (\<forall>n \<in> W. preds_of predecessors n \<inter> W \<noteq> {})))"
proof -
  let ?P = "preds_of predecessors" and ?N = "set (keys predecessors)"
  have cyc: "\<exists>W. e = CycleError (sorted_list_of_set W) \<and> W \<subseteq> ?N \<and> all_wait ?P W"
    if "topological_order predecessors preferred_order = Inl e" for e
    using topo_loop_error[OF that[unfolded topological_order_def] topo_inv_init[OF assms(1)] assms(3,4)]
      preds_of_closed[OF assms(2)] by blast
  have edges: "pred_edges predecessors = {(p, n). p \<in> ?P n}" by (simp add: pred_edges_def)
  have "acyclic (pred_edges predecessors)"
    if ok: "topological_order predecessors preferred_order = Inr order" for order
  proof -
    from topo_loop_sound[OF ok[unfolded topological_order_def] topo_inv_init[OF assms(1)]]
    have "preds_before ?P order" and "set order = ?N" by auto
    moreover have "?P n = {}" if "n \<notin> ?N" for n
      using that by (simp add: preds_of_def map_of_None_keys[THEN iffD2])
    ultimately show ?thesis unfolding edges by (intro preds_before_acyclic) auto
  qed
  moreover have "\<exists>order. topological_order predecessors preferred_order = Inr order"
    if "acyclic (pred_edges predecessors)"
  proof (rule ccontr)
    assume "\<nexists>order. topological_order predecessors preferred_order = Inr order"
    then obtain e where "topological_order predecessors preferred_order = Inl e"
      by (metis sum.exhaust)
    with cyc obtain W where "W \<subseteq> ?N" "all_wait ?P W" by blast
    then have "\<not> acyclic (pred_edges predecessors)"
      unfolding edges by (intro all_wait_not_acyclic) (auto intro: finite_subset)
    with that show False by simp
  qed
  ultimately show ?thesis using cyc by (fastforce simp: all_wait_def)
qed

theorem topological_order_complete_witness:
  "topological_order [(''a'', {''b''}), (''b'', {''a''}), (''c'', {})] [''a'', ''b'', ''c'']
     = Inl (CycleError [''a'', ''b''])
   \<and> \<not> acyclic (pred_edges [(''a'', {''b''}), (''b'', {''a''}), (''c'', {})])"
proof -
  let ?p = "[(''a'', {''b''}), (''b'', {''a''}), (''c'', {})]"
  have r: "topological_order ?p [''a'', ''b'', ''c''] = Inl (CycleError [''a'', ''b''])"
    by code_simp
  have "wf_dict ?p" "closed_preds ?p" "distinct [''a'', ''b'', ''c'']"
    "set (keys ?p) \<subseteq> set [''a'', ''b'', ''c'']"
    by (simp_all add: wf_dict_def closed_preds_def)
  from topological_order_complete[OF this] r show ?thesis by simp
qed

end
