(* ===== verification/Annotations.thy ===== *)
theory Annotations
  imports Prelude
begin

text \<open>
  Port annotations: the part of Python's typing vocabulary that node ports use, the queries of
  \<open>engine/execution/contracts.py\<close> (\<open>annotation_members\<close>, \<open>annotation_allows_none\<close>,
  \<open>collection_item_annotation\<close>) and the compatibility check of
  \<open>engine/execution/compiler.py\<close> (\<open>_annotations_compatible\<close>, \<open>_member_compatible\<close>).

  A type alias (\<open>type A = ...\<close>) may refer to itself. Aliases are looked up in an environment,
  and the check carries the pairs it is already comparing; both functions are total, and the
  termination proof is the reason the pairs are enough.
  Two things of the running interpreter are arguments: the alias environment \<open>env\<close> and the
  class hierarchy \<open>sub\<close> (\<open>issubclass\<close>). Aliases with type parameters are not modelled.
\<close>

section \<open>Annotations\<close>

datatype literal = LNone | LBool bool | LInt int | LStr string | LEnum string string

text \<open>\<open>RawNone\<close> is the object \<open>None\<close> used as an annotation, \<open>NoneT\<close> is \<open>type(None)\<close>;
  \<open>TypingTuple\<close> and \<open>TypingTupleEmpty\<close> are \<open>typing.Tuple\<close> and \<open>typing.Tuple[()]\<close>.\<close>

datatype annotation =
    AnyT
  | RawNone
  | NoneT
  | EllipsisT
  | ClassT string
  | TupleT
  | TypingTuple
  | TypingTupleEmpty
  | GenericT string (gen_args: "annotation list")
  | TupleOfT (tup_args: "annotation list")
  | TupleManyT (many_arg: annotation)
  | UnionT "annotation list"
  | AnnotatedT annotation
  | LiteralT (lits: "literal list")
  | NewTypeT string (supertype: annotation)
  | AliasT string

type_synonym alias_env = "(string, annotation) dict"
type_synonym class_order = "string \<Rightarrow> string \<Rightarrow> bool"

definition lit_type :: "literal \<Rightarrow> annotation" where
  "lit_type v = (case v of LNone \<Rightarrow> NoneT | LBool _ \<Rightarrow> ClassT ''bool'' | LInt _ \<Rightarrow> ClassT ''int''
     | LStr _ \<Rightarrow> ClassT ''str'' | LEnum c _ \<Rightarrow> ClassT c)"

function (sequential) annotation_members :: "alias_env \<Rightarrow> string list \<Rightarrow> annotation \<Rightarrow> annotation list" where
  "annotation_members env aliases RawNone = [NoneT]"
| "annotation_members env aliases (AliasT n) =
     (if n \<in> set aliases then []
      else case map_of env n of None \<Rightarrow> []
        | Some body \<Rightarrow> annotation_members env (aliases @ [n]) body)"
| "annotation_members env aliases (AnnotatedT a) = annotation_members env aliases a"
| "annotation_members env aliases (UnionT as) =
     concat (map (annotation_members env aliases) as)"
| "annotation_members env aliases a = [a]"
  by pat_completeness auto
termination
proof (relation "measures [\<lambda>(env, aliases, a). card (set (keys env) - set aliases), \<lambda>(env, aliases, a). size a]")
  fix env :: alias_env and aliases n body
  assume "n \<notin> set aliases" "map_of env n = Some body"
  then have "n \<in> set (keys env) - set aliases"
    and "set (keys env) - set (aliases @ [n]) = (set (keys env) - set aliases) - {n}"
    by (auto dest: map_of_Some_keys)
  then have "card (set (keys env) - set (aliases @ [n])) < card (set (keys env) - set aliases)"
    by (metis card_Diff1_less finite_Diff finite_set)
  then show "((env, aliases @ [n], body), env, aliases, AliasT n)
      \<in> measures [\<lambda>(env, aliases, a). card (set (keys env) - set aliases), \<lambda>(env, aliases, a). size a]"
    by simp
qed (auto simp: less_Suc_eq_le size_list_estimation')

definition annotation_allows_none :: "alias_env \<Rightarrow> annotation \<Rightarrow> bool" where
  "annotation_allows_none env a =
     list_ex (\<lambda>m. m = AnyT \<or> m = NoneT \<or> (is_LiteralT m \<and> LNone \<in> set (lits m)))
       (annotation_members env [] a)"

definition collection_item_annotation :: "alias_env \<Rightarrow> annotation \<Rightarrow> annotation option" where
  "collection_item_annotation env a =
     (case filter (\<lambda>m. m \<noteq> NoneT \<and> m \<noteq> LiteralT [LNone]) (annotation_members env [] a) of
        [TupleManyT item] \<Rightarrow> Some (if item = RawNone then NoneT else item)
      | _ \<Rightarrow> None)"

section \<open>Compatibility\<close>

text \<open>\<open>get_origin\<close> and \<open>get_args\<close> of a member, and the class \<open>source_origin or source\<close> when it is one.\<close>

definition origin :: "annotation \<Rightarrow> string option" where
  "origin a = (case a of GenericT c _ \<Rightarrow> Some c | TupleOfT _ \<Rightarrow> Some ''tuple''
     | TupleManyT _ \<Rightarrow> Some ''tuple'' | _ \<Rightarrow> None)"

definition type_args :: "annotation \<Rightarrow> annotation list" where
  "type_args a = (case a of GenericT _ as \<Rightarrow> as | TupleOfT as \<Rightarrow> as
     | TupleManyT b \<Rightarrow> [b, EllipsisT] | _ \<Rightarrow> [])"

definition class_of :: "annotation \<Rightarrow> string option" where
  "class_of a = (case a of ClassT c \<Rightarrow> Some c | NoneT \<Rightarrow> Some ''NoneType'' | TupleT \<Rightarrow> Some ''tuple''
     | _ \<Rightarrow> origin a)"

definition norm_tuple :: "annotation \<Rightarrow> annotation" where
  "norm_tuple a = (if a = TypingTuple then TupleT else if a = TypingTupleEmpty then TupleOfT [] else a)"

definition item_args :: "annotation \<Rightarrow> annotation list" where
  "item_args a = (if is_TupleManyT a then take 1 (type_args a) else type_args a)"

subsection \<open>The annotations a comparison can meet\<close>

fun subterms :: "annotation \<Rightarrow> annotation set" where
  "subterms RawNone = {RawNone, NoneT}"
| "subterms TypingTuple = {TypingTuple, TupleT}"
| "subterms TypingTupleEmpty = {TypingTupleEmpty, TupleOfT []}"
| "subterms (GenericT c as) = insert (GenericT c as) (\<Union>a \<in> set as. subterms a)"
| "subterms (TupleOfT as) = insert (TupleOfT as) (\<Union>a \<in> set as. subterms a)"
| "subterms (TupleManyT a) = {TupleManyT a, EllipsisT} \<union> subterms a"
| "subterms (UnionT as) = insert (UnionT as) (\<Union>a \<in> set as. subterms a)"
| "subterms (AnnotatedT a) = insert (AnnotatedT a) (subterms a)"
| "subterms (LiteralT vs) = insert (LiteralT vs) (lit_type ` set vs)"
| "subterms (NewTypeT n a) = insert (NewTypeT n a) (subterms a)"
| "subterms a = {a}"

definition env_terms :: "alias_env \<Rightarrow> annotation set" where
  "env_terms env = (\<Union>a \<in> set (vals env). subterms a)"

definition universe :: "alias_env \<Rightarrow> annotation \<Rightarrow> annotation \<Rightarrow> annotation set" where
  "universe env a b = subterms a \<union> subterms b \<union> env_terms env"

lemma subterms_refl [simp]: "a \<in> subterms a"
  by (cases a) auto

lemma finite_subterms [simp]: "finite (subterms a)"
  by (induction a) auto

lemma finite_universe [simp]: "finite (universe env a b)"
  by (simp add: universe_def env_terms_def)

lemma subterms_lit_type [simp]: "subterms (lit_type v) = {lit_type v}"
  by (cases v) (auto simp: lit_type_def)

lemma env_terms_lookup: "map_of env n = Some a \<Longrightarrow> subterms a \<subseteq> env_terms env"
  by (force simp: env_terms_def vals_def dest: map_of_SomeD)

lemma members_subterms:
  "m \<in> set (annotation_members env aliases a) \<Longrightarrow> subterms m \<subseteq> subterms a \<union> env_terms env"
proof (induction env aliases a rule: annotation_members.induct)
  case (2 env aliases n)
  then obtain body where body: "map_of env n = Some body" and "n \<notin> set aliases"
    and "m \<in> set (annotation_members env (aliases @ [n]) body)"
    by (cases "map_of env n") (auto split: if_splits)
  with "2.IH" have "subterms m \<subseteq> subterms body \<union> env_terms env" by blast
  with env_terms_lookup[OF body] show ?case by blast
next
  case (4 env aliases as)
  then show ?case by fastforce
qed auto

lemma norm_tuple_subterms: "subterms (norm_tuple a) \<subseteq> subterms a"
  by (cases a) (auto simp: norm_tuple_def)

lemma type_args_subterms: "x \<in> set (type_args a) \<Longrightarrow> subterms x \<subseteq> subterms a"
  by (cases a) (auto simp: type_args_def)

lemma item_args_subterms: "x \<in> set (item_args a) \<Longrightarrow> subterms x \<subseteq> subterms a"
  by (auto simp: item_args_def split: if_splits dest!: in_set_takeD dest: type_args_subterms)

lemma supertype_subterms: "is_NewTypeT a \<Longrightarrow> subterms (supertype a) \<subseteq> subterms a"
  by (cases a) auto

definition open_pairs :: "alias_env \<Rightarrow> (annotation \<times> annotation) list \<Rightarrow> annotation \<Rightarrow> annotation \<Rightarrow> nat" where
  "open_pairs env active s t = card (universe env s t \<times> universe env s t - set active)"

lemma open_pairs_mono:
  "universe env s' t' \<subseteq> universe env s t \<Longrightarrow> open_pairs env active s' t' \<le> open_pairs env active s t"
  unfolding open_pairs_def by (intro card_mono) auto

lemma open_pairs_less:
  assumes "(s, t) \<notin> set active" and "universe env s' t' \<subseteq> universe env s t"
  shows "open_pairs env (active @ [(s, t)]) s' t' < open_pairs env active s t"
proof -
  let ?U = "universe env s t"
  have mem: "(s, t) \<in> ?U \<times> ?U - set active" using assms(1) by (simp add: universe_def)
  have "open_pairs env (active @ [(s, t)]) s' t' \<le> open_pairs env (active @ [(s, t)]) s t"
    by (rule open_pairs_mono[OF assms(2)])
  also have "\<dots> = card (?U \<times> ?U - set active - {(s, t)})"
    unfolding open_pairs_def by (rule arg_cong[where f = card]) auto
  also have "\<dots> < open_pairs env active s t"
    unfolding open_pairs_def using mem by (intro card_Diff1_less) simp_all
  finally show ?thesis .
qed

lemma universe_members:
  assumes "m \<in> set (annotation_members env [] s)" and "t' \<in> set (annotation_members env [] t)"
  shows "universe env m t' \<subseteq> universe env s t"
  using members_subterms[OF assms(1)] members_subterms[OF assms(2)] by (auto simp: universe_def)

lemma universe_lit:
  assumes "m \<in> set (annotation_members env [] s)" and "is_LiteralT m" and "v \<in> set (lits m)"
    and "t' \<in> set (annotation_members env [] t)"
  shows "universe env (lit_type v) t' \<subseteq> universe env s t"
proof -
  from assms(2,3) have "lit_type v \<in> subterms m" by (cases m) auto
  with members_subterms[OF assms(1)] members_subterms[OF assms(4)] show ?thesis
    by (auto simp: universe_def)
qed

lemma universe_args:
  assumes "subterms x \<subseteq> subterms (norm_tuple s)" and "subterms y \<subseteq> subterms (norm_tuple t)"
  shows "universe env x y \<subseteq> universe env s t"
  using assms norm_tuple_subterms[of s] norm_tuple_subterms[of t] by (auto simp: universe_def)

lemmas open_pairs_args = open_pairs_mono[OF universe_args]

lemma hd_type_args_subterms: "type_args a \<noteq> [] \<Longrightarrow> subterms (hd (type_args a)) \<subseteq> subterms a"
  using type_args_subterms by (metis hd_in_set)

type_synonym compat_args = "alias_env \<times> class_order \<times> (annotation \<times> annotation) list \<times> annotation \<times> annotation"

definition compat_rel :: "((compat_args + compat_args) \<times> (compat_args + compat_args)) set" where
  "compat_rel = measures [
    \<lambda>x. case x of Inl (env, sub, active, s, t) \<Rightarrow> open_pairs env active s t
               | Inr (env, sub, active, s, t) \<Rightarrow> open_pairs env active s t,
    \<lambda>x. case x of Inl _ \<Rightarrow> 0 | Inr _ \<Rightarrow> 1]"

lemma member_call:
  "(s, t) \<notin> set active \<Longrightarrow> universe env s' t' \<subseteq> universe env s t \<Longrightarrow>
   active' = active @ [(s, t)] \<Longrightarrow>
   (Inr (env, sub, active', s', t'), Inl (env, sub, active, s, t)) \<in> compat_rel"
  using open_pairs_less by (simp add: compat_rel_def)

lemma compat_call:
  "s = norm_tuple s0 \<Longrightarrow> t = norm_tuple t0 \<Longrightarrow> subterms x \<subseteq> subterms s \<Longrightarrow> subterms y \<subseteq> subterms t \<Longrightarrow>
   (Inl (env, sub, active, x, y), Inr (env, sub, active, s0, t0)) \<in> compat_rel"
  using open_pairs_args[of x s0 y t0 env active] by (auto simp: compat_rel_def le_less)

subsection \<open>The check\<close>

function annotations_compatible :: "alias_env \<Rightarrow> class_order \<Rightarrow> (annotation \<times> annotation) list
    \<Rightarrow> annotation \<Rightarrow> annotation \<Rightarrow> bool"
  and member_compatible :: "alias_env \<Rightarrow> class_order \<Rightarrow> (annotation \<times> annotation) list
    \<Rightarrow> annotation \<Rightarrow> annotation \<Rightarrow> bool" where
  "annotations_compatible env sub active_pairs source target =
     (if (source, target) \<in> set active_pairs then True
      else let active = active_pairs @ [(source, target)];
               targets = annotation_members env [] target
           in list_all (\<lambda>m.
                if is_LiteralT m
                then list_all (\<lambda>v. list_ex (\<lambda>t.
                       if is_LiteralT t then v \<in> set (lits t)
                       else member_compatible env sub active (lit_type v) t) targets) (lits m)
                else list_ex (\<lambda>t. member_compatible env sub active m t) targets)
              (annotation_members env [] source))"
| "member_compatible env sub active source0 target0 =
     (let source = norm_tuple source0; target = norm_tuple target0 in
      if source = target \<or> target = AnyT then True
      else if is_NewTypeT source then annotations_compatible env sub active (supertype source) target
      else if source = AnyT then False
      else if is_LiteralT target then source = NoneT \<and> LNone \<in> set (lits target)
      else if source = ClassT ''bool'' \<and> (target = ClassT ''int'' \<or> target = ClassT ''float'') then False
      else case (class_of source, class_of target) of
          (Some cs, Some ct) \<Rightarrow>
            if \<not> sub cs ct then False
            else if target = TupleOfT [] then source = TupleOfT []
            else if origin target = None \<or> type_args target = [] then True
            else if origin source = None then False
            else if origin source = Some ''tuple'' \<and> origin target = Some ''Sequence'' then
              type_args source \<noteq> []
                \<and> list_all (\<lambda>item. annotations_compatible env sub active item (hd (type_args target)))
                    (item_args source)
              \<or> source = TupleOfT []
            else if origin source = Some ''tuple'' \<and> origin target = Some ''tuple'' \<and> is_TupleManyT target then
              list_all (\<lambda>item. annotations_compatible env sub active item (hd (type_args target)))
                (item_args source)
            else if origin source = Some ''tuple'' \<and> origin target = Some ''tuple'' \<and> is_TupleManyT source then
              False
            else length (type_args source) = length (type_args target)
              \<and> list_all (\<lambda>(s, t). annotations_compatible env sub active s t)
                  (zip (type_args source) (type_args target))
        | _ \<Rightarrow> False)"
  by pat_completeness auto
termination
proof (relation compat_rel, goal_cases)
  case 1
  show ?case by (simp add: compat_rel_def)
next
  case (2 env sub active s t active' targets m v t')
  then show ?case by (intro member_call universe_lit[of m env s v t' t]) simp_all
next
  case (3 env sub active s t active' targets m t')
  then show ?case by (intro member_call universe_members) simp_all
next
  case (4 env sub active s0 t0 s t)
  from 4(4) show ?case by (intro compat_call[OF 4(1,2)] supertype_subterms) simp_all
next
  case (5 env sub active s0 t0 s t o1 o2 cs ct item)
  then have "item \<in> set (item_args s)" "type_args t \<noteq> []" by simp_all
  then show ?case
    by (intro compat_call[OF 5(1,2)] item_args_subterms hd_type_args_subterms)
next
  case (6 env sub active s0 t0 s t o1 o2 cs ct item)
  then have "item \<in> set (item_args s)" "type_args t \<noteq> []" by simp_all
  then show ?case
    by (intro compat_call[OF 6(1,2)] item_args_subterms hd_type_args_subterms)
next
  case (7 env sub active s0 t0 s t o1 o2 cs ct pair x y)
  then have "x \<in> set (type_args s)" "y \<in> set (type_args t)"
    by (auto dest: set_zip_leftD set_zip_rightD)
  then show ?case by (intro compat_call[OF 7(1,2)] type_args_subterms)
qed

declare annotations_compatible.simps [simp del] member_compatible.simps [simp del]

section \<open>Facts about the check\<close>

lemma member_compatible_refl: "member_compatible env sub active a a"
  by (simp add: member_compatible.simps)

lemma annotations_compatible_refl: "annotations_compatible env sub active a a"
  by (auto simp: annotations_compatible.simps list_all_iff list_ex_iff Let_def
      intro: member_compatible_refl intro!: bexI)

lemma annotations_compatible_member:
  assumes "m \<in> set (annotation_members env [] t)" and "annotation_members env [] m = [m]"
  shows "annotations_compatible env sub active m t"
  using assms
  by (auto simp: annotations_compatible.simps list_all_iff list_ex_iff Let_def
      intro: member_compatible_refl intro!: bexI[of _ m])

end
