(* ===== verification/Contracts.thy ===== *)
theory Contracts
  imports Stage_Graph Annotations
begin

text \<open>
  The contracts between the engine and its nodes (\<open>engine/execution/contracts.py\<close>), the loading
  of installed registrations (\<open>engine/registration_loading.py\<close>) and the catalog of registered
  nodes (\<open>engine/execution/catalog.py\<close>).

  A node's handler is code of the node, not of the engine: it is a field of the registration,
  a function from the invocation to what the call does (raise, be cancelled, return a value).
  Pydantic's validators are arguments: \<open>adapter_ok\<close> tells whether an annotation has a
  validator, and a registration carries the validator of its configuration model.
\<close>

section \<open>Values\<close>

text \<open>The values that travel between nodes. The engine itself builds \<open>None\<close>, tuples and mappings;
  every other object is opaque to it.\<close>

datatype 'o pyvalue =
    PyNone
  | PyTuple "'o pyvalue list"
  | PyMapping "(string \<times> 'o pyvalue) list"
  | PyObject 'o

section \<open>Statuses, diagnostics, results\<close>

datatype execution_status = OK | INCONCLUSIVE | ERROR

datatype capability_requirement = REQUIRED | OPTIONAL

record execution_diagnostic =
  diag_code :: string
  diag_message :: string
  diag_severity :: string

text \<open>What a handler returned, before the runner has looked at it: a field that does not have
  the declared type is \<open>None\<close>.\<close>

record 'v raw_result =
  raw_outputs :: "(string, 'v) dict option"
  raw_status :: "execution_status option"
  raw_diagnostics :: "execution_diagnostic list option"

datatype 'v handler_outcome =
    HandlerCancelled
  | HandlerRaised string
  | HandlerReturned "'v raw_result"
  | HandlerReturnedOther

record 'v node_result =
  res_outputs :: "(string, 'v) dict"
  res_status :: execution_status
  res_diagnostics :: "execution_diagnostic list"

record ('m, 'v, 'cap) node_invocation =
  inv_configuration :: 'm
  inv_inputs :: "(string, 'v) dict"
  inv_capabilities :: "(string, 'cap) dict"
  inv_model :: string
  inv_max_workers :: int
  inv_formats :: "result_format list option"
  inv_filename :: "string option"

section \<open>Registrations\<close>

record ('j, 'm, 'v, 'cap) node_registration =
  reg_name :: string
  reg_stage :: string
  reg_configuration :: "(string, 'j) dict \<Rightarrow> 'm option"
  reg_inputs :: "(string, annotation) dict"
  reg_outputs :: "(string, annotation) dict"
  reg_execute :: "('m, 'v, 'cap) node_invocation \<Rightarrow> 'v handler_outcome"
  reg_capabilities :: "(string, capability_requirement) dict"
  reg_required_when_bound :: "string list"

datatype registration_error =
    EmptyNodeName
  | NodeNameNotIdentifier string
  | InvalidStage string
  | InvalidPort string
  | UnsupportedAnnotation string annotation
  | RequiredPortNotInput
  | InvalidCapability string

definition node_registration_post_init ::
    "(annotation \<Rightarrow> bool) \<Rightarrow> ('j, 'm, 'v, 'cap) node_registration
     \<Rightarrow> registration_error + ('j, 'm, 'v, 'cap) node_registration" where
  "node_registration_post_init adapter_ok r =
     and_then (raise_if (reg_name r = []) EmptyNodeName)
     (\<lambda>_. and_then (raise_if (\<not> isidentifier (reg_name r)) (NodeNameNotIdentifier (reg_name r)))
     (\<lambda>_. and_then (raise_if (\<not> isidentifier (reg_stage r)) (InvalidStage (reg_stage r)))
     (\<lambda>_. and_then (fold_res (\<lambda>_ port. raise_if (\<not> isidentifier port) (InvalidPort port)) ()
              (keys (reg_inputs r) @ keys (reg_outputs r)))
     (\<lambda>_. and_then (fold_res (\<lambda>_ (port, a). raise_if (\<not> adapter_ok a) (UnsupportedAnnotation port a)) ()
              (reg_inputs r @ reg_outputs r))
     (\<lambda>_. and_then (raise_if (\<not> set (reg_required_when_bound r) \<subseteq> set (keys (reg_inputs r)))
              RequiredPortNotInput)
     (\<lambda>_. and_then (fold_res (\<lambda>_ c. raise_if (\<not> isidentifier c) (InvalidCapability c)) ()
              (keys (reg_capabilities r)))
     (\<lambda>_. Inr r)))))))"

lemma fold_res_checks:
  "fold_res (\<lambda>_ x. raise_if (bad x) (e x)) u xs = Inr v \<longleftrightarrow> (\<forall>x \<in> set xs. \<not> bad x)"
proof (induction xs arbitrary: u)
  case Nil
  then show ?case by simp
next
  case (Cons x xs)
  then show ?case by (cases "bad x") simp_all
qed

lemma node_registration_ports:
  assumes "node_registration_post_init adapter_ok r = Inr r'"
  shows "r' = r" and "isidentifier (reg_name r)" and "isidentifier (reg_stage r)"
    and "\<forall>p \<in> set (keys (reg_inputs r)) \<union> set (keys (reg_outputs r)). isidentifier p"
    and "set (reg_required_when_bound r) \<subseteq> set (keys (reg_inputs r))"
  using assms
  by (auto simp: node_registration_post_init_def res_simps fold_res_checks)

section \<open>Loading an installed registration\<close>

text \<open>An entry point loads an object of the installed package: a registration, a callable
  whose result may be one, or anything else; loading or calling may raise.\<close>

datatype 'r call_outcome = CallCancelled | CallRaised string | CallReturned "'r option"

datatype 'r loaded_object = RegistrationObject 'r | CallableObject "'r call_outcome" | OtherObject

datatype 'r load_outcome = LoadCancelled | LoadRaised string | Loaded "'r loaded_object"

record 'r entry_point =
  ep_name :: string
  ep_load :: "'r load_outcome"

datatype catalog_error =
    LoadingCancelled
  | LoadingFailed string
  | NotARegistration
  | ConflictsWithBuiltin
  | NotRegistered
  | MultiplePackages
  | WrongRegistration string string
  | AlreadyRegistered string string

definition load_registration :: "'r entry_point \<Rightarrow> catalog_error + 'r" where
  "load_registration ep =
     (case ep_load ep of
        LoadCancelled \<Rightarrow> Inl LoadingCancelled
      | LoadRaised msg \<Rightarrow> Inl (LoadingFailed msg)
      | Loaded obj \<Rightarrow>
          (case obj of
             RegistrationObject r \<Rightarrow> Inr r
           | OtherObject \<Rightarrow> Inl NotARegistration
           | CallableObject c \<Rightarrow>
               (case c of
                  CallCancelled \<Rightarrow> Inl LoadingCancelled
                | CallRaised msg \<Rightarrow> Inl (LoadingFailed msg)
                | CallReturned (Some r) \<Rightarrow> Inr r
                | CallReturned None \<Rightarrow> Inl NotARegistration)))"

section \<open>The catalog\<close>

record ('j, 'm, 'v, 'cap) node_catalog =
  cat_registrations :: "(string \<times> string, ('j, 'm, 'v, 'cap) node_registration) dict"
  cat_entry_points :: "(string \<times> string, ('j, 'm, 'v, 'cap) node_registration entry_point list) dict"

definition entry_point_key :: "string \<Rightarrow> (string \<times> string) option" where
  "entry_point_key name =
     (let (prefix, separator, node_name) = partition_at (CHR ''.'') name
      in if separator \<and> isidentifier prefix \<and> isidentifier node_name then Some (prefix, node_name)
         else None)"

definition catalog_add :: "('j, 'm, 'v, 'cap) node_catalog \<Rightarrow> ('j, 'm, 'v, 'cap) node_registration
    \<Rightarrow> catalog_error + ('j, 'm, 'v, 'cap) node_catalog" where
  "catalog_add cat r =
     (let key = (reg_stage r, reg_name r) in
      if key \<in> set (keys (cat_registrations cat))
      then Inl (AlreadyRegistered (reg_stage r) (reg_name r))
      else Inr (cat\<lparr>cat_registrations := AList.update key r (cat_registrations cat)\<rparr>))"

definition add_entry_point ::
    "(string \<times> string, 'r entry_point list) dict \<Rightarrow> 'r entry_point \<Rightarrow> (string \<times> string, 'r entry_point list) dict" where
  "add_entry_point eps ep =
     (case entry_point_key (ep_name ep) of
        None \<Rightarrow> eps
      | Some key \<Rightarrow> AList.update key ((case map_of eps key of None \<Rightarrow> [] | Some l \<Rightarrow> l) @ [ep]) eps)"

definition new_catalog :: "('j, 'm, 'v, 'cap) node_registration list
    \<Rightarrow> ('j, 'm, 'v, 'cap) node_registration entry_point list
    \<Rightarrow> catalog_error + ('j, 'm, 'v, 'cap) node_catalog" where
  "new_catalog builtins discovered =
     and_then (fold_res catalog_add \<lparr>cat_registrations = [], cat_entry_points = []\<rparr> builtins)
       (\<lambda>cat. Inr (cat\<lparr>cat_entry_points := foldl add_entry_point [] discovered\<rparr>))"

text \<open>\<open>resolve\<close> returns the catalog too: a registration loaded from an entry point is kept.\<close>

definition catalog_resolve :: "('j, 'm, 'v, 'cap) node_catalog \<Rightarrow> string \<Rightarrow> string
    \<Rightarrow> ('j, 'm, 'v, 'cap) node_catalog \<times> (catalog_error + ('j, 'm, 'v, 'cap) node_registration)" where
  "catalog_resolve cat stage name =
     (let key = (stage, name);
          candidates = (case map_of (cat_entry_points cat) key of None \<Rightarrow> [] | Some l \<Rightarrow> l)
      in case map_of (cat_registrations cat) key of
           Some r \<Rightarrow> if candidates \<noteq> [] then (cat, Inl ConflictsWithBuiltin) else (cat, Inr r)
         | None \<Rightarrow>
             (case candidates of
                [] \<Rightarrow> (cat, Inl NotRegistered)
              | [ep] \<Rightarrow>
                  (case load_registration ep of
                     Inl e \<Rightarrow> (cat, Inl e)
                   | Inr r \<Rightarrow>
                       if reg_name r \<noteq> name \<or> reg_stage r \<noteq> stage
                       then (cat, Inl (WrongRegistration (reg_stage r) (reg_name r)))
                       else (case catalog_add cat r of
                               Inl e \<Rightarrow> (cat, Inl e)
                             | Inr cat' \<Rightarrow>
                                 (cat'\<lparr>cat_entry_points := AList.delete key (cat_entry_points cat')\<rparr>, Inr r)))
              | _ \<Rightarrow> (cat, Inl MultiplePackages)))"

subsection \<open>The catalog's invariant\<close>

text \<open>Every registration is filed under its own stage and name.\<close>

definition wf_catalog :: "('j, 'm, 'v, 'cap) node_catalog \<Rightarrow> bool" where
  "wf_catalog cat \<longleftrightarrow>
     wf_dict (cat_registrations cat) \<and>
     (\<forall>key r. map_of (cat_registrations cat) key = Some r \<longrightarrow> key = (reg_stage r, reg_name r))"

lemma wf_catalog_entry_points [simp]: "wf_catalog (cat\<lparr>cat_entry_points := eps\<rparr>) = wf_catalog cat"
  by (simp add: wf_catalog_def)

lemma catalog_add_eq:
  "catalog_add cat r = Inr cat' \<longleftrightarrow>
     (reg_stage r, reg_name r) \<notin> set (keys (cat_registrations cat)) \<and>
     cat' = cat\<lparr>cat_registrations := AList.update (reg_stage r, reg_name r) r (cat_registrations cat)\<rparr>"
  by (auto simp: catalog_add_def Let_def)

lemma wf_catalog_add: "wf_catalog cat \<Longrightarrow> catalog_add cat r = Inr cat' \<Longrightarrow> wf_catalog cat'"
  by (auto simp: catalog_add_eq wf_catalog_def)

lemma wf_new_catalog: "new_catalog builtins discovered = Inr cat \<Longrightarrow> wf_catalog cat"
proof -
  assume "new_catalog builtins discovered = Inr cat"
  then obtain cat0 where
    c0: "fold_res catalog_add \<lparr>cat_registrations = [], cat_entry_points = []\<rparr> builtins = Inr cat0"
    and cat: "cat = cat0\<lparr>cat_entry_points := foldl add_entry_point [] discovered\<rparr>"
    by (auto simp: new_catalog_def res_simps)
  have "wf_catalog cat0"
    by (rule fold_res_invariant[OF c0]) (auto simp: wf_catalog_def[of "\<lparr>cat_registrations = [], cat_entry_points = _\<rparr>"]
        intro: wf_catalog_add)
  with cat show ?thesis by simp
qed

text \<open>The two ways \<open>resolve\<close> succeeds: a known registration, or one loaded and filed now.\<close>

lemma catalog_resolve_cases:
  assumes "catalog_resolve cat stage name = (cat', Inr r)"
  obtains (known) "map_of (cat_registrations cat) (stage, name) = Some r" and "cat' = cat"
      and "map_of (cat_entry_points cat) (stage, name) = None \<or> map_of (cat_entry_points cat) (stage, name) = Some []"
    | (loaded) ep cat1 where "map_of (cat_registrations cat) (stage, name) = None"
      and "map_of (cat_entry_points cat) (stage, name) = Some [ep]"
      and "load_registration ep = Inr r" and "reg_stage r = stage" and "reg_name r = name"
      and "catalog_add cat r = Inr cat1"
      and "cat' = cat1\<lparr>cat_entry_points := AList.delete (stage, name) (cat_entry_points cat1)\<rparr>"
proof (cases "map_of (cat_registrations cat) (stage, name)")
  case (Some r')
  with assms show ?thesis
    by (intro known) (auto simp: catalog_resolve_def Let_def split: if_splits option.splits)
next
  case None
  with assms obtain ep where ep: "map_of (cat_entry_points cat) (stage, name) = Some [ep]"
    by (auto simp: catalog_resolve_def Let_def split: option.splits list.splits)
  show ?thesis
  proof (cases "load_registration ep")
    case (Inl e)
    with assms None ep show ?thesis by (simp add: catalog_resolve_def)
  next
    case (Inr r')
    with assms None ep obtain cat1 where "r' = r" "reg_stage r = stage" "reg_name r = name"
      "catalog_add cat r = Inr cat1"
      "cat' = cat1\<lparr>cat_entry_points := AList.delete (stage, name) (cat_entry_points cat1)\<rparr>"
      by (auto simp: catalog_resolve_def Let_def split: if_splits sum.splits)
    with Inr show ?thesis by (intro loaded[OF None ep]) auto
  qed
qed

lemma catalog_resolve_error: "catalog_resolve cat stage name = (cat', Inl e) \<Longrightarrow> cat' = cat"
  by (auto simp: catalog_resolve_def Let_def split: option.splits if_splits list.splits sum.splits)

lemma wf_catalog_resolve:
  assumes wf: "wf_catalog cat" and res: "catalog_resolve cat stage name = (cat', res)"
  shows "wf_catalog cat'"
proof (cases res)
  case (Inl e)
  with catalog_resolve_error[of cat stage name cat' e] res wf show ?thesis by simp
next
  case (Inr r)
  with res have "catalog_resolve cat stage name = (cat', Inr r)" by simp
  then show ?thesis
    by (cases rule: catalog_resolve_cases) (use wf wf_catalog_add in auto)
qed

text \<open>
  Resolving a node yields a registration of that very stage and name, whichever package
  provides it, keeps the catalog well formed, and is stable: resolving the same node again
  returns the same registration and changes nothing.
\<close>

theorem catalog_resolve_stable:
  assumes "wf_catalog cat" and "catalog_resolve cat stage name = (cat', Inr r)"
  shows "reg_stage r = stage \<and> reg_name r = name \<and> wf_catalog cat' \<and>
    catalog_resolve cat' stage name = (cat', Inr r)"
  using assms(2)
proof (cases rule: catalog_resolve_cases)
  case known
  with assms show ?thesis by (auto simp: wf_catalog_def)
next
  case (loaded ep cat1)
  then have "wf_catalog cat'" using wf_catalog_resolve assms by blast
  with loaded show ?thesis by (auto simp: catalog_add_eq catalog_resolve_def Let_def)
qed

theorem catalog_resolve_stable_witness:
  "let r = \<lparr>reg_name = ''scan'', reg_stage = ''review'', reg_configuration = (\<lambda>_. Some ()),
             reg_inputs = [], reg_outputs = [], reg_execute = (\<lambda>_. HandlerCancelled),
             reg_capabilities = [], reg_required_when_bound = []\<rparr>
             :: (unit, unit, unit, unit) node_registration;
       cat = \<lparr>cat_registrations = [],
               cat_entry_points = [((''review'', ''scan''),
                 [\<lparr>ep_name = ''review.scan'', ep_load = Loaded (CallableObject (CallReturned (Some r)))\<rparr>])]\<rparr>
   in \<exists>cat'. catalog_resolve cat ''review'' ''scan'' = (cat', Inr r) \<and> cat_entry_points cat' = []
        \<and> catalog_resolve cat' ''review'' ''scan'' = (cat', Inr r)"
proof -
  let ?r = "\<lparr>reg_name = ''scan'', reg_stage = ''review'', reg_configuration = (\<lambda>_. Some ()),
             reg_inputs = [], reg_outputs = [], reg_execute = (\<lambda>_. HandlerCancelled),
             reg_capabilities = [], reg_required_when_bound = []\<rparr>
             :: (unit, unit, unit, unit) node_registration"
  let ?cat = "\<lparr>cat_registrations = [],
               cat_entry_points = [((''review'', ''scan''),
                 [\<lparr>ep_name = ''review.scan'', ep_load = Loaded (CallableObject (CallReturned (Some ?r)))\<rparr>])]\<rparr>"
  let ?cat' = "\<lparr>cat_registrations = [((''review'', ''scan''), ?r)], cat_entry_points = []\<rparr>"
  have "wf_catalog ?cat" by (simp add: wf_catalog_def)
  moreover have r: "catalog_resolve ?cat ''review'' ''scan'' = (?cat', Inr ?r)"
    by (simp add: catalog_resolve_def load_registration_def catalog_add_def)
  ultimately have "catalog_resolve ?cat' ''review'' ''scan'' = (?cat', Inr ?r)"
    using catalog_resolve_stable by blast
  with r show ?thesis by (auto simp: Let_def)
qed

end
