(* ===== verification/Compiler.thy ===== *)
theory Compiler
  imports Contracts
begin

text \<open>
  Compilation of a configured stage into a plan (\<open>engine/execution/compiler.py\<close>):
  \<open>compile_stage\<close> resolves the nodes, checks capabilities and configurations, infers the input
  bindings that the configuration leaves open, checks every connection's annotations, collects
  the dependencies and orders the nodes.

  The interpreter's typing facilities are the argument \<open>ctx\<close> (alias environment, class
  hierarchy, whether Pydantic can build a validator for an annotation).
\<close>

section \<open>Data\<close>

record typing_context =
  tc_aliases :: alias_env
  tc_subclass :: class_order
  tc_adapter_ok :: "annotation \<Rightarrow> bool"

datatype compile_error =
    UnsupportedStageInput string annotation
  | UnknownConfiguration "string list"
  | CatalogFailed catalog_error
  | UndeclaredCapabilities string "string list"
  | MissingCapabilities string "string list"
  | UnavailableCapabilities string "string list"
  | InvalidConfiguration string
  | UnknownInputs string "string list"
  | AmbiguousInput string string "string list"
  | UnboundInputs string "string list"
  | NotACollection string string
  | UnknownStageInput string string
  | IncompatibleStageInput string string
  | IncompatibleSource string string string
  | UnavailableNodes string "string list"
  | UnavailableNode string
  | UnknownOutput string
  | MustSelectOutput string
  | ResultHasDependants "string list"
  | CyclicGraph "string list"
  | MissingKey string

record ('j, 'm, 'v, 'cap) planned_node =
  pn_name :: string
  pn_definition :: configured_node
  pn_registration :: "('j, 'm, 'v, 'cap) node_registration"
  pn_configuration :: 'm
  pn_configuration_values :: "(string, 'j) dict"
  pn_input_bindings :: "(string, input_binding) dict"
  pn_dependencies :: "string set"
  pn_required_dependencies :: "string set"
  pn_capabilities :: "(string, 'cap) dict"

record ('j, 'm, 'v, 'cap) stage_plan =
  plan_nodes :: "('j, 'm, 'v, 'cap) planned_node list"
  plan_output_bindings :: "(string, string) dict"
  plan_output_annotations :: "(string, annotation) dict"

section \<open>Sources and annotations\<close>

definition compatible :: "typing_context \<Rightarrow> annotation \<Rightarrow> annotation \<Rightarrow> bool" where
  "compatible ctx source target =
     annotations_compatible (tc_aliases ctx) (tc_subclass ctx) [] source target"

definition allows_none :: "typing_context \<Rightarrow> annotation \<Rightarrow> bool" where
  "allows_none ctx a = annotation_allows_none (tc_aliases ctx) a"

definition item_annotation :: "typing_context \<Rightarrow> annotation \<Rightarrow> annotation option" where
  "item_annotation ctx a = collection_item_annotation (tc_aliases ctx) a"

definition sources :: "input_binding \<Rightarrow> string list" where
  "sources binding = (case binding of One s \<Rightarrow> [s] | Many ss \<Rightarrow> ss)"

definition is_collection :: "input_binding \<Rightarrow> bool" where
  "is_collection binding = (case binding of One _ \<Rightarrow> False | Many _ \<Rightarrow> True)"

definition is_stage_input :: "string \<Rightarrow> bool" where
  "is_stage_input source = startswith source ''$inputs.''"

definition stage_input_name :: "string \<Rightarrow> string" where
  "stage_input_name source = removeprefix source ''$inputs.''"

definition producer_of :: "string \<Rightarrow> string" where
  "producer_of source = fst (partition_at (CHR ''.'') source)"

definition reference_annotation ::
    "string \<Rightarrow> (string, ('j, 'm, 'v, 'cap) node_registration) dict \<Rightarrow> compile_error + annotation" where
  "reference_annotation source registrations =
     (let (producer_name, separator, output_name) = partition_at (CHR ''.'') source
      in case map_of registrations producer_name of
           None \<Rightarrow> Inl (UnavailableNode producer_name)
         | Some producer \<Rightarrow>
             if separator then
               (case map_of (reg_outputs producer) output_name of
                  None \<Rightarrow> Inl (UnknownOutput source)
                | Some a \<Rightarrow> Inr a)
             else (case reg_outputs producer of
                     [(_, a)] \<Rightarrow> Inr a
                   | _ \<Rightarrow> Inl (MustSelectOutput producer_name)))"

definition validate_input_annotation :: "typing_context \<Rightarrow> string \<Rightarrow> string \<Rightarrow> annotation \<Rightarrow> annotation
    \<Rightarrow> bool \<Rightarrow> string option \<Rightarrow> compile_error + unit" where
  "validate_input_annotation ctx node_name input_name source target collection source_name =
     (case (if collection then item_annotation ctx target else Some target) of
        None \<Rightarrow> Inl (NotACollection node_name input_name)
      | Some t \<Rightarrow>
          raise_if (\<not> compatible ctx source t)
            (case source_name of None \<Rightarrow> IncompatibleStageInput node_name input_name
             | Some s \<Rightarrow> IncompatibleSource node_name input_name s))"

section \<open>Inferring input bindings\<close>

definition compatible_sources :: "typing_context \<Rightarrow> string
    \<Rightarrow> (string, ('j, 'm, 'v, 'cap) node_registration) dict \<Rightarrow> annotation \<Rightarrow> string list" where
  "compatible_sources ctx node_name registrations target =
     concat (map (\<lambda>(producer_name, producer).
        if producer_name = node_name \<or> producer_name = ''result'' then []
        else map (\<lambda>(output_name, _). producer_name @ ''.'' @ output_name)
               (filter (\<lambda>(_, a). compatible ctx a target) (reg_outputs producer))) registrations)"

definition infer_one :: "typing_context \<Rightarrow> string \<Rightarrow> (string, ('j, 'm, 'v, 'cap) node_registration) dict
    \<Rightarrow> (string, annotation) dict \<Rightarrow> (string, input_binding) dict \<Rightarrow> string \<times> annotation
    \<Rightarrow> compile_error + (string, input_binding) dict" where
  "infer_one ctx node_name registrations initial_inputs bindings port =
     (let (input_name, annotation) = port in
      if input_name \<in> set (keys bindings) \<or> input_name \<in> set (keys initial_inputs) then Inr bindings
      else let item = item_annotation ctx annotation;
               target = (case item of None \<Rightarrow> annotation | Some i \<Rightarrow> i);
               candidates = compatible_sources ctx node_name registrations target
           in if item \<noteq> None \<and> candidates \<noteq> [] then
                Inr (AList.update input_name (Many candidates) bindings)
              else (case candidates of
                  [] \<Rightarrow> Inr bindings
                | [s] \<Rightarrow> Inr (AList.update input_name (One s) bindings)
                | _ \<Rightarrow> Inl (AmbiguousInput node_name input_name candidates)))"

definition infer_input_bindings :: "typing_context \<Rightarrow> string \<Rightarrow> configured_node
    \<Rightarrow> ('j, 'm, 'v, 'cap) node_registration \<Rightarrow> (string, ('j, 'm, 'v, 'cap) node_registration) dict
    \<Rightarrow> (string, annotation) dict \<Rightarrow> compile_error + (string, input_binding) dict" where
  "infer_input_bindings ctx node_name d registration registrations initial_inputs =
     fold_res (infer_one ctx node_name registrations initial_inputs) (cn_inputs d)
       (reg_inputs registration)"

section \<open>Planning one node\<close>

text \<open>The capability checks of one node, in the order of the source.\<close>

definition check_capabilities :: "string \<Rightarrow> configured_node \<Rightarrow> ('j, 'm, 'v, 'cap) node_registration
    \<Rightarrow> (string, 'cap) dict \<Rightarrow> compile_error + unit" where
  "check_capabilities name d r available =
     (let configured = set (cn_capabilities d);
          undeclared = configured - set (keys (reg_capabilities r));
          missing = keys (filter (\<lambda>(c, q). q = REQUIRED \<and> c \<notin> configured) (reg_capabilities r));
          unavailable = configured - set (keys available)
      in and_then (raise_if (undeclared \<noteq> {}) (UndeclaredCapabilities name (sorted_list_of_set undeclared)))
         (\<lambda>_. and_then (raise_if (missing \<noteq> []) (MissingCapabilities name (sort missing)))
         (\<lambda>_. raise_if (unavailable \<noteq> {}) (UnavailableCapabilities name (sorted_list_of_set unavailable)))))"

definition bind_source :: "typing_context \<Rightarrow> string \<Rightarrow> ('j, 'm, 'v, 'cap) node_registration
    \<Rightarrow> (string, annotation) dict \<Rightarrow> string \<Rightarrow> annotation \<Rightarrow> bool
    \<Rightarrow> string set \<times> string set \<Rightarrow> string \<Rightarrow> compile_error + (string set \<times> string set)" where
  "bind_source ctx name r initial_inputs input_name target collection deps source =
     (if is_stage_input source then
        (case map_of initial_inputs (stage_input_name source) of
           None \<Rightarrow> Inl (UnknownStageInput name (stage_input_name source))
         | Some a \<Rightarrow>
             and_then (validate_input_annotation ctx name input_name a target collection None)
               (\<lambda>_. Inr deps))
      else let producer = producer_of source in
        Inr (insert producer (fst deps),
             if input_name \<in> set (reg_required_when_bound r) \<or> (\<not> collection \<and> \<not> allows_none ctx target)
             then insert producer (snd deps) else snd deps))"

definition bind_input :: "typing_context \<Rightarrow> string \<Rightarrow> ('j, 'm, 'v, 'cap) node_registration
    \<Rightarrow> (string, annotation) dict \<Rightarrow> string set \<times> string set \<Rightarrow> string \<times> input_binding
    \<Rightarrow> compile_error + (string set \<times> string set)" where
  "bind_input ctx name r initial_inputs deps binding =
     (let (input_name, b) = binding in
      case map_of (reg_inputs r) input_name of
        None \<Rightarrow> Inl (MissingKey input_name)
      | Some target \<Rightarrow>
          if is_collection b \<and> item_annotation ctx target = None then Inl (NotACollection name input_name)
          else fold_res (bind_source ctx name r initial_inputs input_name target (is_collection b)) deps (sources b))"

definition plan_node :: "typing_context \<Rightarrow> (string, ('j, 'm, 'v, 'cap) node_registration) dict
    \<Rightarrow> (string, (string, 'j) dict) dict \<Rightarrow> (string, annotation) dict \<Rightarrow> (string, 'cap) dict
    \<Rightarrow> string \<times> configured_node \<Rightarrow> compile_error + (string \<times> ('j, 'm, 'v, 'cap) planned_node)" where
  "plan_node ctx registrations configuration initial_inputs available named =
     (let (name, d) = named in
      case map_of registrations name of
        None \<Rightarrow> Inl (MissingKey name)
      | Some r \<Rightarrow>
        and_then (check_capabilities name d r available) (\<lambda>_.
        let values = (case map_of configuration name of None \<Rightarrow> [] | Some v \<Rightarrow> v) in
        case reg_configuration r values of
          None \<Rightarrow> Inl (InvalidConfiguration name)
        | Some model \<Rightarrow>
        and_then (raise_if (\<not> set (keys (cn_inputs d)) \<subseteq> set (keys (reg_inputs r)))
          (UnknownInputs name (sorted_list_of_set (set (keys (cn_inputs d)) - set (keys (reg_inputs r)))))) (\<lambda>_.
        and_then (infer_input_bindings ctx name d r registrations initial_inputs) (\<lambda>bindings.
        let missing = filter (\<lambda>(i, a). i \<notin> set (keys bindings)
              \<and> (map_of initial_inputs i = None \<or> map_of initial_inputs i = Some NoneT)
              \<and> \<not> allows_none ctx a) (reg_inputs r)
        in and_then (raise_if (missing \<noteq> []) (UnboundInputs name (sort (keys missing)))) (\<lambda>_.
        and_then (fold_res (\<lambda>_ (i, target). case map_of initial_inputs i of
              None \<Rightarrow> Inr ()
            | Some a \<Rightarrow> validate_input_annotation ctx name i a target False None) ()
            (filter (\<lambda>(i, _). i \<notin> set (keys bindings)) (reg_inputs r))) (\<lambda>_.
        and_then (fold_res (bind_input ctx name r initial_inputs)
            (set (cn_depends_on d), set (cn_depends_on d)) bindings) (\<lambda>deps.
        Inr (name, \<lparr>pn_name = name, pn_definition = d, pn_registration = r, pn_configuration = model,
               pn_configuration_values = values, pn_input_bindings = bindings,
               pn_dependencies = fst deps, pn_required_dependencies = snd deps,
               pn_capabilities = List.map_filter (\<lambda>c. map_option (Pair c) (map_of available c))
                 (sort (remdups (cn_capabilities d)))\<rparr>))))))))"

section \<open>The whole stage\<close>

definition check_references :: "typing_context \<Rightarrow> (string, ('j, 'm, 'v, 'cap) node_registration) dict
    \<Rightarrow> string list \<Rightarrow> string \<times> ('j, 'm, 'v, 'cap) planned_node \<Rightarrow> compile_error + unit" where
  "check_references ctx registrations node_names planned =
     (let (name, p) = planned; missing = pn_dependencies p - set node_names in
      and_then (raise_if (missing \<noteq> {}) (UnavailableNodes name (sorted_list_of_set missing))) (\<lambda>_.
      fold_res (\<lambda>_ (input_name, b).
        fold_res (\<lambda>_ source.
          if is_stage_input source then Inr ()
          else and_then (reference_annotation source registrations) (\<lambda>a.
            case map_of (reg_inputs (pn_registration p)) input_name of
              None \<Rightarrow> Inl (MissingKey input_name)
            | Some target \<Rightarrow>
                validate_input_annotation ctx name input_name a target (is_collection b) (Some source)))
          () (sources b)) () (pn_input_bindings p)))"

definition stage_output_bindings :: "stage_configuration
    \<Rightarrow> (string, ('j, 'm, 'v, 'cap) node_registration) dict \<Rightarrow> (string, string set) dict
    \<Rightarrow> compile_error + (string, string) dict" where
  "stage_output_bindings stage registrations predecessors =
     (let configured = (case sc_outputs stage of OutMap d \<Rightarrow> d | OutNames ns \<Rightarrow> map (\<lambda>n. (n, n)) ns) in
      case (configured, map_of registrations ''result'') of
        ([], Some result) \<Rightarrow>
          let dependants = keys (filter (\<lambda>(_, deps). ''result'' \<in> deps) predecessors) in
          and_then (raise_if (dependants \<noteq> []) (ResultHasDependants dependants))
            (\<lambda>_. Inr (map (\<lambda>(n, _). (n, ''result.'' @ n)) (reg_outputs result)))
      | _ \<Rightarrow> Inr configured)"

definition compile_registered :: "typing_context \<Rightarrow> stage_configuration
    \<Rightarrow> (string, ('j, 'm, 'v, 'cap) node_registration) dict \<Rightarrow> (string, (string, 'j) dict) dict
    \<Rightarrow> (string, annotation) dict \<Rightarrow> (string, 'cap) dict
    \<Rightarrow> compile_error + ('j, 'm, 'v, 'cap) stage_plan" where
  "compile_registered ctx stage registrations configuration initial_inputs available =
     and_then (map_res (plan_node ctx registrations configuration initial_inputs available) (sc_nodes stage))
     (\<lambda>planned.
      let predecessors = map (\<lambda>(n, p). (n, pn_dependencies p)) planned in
      and_then (fold_res (\<lambda>_ np. check_references ctx registrations (keys (sc_nodes stage)) np) () planned) (\<lambda>_.
      and_then (stage_output_bindings stage registrations predecessors) (\<lambda>outputs.
      and_then (map_res (\<lambda>(n, source). and_then (reference_annotation source registrations)
                  (\<lambda>a. Inr (n, a))) outputs) (\<lambda>annotations.
      case topological_order predecessors (keys (sc_nodes stage)) of
        Inl (CycleError ns) \<Rightarrow> Inl (CyclicGraph ns)
      | Inl (TopoKeyError n) \<Rightarrow> Inl (MissingKey n)
      | Inr order \<Rightarrow>
          and_then (map_res (\<lambda>n. case map_of planned n of None \<Rightarrow> Inl (MissingKey n) | Some p \<Rightarrow> Inr p) order)
            (\<lambda>nodes. Inr \<lparr>plan_nodes = nodes, plan_output_bindings = outputs,
                          plan_output_annotations = annotations\<rparr>)))))"

fun resolve_all :: "('j, 'm, 'v, 'cap) node_catalog \<Rightarrow> string \<Rightarrow> string list
    \<Rightarrow> ('j, 'm, 'v, 'cap) node_catalog \<times> (catalog_error + (string, ('j, 'm, 'v, 'cap) node_registration) dict)" where
  "resolve_all cat stage_name [] = (cat, Inr [])"
| "resolve_all cat stage_name (name # names) =
     (case catalog_resolve cat stage_name name of
        (cat', Inl e) \<Rightarrow> (cat', Inl e)
      | (cat', Inr r) \<Rightarrow>
          (case resolve_all cat' stage_name names of
             (cat'', Inl e) \<Rightarrow> (cat'', Inl e)
           | (cat'', Inr rs) \<Rightarrow> (cat'', Inr ((name, r) # rs))))"

definition compile_stage :: "typing_context \<Rightarrow> ('j, 'm, 'v, 'cap) node_catalog \<Rightarrow> string
    \<Rightarrow> stage_configuration \<Rightarrow> (string, (string, 'j) dict) dict \<Rightarrow> (string, annotation) dict
    \<Rightarrow> (string, 'cap) dict
    \<Rightarrow> ('j, 'm, 'v, 'cap) node_catalog \<times> (compile_error + ('j, 'm, 'v, 'cap) stage_plan)" where
  "compile_stage ctx cat stage_name stage configuration initial_inputs capabilities =
     (let unknown = set (keys configuration) - set (keys (sc_nodes stage)) in
      case and_then (fold_res (\<lambda>_ (i, a). raise_if (\<not> tc_adapter_ok ctx a) (UnsupportedStageInput i a)) ()
                       initial_inputs)
             (\<lambda>_. raise_if (unknown \<noteq> {}) (UnknownConfiguration (sorted_list_of_set unknown))) of
        Inl e \<Rightarrow> (cat, Inl e)
      | Inr _ \<Rightarrow>
          (case resolve_all cat stage_name (keys (sc_nodes stage)) of
             (cat', Inl e) \<Rightarrow> (cat', Inl (CatalogFailed e))
           | (cat', Inr registrations) \<Rightarrow>
               (cat', compile_registered ctx stage registrations configuration initial_inputs capabilities)))"

section \<open>What each phase establishes\<close>

definition accepts :: "typing_context \<Rightarrow> annotation \<Rightarrow> bool \<Rightarrow> annotation \<Rightarrow> bool" where
  "accepts ctx target collection a \<longleftrightarrow>
     (\<exists>t. (if collection then item_annotation ctx target else Some target) = Some t \<and> compatible ctx a t)"

lemma validate_input_annotation_ok:
  "validate_input_annotation ctx n i a target collection src = Inr u \<longleftrightarrow> accepts ctx target collection a"
  by (auto simp: validate_input_annotation_def accepts_def raise_if_eq_Inr split: option.splits)

definition deps_le :: "string set \<times> string set \<Rightarrow> string set \<times> string set \<Rightarrow> bool" where
  "deps_le d e \<longleftrightarrow> fst d \<subseteq> fst e \<and> snd d \<subseteq> snd e"

lemma deps_le_refl [simp]: "deps_le d d"
  by (simp add: deps_le_def)

lemma deps_le_trans [trans]: "deps_le a b \<Longrightarrow> deps_le b c \<Longrightarrow> deps_le a c"
  by (auto simp: deps_le_def)

text \<open>What is known of one bound source once the dependencies have been collected.\<close>

definition source_bound :: "typing_context \<Rightarrow> ('j, 'm, 'v, 'cap) node_registration \<Rightarrow> (string, annotation) dict
    \<Rightarrow> string \<Rightarrow> annotation \<Rightarrow> bool \<Rightarrow> string set \<times> string set \<Rightarrow> string \<Rightarrow> bool" where
  "source_bound ctx r initial_inputs input_name target collection deps source \<longleftrightarrow>
     (if is_stage_input source
      then \<exists>a. map_of initial_inputs (stage_input_name source) = Some a \<and> accepts ctx target collection a
      else producer_of source \<in> fst deps \<and>
        (input_name \<in> set (reg_required_when_bound r) \<or> (\<not> collection \<and> \<not> allows_none ctx target)
         \<longrightarrow> producer_of source \<in> snd deps))"

lemma source_bound_mono:
  "source_bound ctx r initial i target c d s \<Longrightarrow> deps_le d e \<Longrightarrow> source_bound ctx r initial i target c e s"
  by (auto simp: source_bound_def deps_le_def split: if_splits)

lemma bind_source_ok:
  assumes "bind_source ctx name r initial i target c d s = Inr e"
  shows "deps_le d e" and "source_bound ctx r initial i target c e s"
    and "snd d \<subseteq> fst d \<Longrightarrow> snd e \<subseteq> fst e"
  using assms
  by (auto simp: bind_source_def deps_le_def source_bound_def Let_def res_simps validate_input_annotation_ok
      split: if_splits option.splits)

lemma fold_res_le:
  assumes "fold_res f s xs = Inr t" and "\<And>s x s'. x \<in> set xs \<Longrightarrow> f s x = Inr s' \<Longrightarrow> deps_le s s'"
  shows "deps_le s t"
  by (rule fold_res_invariant[OF assms(1), where P = "deps_le s"]) (use assms(2) deps_le_trans in auto)

definition binding_bound :: "typing_context \<Rightarrow> ('j, 'm, 'v, 'cap) node_registration \<Rightarrow> (string, annotation) dict
    \<Rightarrow> string \<times> input_binding \<Rightarrow> string set \<times> string set \<Rightarrow> bool" where
  "binding_bound ctx r initial_inputs ib deps \<longleftrightarrow>
     (\<exists>target. map_of (reg_inputs r) (fst ib) = Some target \<and>
        (is_collection (snd ib) \<longrightarrow> item_annotation ctx target \<noteq> None) \<and>
        (\<forall>s \<in> set (sources (snd ib)).
           source_bound ctx r initial_inputs (fst ib) target (is_collection (snd ib)) deps s))"

lemma binding_bound_mono:
  "binding_bound ctx r initial ib d \<Longrightarrow> deps_le d e \<Longrightarrow> binding_bound ctx r initial ib e"
  by (fastforce simp: binding_bound_def intro: source_bound_mono)

lemma bind_input_ok:
  assumes "bind_input ctx name r initial d ib = Inr e"
  shows "deps_le d e" and "binding_bound ctx r initial ib e" and "snd d \<subseteq> fst d \<Longrightarrow> snd e \<subseteq> fst e"
proof -
  obtain i b where ib: "ib = (i, b)" by (cases ib)
  from assms obtain target where target: "map_of (reg_inputs r) i = Some target"
    and coll: "is_collection b \<longrightarrow> item_annotation ctx target \<noteq> None"
    and f: "fold_res (bind_source ctx name r initial i target (is_collection b)) d (sources b) = Inr e"
    by (auto simp: bind_input_def ib split: option.splits if_splits)
  show "deps_le d e" by (rule fold_res_le[OF f]) (rule bind_source_ok(1))
  show "snd e \<subseteq> fst e" if "snd d \<subseteq> fst d"
    by (rule fold_res_invariant[OF f, where P = "\<lambda>d. snd d \<subseteq> fst d", OF that]) (rule bind_source_ok(3))
  have "source_bound ctx r initial i target (is_collection b) e s" if "s \<in> set (sources b)" for s
    by (rule fold_res_each[OF f that, where le = deps_le]) (auto intro: bind_source_ok source_bound_mono)
  with target coll show "binding_bound ctx r initial ib e" by (auto simp: binding_bound_def ib)
qed

lemma bind_inputs_ok:
  assumes "fold_res (bind_input ctx name r initial) d bs = Inr e" and "snd d \<subseteq> fst d"
  shows "deps_le d e" and "snd e \<subseteq> fst e" and "\<forall>ib \<in> set bs. binding_bound ctx r initial ib e"
proof -
  show "deps_le d e" by (rule fold_res_le[OF assms(1)]) (rule bind_input_ok(1))
  show "snd e \<subseteq> fst e"
    by (rule fold_res_invariant[OF assms(1), where P = "\<lambda>d. snd d \<subseteq> fst d", OF assms(2)])
       (rule bind_input_ok(3))
  have "binding_bound ctx r initial ib e" if "ib \<in> set bs" for ib
    by (rule fold_res_each[OF assms(1) that, where le = deps_le])
       (auto intro: bind_input_ok binding_bound_mono)
  then show "\<forall>ib \<in> set bs. binding_bound ctx r initial ib e" by blast
qed

text \<open>An input port that no binding feeds is supplied by the stage input of the same name, with a
  compatible annotation, or admits \<open>None\<close>.\<close>

definition port_supplied :: "typing_context \<Rightarrow> (string, annotation) dict \<Rightarrow> string \<Rightarrow> annotation \<Rightarrow> bool" where
  "port_supplied ctx initial_inputs i target \<longleftrightarrow>
     (case map_of initial_inputs i of
        None \<Rightarrow> allows_none ctx target
      | Some a \<Rightarrow> compatible ctx a target \<and> (a = NoneT \<longrightarrow> allows_none ctx target))"

definition node_planned :: "typing_context \<Rightarrow> (string, ('j, 'm, 'v, 'cap) node_registration) dict
    \<Rightarrow> (string, annotation) dict \<Rightarrow> string \<times> configured_node \<Rightarrow> string \<times> ('j, 'm, 'v, 'cap) planned_node \<Rightarrow> bool" where
  "node_planned ctx registrations initial_inputs nd np \<longleftrightarrow>
     (let (name, d) = nd; (n, p) = np; r = pn_registration p in
      n = name \<and> pn_name p = name \<and> pn_definition p = d \<and> map_of registrations name = Some r \<and>
      set (cn_depends_on d) \<subseteq> pn_required_dependencies p \<and>
      pn_required_dependencies p \<subseteq> pn_dependencies p \<and>
      (\<forall>ib \<in> set (pn_input_bindings p).
         binding_bound ctx r initial_inputs ib (pn_dependencies p, pn_required_dependencies p)) \<and>
      (\<forall>(i, a) \<in> set (reg_inputs r).
         i \<notin> set (keys (pn_input_bindings p)) \<longrightarrow> port_supplied ctx initial_inputs i a))"

lemma unbound_ports_supplied:
  assumes missing: "filter (\<lambda>(i, a). i \<notin> B \<and> (map_of initial i = None \<or> map_of initial i = Some NoneT)
      \<and> \<not> allows_none ctx a) ports = []"
    and checked: "fold_res (\<lambda>_ (i, target). case map_of initial i of None \<Rightarrow> Inr ()
      | Some a \<Rightarrow> validate_input_annotation ctx name i a target False None) ()
      (filter (\<lambda>(i, _). i \<notin> B) ports) = Inr u"
    and port: "(i, a) \<in> set ports" "i \<notin> B"
  shows "port_supplied ctx initial i a"
proof -
  have "(case (i, a) of (i, target) \<Rightarrow> case map_of initial i of None \<Rightarrow> Inr ()
      | Some a \<Rightarrow> validate_input_annotation ctx name i a target False None) = Inr ()"
    using fold_res_unit[OF checked, of "(i, a)"] port by auto
  then have "case map_of initial i of None \<Rightarrow> True | Some s \<Rightarrow> accepts ctx a False s"
    by (auto simp: validate_input_annotation_ok split: option.splits)
  then show ?thesis
    using missing port by (auto simp: port_supplied_def accepts_def filter_empty_conv split: option.splits)
qed

lemma node_planned_name: "node_planned ctx registrations initial nd np \<Longrightarrow> fst np = fst nd"
  by (auto simp: node_planned_def Let_def split: prod.splits)

lemma plan_node_ok:
  assumes "plan_node ctx registrations configuration initial available nd = Inr np"
  shows "node_planned ctx registrations initial nd np"
proof -
  obtain name d where nd: "nd = (name, d)" by (cases nd)
  from assms obtain r model bindings deps where r: "map_of registrations name = Some r"
    and missing: "filter (\<lambda>(i, a). i \<notin> set (keys bindings)
        \<and> (map_of initial i = None \<or> map_of initial i = Some NoneT) \<and> \<not> allows_none ctx a) (reg_inputs r) = []"
    and checked: "fold_res (\<lambda>_ (i, target). case map_of initial i of None \<Rightarrow> Inr ()
        | Some a \<Rightarrow> validate_input_annotation ctx name i a target False None) ()
        (filter (\<lambda>(i, _). i \<notin> set (keys bindings)) (reg_inputs r)) = Inr ()"
    and bound: "fold_res (bind_input ctx name r initial) (set (cn_depends_on d), set (cn_depends_on d)) bindings
        = Inr deps"
    and np: "fst np = name" "pn_name (snd np) = name" "pn_definition (snd np) = d"
      "pn_registration (snd np) = r" "pn_input_bindings (snd np) = bindings"
      "pn_dependencies (snd np) = fst deps" "pn_required_dependencies (snd np) = snd deps"
    by (auto simp: plan_node_def nd Let_def res_simps split: option.splits)
  note ok = bind_inputs_ok[OF bound]
  from unbound_ports_supplied[OF missing checked] ok r np show ?thesis
    by (cases np) (auto simp: node_planned_def nd Let_def deps_le_def)
qed

text \<open>What \<open>check_references\<close> adds: every producer is a node of the stage, and its output fits.\<close>

lemma check_references_ok:
  assumes "check_references ctx registrations names (n, p) = Inr u"
  shows "pn_dependencies p \<subseteq> set names"
    and "\<And>i b s. (i, b) \<in> set (pn_input_bindings p) \<Longrightarrow> s \<in> set (sources b) \<Longrightarrow> \<not> is_stage_input s \<Longrightarrow>
      \<exists>a target. reference_annotation s registrations = Inr a \<and>
        map_of (reg_inputs (pn_registration p)) i = Some target \<and> accepts ctx target (is_collection b) a"
proof -
  from assms show "pn_dependencies p \<subseteq> set names"
    by (auto simp: check_references_def Let_def res_simps)
  fix i b s
  assume ib: "(i, b) \<in> set (pn_input_bindings p)" and s: "s \<in> set (sources b)" "\<not> is_stage_input s"
  define step where "step = (\<lambda>input_name b source.
          if is_stage_input source then Inr ()
          else and_then (reference_annotation source registrations) (\<lambda>a.
            case map_of (reg_inputs (pn_registration p)) input_name of
              None \<Rightarrow> Inl (MissingKey input_name)
            | Some target \<Rightarrow>
                validate_input_annotation ctx n input_name a target (is_collection b) (Some source)))"
  have all: "fold_res (\<lambda>_ (i, b). fold_res (\<lambda>_ source. step i b source) () (sources b)) ()
      (pn_input_bindings p) = Inr ()"
    using assms by (auto simp: check_references_def Let_def res_simps step_def)
  from fold_res_unit[OF all ib] s(1) have "step i b s = Inr ()"
    by (auto intro: fold_res_unit)
  with s show "\<exists>a target. reference_annotation s registrations = Inr a \<and>
        map_of (reg_inputs (pn_registration p)) i = Some target \<and> accepts ctx target (is_collection b) a"
    by (auto simp: step_def res_simps validate_input_annotation_ok split: option.splits)
qed

section \<open>The compiled plan\<close>

definition plan_registrations :: "('j, 'm, 'v, 'cap) stage_plan
    \<Rightarrow> (string, ('j, 'm, 'v, 'cap) node_registration) dict" where
  "plan_registrations plan = map (\<lambda>p. (pn_name p, pn_registration p)) (plan_nodes plan)"

lemma resolve_all_keys: "resolve_all cat stage names = (cat', Inr regs) \<Longrightarrow> keys regs = names"
  by (induction names arbitrary: cat regs) (auto split: prod.splits sum.splits)

text \<open>The facts about a compiled plan that the properties below and the runner rely on.\<close>

definition plan_ok :: "typing_context \<Rightarrow> stage_configuration \<Rightarrow> (string, ('j, 'm, 'v, 'cap) node_registration) dict
    \<Rightarrow> (string, annotation) dict \<Rightarrow> ('j, 'm, 'v, 'cap) stage_plan \<Rightarrow> bool" where
  "plan_ok ctx stage registrations initial_inputs plan \<longleftrightarrow>
     (let names = map pn_name (plan_nodes plan) in
      distinct names \<and> set names = set (keys (sc_nodes stage)) \<and>
      (\<forall>ys p zs. plan_nodes plan = ys @ p # zs \<longrightarrow> pn_dependencies p \<subseteq> set (map pn_name ys)) \<and>
      (\<forall>p \<in> set (plan_nodes plan). \<exists>d. (pn_name p, d) \<in> set (sc_nodes stage) \<and>
         node_planned ctx registrations initial_inputs (pn_name p, d) (pn_name p, p) \<and>
         check_references ctx registrations (keys (sc_nodes stage)) (pn_name p, p) = Inr ()) \<and>
      map_of (plan_registrations plan) = map_of registrations \<and>
      list_all2 (\<lambda>(n, source) (m, a). m = n \<and> reference_annotation source registrations = Inr a)
        (plan_output_bindings plan) (plan_output_annotations plan))"

lemma topo_case_Inr:
  "(case r of Inl (CycleError ns) \<Rightarrow> Inl (f ns) | Inl (TopoKeyError n) \<Rightarrow> Inl (g n) | Inr order \<Rightarrow> h order)
     = Inr y \<longleftrightarrow> (\<exists>order. r = Inr order \<and> h order = Inr y)"
  by (auto split: sum.splits topo_error.splits)

lemma compile_registered_phases:
  assumes "compile_registered ctx stage registrations configuration initial available = Inr plan"
  obtains planned order where
    "list_all2 (\<lambda>nd np. plan_node ctx registrations configuration initial available nd = Inr np)
       (sc_nodes stage) planned"
    "\<forall>np \<in> set planned. check_references ctx registrations (keys (sc_nodes stage)) np = Inr ()"
    "topological_order (map (\<lambda>(n, p). (n, pn_dependencies p)) planned) (keys (sc_nodes stage)) = Inr order"
    "list_all2 (\<lambda>n p. map_of planned n = Some p) order (plan_nodes plan)"
    "list_all2 (\<lambda>(n, source) (m, a). m = n \<and> reference_annotation source registrations = Inr a)
       (plan_output_bindings plan) (plan_output_annotations plan)"
proof -
  from assms obtain planned outputs annotations order nodes where
    p: "map_res (plan_node ctx registrations configuration initial available) (sc_nodes stage) = Inr planned"
    and c: "fold_res (\<lambda>_ np. check_references ctx registrations (keys (sc_nodes stage)) np) () planned = Inr ()"
    and a: "map_res (\<lambda>(n, source). and_then (reference_annotation source registrations)
                  (\<lambda>a. Inr (n, a))) outputs = Inr annotations"
    and o: "topological_order (map (\<lambda>(n, p). (n, pn_dependencies p)) planned) (keys (sc_nodes stage)) = Inr order"
    and n: "map_res (\<lambda>n. case map_of planned n of None \<Rightarrow> Inl (MissingKey n) | Some p \<Rightarrow> Inr p) order = Inr nodes"
    and plan: "plan = \<lparr>plan_nodes = nodes, plan_output_bindings = outputs, plan_output_annotations = annotations\<rparr>"
    by (auto simp: compile_registered_def Let_def and_then_eq_Inr topo_case_Inr)
  show thesis
  proof (rule that[OF _ _ o])
    show "list_all2 (\<lambda>nd np. plan_node ctx registrations configuration initial available nd = Inr np)
       (sc_nodes stage) planned" using p by (simp add: map_res_Inr_iff)
    show "\<forall>np \<in> set planned. check_references ctx registrations (keys (sc_nodes stage)) np = Inr ()"
      using fold_res_unit[OF c] by blast
    show "list_all2 (\<lambda>n p. map_of planned n = Some p) order (plan_nodes plan)"
      using n by (auto simp: map_res_Inr_iff plan elim!: list_all2_mono split: option.splits)
    show "list_all2 (\<lambda>(n, source) (m, a). m = n \<and> reference_annotation source registrations = Inr a)
       (plan_output_bindings plan) (plan_output_annotations plan)"
      using a by (auto simp: map_res_Inr_iff plan and_then_eq_Inr elim!: list_all2_mono)
  qed
qed

lemma list_all2_map_of:
  assumes "list_all2 (\<lambda>n p. map_of planned n = Some p) order nodes"
    and "\<And>n p. map_of planned n = Some p \<Longrightarrow> f p = n"
  shows "map f nodes = order" and "\<forall>p \<in> set nodes. map_of planned (f p) = Some p"
  using assms by (induction rule: list_all2_induct) auto

lemma compile_registered_ok:
  assumes ok: "compile_registered ctx stage registrations configuration initial available = Inr plan"
    and wf: "wf_dict (sc_nodes stage)" and regs: "keys registrations = keys (sc_nodes stage)"
  shows "plan_ok ctx stage registrations initial plan"
proof -
  from compile_registered_phases[OF ok] obtain planned order where
    planned: "list_all2 (\<lambda>nd np. plan_node ctx registrations configuration initial available nd = Inr np)
       (sc_nodes stage) planned"
    and refs: "\<forall>np \<in> set planned. check_references ctx registrations (keys (sc_nodes stage)) np = Inr ()"
    and topo: "topological_order (map (\<lambda>(n, p). (n, pn_dependencies p)) planned) (keys (sc_nodes stage)) = Inr order"
    and nodes: "list_all2 (\<lambda>n p. map_of planned n = Some p) order (plan_nodes plan)"
    and outs: "list_all2 (\<lambda>(n, source) (m, a). m = n \<and> reference_annotation source registrations = Inr a)
       (plan_output_bindings plan) (plan_output_annotations plan)" .
  let ?preds = "map (\<lambda>(n, p). (n, pn_dependencies p)) planned"
  have np: "list_all2 (\<lambda>nd np. fst np = fst nd \<and> node_planned ctx registrations initial nd np) (sc_nodes stage) planned"
    using planned by (rule list_all2_mono) (blast dest: plan_node_ok node_planned_name)
  have keys: "keys planned = keys (sc_nodes stage)" using list_all2_keys[OF np] .
  have kp: "keys ?preds = keys planned" by (induction planned) auto
  have wfp: "wf_dict ?preds" using wf keys kp by (simp add: wf_dict_keys)
  have each: "\<exists>d. (n, d) \<in> set (sc_nodes stage) \<and> node_planned ctx registrations initial (n, d) (n, p)"
    if "(n, p) \<in> set planned" for n p
  proof -
    from list_all2_right[OF np that] obtain nd where "nd \<in> set (sc_nodes stage)" "n = fst nd"
      "node_planned ctx registrations initial nd (n, p)" by auto
    then show ?thesis by (intro exI[of _ "snd nd"]) simp
  qed
  have name: "pn_name p = n" if "map_of planned n = Some p" for n p
    using each[OF map_of_SomeD[OF that]] by (auto simp: node_planned_def Let_def)
  note order = list_all2_map_of[OF nodes, of pn_name, OF name]
  from topo_loop_sound[OF topo[unfolded topological_order_def] topo_inv_init[OF wfp]] order kp keys
  have sound: "distinct order" "set order = set (keys (sc_nodes stage))" "preds_before (preds_of ?preds) order"
    by auto
  have deps: "preds_of ?preds (pn_name p) = pn_dependencies p" if "p \<in> set (plan_nodes plan)" for p
    using order(2) that by (simp add: preds_of_def map_of_map_values[of "\<lambda>_ p. pn_dependencies p"])
  have before: "pn_dependencies p \<subseteq> set (map pn_name ys)" if "plan_nodes plan = ys @ p # zs" for ys p zs
  proof -
    have "order = map pn_name ys @ pn_name p # map pn_name zs" using order(1) that by auto
    with sound(3) have "preds_of ?preds (pn_name p) \<subseteq> set (map pn_name ys)"
      unfolding preds_before_def by blast
    with deps[of p] that show ?thesis by simp
  qed
  have regs_of: "map_of (plan_registrations plan) n = map_of registrations n" for n
  proof (cases "n \<in> set order")
    case True
    then obtain p where p: "p \<in> set (plan_nodes plan)" "n = pn_name p" using order(1) by auto
    then have "(n, p) \<in> set planned" using order(2) by (auto dest: map_of_SomeD)
    from each[OF this] have "map_of registrations n = Some (pn_registration p)"
      by (auto simp: node_planned_def Let_def)
    moreover have "map_of (plan_registrations plan) n = Some (pn_registration p)"
      using p sound(1) order(1) unfolding plan_registrations_def
      by (intro map_of_is_SomeI) (auto simp: comp_def)
    ultimately show ?thesis by simp
  next
    case False
    then have "map_of registrations n = None" using sound(2) regs by (simp add: map_of_None_keys)
    moreover have "map_of (plan_registrations plan) n = None"
      using False order(1) by (auto simp: plan_registrations_def map_of_eq_None_iff)
    ultimately show ?thesis by simp
  qed
  have "\<exists>d. (pn_name p, d) \<in> set (sc_nodes stage) \<and>
         node_planned ctx registrations initial (pn_name p, d) (pn_name p, p) \<and>
         check_references ctx registrations (keys (sc_nodes stage)) (pn_name p, p) = Inr ()"
    if "p \<in> set (plan_nodes plan)" for p
  proof -
    have "(pn_name p, p) \<in> set planned" using order(2) that by (auto dest: map_of_SomeD)
    with each refs show ?thesis by blast
  qed
  with sound(1,2) order(1) before regs_of outs show ?thesis
    unfolding plan_ok_def Let_def by (intro conjI) blast+
qed

lemma compile_stage_ok:
  assumes "compile_stage ctx cat stage_name stage configuration initial capabilities = (cat', Inr plan)"
    and "wf_dict (sc_nodes stage)"
  obtains registrations where "plan_ok ctx stage registrations initial plan"
proof -
  from assms(1) obtain registrations where "resolve_all cat stage_name (keys (sc_nodes stage)) = (cat', Inr registrations)"
    and "compile_registered ctx stage registrations configuration initial capabilities = Inr plan"
    by (auto simp: compile_stage_def Let_def split: sum.splits prod.splits)
  with compile_registered_ok resolve_all_keys assms(2) that show thesis by blast
qed

lemma reference_annotation_cong:
  "map_of regs = map_of regs' \<Longrightarrow> reference_annotation s regs = reference_annotation s regs'"
  by (simp add: reference_annotation_def)

lemma plan_ok_node:
  assumes "plan_ok ctx stage registrations initial plan" and "p \<in> set (plan_nodes plan)"
  obtains d where "node_planned ctx registrations initial (pn_name p, d) (pn_name p, p)"
    and "check_references ctx registrations (keys (sc_nodes stage)) (pn_name p, p) = Inr ()"
  using assms by (auto simp: plan_ok_def Let_def)

subsection \<open>A two-node stage\<close>

text \<open>A concrete stage on which the properties are exercised: \<open>scan\<close> reads the stage input
  \<open>files\<close>; \<open>result\<close>, configured first and without bindings, collects what \<open>scan\<close> finds.\<close>

definition demo_registration :: "string \<Rightarrow> (string, annotation) dict \<Rightarrow> (string, annotation) dict
    \<Rightarrow> (unit, unit, string pyvalue, unit) node_registration" where
  "demo_registration name inputs outputs =
     \<lparr>reg_name = name, reg_stage = ''review'', reg_configuration = (\<lambda>_. Some ()),
      reg_inputs = inputs, reg_outputs = outputs,
      reg_execute = (\<lambda>inv. HandlerReturned
        \<lparr>raw_outputs = Some (map (\<lambda>(o', _). (o', PyObject (o' @ inv_model inv))) outputs),
         raw_status = Some OK, raw_diagnostics = Some []\<rparr>),
      reg_capabilities = [], reg_required_when_bound = []\<rparr>"

definition demo_node :: configured_node where
  "demo_node = \<lparr>cn_inputs = [], cn_depends_on = [], cn_max_concurrency = None, cn_model = None,
     cn_capabilities = [], cn_formats = None, cn_filename = None\<rparr>"

definition demo_stage :: stage_configuration where
  "demo_stage = \<lparr>sc_depends_on = [], sc_inputs = [], sc_outputs = OutNames [],
     sc_nodes = [(''result'', demo_node), (''scan'', demo_node)]\<rparr>"

definition demo_catalog :: "(unit, unit, string pyvalue, unit) node_catalog" where
  "demo_catalog = \<lparr>cat_registrations =
     [((''review'', ''result''), demo_registration ''result''
         [(''findings'', TupleManyT (ClassT ''Finding''))] [(''report'', ClassT ''str'')]),
      ((''review'', ''scan''), demo_registration ''scan''
         [(''files'', ClassT ''str'')] [(''findings'', ClassT ''Finding'')])],
     cat_entry_points = []\<rparr>"

definition demo_context :: typing_context where
  "demo_context = \<lparr>tc_aliases = [], tc_subclass = (=), tc_adapter_ok = (\<lambda>_. True)\<rparr>"

definition demo_plan :: "compile_error + (unit, unit, string pyvalue, unit) stage_plan" where
  "demo_plan = snd (compile_stage demo_context demo_catalog ''review'' demo_stage []
     [(''files'', ClassT ''str'')] [])"

text \<open>What compiling the stage yields, in the shape the properties need.\<close>

lemma demo_plan_summary:
  "(case demo_plan of Inl _ \<Rightarrow> False
    | Inr plan \<Rightarrow> map (\<lambda>p. (pn_name p, pn_input_bindings p, pn_dependencies p)) (plan_nodes plan)
        = [(''scan'', [], {}), (''result'', [(''findings'', Many [''scan.findings''])], {''scan''})]
      \<and> map (keys \<circ> reg_inputs \<circ> pn_registration) (plan_nodes plan) = [[''files''], [''findings'']])"
  by code_simp

lemma demo_stage_wf: "wf_dict (sc_nodes demo_stage)"
  by (simp add: demo_stage_def wf_dict_def)

lemma demo_planE:
  obtains cat' plan scan result where
    "compile_stage demo_context demo_catalog ''review'' demo_stage [] [(''files'', ClassT ''str'')] [] = (cat', Inr plan)"
    and "plan_nodes plan = [scan, result]" and "pn_name scan = ''scan''" and "pn_name result = ''result''"
    and "pn_input_bindings scan = []" and "pn_input_bindings result = [(''findings'', Many [''scan.findings''])]"
    and "pn_dependencies result = {''scan''}" and "keys (reg_inputs (pn_registration scan)) = [''files'']"
  using demo_plan_summary unfolding demo_plan_def
  by (cases "compile_stage demo_context demo_catalog ''review'' demo_stage [] [(''files'', ClassT ''str'')] []")
     (auto split: sum.splits)

subsection \<open>Properties of compiled plans\<close>

text \<open>
  C3. A compiled plan contains every configured node of the stage exactly once, and each node
  stands after all of its dependencies; the required dependencies are dependencies, and the
  configured \<open>depends_on\<close> of a node are required.
\<close>

theorem compile_stage_ordered:
  assumes "compile_stage ctx cat stage_name stage configuration initial_inputs capabilities = (cat', Inr plan)"
    and "wf_dict (sc_nodes stage)"
  shows "mset (map pn_name (plan_nodes plan)) = mset (keys (sc_nodes stage)) \<and>
    (\<forall>ys p zs. plan_nodes plan = ys @ p # zs \<longrightarrow>
       set (cn_depends_on (pn_definition p)) \<subseteq> pn_required_dependencies p \<and>
       pn_required_dependencies p \<subseteq> pn_dependencies p \<and>
       pn_dependencies p \<subseteq> set (map pn_name ys))"
proof -
  from compile_stage_ok[OF assms] obtain registrations where ok: "plan_ok ctx stage registrations initial_inputs plan" .
  have "mset (map pn_name (plan_nodes plan)) = mset (keys (sc_nodes stage))"
    using ok assms(2) by (intro set_eq_iff_mset_eq_distinct[THEN iffD1]) (auto simp: plan_ok_def Let_def wf_dict_keys)
  moreover have "set (cn_depends_on (pn_definition p)) \<subseteq> pn_required_dependencies p \<and>
       pn_required_dependencies p \<subseteq> pn_dependencies p" if "p \<in> set (plan_nodes plan)" for p
    using plan_ok_node[OF ok that] by (auto simp: node_planned_def Let_def)
  ultimately show ?thesis using ok by (simp add: plan_ok_def Let_def)
qed

theorem compile_stage_ordered_witness:
  "\<exists>cat' plan. compile_stage demo_context demo_catalog ''review'' demo_stage [] [(''files'', ClassT ''str'')] []
      = (cat', Inr plan) \<and> mset (map pn_name (plan_nodes plan)) = {#''result'', ''scan''#}"
proof -
  obtain cat' plan where c: "compile_stage demo_context demo_catalog ''review'' demo_stage []
      [(''files'', ClassT ''str'')] [] = (cat', Inr plan)" by (rule demo_planE)
  from compile_stage_ordered[OF c demo_stage_wf] c show ?thesis by (auto simp: demo_stage_def)
qed

text \<open>
  C4. Every connection of a compiled plan is well typed: each source bound to an input port is
  either a stage input or an output of a node among the dependencies, it has an annotation, and
  the annotation of the port (of its items, for a collection binding) accepts it.
\<close>

theorem compile_stage_well_typed:
  assumes "compile_stage ctx cat stage_name stage configuration initial_inputs capabilities = (cat', Inr plan)"
    and "wf_dict (sc_nodes stage)"
    and "p \<in> set (plan_nodes plan)" and "(i, b) \<in> set (pn_input_bindings p)" and "s \<in> set (sources b)"
  shows "\<exists>target a. map_of (reg_inputs (pn_registration p)) i = Some target \<and>
    (if is_stage_input s then map_of initial_inputs (stage_input_name s) = Some a
     else producer_of s \<in> pn_dependencies p \<and> reference_annotation s (plan_registrations plan) = Inr a) \<and>
    accepts ctx target (is_collection b) a"
proof -
  from compile_stage_ok[OF assms(1,2)] obtain registrations where ok: "plan_ok ctx stage registrations initial_inputs plan" .
  from plan_ok_node[OF ok assms(3)] obtain d where
    np: "node_planned ctx registrations initial_inputs (pn_name p, d) (pn_name p, p)"
    and refs: "check_references ctx registrations (keys (sc_nodes stage)) (pn_name p, p) = Inr ()" .
  have bound: "binding_bound ctx (pn_registration p) initial_inputs (i, b) (pn_dependencies p, pn_required_dependencies p)"
    using np assms(4) by (auto simp: node_planned_def Let_def)
  show ?thesis
  proof (cases "is_stage_input s")
    case True
    with bound assms(5) show ?thesis by (fastforce simp: binding_bound_def source_bound_def)
  next
    case False
    have "reference_annotation s (plan_registrations plan) = reference_annotation s registrations"
      using ok by (intro reference_annotation_cong) (simp add: plan_ok_def Let_def)
    with check_references_ok(2)[OF refs assms(4,5) False] bound assms(5) False show ?thesis
      by (fastforce simp: binding_bound_def source_bound_def)
  qed
qed

theorem compile_stage_well_typed_witness:
  "\<exists>plan result. snd (compile_stage demo_context demo_catalog ''review'' demo_stage [] [(''files'', ClassT ''str'')] [])
      = Inr plan \<and> result \<in> set (plan_nodes plan) \<and>
    (\<exists>target a. map_of (reg_inputs (pn_registration result)) ''findings'' = Some target \<and>
      reference_annotation ''scan.findings'' (plan_registrations plan) = Inr a \<and>
      accepts demo_context target True a)"
proof -
  obtain cat' plan scan result where c: "compile_stage demo_context demo_catalog ''review'' demo_stage []
      [(''files'', ClassT ''str'')] [] = (cat', Inr plan)" and n: "plan_nodes plan = [scan, result]"
    and b: "pn_input_bindings result = [(''findings'', Many [''scan.findings''])]" by (rule demo_planE)
  have "\<not> is_stage_input ''scan.findings''" by code_simp
  with compile_stage_well_typed[OF c demo_stage_wf, of result "''findings''" "Many [''scan.findings'']" "''scan.findings''"]
    n b c show ?thesis by (auto simp: sources_def is_collection_def)
qed

text \<open>
  C5. No input port of a compiled plan is left without a value: a port that no binding feeds is
  supplied by the stage input of the same name, whose annotation fits, or admits \<open>None\<close>. A port
  that one output feeds and that does not admit \<open>None\<close> makes the producer a required dependency.
\<close>

theorem compile_stage_ports_supplied:
  assumes "compile_stage ctx cat stage_name stage configuration initial_inputs capabilities = (cat', Inr plan)"
    and "wf_dict (sc_nodes stage)"
    and "p \<in> set (plan_nodes plan)" and "(i, a) \<in> set (reg_inputs (pn_registration p))"
  shows "(i \<notin> set (keys (pn_input_bindings p)) \<longrightarrow> port_supplied ctx initial_inputs i a) \<and>
    (\<forall>s. (i, One s) \<in> set (pn_input_bindings p) \<and> \<not> is_stage_input s \<and>
         map_of (reg_inputs (pn_registration p)) i = Some a \<and> \<not> allows_none ctx a
         \<longrightarrow> producer_of s \<in> pn_required_dependencies p)"
proof -
  from compile_stage_ok[OF assms(1,2)] obtain registrations where ok: "plan_ok ctx stage registrations initial_inputs plan" .
  from plan_ok_node[OF ok assms(3)] obtain d where
    np: "node_planned ctx registrations initial_inputs (pn_name p, d) (pn_name p, p)" by blast
  from np assms(4) have "i \<notin> set (keys (pn_input_bindings p)) \<longrightarrow> port_supplied ctx initial_inputs i a"
    by (auto simp: node_planned_def Let_def)
  moreover have "binding_bound ctx (pn_registration p) initial_inputs ib (pn_dependencies p, pn_required_dependencies p)"
    if "ib \<in> set (pn_input_bindings p)" for ib
    using np that by (auto simp: node_planned_def Let_def)
  ultimately show ?thesis
    by (fastforce simp: binding_bound_def source_bound_def sources_def is_collection_def)
qed

theorem compile_stage_ports_supplied_witness:
  "\<exists>plan scan a. snd (compile_stage demo_context demo_catalog ''review'' demo_stage [] [(''files'', ClassT ''str'')] [])
      = Inr plan \<and> scan \<in> set (plan_nodes plan) \<and> (''files'', a) \<in> set (reg_inputs (pn_registration scan)) \<and>
      port_supplied demo_context [(''files'', ClassT ''str'')] ''files'' a"
proof -
  obtain cat' plan scan result where c: "compile_stage demo_context demo_catalog ''review'' demo_stage []
      [(''files'', ClassT ''str'')] [] = (cat', Inr plan)" and n: "plan_nodes plan = [scan, result]"
    and b: "pn_input_bindings scan = []" and k: "keys (reg_inputs (pn_registration scan)) = [''files'']"
    by (rule demo_planE)
  from k obtain a where "(''files'', a) \<in> set (reg_inputs (pn_registration scan))" by (auto simp: keys_def)
  with compile_stage_ports_supplied[OF c demo_stage_wf, of scan "''files''" a] n b c show ?thesis by auto
qed

end
