(* ===== verification/Stage_Configuration.thy ===== *)
theory Stage_Configuration
  imports Compiler
begin

text \<open>
  The configuration of a whole run (\<open>engine/stages/configuration.py\<close>, \<open>catalog.py\<close>,
  \<open>contracts.py\<close>): which stages are configured, what each of them accepts and must produce, how
  their inputs are connected, and in which order they run. The validator of the configuration is
  modelled with every check in the order of the code; an accepted configuration has an order in
  which every stage comes after the stages it depends on and reads from, and every input of every
  stage has a source of a fitting type.

  What \<open>type(value)\<close> gives for a value of the interpreter is the argument \<open>type_of\<close>; installed
  packages are the argument \<open>discovered\<close>.
\<close>

section \<open>Contracts and catalog of stages\<close>

record stage_contract =
  sk_inputs :: "(string, annotation) dict"
  sk_required_outputs :: "(string, annotation) dict"

record stage_registration =
  sr_name :: string
  sr_contract :: stage_contract

datatype stage_catalog_error =
    InvalidContractPort string
  | UnsupportedContractAnnotation string annotation
  | InvalidStageName string
  | BuiltinNamesNotUnique
  | CollidesWithBuiltin string
  | StageIsBuiltin string
  | StageNotRegistered string
  | MultipleStagePackages string
  | StageLoadingFailed catalog_error
  | WrongStageRegistration string string

definition stage_contract_post_init :: "(annotation \<Rightarrow> bool) \<Rightarrow> stage_contract \<Rightarrow> stage_catalog_error + unit" where
  "stage_contract_post_init adapter_ok c =
     and_then (fold_res (\<lambda>_ port. raise_if (\<not> isidentifier port) (InvalidContractPort port)) ()
         (keys (sk_inputs c) @ keys (sk_required_outputs c))) (\<lambda>_.
     fold_res (\<lambda>_ (port, a). raise_if (\<not> adapter_ok a) (UnsupportedContractAnnotation port a)) ()
         (sk_inputs c @ sk_required_outputs c))"

definition stage_registration_post_init :: "stage_registration \<Rightarrow> stage_catalog_error + unit" where
  "stage_registration_post_init r = raise_if (\<not> isidentifier (sr_name r)) (InvalidStageName (sr_name r))"

record stage_catalog =
  scat_builtin_names :: "string list"
  scat_registrations :: "(string, stage_registration) dict"
  scat_entry_points :: "(string, stage_registration entry_point list) dict"

definition add_stage_entry_point ::
  "(string, stage_registration entry_point list) dict \<Rightarrow> stage_registration entry_point \<Rightarrow> (string, stage_registration entry_point list) dict" where
  "add_stage_entry_point eps ep =
     (if isidentifier (ep_name ep)
      then AList.update (ep_name ep) ((case map_of eps (ep_name ep) of None \<Rightarrow> [] | Some l \<Rightarrow> l) @ [ep]) eps else eps)"

definition new_stage_catalog :: "string list \<Rightarrow> stage_registration entry_point list \<Rightarrow> stage_catalog_error + stage_catalog" where
  "new_stage_catalog builtins discovered =
     and_then (raise_if (card (set builtins) \<noteq> length builtins) BuiltinNamesNotUnique) (\<lambda>_.
     let entry_points = foldl add_stage_entry_point [] discovered;
         collisions = sort (filter (\<lambda>n. n \<in> set (keys entry_points)) builtins)
     in case collisions of
          n # _ \<Rightarrow> Inl (CollidesWithBuiltin n)
        | [] \<Rightarrow> Inr \<lparr>scat_builtin_names = builtins, scat_registrations = [], scat_entry_points = entry_points\<rparr>)"

definition stage_catalog_resolve :: "stage_catalog \<Rightarrow> string \<Rightarrow> stage_catalog_error + (stage_catalog \<times> stage_registration)" where
  "stage_catalog_resolve cat name =
     (case map_of (scat_registrations cat) name of
        Some r \<Rightarrow> Inr (cat, r)
      | None \<Rightarrow>
          if name \<in> set (scat_builtin_names cat) then Inl (StageIsBuiltin name)
          else case (case map_of (scat_entry_points cat) name of None \<Rightarrow> [] | Some l \<Rightarrow> l) of
            [] \<Rightarrow> Inl (StageNotRegistered name)
          | [ep] \<Rightarrow>
              (case load_registration ep of
                 Inl e \<Rightarrow> Inl (StageLoadingFailed e)
               | Inr r \<Rightarrow>
                   if sr_name r \<noteq> name then Inl (WrongStageRegistration name (sr_name r))
                   else Inr (cat\<lparr>scat_registrations := AList.update name r (scat_registrations cat),
                                 scat_entry_points := AList.delete name (scat_entry_points cat)\<rparr>, r))
          | _ \<Rightarrow> Inl (MultipleStagePackages name))"

section \<open>Resolved contracts\<close>

record resolved_contract =
  rc_initial_inputs :: "(string, annotation) dict"
  rc_stage_inputs :: "(string, annotation) dict"
  rc_required_execution_inputs :: "string list"
  rc_required_outputs :: "(string, annotation) dict"

definition builtin_stage_names :: "string list" where
  "builtin_stage_names = [''initialize'', ''review'', ''triage'']"

definition result_formats :: annotation where
  "result_formats = TupleManyT (LiteralT [LStr ''sarif'', LStr ''json'', LStr ''html'', LStr ''csv''])"

definition optional_codegraph :: annotation where
  "optional_codegraph = UnionT [ClassT ''CodeGraphReference'', NoneT]"

definition builtin_stage_contracts :: "(string, resolved_contract) dict" where
  "builtin_stage_contracts =
     [(''initialize'', \<lparr>rc_initial_inputs = [], rc_stage_inputs = [], rc_required_execution_inputs = [], rc_required_outputs = []\<rparr>),
      (''review'',
        \<lparr>rc_initial_inputs = [(''request'', ClassT ''ReviewCommand''), (''codegraph'', ClassT ''CodeGraphReference'')],
         rc_stage_inputs = [(''codegraph'', optional_codegraph)],
         rc_required_execution_inputs = [''review_request''],
         rc_required_outputs = [(''formats'', result_formats), (''findings'', ClassT ''ReviewResult''), (''sarif'', ClassT ''SarifPayload'')]\<rparr>),
      (''triage'',
        \<lparr>rc_initial_inputs = [(''sarif'', ClassT ''SarifPayload''), (''request'', ClassT ''TriageRun''), (''codegraph'', optional_codegraph)],
         rc_stage_inputs = [(''sarif'', ClassT ''SarifPayload''), (''codegraph'', optional_codegraph)],
         rc_required_execution_inputs = [],
         rc_required_outputs = [(''formats'', result_formats), (''sarif'', ClassT ''SarifPayload'')]\<rparr>)]"

definition external_stage_contract :: "stage_registration \<Rightarrow> resolved_contract" where
  "external_stage_contract r =
     \<lparr>rc_initial_inputs = sk_inputs (sr_contract r), rc_stage_inputs = sk_inputs (sr_contract r),
      rc_required_execution_inputs = [], rc_required_outputs = sk_required_outputs (sr_contract r)\<rparr>"

section \<open>The configuration\<close>

type_synonym execution_stages = "(string, stage_configuration) dict"

record 'o execution_inputs =
  in_review_request :: "'o pyvalue"
  in_sarif :: "'o pyvalue"
  in_codegraph :: "'o pyvalue"

text \<open>\<open>getattr(inputs, name)\<close>, for a name among \<open>model_fields\<close>.\<close>

definition input_field :: "'o execution_inputs \<Rightarrow> string \<Rightarrow> 'o pyvalue option" where
  "input_field inputs name =
     (if name = ''review_request'' then Some (in_review_request inputs)
      else if name = ''sarif'' then Some (in_sarif inputs)
      else if name = ''codegraph'' then Some (in_codegraph inputs) else None)"

record ('j, 'o) execution_configuration =
  ec_inputs :: "'o execution_inputs"
  ec_stages :: execution_stages
  ec_node_configuration :: "(string, (string, (string, 'j) dict) dict) dict"

datatype pipeline_error =
    InvalidStageNames "string list"
  | NoStages
  | StageContractFailed stage_catalog_error
  | MissingStageInputs string "string list"
  | UnknownStageInputs string "string list"
  | ExecutionInputRequired string string
  | UnavailableStages string "string list"
  | MultipleFilenames string
  | FilenameNotOnResult string
  | UnknownExecutionInput string string
  | IncompatibleExecutionInput string string string
  | InvalidInputSource string string
  | UnavailableConfiguredStages "string list"
  | CyclicStages "string list"
  | PipelineKeyError string

definition validate_names :: "execution_stages \<Rightarrow> pipeline_error + unit" where
  "validate_names stages =
     (let invalid = filter (\<lambda>name. \<not> isidentifier name) (keys stages)
      in raise_if (invalid \<noteq> []) (InvalidStageNames (sort invalid)))"

definition configured :: "execution_stages \<Rightarrow> execution_stages" where
  "configured stages =
     List.map_filter (\<lambda>name. map_option (Pair name) (map_of stages name))
       (builtin_stage_names @ filter (\<lambda>name. name \<notin> set builtin_stage_names) (keys stages))"

fun resolve_contracts :: "stage_catalog \<Rightarrow> string list \<Rightarrow> stage_catalog_error + (string, resolved_contract) dict" where
  "resolve_contracts cat [] = Inr []"
| "resolve_contracts cat (name # names) =
     (case map_of builtin_stage_contracts name of
        Some c \<Rightarrow> and_then (resolve_contracts cat names) (\<lambda>rest. Inr ((name, c) # rest))
      | None \<Rightarrow> and_then (stage_catalog_resolve cat name) (\<lambda>(cat', r).
          and_then (resolve_contracts cat' names) (\<lambda>rest. Inr ((name, external_stage_contract r) # rest))))"

definition stage_contracts ::
  "stage_registration entry_point list \<Rightarrow> execution_stages \<Rightarrow> stage_catalog_error + (string, resolved_contract) dict" where
  "stage_contracts discovered stages =
     and_then (new_stage_catalog (keys builtin_stage_contracts) discovered) (\<lambda>cat.
       resolve_contracts cat (keys (configured stages)))"

definition contract_of :: "(string, resolved_contract) dict \<Rightarrow> string \<Rightarrow> pipeline_error + resolved_contract" where
  "contract_of contracts name = (case map_of contracts name of None \<Rightarrow> Inl (PipelineKeyError name) | Some c \<Rightarrow> Inr c)"

definition required_stage_inputs :: "typing_context \<Rightarrow> resolved_contract \<Rightarrow> string list" where
  "required_stage_inputs ctx c = keys (filter (\<lambda>(_, a). \<not> allows_none ctx a) (rc_stage_inputs c))"

definition missing_execution_inputs :: "'o execution_inputs \<Rightarrow> resolved_contract \<Rightarrow> string list" where
  "missing_execution_inputs inputs c = filter (\<lambda>n. input_field inputs n = Some PyNone) (rc_required_execution_inputs c)"

definition check_stage ::
  "typing_context \<Rightarrow> 'o execution_inputs \<Rightarrow> string set \<Rightarrow> (string, resolved_contract) dict \<Rightarrow> string \<times> stage_configuration \<Rightarrow> pipeline_error + unit" where
  "check_stage ctx inputs enabled contracts = (\<lambda>(name, stage).
     and_then (contract_of contracts name) (\<lambda>c.
     let unknown = set (keys (sc_inputs stage)) - set (keys (rc_stage_inputs c));
         missing = set (required_stage_inputs ctx c) - set (keys (sc_inputs stage));
         missing_execution = missing_execution_inputs inputs c;
         unavailable = set (sc_depends_on stage) - enabled
     in and_then (raise_if (missing \<noteq> {}) (MissingStageInputs name (sorted_list_of_set missing))) (\<lambda>_.
        and_then (raise_if (unknown \<noteq> {}) (UnknownStageInputs name (sorted_list_of_set unknown))) (\<lambda>_.
        and_then (raise_if (missing_execution \<noteq> []) (ExecutionInputRequired (hd (sort missing_execution)) name)) (\<lambda>_.
        raise_if (unavailable \<noteq> {}) (UnavailableStages name (sorted_list_of_set unavailable)))))))"

definition filename_source :: "stage_outputs \<Rightarrow> string" where
  "filename_source outputs =
     (if output_names outputs = [] then ''result.filename''
      else case outputs of
        OutMap d \<Rightarrow> (case map_of d ''filename'' of None \<Rightarrow> '''' | Some s \<Rightarrow> s)
      | OutNames ns \<Rightarrow> if ''filename'' \<in> set ns then ''filename'' else '''')"

definition check_filenames :: "string \<times> stage_configuration \<Rightarrow> pipeline_error + unit" where
  "check_filenames = (\<lambda>(name, stage).
     case keys (filter (\<lambda>(_, node). cn_filename node \<noteq> None) (sc_nodes stage)) of
       [] \<Rightarrow> Inr ()
     | [node_name] \<Rightarrow> raise_if (node_name \<noteq> producer_of (filename_source (sc_outputs stage))) (FilenameNotOnResult name)
     | _ \<Rightarrow> Inl (MultipleFilenames name))"

definition check_source ::
  "typing_context \<Rightarrow> ('o pyvalue \<Rightarrow> annotation) \<Rightarrow> 'o execution_inputs \<Rightarrow> string set \<Rightarrow> resolved_contract \<Rightarrow> string \<Rightarrow>
   string \<times> string \<Rightarrow> pipeline_error + unit" where
  "check_source ctx type_of inputs enabled c name = (\<lambda>(stage_input, source).
     if is_stage_input source then
       (case input_field inputs (stage_input_name source) of
          None \<Rightarrow> Inl (UnknownExecutionInput name (stage_input_name source))
        | Some v \<Rightarrow>
            and_then (raise_if (stage_input \<in> set (required_stage_inputs ctx c) \<and> v = PyNone)
                        (ExecutionInputRequired (stage_input_name source) name)) (\<lambda>_.
            if v = PyNone then Inr ()
            else case map_of (rc_stage_inputs c) stage_input of
              None \<Rightarrow> Inl (PipelineKeyError stage_input)
            | Some a \<Rightarrow> raise_if (\<not> compatible ctx (type_of v) a) (IncompatibleExecutionInput name stage_input source)))
     else let (source_stage, separator, output_name) = partition_at (CHR ''.'') source
          in raise_if (\<not> separator \<or> source_stage \<notin> enabled \<or> output_name = '''') (InvalidInputSource name source))"

definition check_sources ::
  "typing_context \<Rightarrow> ('o pyvalue \<Rightarrow> annotation) \<Rightarrow> 'o execution_inputs \<Rightarrow> string set \<Rightarrow> (string, resolved_contract) dict \<Rightarrow>
   string \<times> stage_configuration \<Rightarrow> pipeline_error + unit" where
  "check_sources ctx type_of inputs enabled contracts = (\<lambda>(name, stage).
     and_then (check_filenames (name, stage)) (\<lambda>_.
     and_then (contract_of contracts name) (\<lambda>c.
     fold_res (\<lambda>_. check_source ctx type_of inputs enabled c name) () (sc_inputs stage))))"

text \<open>The stages whose outputs a stage reads.\<close>

definition source_stages :: "stage_configuration \<Rightarrow> string list" where
  "source_stages stage = map producer_of (filter (\<lambda>s. \<not> is_stage_input s) (vals (sc_inputs stage)))"

definition stage_predecessors :: "execution_stages \<Rightarrow> (string, string set) dict" where
  "stage_predecessors stages =
     map (\<lambda>(name, stage). (name, set (sc_depends_on stage) \<union> set (source_stages stage))) (configured stages)"

definition stage_order :: "execution_stages \<Rightarrow> pipeline_error + string list" where
  "stage_order stages =
     (case topological_order (stage_predecessors stages) (keys (configured stages)) of
        Inl (CycleError names) \<Rightarrow> Inl (CyclicStages names)
      | Inl (TopoKeyError name) \<Rightarrow> Inl (PipelineKeyError name)
      | Inr order \<Rightarrow> Inr order)"

definition validate_pipeline ::
  "typing_context \<Rightarrow> ('o pyvalue \<Rightarrow> annotation) \<Rightarrow> stage_registration entry_point list \<Rightarrow> ('j, 'o) execution_configuration \<Rightarrow>
   pipeline_error + (string, resolved_contract) dict" where
  "validate_pipeline ctx type_of discovered cfg =
     (let stages = configured (ec_stages cfg); enabled = set (keys stages); inputs = ec_inputs cfg;
          unknown = set (keys (ec_node_configuration cfg)) - enabled
      in and_then (raise_if (enabled = {}) NoStages) (\<lambda>_.
         and_then (map_sum StageContractFailed id (stage_contracts discovered (ec_stages cfg))) (\<lambda>contracts.
         and_then (fold_res (\<lambda>_. check_stage ctx inputs enabled contracts) () stages) (\<lambda>_.
         and_then (fold_res (\<lambda>_. check_sources ctx type_of inputs enabled contracts) () stages) (\<lambda>_.
         and_then (raise_if (unknown \<noteq> {}) (UnavailableConfiguredStages (sorted_list_of_set unknown))) (\<lambda>_.
         and_then (stage_order (ec_stages cfg)) (\<lambda>_. Inr contracts)))))))"

definition selected_nodes :: "execution_stages \<Rightarrow> (string \<times> string) set" where
  "selected_nodes stages =
     set (concat (map (\<lambda>(stage_name, stage). map (Pair stage_name) (keys (sc_nodes stage))) (configured stages)))"

definition selected_capabilities :: "execution_stages \<Rightarrow> string set" where
  "selected_capabilities stages =
     set (concat (map (\<lambda>(_, stage). concat (map cn_capabilities (vals (sc_nodes stage)))) (configured stages)))"

section \<open>What the checks establish\<close>

lemma map_filter_lookup:
  "map_of (List.map_filter (\<lambda>n. map_option (Pair n) (f n)) ns) k = (if k \<in> set ns then f k else None)"
  by (induction ns) (auto simp: List.map_filter_simps split: option.splits)

lemma keys_map_filter: "keys (List.map_filter (\<lambda>n. map_option (Pair n) (f n)) ns) = filter (\<lambda>n. f n \<noteq> None) ns"
  by (induction ns) (auto simp: List.map_filter_simps split: option.splits)

lemma configured_lookup: "map_of (configured stages) n = map_of stages n"
  by (auto simp: configured_def map_filter_lookup map_of_None_keys[THEN iffD2])

lemma configured_keys: "set (keys (configured stages)) = set (keys stages)"
  by (simp add: set_eq_iff keys_map_of configured_lookup)

lemma configured_wf: "wf_dict stages \<Longrightarrow> wf_dict (configured stages)"
  unfolding configured_def wf_dict_keys keys_map_filter by (auto simp: builtin_stage_names_def)

lemma resolve_contracts_keys: "resolve_contracts cat names = Inr contracts \<Longrightarrow> keys contracts = names"
  by (induction names arbitrary: cat contracts) (auto simp: res_simps split: option.splits)

lemma stage_contracts_keys: "stage_contracts discovered stages = Inr contracts \<Longrightarrow> keys contracts = keys (configured stages)"
  by (auto simp: stage_contracts_def res_simps dest: resolve_contracts_keys)

lemma contract_of_Inr [simp]: "contract_of contracts n = Inr c \<longleftrightarrow> map_of contracts n = Some c"
  by (simp add: contract_of_def split: option.splits)

text \<open>A stage whose inputs are connected: what the two checks say of it.\<close>

definition source_ok ::
  "typing_context \<Rightarrow> ('o pyvalue \<Rightarrow> annotation) \<Rightarrow> 'o execution_inputs \<Rightarrow> string set \<Rightarrow> resolved_contract \<Rightarrow> string \<Rightarrow> string \<Rightarrow> bool" where
  "source_ok ctx type_of inputs available c stage_input source \<longleftrightarrow>
     (if is_stage_input source
      then \<exists>v a. input_field inputs (stage_input_name source) = Some v \<and> map_of (rc_stage_inputs c) stage_input = Some a \<and>
             (if v = PyNone then allows_none ctx a else compatible ctx (type_of v) a)
      else producer_of source \<in> available \<and> CHR ''.'' \<in> set source)"

definition stage_connected ::
  "typing_context \<Rightarrow> ('o pyvalue \<Rightarrow> annotation) \<Rightarrow> 'o execution_inputs \<Rightarrow> string set \<Rightarrow> resolved_contract \<Rightarrow> stage_configuration \<Rightarrow> bool" where
  "stage_connected ctx type_of inputs available c stage \<longleftrightarrow>
     set (sc_depends_on stage) \<subseteq> available \<and>
     (\<forall>n \<in> set (rc_required_execution_inputs c). input_field inputs n \<noteq> Some PyNone) \<and>
     (\<forall>(i, a) \<in> set (rc_stage_inputs c). allows_none ctx a \<or> i \<in> set (keys (sc_inputs stage))) \<and>
     (\<forall>(i, source) \<in> set (sc_inputs stage). i \<in> set (keys (rc_stage_inputs c)) \<and> source_ok ctx type_of inputs available c i source)"

lemma check_source_ok:
  assumes "check_source ctx type_of inputs enabled c name (i, source) = Inr ()" and "i \<in> set (keys (rc_stage_inputs c))"
  shows "source_ok ctx type_of inputs enabled c i source"
proof (cases "is_stage_input source")
  case True
  from assms(2) obtain a where a: "map_of (rc_stage_inputs c) i = Some a" by (rule map_of_keysE)
  then have "i \<in> set (required_stage_inputs ctx c)" if "\<not> allows_none ctx a"
    using that by (force simp: required_stage_inputs_def keys_def dest: map_of_SomeD)
  with assms(1) True a show ?thesis
    by (auto simp: check_source_def source_ok_def res_simps split: option.splits if_splits)
next
  case False
  with assms(1) show ?thesis
    by (auto simp: check_source_def source_ok_def res_simps Let_def producer_of_def partition_at_def)
qed

lemma stage_checks_connected:
  assumes "check_stage ctx inputs enabled contracts (name, stage) = Inr ()"
    and "check_sources ctx type_of inputs enabled contracts (name, stage) = Inr ()"
  obtains c where "map_of contracts name = Some c" and "stage_connected ctx type_of inputs enabled c stage"
proof -
  from assms(1) obtain c where c: "map_of contracts name = Some c"
    and k: "set (required_stage_inputs ctx c) \<subseteq> set (keys (sc_inputs stage))" "set (keys (sc_inputs stage)) \<subseteq> set (keys (rc_stage_inputs c))"
      "missing_execution_inputs inputs c = []" "set (sc_depends_on stage) \<subseteq> enabled"
    by (auto simp: check_stage_def res_simps Let_def)
  have "check_source ctx type_of inputs enabled c name x = Inr ()" if "x \<in> set (sc_inputs stage)" for x
    using assms(2) c that by (auto simp: check_sources_def res_simps intro: fold_res_unit)
  then have "source_ok ctx type_of inputs enabled c i source" if "(i, source) \<in> set (sc_inputs stage)" for i source
    using that k(2) by (force simp: keys_def intro: check_source_ok)
  moreover have "allows_none ctx a \<or> i \<in> set (keys (sc_inputs stage))" if "(i, a) \<in> set (rc_stage_inputs c)" for i a
    using k(1) that by (force simp: required_stage_inputs_def keys_def)
  moreover have "i \<in> set (keys (rc_stage_inputs c))" if "(i, source) \<in> set (sc_inputs stage)" for i source
    using k(2) that by (force simp: keys_def)
  moreover have "input_field inputs n \<noteq> Some PyNone" if "n \<in> set (rc_required_execution_inputs c)" for n
    using k(3) that by (auto simp: missing_execution_inputs_def filter_empty_conv)
  ultimately have "stage_connected ctx type_of inputs enabled c stage" using k(4) unfolding stage_connected_def by blast
  with that c show thesis by blast
qed

lemma stage_connected_shrink:
  assumes "stage_connected ctx type_of inputs enabled c stage"
    and "set (sc_depends_on stage) \<union> set (source_stages stage) \<subseteq> available"
  shows "stage_connected ctx type_of inputs available c stage"
proof -
  have "producer_of source \<in> available" if "(i, source) \<in> set (sc_inputs stage)" "\<not> is_stage_input source" for i source
    using assms(2) that by (force simp: source_stages_def vals_def)
  then have "source_ok ctx type_of inputs available c i source"
    if "(i, source) \<in> set (sc_inputs stage)" "source_ok ctx type_of inputs enabled c i source" for i source
    using that by (cases "is_stage_input source") (simp_all only: source_ok_def if_True if_False simp_thms)
  with assms show ?thesis unfolding stage_connected_def by blast
qed

lemma stage_order_topological: "stage_order stages = Inr order \<longleftrightarrow>
    topological_order (stage_predecessors stages) (keys (configured stages)) = Inr order"
  by (auto simp: stage_order_def split: sum.splits topo_error.splits)

lemma stage_order_sound:
  assumes "wf_dict stages" and "stage_order stages = Inr order"
  shows "distinct order" and "set order = set (keys stages)"
    and "order = ys @ n # zs \<Longrightarrow> map_of stages n = Some stage \<Longrightarrow> set (sc_depends_on stage) \<union> set (source_stages stage) \<subseteq> set ys"
proof -
  let ?p = "stage_predecessors stages" and ?f = "\<lambda>_ stage. set (sc_depends_on stage) \<union> set (source_stages stage)"
  have p: "?p = map (\<lambda>(n, s). (n, ?f n s)) (configured stages)" by (simp add: stage_predecessors_def)
  have keys: "keys ?p = keys (configured stages)" unfolding p by (rule keys_map_values)
  then have wf: "wf_dict ?p" using configured_wf[OF assms(1)] by (simp add: wf_dict_keys)
  from topo_loop_sound[OF assms(2)[unfolded stage_order_topological topological_order_def] topo_inv_init[OF wf]]
  have s: "distinct order \<and> set order = set (keys ?p) \<and> preds_before (preds_of ?p) order" .
  then show "distinct order" "set order = set (keys stages)" by (simp_all add: keys configured_keys)
  show "set (sc_depends_on stage) \<union> set (source_stages stage) \<subseteq> set ys"
    if "order = ys @ n # zs" "map_of stages n = Some stage"
  proof -
    have "preds_of ?p n = set (sc_depends_on stage) \<union> set (source_stages stage)"
      using that(2) unfolding preds_of_def p map_of_map_values configured_lookup by simp
    with s that(1) show ?thesis unfolding preds_before_def by blast
  qed
qed

lemma validate_pipelineE:
  assumes "validate_pipeline ctx type_of discovered cfg = Inr contracts"
  obtains order where "stage_contracts discovered (ec_stages cfg) = Inr contracts" and "stage_order (ec_stages cfg) = Inr order"
    and "\<forall>name stage. map_of (ec_stages cfg) name = Some stage \<longrightarrow>
      (\<exists>c. map_of contracts name = Some c \<and> stage_connected ctx type_of (ec_inputs cfg) (set (keys (ec_stages cfg))) c stage)"
proof -
  let ?stages = "configured (ec_stages cfg)" and ?enabled = "set (keys (ec_stages cfg))"
  from assms obtain order where 1: "stage_contracts discovered (ec_stages cfg) = Inr contracts" "stage_order (ec_stages cfg) = Inr order"
    and 2: "fold_res (\<lambda>_. check_stage ctx (ec_inputs cfg) ?enabled contracts) () ?stages = Inr ()"
      "fold_res (\<lambda>_. check_sources ctx type_of (ec_inputs cfg) ?enabled contracts) () ?stages = Inr ()"
    by (cases "stage_contracts discovered (ec_stages cfg)") (auto simp: validate_pipeline_def res_simps Let_def configured_keys)
  have "\<exists>c. map_of contracts name = Some c \<and> stage_connected ctx type_of (ec_inputs cfg) ?enabled c stage"
    if "map_of (ec_stages cfg) name = Some stage" for name stage
  proof -
    have "(name, stage) \<in> set ?stages" using that by (intro map_of_SomeD) (simp add: configured_lookup)
    from stage_checks_connected[OF fold_res_unit[OF 2(1) this] fold_res_unit[OF 2(2) this]] show ?thesis by blast
  qed
  with that[OF 1] show thesis by blast
qed

section \<open>Properties\<close>

text \<open>
  C12. An accepted configuration can be run: its stages have an order that contains each of them once,
  and, for the stage at every place of it, all stages it depends on and reads from stand before;
  its required execution inputs are given; every stage input that does not admit None is bound;
  every bound input is one the contract declares, and its source is either written as an output of
  an earlier stage, or is an execution input that has a type the contract accepts, or that is None
  where the contract admits None. Whether the earlier stage has that output, and of which type, is
  not part of the validation: the compilation of the stages checks it.
\<close>

theorem validated_pipeline_ordered:
  assumes "wf_dict (ec_stages cfg)" and "validate_pipeline ctx type_of discovered cfg = Inr contracts"
  shows "\<exists>order. stage_order (ec_stages cfg) = Inr order \<and> distinct order \<and> set order = set (keys (ec_stages cfg)) \<and>
    (\<forall>ys n zs stage. order = ys @ n # zs \<and> map_of (ec_stages cfg) n = Some stage \<longrightarrow>
       (\<exists>c. map_of contracts n = Some c \<and> stage_connected ctx type_of (ec_inputs cfg) (set ys) c stage))"
proof -
  obtain order where "stage_contracts discovered (ec_stages cfg) = Inr contracts" and order: "stage_order (ec_stages cfg) = Inr order"
    and conn: "\<forall>name stage. map_of (ec_stages cfg) name = Some stage \<longrightarrow>
      (\<exists>c. map_of contracts name = Some c \<and> stage_connected ctx type_of (ec_inputs cfg) (set (keys (ec_stages cfg))) c stage)"
    by (rule validate_pipelineE[OF assms(2)])
  note sound = stage_order_sound[OF assms(1) order]
  have "\<exists>c. map_of contracts n = Some c \<and> stage_connected ctx type_of (ec_inputs cfg) (set ys) c stage"
    if "order = ys @ n # zs" "map_of (ec_stages cfg) n = Some stage" for ys n zs stage
    using conn[rule_format, OF that(2)] stage_connected_shrink[OF _ sound(3)[OF that]] by blast
  with order sound(1,2) show ?thesis by blast
qed

definition demo_pipeline_stage :: "string list \<Rightarrow> (string, string) dict \<Rightarrow> stage_configuration" where
  "demo_pipeline_stage deps inputs = \<lparr>sc_depends_on = deps, sc_inputs = inputs, sc_outputs = OutNames [''sarif''], sc_nodes = [(''sarif'', demo_node)]\<rparr>"

definition demo_pipeline :: "(unit, string) execution_configuration" where
  "demo_pipeline =
     \<lparr>ec_inputs = \<lparr>in_review_request = PyObject ''command'', in_sarif = PyNone, in_codegraph = PyNone\<rparr>,
      ec_stages = [(''triage'', demo_pipeline_stage [] [(''sarif'', ''review.sarif'')]),
        (''review'', demo_pipeline_stage [''initialize''] [(''codegraph'', ''$inputs.codegraph'')]),
        (''initialize'', demo_pipeline_stage [] [])],
      ec_node_configuration = []\<rparr>"

theorem validated_pipeline_ordered_witness:
  "\<exists>contracts. validate_pipeline demo_context (\<lambda>_. ClassT ''str'') [] demo_pipeline = Inr contracts \<and>
     (\<exists>order. stage_order (ec_stages demo_pipeline) = Inr order \<and> distinct order \<and> set order = {''initialize'', ''review'', ''triage''})"
proof -
  have "case validate_pipeline demo_context (\<lambda>_. ClassT ''str'') [] demo_pipeline of Inl _ \<Rightarrow> False | Inr _ \<Rightarrow> True" by code_simp
  then obtain contracts where "validate_pipeline demo_context (\<lambda>_. ClassT ''str'') [] demo_pipeline = Inr contracts"
    by (auto split: sum.splits)
  moreover have "wf_dict (ec_stages demo_pipeline)" by code_simp
  moreover have "set (keys (ec_stages demo_pipeline)) = {''initialize'', ''review'', ''triage''}" by (auto simp: demo_pipeline_def)
  ultimately show ?thesis using validated_pipeline_ordered by metis
qed

end
