(* ===== verification/Runner.thy ===== *)
theory Runner
  imports Compiler
begin

text \<open>
  Execution of a compiled stage (\<open>engine/execution/runner.py\<close>): resolving a node's inputs, calling
  its handler and validating what it returns (\<open>_run_node\<close>), the scheduling loop of \<open>run_stage\<close>
  with its concurrently running nodes, and the result of the stage.

  A node runs on a worker thread against a copy of the outputs taken when it was submitted; the
  loop learns of finished nodes in any order. One turn of the loop is a step of \<open>stage_step\<close>,
  which leaves open which of the running nodes have finished and in which order the loop sees
  them. The main result is that none of this matters: every run that ends gives the result of
  evaluating the nodes one after the other in plan order.

  Arguments of the model: the handlers (fields of the registrations), Pydantic's validation of a
  value against an annotation (\<open>env_validate\<close>), the text of a failed configuration validation.
  A handler's outcome covers its own job scope: \<open>HandlerCancelled\<close> stands for a handler that
  raises \<open>CancelledError\<close> and for one whose scope is cancelled when it returns without an error.
  Progress events, the run log and the callbacks are not modelled.
\<close>

section \<open>Errors and state\<close>

type_synonym 'o outputs = "(string, (string, 'o pyvalue) dict) dict"

datatype node_error =
    RequiresValue string
  | ValidationFailed string
  | SourceKeyError string
  | SourceStopIteration
  | ConfigurationFailed string
  | HandlerError string
  | NotANodeResult
  | BadResultStatus
  | BadResultOutputs
  | BadResultDiagnostics
  | WrongOutputs "string list" "string list"
  | InvalidOutputValue string string

datatype 'o node_run = NodeRunCancelled | NodeRun "'o pyvalue node_result"

record ('j, 'o) runner_env =
  env_aliases :: alias_env
  env_validate :: "annotation \<Rightarrow> 'o pyvalue \<Rightarrow> string + 'o pyvalue"
  env_configuration_error :: "(string, 'j) dict \<Rightarrow> string"
  env_stage :: string
  env_model :: string
  env_max_workers :: int

record 'o stage_run =
  run_status :: execution_status
  run_outputs :: "(string, 'o pyvalue) dict"
  run_diagnostics :: "execution_diagnostic list"

section \<open>Running one node\<close>

definition get_or_none :: "(string, 'o pyvalue) dict \<Rightarrow> string \<Rightarrow> 'o pyvalue" where
  "get_or_none d k = (case map_of d k of None \<Rightarrow> PyNone | Some v \<Rightarrow> v)"

definition resolve_source :: "string \<Rightarrow> 'o outputs \<Rightarrow> (string, 'o pyvalue) dict \<Rightarrow> node_error + 'o pyvalue" where
  "resolve_source source outputs initial_inputs =
     (if is_stage_input source then Inr (get_or_none initial_inputs (stage_input_name source))
      else let (producer_name, separator, output_name) = partition_at (CHR ''.'') source in
        case map_of outputs producer_name of
          None \<Rightarrow> Inl (SourceKeyError producer_name)
        | Some producer_outputs \<Rightarrow>
            if separator then
              (case map_of producer_outputs output_name of
                 None \<Rightarrow> Inl (SourceKeyError output_name)
               | Some v \<Rightarrow> Inr v)
            else (case producer_outputs of [] \<Rightarrow> Inl SourceStopIteration | (_, v) # _ \<Rightarrow> Inr v))"

definition source_is_available :: "string \<Rightarrow> 'o outputs \<Rightarrow> bool" where
  "source_is_available source outputs =
     (let (producer_name, separator, output_name) = partition_at (CHR ''.'') source in
      case map_of outputs producer_name of
        None \<Rightarrow> False
      | Some producer_outputs \<Rightarrow> \<not> separator \<or> output_name \<in> set (keys producer_outputs))"

definition single_or_mapping :: "(string, 'o pyvalue) dict \<Rightarrow> 'o pyvalue" where
  "single_or_mapping values = (case values of [(_, v)] \<Rightarrow> v | _ \<Rightarrow> PyMapping values)"

definition resolve_value :: "('j, 'o) runner_env \<Rightarrow> 'o outputs \<Rightarrow> (string, 'o pyvalue) dict
    \<Rightarrow> string \<Rightarrow> annotation \<Rightarrow> input_binding option \<Rightarrow> node_error + 'o pyvalue" where
  "resolve_value env outputs initial_inputs input_name annotation source =
     (case source of
        None \<Rightarrow> Inr (get_or_none initial_inputs input_name)
      | Some (Many items) \<Rightarrow>
          and_then (map_res (\<lambda>item. resolve_source item outputs initial_inputs)
            (filter (\<lambda>item. is_stage_input item \<or> source_is_available item outputs) items))
            (\<lambda>vs. Inr (PyTuple vs))
      | Some (One s) \<Rightarrow>
          if is_stage_input s then Inr (get_or_none initial_inputs (stage_input_name s))
          else if \<not> source_is_available s outputs \<and> annotation_allows_none (env_aliases env) annotation
          then Inr PyNone
          else resolve_source s outputs initial_inputs)"

definition resolve_input :: "('j, 'o) runner_env \<Rightarrow> (string, input_binding) dict \<Rightarrow> 'o outputs
    \<Rightarrow> (string, 'o pyvalue) dict \<Rightarrow> string \<times> annotation \<Rightarrow> node_error + (string \<times> 'o pyvalue)" where
  "resolve_input env bindings outputs initial_inputs port =
     (let (input_name, annotation) = port; source = map_of bindings input_name in
      and_then (resolve_value env outputs initial_inputs input_name annotation source) (\<lambda>v.
      and_then (raise_if (source \<noteq> None \<and> is_collection (the source) \<and> v = PyTuple []
          \<and> \<not> annotation_allows_none (env_aliases env) annotation) (RequiresValue input_name)) (\<lambda>_.
      case env_validate env annotation v of
        Inl msg \<Rightarrow> Inl (ValidationFailed msg)
      | Inr validated \<Rightarrow> Inr (input_name, validated))))"

definition resolve_inputs :: "('j, 'o) runner_env \<Rightarrow> ('j, 'm, 'o pyvalue, 'cap) planned_node \<Rightarrow> 'o outputs
    \<Rightarrow> (string, 'o pyvalue) dict \<Rightarrow> node_error + (string, 'o pyvalue) dict" where
  "resolve_inputs env node outputs initial_inputs =
     map_res (resolve_input env (pn_input_bindings node) outputs initial_inputs) (reg_inputs (pn_registration node))"

definition validate_outputs :: "('j, 'o) runner_env \<Rightarrow> ('j, 'm, 'o pyvalue, 'cap) node_registration
    \<Rightarrow> (string, 'o pyvalue) dict \<Rightarrow> node_error + (string, 'o pyvalue) dict" where
  "validate_outputs env registration outputs =
     (let expected = set (keys (reg_outputs registration)); actual = set (keys outputs) in
      and_then (raise_if (actual \<noteq> expected) (WrongOutputs (sorted_list_of_set actual) (sorted_list_of_set expected)))
      (\<lambda>_. map_res (\<lambda>(name, annotation).
          case map_of outputs name of
            None \<Rightarrow> Inl (SourceKeyError name)
          | Some v \<Rightarrow>
              (case env_validate env annotation v of
                 Inl msg \<Rightarrow> Inl (InvalidOutputValue name msg)
               | Inr validated \<Rightarrow> Inr (name, validated))) (reg_outputs registration)))"

text \<open>The checks on what a handler returned.\<close>

definition checked_result :: "'v raw_result \<Rightarrow> node_error + 'v node_result" where
  "checked_result raw =
     (case raw_status raw of
        None \<Rightarrow> Inl BadResultStatus
      | Some status \<Rightarrow>
          (case raw_outputs raw of
             None \<Rightarrow> Inl BadResultOutputs
           | Some outs \<Rightarrow>
               (case raw_diagnostics raw of
                  None \<Rightarrow> Inl BadResultDiagnostics
                | Some ds \<Rightarrow>
                    if list_all (\<lambda>d. diag_severity d \<in> {''warning'', ''error''}) ds
                    then Inr \<lparr>res_outputs = outs, res_status = status, res_diagnostics = ds\<rparr>
                    else Inl BadResultDiagnostics)))"

definition error_text :: "node_error \<Rightarrow> string" where
  "error_text e =
     (case e of
        RequiresValue i \<Rightarrow> ''input '' @ repr_str i @ '' requires at least one value''
      | ValidationFailed msg \<Rightarrow> msg
      | SourceKeyError k \<Rightarrow> repr_str k
      | SourceStopIteration \<Rightarrow> ''''
      | ConfigurationFailed msg \<Rightarrow> msg
      | HandlerError msg \<Rightarrow> msg
      | NotANodeResult \<Rightarrow> ''handler must return a NodeResult''
      | BadResultStatus \<Rightarrow> ''NodeResult status must be an ExecutionStatus''
      | BadResultOutputs \<Rightarrow> ''NodeResult outputs must be a mapping''
      | BadResultDiagnostics \<Rightarrow> ''NodeResult diagnostics must be ExecutionDiagnostic values''
      | WrongOutputs actual expected \<Rightarrow>
          ''returned outputs '' @ repr_list actual @ ''; expected '' @ repr_list expected
      | InvalidOutputValue name msg \<Rightarrow> ''returned an invalid '' @ repr_str name @ '' output: '' @ msg)"

definition node_failure :: "('j, 'o) runner_env \<Rightarrow> string \<Rightarrow> execution_diagnostic list \<Rightarrow> node_error \<Rightarrow> 'o node_run" where
  "node_failure env name diagnostics e =
     NodeRun \<lparr>res_outputs = [], res_status = ERROR,
       res_diagnostics = diagnostics @ [\<lparr>diag_code = ''execution.node_failed'',
         diag_message = ''Execution node '' @ env_stage env @ ''.'' @ name @ '' failed: '' @ error_text e,
         diag_severity = ''error''\<rparr>]\<rparr>"

definition node_max_concurrency :: "('j, 'o) runner_env \<Rightarrow> configured_node \<Rightarrow> int" where
  "node_max_concurrency env d =
     min (case cn_max_concurrency d of
            None \<Rightarrow> env_max_workers env
          | Some k \<Rightarrow> if k = 0 then env_max_workers env else k) (env_max_workers env)"

definition node_model :: "('j, 'o) runner_env \<Rightarrow> configured_node \<Rightarrow> string" where
  "node_model env d =
     (case cn_model d of None \<Rightarrow> env_model env | Some m \<Rightarrow> if m = [] then env_model env else m)"

definition invocation :: "('j, 'o) runner_env \<Rightarrow> ('j, 'm, 'o pyvalue, 'cap) planned_node \<Rightarrow> 'm
    \<Rightarrow> (string, 'o pyvalue) dict \<Rightarrow> ('m, 'o pyvalue, 'cap) node_invocation" where
  "invocation env node configuration inputs =
     \<lparr>inv_configuration = configuration, inv_inputs = inputs, inv_capabilities = pn_capabilities node,
      inv_model = node_model env (pn_definition node),
      inv_max_workers = node_max_concurrency env (pn_definition node),
      inv_formats = cn_formats (pn_definition node), inv_filename = cn_filename (pn_definition node)\<rparr>"

definition run_node :: "('j, 'o) runner_env \<Rightarrow> (string, 'o pyvalue) dict
    \<Rightarrow> ('j, 'm, 'o pyvalue, 'cap) planned_node \<Rightarrow> 'o outputs \<Rightarrow> 'o node_run" where
  "run_node env initial_inputs node outputs =
     (case resolve_inputs env node outputs initial_inputs of
        Inl e \<Rightarrow> node_failure env (pn_name node) [] e
      | Inr inputs \<Rightarrow>
          (case reg_configuration (pn_registration node) (pn_configuration_values node) of
             None \<Rightarrow> node_failure env (pn_name node) []
               (ConfigurationFailed (env_configuration_error env (pn_configuration_values node)))
           | Some configuration \<Rightarrow>
               (case reg_execute (pn_registration node) (invocation env node configuration inputs) of
                  HandlerCancelled \<Rightarrow> NodeRunCancelled
                | HandlerRaised msg \<Rightarrow> node_failure env (pn_name node) [] (HandlerError msg)
                | HandlerReturnedOther \<Rightarrow> node_failure env (pn_name node) [] NotANodeResult
                | HandlerReturned raw \<Rightarrow>
                    (case checked_result raw of
                       Inl e \<Rightarrow> node_failure env (pn_name node) [] e
                     | Inr r \<Rightarrow>
                         if res_status r = ERROR then NodeRun (r\<lparr>res_outputs := []\<rparr>)
                         else (case validate_outputs env (pn_registration node) (res_outputs r) of
                                 Inl e \<Rightarrow> node_failure env (pn_name node) (res_diagnostics r) e
                               | Inr validated \<Rightarrow> NodeRun (r\<lparr>res_outputs := validated\<rparr>))))))"

section \<open>The scheduling loop\<close>

text \<open>A submitted future is identified by its node's name; it holds the node and the copy of the
  outputs the node was submitted with.\<close>

record ('j, 'm, 'o, 'cap) stage_state =
  st_outputs :: "'o outputs"
  st_diagnostics :: "(string, execution_diagnostic list) dict"
  st_status :: execution_status
  st_failed :: "string set"
  st_completed :: "string set"
  st_pending :: "string set"
  st_running :: "(string, ('j, 'm, 'o pyvalue, 'cap) planned_node \<times> 'o outputs) dict"

datatype stage_failure = NodeCancelled string | StageCancelled | SchedulerStalled

definition initial_state :: "('j, 'm, 'o pyvalue, 'cap) stage_plan \<Rightarrow> ('j, 'm, 'o, 'cap) stage_state" where
  "initial_state plan = \<lparr>st_outputs = [], st_diagnostics = [], st_status = OK, st_failed = {},
     st_completed = {}, st_pending = set (map pn_name (plan_nodes plan)), st_running = []\<rparr>"

definition dispatch_node :: "('j, 'm, 'o, 'cap) stage_state \<Rightarrow> ('j, 'm, 'o pyvalue, 'cap) planned_node
    \<Rightarrow> ('j, 'm, 'o, 'cap) stage_state" where
  "dispatch_node s node =
     (if pn_name node \<notin> st_pending s \<or> \<not> pn_dependencies node \<subseteq> st_completed s then s
      else let s1 = s\<lparr>st_pending := st_pending s - {pn_name node}\<rparr> in
        if pn_required_dependencies node \<inter> st_failed s \<noteq> {}
        then s1\<lparr>st_failed := insert (pn_name node) (st_failed s),
                st_completed := insert (pn_name node) (st_completed s)\<rparr>
        else s1\<lparr>st_running := AList.update (pn_name node) (node, st_outputs s) (st_running s)\<rparr>)"

definition dispatch :: "('j, 'm, 'o pyvalue, 'cap) stage_plan \<Rightarrow> ('j, 'm, 'o, 'cap) stage_state
    \<Rightarrow> ('j, 'm, 'o, 'cap) stage_state" where
  "dispatch plan s = foldl dispatch_node s (plan_nodes plan)"

definition record_result :: "string \<Rightarrow> 'o pyvalue node_result \<Rightarrow> ('j, 'm, 'o, 'cap) stage_state
    \<Rightarrow> ('j, 'm, 'o, 'cap) stage_state" where
  "record_result name r s =
     (let s1 = s\<lparr>st_completed := insert name (st_completed s),
                 st_diagnostics := AList.update name (res_diagnostics r) (st_diagnostics s)\<rparr> in
      if res_status r = ERROR then s1\<lparr>st_failed := insert name (st_failed s)\<rparr>
      else s1\<lparr>st_outputs := AList.update name (res_outputs r) (st_outputs s),
              st_status := if res_status r = INCONCLUSIVE \<and> st_status s = OK then INCONCLUSIVE
                           else st_status s\<rparr>)"

definition finish_node :: "('j, 'o) runner_env \<Rightarrow> (string, 'o pyvalue) dict \<Rightarrow> ('j, 'm, 'o, 'cap) stage_state
    \<Rightarrow> string \<Rightarrow> stage_failure + ('j, 'm, 'o, 'cap) stage_state" where
  "finish_node env initial_inputs s name =
     (case map_of (st_running s) name of
        None \<Rightarrow> Inr s
      | Some (node, outputs) \<Rightarrow>
          let s1 = s\<lparr>st_running := AList.delete name (st_running s)\<rparr> in
          (case run_node env initial_inputs node outputs of
             NodeRunCancelled \<Rightarrow> Inl (NodeCancelled name)
           | NodeRun r \<Rightarrow> Inr (record_result name r s1)))"

text \<open>One turn of the loop, given the futures that \<open>wait\<close> reports as finished.\<close>

definition loop_turn :: "('j, 'o) runner_env \<Rightarrow> (string, 'o pyvalue) dict \<Rightarrow> ('j, 'm, 'o pyvalue, 'cap) stage_plan
    \<Rightarrow> string list \<Rightarrow> ('j, 'm, 'o, 'cap) stage_state \<Rightarrow> stage_failure + ('j, 'm, 'o, 'cap) stage_state" where
  "loop_turn env initial_inputs plan finished s =
     (let s1 = dispatch plan s in
      if st_running s1 = []
      then (if st_pending s1 \<noteq> {} then Inl SchedulerStalled else Inr s1)
      else fold_res (finish_node env initial_inputs) s1 finished)"

datatype ('j, 'm, 'o, 'cap) stage_config =
    Looping "('j, 'm, 'o, 'cap) stage_state"
  | Ended "stage_failure + ('j, 'm, 'o, 'cap) stage_state"

definition is_over :: "('j, 'm, 'o, 'cap) stage_state \<Rightarrow> bool" where
  "is_over s \<longleftrightarrow> st_pending s = {} \<and> st_running s = []"

text \<open>
  The loop as a transition system, labelled with what the loop observes: the futures that
  \<open>wait\<close> reports, in the order in which the loop takes them (none when \<open>wait\<close> times out), the end
  of the loop, or a request to cancel the stage, which may be seen at the head of any turn and
  after the loop.
\<close>

datatype stage_event = Finished "string list" | LoopDone | CancelSeen

inductive stage_step :: "('j, 'o) runner_env \<Rightarrow> (string, 'o pyvalue) dict \<Rightarrow> ('j, 'm, 'o pyvalue, 'cap) stage_plan
    \<Rightarrow> ('j, 'm, 'o, 'cap) stage_config \<Rightarrow> stage_event \<Rightarrow> ('j, 'm, 'o, 'cap) stage_config \<Rightarrow> bool"
  for env initial_inputs plan where
  turn: "\<not> is_over s \<Longrightarrow> distinct finished \<Longrightarrow> set finished \<subseteq> set (keys (st_running (dispatch plan s)))
    \<Longrightarrow> loop_turn env initial_inputs plan finished s = Inr s'
    \<Longrightarrow> stage_step env initial_inputs plan (Looping s) (Finished finished) (Looping s')"
| turn_fails: "\<not> is_over s \<Longrightarrow> distinct finished \<Longrightarrow> set finished \<subseteq> set (keys (st_running (dispatch plan s)))
    \<Longrightarrow> loop_turn env initial_inputs plan finished s = Inl e
    \<Longrightarrow> stage_step env initial_inputs plan (Looping s) (Finished finished) (Ended (Inl e))"
| loop_ends: "is_over s \<Longrightarrow> stage_step env initial_inputs plan (Looping s) LoopDone (Ended (Inr s))"
| cancel: "stage_step env initial_inputs plan (Looping s) CancelSeen (Ended (Inl StageCancelled))"

inductive_cases stage_step_LoopingE: "stage_step env initial_inputs plan (Looping s) ev c"
inductive_simps stage_step_Ended: "stage_step env initial_inputs plan (Ended r) ev c"

inductive stage_trace :: "('j, 'o) runner_env \<Rightarrow> (string, 'o pyvalue) dict \<Rightarrow> ('j, 'm, 'o pyvalue, 'cap) stage_plan
    \<Rightarrow> stage_event list \<Rightarrow> ('j, 'm, 'o, 'cap) stage_config \<Rightarrow> bool"
  for env initial_inputs plan where
  trace_start: "stage_trace env initial_inputs plan [] (Looping (initial_state plan))"
| trace_step: "stage_trace env initial_inputs plan evs c \<Longrightarrow> stage_step env initial_inputs plan c ev c'
    \<Longrightarrow> stage_trace env initial_inputs plan (evs @ [ev]) c'"

section \<open>The result of the stage\<close>

definition tolerated_failures :: "('j, 'm, 'o pyvalue, 'cap) stage_plan \<Rightarrow> string set" where
  "tolerated_failures plan =
     set (concat (map (\<lambda>node. concat (map (\<lambda>(input_name, binding).
        if is_collection binding \<and> input_name \<notin> set (reg_required_when_bound (pn_registration node))
        then map producer_of (filter (\<lambda>s. \<not> is_stage_input s) (sources binding)) else [])
        (pn_input_bindings node))) (plan_nodes plan)))"

definition output_producers :: "('j, 'm, 'o pyvalue, 'cap) stage_plan \<Rightarrow> string set" where
  "output_producers plan = set (map producer_of (vals (plan_output_bindings plan)))"

definition final_status :: "('j, 'm, 'o pyvalue, 'cap) stage_plan \<Rightarrow> execution_status \<Rightarrow> string set
    \<Rightarrow> execution_status" where
  "final_status plan status failed =
     (if failed = {} then status
      else let fatal = (failed - tolerated_failures plan) \<union> (failed \<inter> output_producers plan)
        in if fatal \<noteq> {} then ERROR else INCONCLUSIVE)"

definition stage_outputs_of :: "('j, 'm, 'o pyvalue, 'cap) stage_plan \<Rightarrow> 'o outputs
    \<Rightarrow> node_error + (string, 'o pyvalue) dict" where
  "stage_outputs_of plan outputs =
     (if plan_output_bindings plan = []
      then Inr (List.map_filter (\<lambda>node. map_option (\<lambda>v. (pn_name node, single_or_mapping v))
             (map_of outputs (pn_name node))) (plan_nodes plan))
      else map_res (\<lambda>(name, source). and_then (resolve_source source outputs []) (\<lambda>v. Inr (name, v)))
             (filter (\<lambda>(_, source). source_is_available source outputs) (plan_output_bindings plan)))"

definition conclude :: "('j, 'm, 'o pyvalue, 'cap) stage_plan \<Rightarrow> ('j, 'm, 'o, 'cap) stage_state
    \<Rightarrow> node_error + 'o stage_run" where
  "conclude plan s =
     and_then (stage_outputs_of plan (st_outputs s)) (\<lambda>outs.
       Inr \<lparr>run_status = final_status plan (st_status s) (st_failed s), run_outputs = outs,
            run_diagnostics = concat (map (\<lambda>node. case map_of (st_diagnostics s) (pn_name node) of
              None \<Rightarrow> [] | Some ds \<Rightarrow> ds) (plan_nodes plan))\<rparr>)"

section \<open>Sequential reference\<close>

text \<open>The meaning of a plan without concurrency: the nodes are evaluated in plan order, each on
  the outputs of the nodes before it.\<close>

datatype 'o node_outcome = Skipped | Ran "'o node_run"

fun out_outputs :: "'o node_outcome \<Rightarrow> (string, 'o pyvalue) dict option" where
  "out_outputs (Ran (NodeRun r)) = (if res_status r = ERROR then None else Some (res_outputs r))"
| "out_outputs _ = None"

fun out_diagnostics :: "'o node_outcome \<Rightarrow> execution_diagnostic list option" where
  "out_diagnostics (Ran (NodeRun r)) = Some (res_diagnostics r)"
| "out_diagnostics _ = None"

fun out_failed :: "'o node_outcome \<Rightarrow> bool" where
  "out_failed Skipped = True"
| "out_failed (Ran (NodeRun r)) = (res_status r = ERROR)"
| "out_failed (Ran NodeRunCancelled) = False"

fun out_inconclusive :: "'o node_outcome \<Rightarrow> bool" where
  "out_inconclusive (Ran (NodeRun r)) = (res_status r = INCONCLUSIVE)"
| "out_inconclusive _ = False"

definition outputs_of :: "(string, 'o node_outcome) dict \<Rightarrow> 'o outputs" where
  "outputs_of refs = List.map_filter (\<lambda>(n, out). map_option (Pair n) (out_outputs out)) refs"

definition failed_of :: "(string, 'o node_outcome) dict \<Rightarrow> string set" where
  "failed_of refs = set (keys (filter (\<lambda>(_, out). out_failed out) refs))"

definition eval_node :: "('j, 'o) runner_env \<Rightarrow> (string, 'o pyvalue) dict \<Rightarrow> (string, 'o node_outcome) dict
    \<Rightarrow> ('j, 'm, 'o pyvalue, 'cap) planned_node \<Rightarrow> 'o node_outcome" where
  "eval_node env initial_inputs refs node =
     (if pn_required_dependencies node \<inter> failed_of refs \<noteq> {} then Skipped
      else Ran (run_node env initial_inputs node (outputs_of refs)))"

definition eval_nodes :: "('j, 'o) runner_env \<Rightarrow> (string, 'o pyvalue) dict
    \<Rightarrow> ('j, 'm, 'o pyvalue, 'cap) planned_node list \<Rightarrow> (string, 'o node_outcome) dict" where
  "eval_nodes env initial_inputs nodes =
     foldl (\<lambda>refs node. refs @ [(pn_name node, eval_node env initial_inputs refs node)]) [] nodes"

definition sequential_state :: "(string, 'o node_outcome) dict \<Rightarrow> ('j, 'm, 'o, 'cap) stage_state" where
  "sequential_state refs =
     \<lparr>st_outputs = outputs_of refs,
      st_diagnostics = List.map_filter (\<lambda>(n, out). map_option (Pair n) (out_diagnostics out)) refs,
      st_status = (if list_ex out_inconclusive (vals refs) then INCONCLUSIVE else OK),
      st_failed = failed_of refs, st_completed = set (keys refs), st_pending = {}, st_running = []\<rparr>"

definition any_cancelled :: "(string, 'o node_outcome) dict \<Rightarrow> bool" where
  "any_cancelled refs = list_ex (\<lambda>out. case out of Ran NodeRunCancelled \<Rightarrow> True | _ \<Rightarrow> False) (vals refs)"

text \<open>\<open>None\<close>: some node is cancelled, so the stage ends as cancelled.\<close>

definition sequential_run :: "('j, 'o) runner_env \<Rightarrow> (string, 'o pyvalue) dict
    \<Rightarrow> ('j, 'm, 'o pyvalue, 'cap) stage_plan \<Rightarrow> (node_error + 'o stage_run) option" where
  "sequential_run env initial_inputs plan =
     (let refs = eval_nodes env initial_inputs (plan_nodes plan) in
      if any_cancelled refs then None
      else Some (conclude plan (sequential_state refs :: ('j, 'm, 'o, 'cap) stage_state)))"

section \<open>Plans the loop can run\<close>

definition runnable :: "('j, 'm, 'v, 'cap) stage_plan \<Rightarrow> bool" where
  "runnable plan \<longleftrightarrow>
     distinct (map pn_name (plan_nodes plan)) \<and>
     (\<forall>ys p zs. plan_nodes plan = ys @ p # zs \<longrightarrow> pn_dependencies p \<subseteq> set (map pn_name ys)) \<and>
     (\<forall>p \<in> set (plan_nodes plan). pn_required_dependencies p \<subseteq> pn_dependencies p \<and>
        (\<forall>(i, b) \<in> set (pn_input_bindings p). \<forall>s \<in> set (sources b).
           is_stage_input s \<or> producer_of s \<in> pn_dependencies p))"

lemma runnable_deps:
  assumes "runnable plan" and "p \<in> set (plan_nodes plan)"
  shows "pn_dependencies p \<subseteq> set (map pn_name (plan_nodes plan))"
proof -
  from split_list[OF assms(2)] obtain ys zs where dec: "plan_nodes plan = ys @ p # zs" by blast
  with assms(1) have "pn_dependencies p \<subseteq> set (map pn_name ys)" unfolding runnable_def by blast
  with dec show ?thesis by auto
qed

text \<open>What the compiler produces can be run.\<close>

lemma node_planned_facts:
  assumes "node_planned ctx registrations initial (name, d) (n, p)"
  shows "pn_required_dependencies p \<subseteq> pn_dependencies p"
    and "ib \<in> set (pn_input_bindings p) \<Longrightarrow>
      binding_bound ctx (pn_registration p) initial ib (pn_dependencies p, pn_required_dependencies p)"
  using assms unfolding node_planned_def Let_def prod.case by blast+

lemma plan_ok_runnable:
  assumes "plan_ok ctx stage registrations initial plan"
  shows "runnable plan"
proof -
  have "pn_required_dependencies p \<subseteq> pn_dependencies p \<and>
        (\<forall>(i, b) \<in> set (pn_input_bindings p). \<forall>s \<in> set (sources b).
           is_stage_input s \<or> producer_of s \<in> pn_dependencies p)" if p: "p \<in> set (plan_nodes plan)" for p
  proof -
    from plan_ok_node[OF assms p] obtain d
      where np: "node_planned ctx registrations initial (pn_name p, d) (pn_name p, p)" by blast
    have "is_stage_input src \<or> producer_of src \<in> pn_dependencies p"
      if "(i, b) \<in> set (pn_input_bindings p)" and src: "src \<in> set (sources b)" for i b src
    proof -
      have "binding_bound ctx (pn_registration p) initial (i, b) (pn_dependencies p, pn_required_dependencies p)"
        using node_planned_facts(2)[OF np that(1)] .
      then obtain target where "source_bound ctx (pn_registration p) initial i target (is_collection b)
          (pn_dependencies p, pn_required_dependencies p) src"
        using src by (auto simp: binding_bound_def)
      then show ?thesis by (simp add: source_bound_def split: if_splits)
    qed
    moreover have "pn_required_dependencies p \<subseteq> pn_dependencies p"
      using node_planned_facts(1)[OF np] .
    ultimately show ?thesis by blast
  qed
  moreover have "distinct (map pn_name (plan_nodes plan))"
    and "\<forall>ys p zs. plan_nodes plan = ys @ p # zs \<longrightarrow> pn_dependencies p \<subseteq> set (map pn_name ys)"
    using assms unfolding plan_ok_def Let_def by blast+
  ultimately show ?thesis unfolding runnable_def by blast
qed

subsection \<open>A node sees only its dependencies\<close>

lemma source_local:
  assumes "map_of outs (producer_of s) = map_of outs' (producer_of s)"
  shows "source_is_available s outs = source_is_available s outs'"
    and "resolve_source s outs initial = resolve_source s outs' initial"
  using assms by (auto simp: source_is_available_def resolve_source_def producer_of_def Let_def split: prod.splits)

lemma resolve_value_local:
  assumes "\<And>s. s \<in> set (case source of None \<Rightarrow> [] | Some b \<Rightarrow> sources b) \<Longrightarrow>
      is_stage_input s \<or> map_of outs (producer_of s) = map_of outs' (producer_of s)"
  shows "resolve_value env outs initial i a source = resolve_value env outs' initial i a source"
proof (cases source)
  case None
  then show ?thesis by (simp add: resolve_value_def)
next
  case (Some b)
  show ?thesis
  proof (cases b)
    case (One s)
    with assms[of s] Some have "is_stage_input s \<or> map_of outs (producer_of s) = map_of outs' (producer_of s)"
      by (simp add: sources_def)
    then show ?thesis
      using source_local[of outs s outs'] Some One by (cases "is_stage_input s") (simp_all add: resolve_value_def)
  next
    case (Many items)
    have *: "is_stage_input s \<or> map_of outs (producer_of s) = map_of outs' (producer_of s)" if "s \<in> set items" for s
      using assms[of s] that Some Many by (simp add: sources_def)
    then have "filter (\<lambda>item. is_stage_input item \<or> source_is_available item outs) items
        = filter (\<lambda>item. is_stage_input item \<or> source_is_available item outs') items"
      by (intro filter_cong) (auto dest: source_local(1))
    moreover have "resolve_source s outs initial = resolve_source s outs' initial" if "s \<in> set items" for s
      using *[OF that] by (cases "is_stage_input s") (simp add: resolve_source_def, blast intro: source_local(2))
    then have "map_res (\<lambda>item. resolve_source item outs initial) xs = map_res (\<lambda>item. resolve_source item outs' initial) xs"
      if "set xs \<subseteq> set items" for xs using that by (intro map_res_cong) auto
    ultimately show ?thesis
      using Some Many by (simp add: resolve_value_def)
  qed
qed

lemma run_node_local:
  assumes "runnable plan" and "p \<in> set (plan_nodes plan)"
    and "\<And>n. n \<in> pn_dependencies p \<Longrightarrow> map_of outs n = map_of outs' n"
  shows "run_node env initial p outs = run_node env initial p outs'"
proof -
  have "is_stage_input s \<or> map_of outs (producer_of s) = map_of outs' (producer_of s)"
    if "map_of (pn_input_bindings p) i = Some b" and "s \<in> set (sources b)" for i b s
    using assms that by (fastforce simp: runnable_def dest!: map_of_SomeD)
  then have "resolve_value env outs initial i a (map_of (pn_input_bindings p) i)
      = resolve_value env outs' initial i a (map_of (pn_input_bindings p) i)" for i a
    by (intro resolve_value_local) (cases "map_of (pn_input_bindings p) i"; simp)
  then have "resolve_inputs env p outs initial = resolve_inputs env p outs' initial"
    unfolding resolve_inputs_def resolve_input_def by (simp add: case_prod_unfold)
  then show ?thesis by (simp add: run_node_def)
qed

subsection \<open>The reference as a fixed point\<close>

definition outcome_of :: "(string, 'o node_outcome) dict \<Rightarrow> string \<Rightarrow> 'o node_outcome" where
  "outcome_of refs n = (case map_of refs n of None \<Rightarrow> Skipped | Some out \<Rightarrow> out)"

lemma eval_nodes_snoc:
  "eval_nodes env initial (ps @ [p]) =
     eval_nodes env initial ps @ [(pn_name p, eval_node env initial (eval_nodes env initial ps) p)]"
  by (simp add: eval_nodes_def)

lemma keys_eval_nodes [simp]: "keys (eval_nodes env initial ps) = map pn_name ps"
  by (induction ps rule: rev_induct) (simp_all add: eval_nodes_snoc, simp add: eval_nodes_def)

lemma eval_nodes_prefix: "\<exists>rest. eval_nodes env initial (ps @ qs) = eval_nodes env initial ps @ rest"
proof (induction qs rule: rev_induct)
  case Nil
  then show ?case by simp
next
  case (snoc q qs)
  then show ?case by (metis append.assoc eval_nodes_snoc)
qed

lemma outcome_prefix:
  assumes "n \<in> pn_name ` set ps"
  shows "map_of (eval_nodes env initial (ps @ qs)) n = map_of (eval_nodes env initial ps) n"
proof -
  from eval_nodes_prefix obtain rest where
    "eval_nodes env initial (ps @ qs) = eval_nodes env initial ps @ rest" by blast
  moreover have "map_of (eval_nodes env initial ps) n \<noteq> None"
    using assms keys_map_of[of n "eval_nodes env initial ps"] by auto
  ultimately show ?thesis by (auto simp: map_add_def split: option.splits)
qed

lemma map_of_map_filter:
  "distinct (map fst d) \<Longrightarrow>
     map_of (List.map_filter (\<lambda>(n, x). map_option (Pair n) (f x)) d) n = Option.bind (map_of d n) f"
proof (induction d)
  case Nil
  then show ?case by (simp add: List.map_filter_simps)
next
  case (Cons p d)
  obtain m x where p: "p = (m, x)" by (cases p)
  have "map_of d m = None" using Cons.prems p by (simp add: map_of_eq_None_iff)
  with Cons p show ?case by (auto simp: List.map_filter_simps split: option.splits)
qed

lemma outputs_of_lookup:
  "distinct (keys refs) \<Longrightarrow> map_of (outputs_of refs) n = out_outputs (outcome_of refs n)"
  by (auto simp: outputs_of_def outcome_of_def map_of_map_filter keys_def split: option.splits)

lemma failed_of_iff:
  assumes "distinct (keys refs)"
  shows "n \<in> failed_of refs \<longleftrightarrow> n \<in> set (keys refs) \<and> out_failed (outcome_of refs n)"
proof -
  have mem: "(n, out) \<in> set refs \<longleftrightarrow> map_of refs n = Some out" for out
    using assms by (simp add: map_of_eq_Some_iff keys_def)
  have "n \<in> failed_of refs \<longleftrightarrow> (\<exists>out. (n, out) \<in> set refs \<and> out_failed out)"
    by (force simp: failed_of_def keys_def)
  also have "\<dots> \<longleftrightarrow> n \<in> set (keys refs) \<and> out_failed (outcome_of refs n)"
    unfolding mem keys_map_of outcome_of_def by (auto split: option.splits)
  finally show ?thesis .
qed

text \<open>The outcome of a node is determined by the outcomes of its dependencies, whatever else
  the outputs at hand contain.\<close>

lemma eval_nodes_fixpoint:
  assumes run: "runnable plan" and p: "p \<in> set (plan_nodes plan)"
    and R: "R = outcome_of (eval_nodes env initial (plan_nodes plan))"
    and outs: "\<And>n. n \<in> pn_dependencies p \<Longrightarrow> map_of outs n = out_outputs (R n)"
    and failed: "\<And>n. n \<in> pn_dependencies p \<Longrightarrow> n \<in> F \<longleftrightarrow> out_failed (R n)"
  shows "R (pn_name p) = (if pn_required_dependencies p \<inter> F \<noteq> {} then Skipped else Ran (run_node env initial p outs))"
proof -
  from split_list[OF p] obtain ys zs where dec: "plan_nodes plan = ys @ p # zs" by blast
  let ?refs = "eval_nodes env initial ys"
  have deps: "pn_dependencies p \<subseteq> pn_name ` set ys" and dist: "distinct (map pn_name (plan_nodes plan))"
    and req: "pn_required_dependencies p \<subseteq> pn_dependencies p"
    using run dec p unfolding runnable_def by auto
  have dk: "distinct (keys ?refs)" using dist dec by simp
  have R_ys: "R n = outcome_of ?refs n" if "n \<in> pn_name ` set ys" for n
    using outcome_prefix[OF that, of env initial "p # zs"] dec by (simp add: R outcome_of_def)
  have "map_of (eval_nodes env initial (plan_nodes plan)) (pn_name p) = map_of (eval_nodes env initial (ys @ [p])) (pn_name p)"
    using outcome_prefix[of "pn_name p" "ys @ [p]" env initial zs] dec by simp
  also have "\<dots> = Some (eval_node env initial ?refs p)"
  proof -
    have "pn_name p \<notin> set (keys ?refs)" using dist dec by auto
    then have "map_of ?refs (pn_name p) = None" by (simp add: map_of_None_keys)
    then show ?thesis by (simp add: eval_nodes_snoc map_add_def)
  qed
  finally have "R (pn_name p) = eval_node env initial ?refs p" by (simp add: R outcome_of_def)
  moreover have "run_node env initial p (outputs_of ?refs) = run_node env initial p outs"
    using deps outs R_ys by (intro run_node_local[OF run p]) (auto simp: outputs_of_lookup[OF dk])
  moreover have "n \<in> failed_of ?refs \<longleftrightarrow> n \<in> F" if "n \<in> pn_required_dependencies p" for n
  proof -
    have "n \<in> pn_name ` set ys" "n \<in> pn_dependencies p" using that req deps by auto
    then show ?thesis using failed R_ys failed_of_iff[OF dk, of n] by simp
  qed
  then have "pn_required_dependencies p \<inter> failed_of ?refs \<noteq> {} \<longleftrightarrow> pn_required_dependencies p \<inter> F \<noteq> {}" by blast
  ultimately show ?thesis by (simp add: eval_node_def)
qed

section \<open>The loop follows the reference\<close>

text \<open>The invariant of the loop: the nodes are completed, running or pending; what is recorded of
  a completed node is its outcome in the reference, and a running node will have it.\<close>

definition loop_inv :: "('j, 'o) runner_env \<Rightarrow> (string, 'o pyvalue) dict \<Rightarrow> ('j, 'm, 'o pyvalue, 'cap) stage_plan
    \<Rightarrow> (string \<Rightarrow> 'o node_outcome) \<Rightarrow> ('j, 'm, 'o, 'cap) stage_state \<Rightarrow> bool" where
  "loop_inv env initial_inputs plan R s \<longleftrightarrow>
     set (map pn_name (plan_nodes plan)) = st_completed s \<union> set (keys (st_running s)) \<union> st_pending s \<and>
     st_completed s \<inter> set (keys (st_running s)) = {} \<and> st_completed s \<inter> st_pending s = {} \<and>
     set (keys (st_running s)) \<inter> st_pending s = {} \<and>
     (\<forall>n. map_of (st_outputs s) n = (if n \<in> st_completed s then out_outputs (R n) else None)) \<and>
     (\<forall>n. map_of (st_diagnostics s) n = (if n \<in> st_completed s then out_diagnostics (R n) else None)) \<and>
     st_failed s = {n \<in> st_completed s. out_failed (R n)} \<and>
     st_status s = (if \<exists>n \<in> st_completed s. out_inconclusive (R n) then INCONCLUSIVE else OK) \<and>
     (\<forall>n \<in> st_completed s. R n \<noteq> Ran NodeRunCancelled) \<and>
     (\<forall>n p outs. map_of (st_running s) n = Some (p, outs) \<longrightarrow> R n = Ran (run_node env initial_inputs p outs))"

lemma loop_inv_partition:
  assumes "loop_inv env initial plan R s"
  shows "set (map pn_name (plan_nodes plan)) = st_completed s \<union> set (keys (st_running s)) \<union> st_pending s"
    and "st_completed s \<inter> set (keys (st_running s)) = {}" and "finite (st_completed s)"
proof -
  show names: "set (map pn_name (plan_nodes plan)) = st_completed s \<union> set (keys (st_running s)) \<union> st_pending s"
    and "st_completed s \<inter> set (keys (st_running s)) = {}"
    using assms by (simp_all only: loop_inv_def)
  have "st_completed s \<subseteq> set (map pn_name (plan_nodes plan))" unfolding names by blast
  then show "finite (st_completed s)" by (rule finite_subset) simp
qed

lemma loop_inv_outputs:
  "loop_inv env initial plan R s \<Longrightarrow> map_of (st_outputs s) n = (if n \<in> st_completed s then out_outputs (R n) else None)"
  by (simp only: loop_inv_def)

lemma loop_inv_initial: "loop_inv env initial plan R (initial_state plan)"
  by (simp add: loop_inv_def initial_state_def)

lemma loop_inv_dispatch_node:
  assumes run: "runnable plan" and p: "p \<in> set (plan_nodes plan)"
    and R: "R = outcome_of (eval_nodes env initial (plan_nodes plan))"
    and inv: "loop_inv env initial plan R s"
  shows "loop_inv env initial plan R (dispatch_node s p)"
proof (cases "pn_name p \<notin> st_pending s \<or> \<not> pn_dependencies p \<subseteq> st_completed s")
  case True
  with inv show ?thesis by (simp add: dispatch_node_def)
next
  case False
  have R_p: "R (pn_name p) = (if pn_required_dependencies p \<inter> st_failed s \<noteq> {} then Skipped
      else Ran (run_node env initial p (st_outputs s)))"
    by (rule eval_nodes_fixpoint[OF run p R]) (use False inv in \<open>auto simp: loop_inv_def\<close>)
  show ?thesis
  proof (cases "pn_required_dependencies p \<inter> st_failed s \<noteq> {}")
    case True
    with R_p have "R (pn_name p) = Skipped" by simp
    with inv False True show ?thesis
      unfolding loop_inv_def by (auto simp: dispatch_node_def)
  next
    case no: False
    with R_p have "R (pn_name p) = Ran (run_node env initial p (st_outputs s))" by simp
    with inv False no show ?thesis
      unfolding loop_inv_def by (auto simp: dispatch_node_def)
  qed
qed

lemma loop_inv_dispatch:
  assumes "runnable plan" and "R = outcome_of (eval_nodes env initial (plan_nodes plan))"
    and "loop_inv env initial plan R s"
  shows "loop_inv env initial plan R (dispatch plan s)"
proof -
  have "loop_inv env initial plan R (foldl dispatch_node s ps)" if "set ps \<subseteq> set (plan_nodes plan)" for ps
    using that
  proof (induction ps rule: rev_induct)
    case Nil
    with assms(3) show ?case by simp
  next
    case (snoc p ps)
    then show ?case using loop_inv_dispatch_node[OF assms(1) _ assms(2), of p] by simp
  qed
  then show ?thesis by (simp add: dispatch_def)
qed

lemma loop_inv_finish:
  assumes inv: "loop_inv env initial plan R s" and n: "map_of (st_running s) n = Some (p, outs)"
  shows "run_node env initial p outs = NodeRunCancelled \<Longrightarrow> R n = Ran NodeRunCancelled"
    and "run_node env initial p outs = NodeRun r \<Longrightarrow>
      loop_inv env initial plan R (record_result n r (s\<lparr>st_running := AList.delete n (st_running s)\<rparr>))"
proof -
  have R_n: "R n = Ran (run_node env initial p outs)" using inv n by (simp add: loop_inv_def)
  then show "run_node env initial p outs = NodeRunCancelled \<Longrightarrow> R n = Ran NodeRunCancelled" by simp
  assume r: "run_node env initial p outs = NodeRun r"
  have run: "n \<in> set (keys (st_running s))" using n by (simp add: keys_map_of)
  let ?s1 = "s\<lparr>st_running := AList.delete n (st_running s)\<rparr>"
  let ?t = "record_result n r ?s1"
  have fields: "st_completed ?t = insert n (st_completed s)" "st_pending ?t = st_pending s"
    "st_running ?t = AList.delete n (st_running s)"
    by (simp_all add: record_result_def Let_def)
  have ok: "res_status r \<noteq> ERROR \<and> res_status r \<noteq> INCONCLUSIVE \<longleftrightarrow> res_status r = OK"
    by (cases "res_status r") simp_all
  show "loop_inv env initial plan R ?t"
    using inv R_n r run unfolding loop_inv_def fields
    by (auto simp: record_result_def Let_def)
qed

lemma finish_all:
  assumes "loop_inv env initial plan R s" and "distinct finished"
    and "set finished \<subseteq> set (keys (st_running s))"
  shows "case fold_res (finish_node env initial) s finished of
      Inl e \<Rightarrow> \<exists>n \<in> set (keys (st_running s)). e = NodeCancelled n \<and> R n = Ran NodeRunCancelled
    | Inr t \<Rightarrow> loop_inv env initial plan R t \<and> st_completed t = st_completed s \<union> set finished"
  using assms
proof (induction finished arbitrary: s)
  case Nil
  then show ?case by simp
next
  case (Cons n ns)
  from Cons.prems(3) have "n \<in> set (keys (st_running s))" by simp
  then obtain p outs where n: "map_of (st_running s) n = Some (p, outs)" by (metis map_of_keysE surj_pair)
  let ?s1 = "s\<lparr>st_running := AList.delete n (st_running s)\<rparr>"
  show ?case
  proof (cases "run_node env initial p outs")
    case NodeRunCancelled
    with loop_inv_finish(1)[OF Cons.prems(1) n] n Cons.prems(3) show ?thesis by (simp add: finish_node_def)
  next
    case (NodeRun r)
    let ?t = "record_result n r ?s1"
    have inv: "loop_inv env initial plan R ?t" using loop_inv_finish(2)[OF Cons.prems(1) n NodeRun] .
    have run: "st_running ?t = AList.delete n (st_running s)" "st_completed ?t = insert n (st_completed s)"
      by (simp_all add: record_result_def Let_def)
    have "case fold_res (finish_node env initial) ?t ns of
        Inl e \<Rightarrow> \<exists>n \<in> set (keys (st_running ?t)). e = NodeCancelled n \<and> R n = Ran NodeRunCancelled
      | Inr t \<Rightarrow> loop_inv env initial plan R t \<and> st_completed t = st_completed ?t \<union> set ns"
      by (rule Cons.IH[OF inv]) (use Cons.prems run in auto)
    moreover have "finish_node env initial s n = Inr ?t" using n NodeRun by (simp add: finish_node_def)
    ultimately show ?thesis
      using run by (cases "fold_res (finish_node env initial) ?t ns") auto
  qed
qed

subsection \<open>The loop never stalls\<close>

lemma foldl_dispatch_bounds:
  "st_completed s \<subseteq> st_completed (foldl dispatch_node s ps)"
  "st_completed (foldl dispatch_node s ps) \<subseteq> st_completed s \<union> pn_name ` set ps"
  "st_pending (foldl dispatch_node s ps) \<subseteq> st_pending s"
proof (induction ps rule: rev_induct)
  case (snoc p ps)
  { case 1 with snoc(1) show ?case by (auto simp: dispatch_node_def Let_def) }
  { case 2 with snoc(2) show ?case by (auto simp: dispatch_node_def Let_def) }
  { case 3 with snoc(3) show ?case by (auto simp: dispatch_node_def Let_def) }
qed simp_all

lemma dispatch_ready_gone:
  assumes "distinct (map pn_name (ys @ p # zs))" and "pn_dependencies p \<subseteq> pn_name ` set ys"
    and "pn_dependencies p \<subseteq> st_completed (foldl dispatch_node s (ys @ p # zs))"
  shows "pn_name p \<notin> st_pending (foldl dispatch_node s (ys @ p # zs))"
proof -
  define s1 where "s1 = foldl dispatch_node s ys"
  have all: "foldl dispatch_node s (ys @ p # zs) = foldl dispatch_node (dispatch_node s1 p) zs"
    and s1: "foldl dispatch_node s (ys @ p # zs) = foldl dispatch_node s1 (p # zs)"
    by (simp_all add: s1_def)
  have "pn_name ` set ys \<inter> pn_name ` set (p # zs) = {}" using assms(1) by auto
  then have "pn_dependencies p \<subseteq> st_completed s1"
    using assms(2,3) foldl_dispatch_bounds(2)[of s1 "p # zs"] unfolding s1 by blast
  then have "pn_name p \<notin> st_pending (dispatch_node s1 p)" by (simp add: dispatch_node_def Let_def)
  then show ?thesis using foldl_dispatch_bounds(3)[of "dispatch_node s1 p" zs] unfolding all by blast
qed

lemma dispatch_no_stall:
  assumes run: "runnable plan" and inv: "loop_inv env initial plan R (dispatch plan s)"
    and idle: "st_running (dispatch plan s) = []"
  shows "st_pending (dispatch plan s) = {}"
proof (rule ccontr)
  let ?t = "dispatch plan s"
  assume "st_pending ?t \<noteq> {}"
  then have "\<exists>p \<in> set (plan_nodes plan). pn_name p \<in> st_pending ?t"
    using inv unfolding loop_inv_def by auto
  then obtain ys p zs where dec: "plan_nodes plan = ys @ p # zs" and p: "pn_name p \<in> st_pending ?t"
    and first: "\<forall>q \<in> set ys. pn_name q \<notin> st_pending ?t"
    using split_list_first_prop[of "plan_nodes plan" "\<lambda>p. pn_name p \<in> st_pending ?t"] by blast
  have deps: "pn_dependencies p \<subseteq> pn_name ` set ys" using run dec unfolding runnable_def by auto
  moreover have "pn_name q \<in> st_completed ?t" if "q \<in> set ys" for q
    using inv idle first dec that unfolding loop_inv_def by fastforce
  ultimately have "pn_dependencies p \<subseteq> st_completed ?t" by auto
  with dispatch_ready_gone[of ys p zs s] run deps dec p show False
    unfolding dispatch_def runnable_def by simp
qed

subsection \<open>Invariant of traces\<close>

fun config_inv :: "('j, 'o) runner_env \<Rightarrow> (string, 'o pyvalue) dict \<Rightarrow> ('j, 'm, 'o pyvalue, 'cap) stage_plan
    \<Rightarrow> (string \<Rightarrow> 'o node_outcome) \<Rightarrow> ('j, 'm, 'o, 'cap) stage_config \<Rightarrow> bool" where
  "config_inv env initial_inputs plan R (Looping s) = loop_inv env initial_inputs plan R s"
| "config_inv env initial_inputs plan R (Ended (Inr s)) = (loop_inv env initial_inputs plan R s \<and> is_over s)"
| "config_inv env initial_inputs plan R (Ended (Inl (NodeCancelled n))) =
     (n \<in> set (map pn_name (plan_nodes plan)) \<and> R n = Ran NodeRunCancelled)"
| "config_inv env initial_inputs plan R (Ended (Inl StageCancelled)) = True"
| "config_inv env initial_inputs plan R (Ended (Inl SchedulerStalled)) = False"

text \<open>What one turn does, on a state that satisfies the invariant.\<close>

lemma loop_turn_ok:
  assumes run: "runnable plan" and R: "R = outcome_of (eval_nodes env initial (plan_nodes plan))"
    and inv: "loop_inv env initial plan R s" and fin: "distinct finished"
      "set finished \<subseteq> set (keys (st_running (dispatch plan s)))"
  shows "case loop_turn env initial plan finished s of
      Inl e \<Rightarrow> config_inv env initial plan R (Ended (Inl e))
    | Inr t \<Rightarrow> loop_inv env initial plan R t \<and> st_completed s \<subseteq> st_completed t \<and>
        card (st_completed s) + length finished \<le> card (st_completed t) \<and>
        (st_running (dispatch plan s) = [] \<longrightarrow> is_over t)"
proof -
  let ?s1 = "dispatch plan s"
  have inv1: "loop_inv env initial plan R ?s1" using loop_inv_dispatch[OF run R inv] .
  have grow: "st_completed s \<subseteq> st_completed ?s1" unfolding dispatch_def by (rule foldl_dispatch_bounds(1))
  have fin_c: "finite (st_completed ?s1)"
    using loop_inv_partition(3)[OF inv1] .
  show ?thesis
  proof (cases "st_running ?s1 = []")
    case True
    with dispatch_no_stall[OF run inv1] have "loop_turn env initial plan finished s = Inr ?s1" and "is_over ?s1"
      by (simp_all add: loop_turn_def is_over_def)
    moreover have "finished = []" using fin(2) True by simp
    ultimately show ?thesis
      using inv1 grow card_mono[OF fin_c grow] by simp
  next
    case False
    then have turn: "loop_turn env initial plan finished s = fold_res (finish_node env initial) ?s1 finished"
      by (simp add: loop_turn_def Let_def)
    note all = finish_all[OF inv1 fin]
    show ?thesis
    proof (cases "fold_res (finish_node env initial) ?s1 finished")
      case (Inl e)
      with all obtain n where n: "n \<in> set (keys (st_running ?s1))" and e: "e = NodeCancelled n"
        and c: "R n = Ran NodeRunCancelled" by auto
      from n have "n \<in> set (map pn_name (plan_nodes plan))" unfolding loop_inv_partition(1)[OF inv1] by blast
      with c show ?thesis unfolding turn Inl e sum.case config_inv.simps by blast
    next
      case (Inr t)
      with all have t: "loop_inv env initial plan R t" "st_completed t = st_completed ?s1 \<union> set finished" by auto
      have "st_completed ?s1 \<inter> set finished = {}" using loop_inv_partition(2)[OF inv1] fin(2) by blast
      then have "card (st_completed t) = card (st_completed ?s1) + length finished"
        using fin_c fin(1) t(2) by (simp add: card_Un_disjoint distinct_card)
      moreover have "st_completed s \<subseteq> st_completed t" using grow t(2) by blast
      ultimately show ?thesis
        unfolding turn Inr sum.case using t(1) card_mono[OF fin_c grow] False by simp
    qed
  qed
qed

lemma loop_inv_completed_bound:
  assumes "loop_inv env initial plan R s"
  shows "card (st_completed s) \<le> length (plan_nodes plan)"
proof -
  have "st_completed s \<subseteq> set (map pn_name (plan_nodes plan))" unfolding loop_inv_partition(1)[OF assms] by blast
  then have "card (st_completed s) \<le> card (set (map pn_name (plan_nodes plan)))" by (intro card_mono) simp_all
  also have "\<dots> \<le> length (plan_nodes plan)" by (metis card_length length_map)
  finally show ?thesis .
qed

definition observations :: "stage_event list \<Rightarrow> nat" where
  "observations evs = length (filter (\<lambda>ev. ev \<noteq> Finished []) evs)"

lemma stage_trace_inv:
  assumes "stage_trace env initial plan evs c"
    and "runnable plan" and R: "R = outcome_of (eval_nodes env initial (plan_nodes plan))"
  shows "config_inv env initial plan R c \<and>
    (case c of Looping s \<Rightarrow> observations evs \<le> card (st_completed s)
     | Ended _ \<Rightarrow> observations evs \<le> length (plan_nodes plan) + 1)"
  using assms(1)
proof induction
  case trace_start
  then show ?case by (simp add: loop_inv_initial observations_def)
next
  case (trace_step evs c ev c')
  note bound = loop_inv_completed_bound
  have more: "observations (evs @ [ev]) \<le> Suc (observations evs)" by (simp add: observations_def)
  from trace_step.hyps(2) show ?case
  proof cases
    case (turn s finished s')
    from loop_turn_ok[OF assms(2) R _ turn(5,6)] trace_step.IH turn
    have "loop_inv env initial plan R s'" and "card (st_completed s) + length finished \<le> card (st_completed s')"
      and "observations evs \<le> card (st_completed s)" by auto
    moreover have "observations (evs @ [ev]) \<le> observations evs + length finished"
      using turn(2) by (cases finished) (simp_all add: observations_def)
    ultimately show ?thesis using turn by simp
  next
    case (turn_fails s finished e)
    from loop_turn_ok[OF assms(2) R _ turn_fails(5,6)] trace_step.IH turn_fails more bound
    show ?thesis by fastforce
  next
    case (loop_ends s)
    with trace_step.IH more bound show ?thesis by fastforce
  next
    case (cancel s)
    with trace_step.IH more bound show ?thesis by fastforce
  qed
qed

subsection \<open>Agreement of the results\<close>

lemma conclude_cong:
  assumes "map_of (st_outputs s) = map_of (st_outputs t)" and "map_of (st_diagnostics s) = map_of (st_diagnostics t)"
    and "st_status s = st_status t" and "st_failed s = st_failed t"
  shows "conclude plan s = conclude plan t"
proof -
  have "source_is_available src (st_outputs s) = source_is_available src (st_outputs t)"
    and "resolve_source src (st_outputs s) [] = resolve_source src (st_outputs t) []" for src
    by (rule source_local; simp add: assms(1))+
  with assms show ?thesis by (simp add: conclude_def stage_outputs_of_def)
qed

lemma list_ex_vals: "wf_dict refs \<Longrightarrow> list_ex P (vals refs) \<longleftrightarrow> (\<exists>n \<in> set (keys refs). P (outcome_of refs n))"
proof -
  assume "wf_dict refs"
  then have "outcome_of refs n = out" if "(n, out) \<in> set refs" for n out
    using that by (simp add: outcome_of_def map_of_wf_iff[THEN iffD2])
  then show ?thesis by (force simp: list_ex_iff vals_def keys_def)
qed

lemma over_matches_reference:
  assumes run: "runnable plan" and R: "R = outcome_of (eval_nodes env initial (plan_nodes plan))"
    and inv: "loop_inv env initial plan R s" and over: "is_over s"
  shows "sequential_run env initial plan = Some (conclude plan s)"
proof -
  let ?refs = "eval_nodes env initial (plan_nodes plan)"
  have keys: "distinct (keys ?refs)" using run by (simp add: runnable_def)
  have wf: "wf_dict ?refs" using keys by (simp add: wf_dict_keys)
  have done_: "st_completed s = set (keys ?refs)" using loop_inv_partition(1)[OF inv] over by (simp add: is_over_def)
  have R_out: "R n = Skipped" if "n \<notin> set (keys ?refs)" for n
    using that by (simp add: R outcome_of_def map_of_None_keys[THEN iffD2])
  have "\<not> any_cancelled ?refs"
    using inv done_ R by (auto simp: any_cancelled_def list_ex_vals[OF wf] loop_inv_def split: node_outcome.splits node_run.splits)
  moreover have "conclude plan (sequential_state ?refs) = conclude plan s"
  proof (rule conclude_cong)
    show "map_of (st_outputs (sequential_state ?refs)) = map_of (st_outputs s)"
      using inv done_ R R_out by (auto simp: sequential_state_def outputs_of_lookup[OF keys] loop_inv_def)
    show "map_of (st_diagnostics (sequential_state ?refs)) = map_of (st_diagnostics s)"
    proof
      fix n
      have "map_of (st_diagnostics (sequential_state ?refs)) n = out_diagnostics (R n)"
        using keys by (auto simp: sequential_state_def map_of_map_filter keys_def R outcome_of_def split: option.splits)
      then show "map_of (st_diagnostics (sequential_state ?refs)) n = map_of (st_diagnostics s) n"
        using inv done_ R_out by (auto simp: loop_inv_def)
    qed
    show "st_status (sequential_state ?refs) = st_status s"
      using inv done_ R by (simp add: sequential_state_def list_ex_vals[OF wf] loop_inv_def)
    show "st_failed (sequential_state ?refs) = st_failed s"
      using inv done_ R by (auto simp: sequential_state_def failed_of_iff[OF keys] loop_inv_def)
  qed
  ultimately show ?thesis by (simp add: sequential_run_def)
qed

lemma cancelled_matches_reference:
  assumes run: "runnable plan" and n: "n \<in> set (map pn_name (plan_nodes plan))"
    and "outcome_of (eval_nodes env initial (plan_nodes plan)) n = Ran NodeRunCancelled"
  shows "sequential_run env initial plan = None"
proof -
  let ?refs = "eval_nodes env initial (plan_nodes plan)"
  have wf: "wf_dict ?refs" using run by (simp add: wf_dict_keys runnable_def)
  have "any_cancelled ?refs"
    unfolding any_cancelled_def list_ex_vals[OF wf] keys_eval_nodes
    by (rule bexI[OF _ n]) (simp add: assms(3))
  then show ?thesis by (simp add: sequential_run_def)
qed

subsection \<open>The stage result exists\<close>

lemma validate_outputs_keys:
  "validate_outputs env r outs = Inr validated \<Longrightarrow> keys validated = keys (reg_outputs r)"
proof -
  assume "validate_outputs env r outs = Inr validated"
  then have "list_all2 (\<lambda>x y. fst y = fst x \<and> True) (reg_outputs r) validated"
    by (auto simp: validate_outputs_def Let_def res_simps elim!: list_all2_mono split: option.splits sum.splits)
  then show ?thesis by (rule list_all2_keys)
qed

lemma run_node_outputs:
  assumes "run_node env initial p outs = NodeRun r" and "res_status r \<noteq> ERROR"
  shows "keys (res_outputs r) = keys (reg_outputs (pn_registration p))"
  using assms
  by (auto simp: run_node_def node_failure_def validate_outputs_keys
      split: sum.splits option.splits handler_outcome.splits if_splits)

lemma reference_outputs:
  assumes "p \<in> set (plan_nodes plan)" and "runnable plan"
    and "out_outputs (outcome_of (eval_nodes env initial (plan_nodes plan)) (pn_name p)) = Some outs"
  shows "keys outs = keys (reg_outputs (pn_registration p))"
proof -
  let ?R = "outcome_of (eval_nodes env initial (plan_nodes plan))"
  have dist: "distinct (keys (eval_nodes env initial (plan_nodes plan)))" using assms(2) by (simp add: runnable_def)
  let ?outs = "outputs_of (eval_nodes env initial (plan_nodes plan))"
  have out: "?R (pn_name p) = (if pn_required_dependencies p \<inter> {n. out_failed (?R n)} \<noteq> {} then Skipped
      else Ran (run_node env initial p ?outs))"
    by (rule eval_nodes_fixpoint[OF assms(2,1) refl]) (simp_all add: outputs_of_lookup[OF dist])
  from assms(3)[unfolded out] obtain r where "run_node env initial p ?outs = NodeRun r" "res_status r \<noteq> ERROR" "outs = res_outputs r"
    by (cases "run_node env initial p ?outs") (auto split: if_splits)
  then show ?thesis using run_node_outputs by blast
qed

lemma available_resolves:
  assumes "source_is_available source outputs"
    and "\<And>outs. map_of outputs (producer_of source) = Some outs \<Longrightarrow> outs \<noteq> []"
  shows "\<exists>v. resolve_source source outputs [] = Inr v"
  using assms
  by (auto simp: source_is_available_def resolve_source_def producer_of_def Let_def keys_map_of neq_Nil_conv
      split: prod.splits option.splits)

lemma reference_annotation_nonempty:
  assumes "reference_annotation source registrations = Inr a"
  shows "\<exists>r. map_of registrations (producer_of source) = Some r \<and> reg_outputs r \<noteq> []"
  using assms
  by (auto simp: reference_annotation_def producer_of_def Let_def split: prod.splits option.splits if_splits list.splits)

lemma conclude_succeeds:
  assumes ok: "plan_ok ctx stage registrations init_annotations plan"
    and R: "R = outcome_of (eval_nodes env initial (plan_nodes plan))"
    and inv: "loop_inv env initial plan R s" and over: "is_over s"
  shows "\<exists>r. conclude plan s = Inr r"
proof -
  have run: "runnable plan" using plan_ok_runnable[OF ok] .
  have regs: "map_of (plan_registrations plan) = map_of registrations"
    and outs: "list_all2 (\<lambda>(n, source) (m, a). m = n \<and> reference_annotation source registrations = Inr a)
        (plan_output_bindings plan) (plan_output_annotations plan)"
    using ok by (simp_all only: plan_ok_def Let_def)
  have "\<exists>v. resolve_source source (st_outputs s) [] = Inr v"
    if b: "(n, source) \<in> set (plan_output_bindings plan)" and av: "source_is_available source (st_outputs s)" for n source
  proof (rule available_resolves[OF av])
    fix os
    assume os: "map_of (st_outputs s) (producer_of source) = Some os"
    from list_all2_left[OF outs b] obtain a where "reference_annotation source registrations = Inr a"
      by auto
    then obtain r where r: "map_of (plan_registrations plan) (producer_of source) = Some r" "reg_outputs r \<noteq> []"
      using reference_annotation_nonempty regs by metis
    then obtain p where p: "p \<in> set (plan_nodes plan)" "pn_name p = producer_of source" "pn_registration p = r"
      by (auto simp: plan_registrations_def dest!: map_of_SomeD)
    have "out_outputs (R (pn_name p)) = Some os"
      using os p(2) loop_inv_outputs[OF inv, of "producer_of source"] by (simp split: if_splits)
    then have "keys os = keys (reg_outputs r)"
      using reference_outputs[OF p(1) run] p(3) R by blast
    with r(2) show "os \<noteq> []" by (metis length_0_conv length_keys)
  qed
  then have "\<exists>ys. map_res (\<lambda>(name, source). and_then (resolve_source source (st_outputs s) []) (\<lambda>v. Inr (name, v)))
      (filter (\<lambda>(_, source). source_is_available source (st_outputs s)) (plan_output_bindings plan)) = Inr ys"
    by (intro map_res_total) (auto simp: and_then_eq_Inr)
  then have "\<exists>outs. stage_outputs_of plan (st_outputs s) = Inr outs"
    by (simp add: stage_outputs_of_def)
  then show ?thesis by (auto simp: conclude_def)
qed

lemma stage_cancelled_seen:
  assumes "stage_trace env initial plan evs (Ended (Inl StageCancelled))"
  shows "evs \<noteq> [] \<and> last evs = CancelSeen"
  using assms
proof cases
  case (trace_step evs' c ev)
  have "e \<noteq> StageCancelled" if "loop_turn env initial plan finished s = Inl e" for finished s e
  proof -
    have "fold_res (finish_node env initial) t finished \<noteq> Inl StageCancelled" for t
      by (induction finished arbitrary: t)
         (auto simp: finish_node_def Let_def split: sum.splits option.splits node_run.splits)
    with that show ?thesis by (auto simp: loop_turn_def Let_def split: if_splits)
  qed
  with trace_step show ?thesis by (auto elim!: stage_step.cases)
qed

text \<open>The final state is a fixed point of the node semantics.\<close>

lemma over_node_outcome:
  assumes run: "runnable plan" and R: "R = outcome_of (eval_nodes env initial (plan_nodes plan))"
    and inv: "loop_inv env initial plan R s" and over: "is_over s" and p: "p \<in> set (plan_nodes plan)"
  shows "R (pn_name p) = (if pn_required_dependencies p \<inter> st_failed s \<noteq> {} then Skipped
      else Ran (run_node env initial p (st_outputs s)))"
    and "R (pn_name p) \<noteq> Ran NodeRunCancelled"
    and "pn_name p \<in> st_failed s \<longleftrightarrow> out_failed (R (pn_name p))"
    and "map_of (st_outputs s) (pn_name p) = out_outputs (R (pn_name p))"
proof -
  have done_: "st_completed s = set (map pn_name (plan_nodes plan))"
    using loop_inv_partition(1)[OF inv] over by (simp add: is_over_def)
  have failed: "st_failed s = {n \<in> st_completed s. out_failed (R n)}"
    and nc: "\<forall>n \<in> st_completed s. R n \<noteq> Ran NodeRunCancelled"
    using inv unfolding loop_inv_def by blast+
  have mem: "n \<in> st_completed s" if "n \<in> pn_dependencies p" for n
    using runnable_deps[OF run p] that done_ by blast
  show "R (pn_name p) = (if pn_required_dependencies p \<inter> st_failed s \<noteq> {} then Skipped
      else Ran (run_node env initial p (st_outputs s)))"
    by (rule eval_nodes_fixpoint[OF run p R]) (simp_all add: loop_inv_outputs[OF inv] mem failed)
  have "pn_name p \<in> st_completed s" using p done_ by auto
  then show "R (pn_name p) \<noteq> Ran NodeRunCancelled" "pn_name p \<in> st_failed s \<longleftrightarrow> out_failed (R (pn_name p))"
    "map_of (st_outputs s) (pn_name p) = out_outputs (R (pn_name p))"
    using nc failed loop_inv_outputs[OF inv] by auto
qed

subsection \<open>Replaying a trace\<close>

text \<open>The transition system as a function of the observed events, for evaluation.\<close>

definition replay_step :: "('j, 'o) runner_env \<Rightarrow> (string, 'o pyvalue) dict \<Rightarrow> ('j, 'm, 'o pyvalue, 'cap) stage_plan
    \<Rightarrow> stage_event \<Rightarrow> ('j, 'm, 'o, 'cap) stage_config \<Rightarrow> ('j, 'm, 'o, 'cap) stage_config option" where
  "replay_step env initial_inputs plan ev c =
     (case c of
        Ended _ \<Rightarrow> None
      | Looping s \<Rightarrow>
          (case ev of
             CancelSeen \<Rightarrow> Some (Ended (Inl StageCancelled))
           | LoopDone \<Rightarrow> if is_over s then Some (Ended (Inr s)) else None
           | Finished fs \<Rightarrow>
               if \<not> is_over s \<and> distinct fs \<and> list_all (\<lambda>n. n \<in> set (keys (st_running (dispatch plan s)))) fs
               then Some (case loop_turn env initial_inputs plan fs s of Inl e \<Rightarrow> Ended (Inl e) | Inr s' \<Rightarrow> Looping s')
               else None))"

lemma replay_step_sound: "replay_step env initial plan ev c = Some c' \<Longrightarrow> stage_step env initial plan c ev c'"
  by (auto simp: replay_step_def list_all_iff intro!: stage_step.intros
      split: stage_config.splits stage_event.splits if_splits sum.splits)

definition replay :: "('j, 'o) runner_env \<Rightarrow> (string, 'o pyvalue) dict \<Rightarrow> ('j, 'm, 'o pyvalue, 'cap) stage_plan
    \<Rightarrow> stage_event list \<Rightarrow> ('j, 'm, 'o, 'cap) stage_config option" where
  "replay env initial_inputs plan evs =
     foldl (\<lambda>c ev. Option.bind c (replay_step env initial_inputs plan ev)) (Some (Looping (initial_state plan))) evs"

lemma replay_trace: "replay env initial plan evs = Some c \<Longrightarrow> stage_trace env initial plan evs c"
proof (induction evs arbitrary: c rule: rev_induct)
  case Nil
  then show ?case by (auto simp: replay_def intro: trace_start)
next
  case (snoc ev evs)
  then show ?case
    by (auto simp: replay_def bind_eq_Some_conv intro!: trace_step replay_step_sound)
qed

section \<open>Properties of stage runs\<close>

text \<open>The demonstration stage of \<open>Compiler\<close>, run with a permissive validator.\<close>

definition demo_env :: "(unit, string) runner_env" where
  "demo_env = \<lparr>env_aliases = [], env_validate = (\<lambda>_ v. Inr v), env_configuration_error = (\<lambda>_. ''''),
     env_stage = ''review'', env_model = ''m'', env_max_workers = 2\<rparr>"

definition demo_compiled :: "(unit, unit, string pyvalue, unit) stage_plan" where
  "demo_compiled = (case demo_plan of Inl _ \<Rightarrow> \<lparr>plan_nodes = [], plan_output_bindings = [], plan_output_annotations = []\<rparr>
     | Inr plan \<Rightarrow> plan)"

definition demo_events :: "stage_event list" where
  "demo_events = [Finished [], Finished [''scan''], Finished [''result''], LoopDone]"

lemma demo_compiled_eq:
  "\<exists>cat'. compile_stage demo_context demo_catalog ''review'' demo_stage [] [(''files'', ClassT ''str'')] []
     = (cat', Inr demo_compiled)"
  using demo_planE by (metis demo_compiled_def demo_plan_def snd_conv sum.simps(6) surj_pair)

lemma demo_replay:
  "(case replay demo_env [(''files'', PyObject ''src'')] demo_compiled demo_events of
      Some (Ended (Inr s)) \<Rightarrow>
        conclude demo_compiled s = Inr \<lparr>run_status = OK, run_outputs = [(''report'', PyObject ''reportm'')], run_diagnostics = []\<rparr>
        \<and> st_failed s = {}
    | _ \<Rightarrow> False)"
  by code_simp

lemma demo_traceE:
  obtains s where "stage_trace demo_env [(''files'', PyObject ''src'')] demo_compiled demo_events (Ended (Inr s))"
    and "conclude demo_compiled s = Inr \<lparr>run_status = OK, run_outputs = [(''report'', PyObject ''reportm'')], run_diagnostics = []\<rparr>"
    and "st_failed s = {}"
  using demo_replay replay_trace[of demo_env "[(''files'', PyObject ''src'')]" demo_compiled demo_events]
  by (auto split: option.splits stage_config.splits sum.splits)

text \<open>
  C6. The result of a stage does not depend on how its nodes are interleaved. For a compiled
  plan, every run of the loop that ends, whatever futures were reported finished, in which
  order and in which turn, gives the result of evaluating the nodes one after the other in plan
  order: the same status, outputs and diagnostics, or a cancelled node exactly when that
  evaluation meets one. The scheduler never reports that it stalled.
\<close>

theorem run_stage_deterministic:
  assumes "compile_stage ctx cat stage_name stage configuration annotations capabilities = (cat', Inr plan)"
    and "wf_dict (sc_nodes stage)"
    and "stage_trace env initial_inputs plan evs (Ended r)"
  shows "case r of
      Inr s \<Rightarrow> sequential_run env initial_inputs plan = Some (conclude plan s)
    | Inl (NodeCancelled n) \<Rightarrow> sequential_run env initial_inputs plan = None
    | Inl StageCancelled \<Rightarrow> evs \<noteq> [] \<and> last evs = CancelSeen
    | Inl SchedulerStalled \<Rightarrow> False"
proof -
  from compile_stage_ok[OF assms(1,2)] obtain registrations where "plan_ok ctx stage registrations annotations plan" .
  then have run: "runnable plan" by (rule plan_ok_runnable)
  define R where R: "R = outcome_of (eval_nodes env initial_inputs (plan_nodes plan))"
  have inv: "config_inv env initial_inputs plan R (Ended r)" using stage_trace_inv[OF assms(3) run R] by simp
  show ?thesis
  proof (cases r)
    case (Inr s)
    with inv over_matches_reference[OF run R] show ?thesis by simp
  next
    case (Inl e)
    show ?thesis
    proof (cases e)
      case (NodeCancelled n)
      with inv Inl cancelled_matches_reference[OF run, of n env initial_inputs] R show ?thesis by simp
    next
      case StageCancelled
      with Inl stage_cancelled_seen[of env initial_inputs plan evs] assms(3) show ?thesis by simp
    next
      case SchedulerStalled
      with inv Inl show ?thesis by simp
    qed
  qed
qed

theorem run_stage_deterministic_witness:
  "sequential_run demo_env [(''files'', PyObject ''src'')] demo_compiled =
     Some (Inr \<lparr>run_status = OK, run_outputs = [(''report'', PyObject ''reportm'')], run_diagnostics = []\<rparr>)"
proof -
  obtain s where t: "stage_trace demo_env [(''files'', PyObject ''src'')] demo_compiled demo_events (Ended (Inr s))"
    and c: "conclude demo_compiled s = Inr \<lparr>run_status = OK, run_outputs = [(''report'', PyObject ''reportm'')], run_diagnostics = []\<rparr>"
    by (rule demo_traceE)
  obtain cat' where "compile_stage demo_context demo_catalog ''review'' demo_stage [] [(''files'', ClassT ''str'')] []
      = (cat', Inr demo_compiled)" using demo_compiled_eq by blast
  from run_stage_deterministic[OF this demo_stage_wf t] c show ?thesis by simp
qed

text \<open>
  C7. The loop ends: a run makes at most one observation more than the plan has nodes, not
  counting the turns in which \<open>wait\<close> timed out, and from every state that a run reaches there is
  an observation to make: the loop is over, or the turn leads to its end, or some submitted node
  is running and the loop can go on when it finishes.
\<close>

theorem run_stage_terminates:
  assumes "compile_stage ctx cat stage_name stage configuration annotations capabilities = (cat', Inr plan)"
    and "wf_dict (sc_nodes stage)"
    and "stage_trace env initial_inputs plan evs c"
  shows "observations evs \<le> length (plan_nodes plan) + 1 \<and>
    (\<forall>s. c = Looping s \<longrightarrow>
       is_over s \<or>
       (st_running (dispatch plan s) = [] \<and>
          (\<exists>s'. stage_step env initial_inputs plan c (Finished []) (Looping s') \<and> is_over s')) \<or>
       (\<exists>n c'. n \<in> set (keys (st_running (dispatch plan s))) \<and>
          stage_step env initial_inputs plan c (Finished [n]) c'))"
proof -
  from compile_stage_ok[OF assms(1,2)] obtain registrations where "plan_ok ctx stage registrations annotations plan" .
  then have run: "runnable plan" by (rule plan_ok_runnable)
  define R where R: "R = outcome_of (eval_nodes env initial_inputs (plan_nodes plan))"
  note inv = stage_trace_inv[OF assms(3) run R]
  have bound: "observations evs \<le> length (plan_nodes plan) + 1"
  proof (cases c)
    case (Looping s)
    with inv have "observations evs \<le> card (st_completed s)" and "loop_inv env initial_inputs plan R s" by simp_all
    with loop_inv_completed_bound show ?thesis by fastforce
  qed (use inv in simp)
  have "(st_running (dispatch plan s) = [] \<and>
          (\<exists>s'. stage_step env initial_inputs plan c (Finished []) (Looping s') \<and> is_over s')) \<or>
       (\<exists>n c'. n \<in> set (keys (st_running (dispatch plan s))) \<and>
          stage_step env initial_inputs plan c (Finished [n]) c')" if c: "c = Looping s" and go: "\<not> is_over s" for s
  proof (cases "st_running (dispatch plan s)")
    case Nil
    from inv c have "loop_inv env initial_inputs plan R s" by simp
    from loop_turn_ok[OF run R this, of "[]"] Nil dispatch_no_stall[OF run loop_inv_dispatch[OF run R this]]
    have "loop_turn env initial_inputs plan [] s = Inr (dispatch plan s)" "is_over (dispatch plan s)"
      by (simp_all add: loop_turn_def is_over_def)
    with stage_step.turn[of s "[]" plan env initial_inputs "dispatch plan s"] Nil c go show ?thesis by auto
  next
    case (Cons f fs)
    then have f: "fst f \<in> set (keys (st_running (dispatch plan s)))" by simp
    show ?thesis
      by (cases "loop_turn env initial_inputs plan [fst f] s")
         (use f c go stage_step.turn[of s "[fst f]"] stage_step.turn_fails[of s "[fst f]"] in force)+
  qed
  with bound show ?thesis by blast
qed

theorem run_stage_terminates_witness:
  "observations demo_events = 3 \<and> observations demo_events \<le> length (plan_nodes demo_compiled) + 1"
proof -
  obtain s where t: "stage_trace demo_env [(''files'', PyObject ''src'')] demo_compiled demo_events (Ended (Inr s))"
    by (rule demo_traceE)
  obtain cat' where "compile_stage demo_context demo_catalog ''review'' demo_stage [] [(''files'', ClassT ''str'')] []
      = (cat', Inr demo_compiled)" using demo_compiled_eq by blast
  from run_stage_terminates[OF this demo_stage_wf t] show ?thesis by (simp add: observations_def demo_events_def)
qed

text \<open>
  C8. Failures stay where they belong. When the loop of a compiled plan is over, the stage
  result can be built, and the final state is consistent with the outputs it holds: a node has failed exactly
  when a required dependency has failed or running it on those outputs ends in an error; a failed
  node has no outputs, and every other node's outputs are the ones it returned, validated.
\<close>

theorem run_stage_failures:
  assumes "compile_stage ctx cat stage_name stage configuration annotations capabilities = (cat', Inr plan)"
    and "wf_dict (sc_nodes stage)"
    and "stage_trace env initial_inputs plan evs (Ended (Inr s))"
  shows "(\<exists>r. conclude plan s = Inr r) \<and>
    (\<forall>p \<in> set (plan_nodes plan).
      (pn_name p \<in> st_failed s \<longleftrightarrow> pn_required_dependencies p \<inter> st_failed s \<noteq> {} \<or>
         (\<exists>r. run_node env initial_inputs p (st_outputs s) = NodeRun r \<and> res_status r = ERROR)) \<and>
      (pn_name p \<in> st_failed s \<longrightarrow> map_of (st_outputs s) (pn_name p) = None) \<and>
      (pn_name p \<notin> st_failed s \<longrightarrow>
         (\<exists>r. run_node env initial_inputs p (st_outputs s) = NodeRun r \<and>
              map_of (st_outputs s) (pn_name p) = Some (res_outputs r))))"
proof -
  from compile_stage_ok[OF assms(1,2)] obtain registrations where ok: "plan_ok ctx stage registrations annotations plan" .
  then have run: "runnable plan" by (rule plan_ok_runnable)
  define R where R: "R = outcome_of (eval_nodes env initial_inputs (plan_nodes plan))"
  from stage_trace_inv[OF assms(3) run R] have inv: "loop_inv env initial_inputs plan R s" and over: "is_over s" by simp_all
  show ?thesis
  proof (intro conjI ballI)
    show "\<exists>r. conclude plan s = Inr r" by (rule conclude_succeeds[OF ok R inv over])
    fix p
    assume p: "p \<in> set (plan_nodes plan)"
    note final = over_node_outcome[OF run R inv over p]
    show "pn_name p \<in> st_failed s \<longleftrightarrow> pn_required_dependencies p \<inter> st_failed s \<noteq> {} \<or>
         (\<exists>r. run_node env initial_inputs p (st_outputs s) = NodeRun r \<and> res_status r = ERROR)"
      and "pn_name p \<in> st_failed s \<longrightarrow> map_of (st_outputs s) (pn_name p) = None"
      and "pn_name p \<notin> st_failed s \<longrightarrow>
         (\<exists>r. run_node env initial_inputs p (st_outputs s) = NodeRun r \<and>
              map_of (st_outputs s) (pn_name p) = Some (res_outputs r))"
      using final by (cases "run_node env initial_inputs p (st_outputs s)"; auto split: if_splits)+
  qed
qed

theorem run_stage_failures_witness:
  "\<exists>s r. stage_trace demo_env [(''files'', PyObject ''src'')] demo_compiled demo_events (Ended (Inr s)) \<and>
     conclude demo_compiled s = Inr r \<and> st_failed s = {} \<and>
     (\<forall>p \<in> set (plan_nodes demo_compiled). map_of (st_outputs s) (pn_name p) \<noteq> None)"
proof -
  obtain s where t: "stage_trace demo_env [(''files'', PyObject ''src'')] demo_compiled demo_events (Ended (Inr s))"
    and f: "st_failed s = {}" by (rule demo_traceE)
  obtain cat' where "compile_stage demo_context demo_catalog ''review'' demo_stage [] [(''files'', ClassT ''str'')] []
      = (cat', Inr demo_compiled)" using demo_compiled_eq by blast
  from run_stage_failures[OF this demo_stage_wf t] t f show ?thesis by fastforce
qed

end
