(* ===== verification/Service_Lifecycle.thy ===== *)
theory Service_Lifecycle
  imports Prelude
begin

text \<open>
  The executions of an \<open>ExecutionGraphService\<close> (\<open>engine/stages/service.py\<close>): \<open>_execution_scope\<close> admits an
  execution when fewer than the limit are active, \<open>close\<close> stops admissions, cancels what is active
  and waits for it. Every block under the condition variable is one step, a wait is the guard of
  the step that follows it. An execution is identified by its cancellation event, numbered in
  the order of creation; the context variable with the executions around a call is the argument
  \<open>markers\<close>. Shutting down the scheduler and the thread pool is not part of this state.
\<close>

section \<open>State and operations\<close>

record lifecycle =
  lc_limit :: nat
  lc_closed :: bool
  lc_active :: "nat list"
  lc_cancelled :: "nat set"
  lc_next :: nat

datatype lifecycle_error = Reentered | ServiceClosed

definition new_lifecycle :: "nat \<Rightarrow> lifecycle" where
  "new_lifecycle limit = \<lparr>lc_limit = limit, lc_closed = False, lc_active = [], lc_cancelled = {}, lc_next = 0\<rparr>"

definition check_reentry :: "nat list \<Rightarrow> lifecycle \<Rightarrow> lifecycle_error + unit" where
  "check_reentry markers lc = raise_if (list_ex (\<lambda>e. e \<in> set (lc_active lc)) markers) Reentered"

definition can_enter :: "lifecycle \<Rightarrow> bool" where
  "can_enter lc \<longleftrightarrow> lc_closed lc \<or> length (lc_active lc) < lc_limit lc"

text \<open>After the wait: the new execution, or the error of a closed service.\<close>

definition enter :: "lifecycle \<Rightarrow> lifecycle_error + nat \<times> lifecycle" where
  "enter lc =
     and_then (raise_if (lc_closed lc) ServiceClosed) (\<lambda>_.
     Inr (lc_next lc, lc\<lparr>lc_active := lc_active lc @ [lc_next lc], lc_next := Suc (lc_next lc)\<rparr>))"

definition leave :: "nat \<Rightarrow> lifecycle \<Rightarrow> lifecycle" where
  "leave e lc = lc\<lparr>lc_active := remove1 e (lc_active lc)\<rparr>"

definition close_service :: "nat list \<Rightarrow> lifecycle \<Rightarrow> lifecycle_error + lifecycle" where
  "close_service markers lc =
     and_then (check_reentry markers lc) (\<lambda>_.
     Inr (lc\<lparr>lc_closed := True, lc_cancelled := lc_cancelled lc \<union> set (lc_active lc)\<rparr>))"

definition close_returns :: "lifecycle \<Rightarrow> bool" where
  "close_returns lc \<longleftrightarrow> lc_closed lc \<and> lc_active lc = []"

inductive lifecycle_step :: "lifecycle \<Rightarrow> lifecycle \<Rightarrow> bool" where
  step_enter: "check_reentry markers lc = Inr () \<Longrightarrow> can_enter lc \<Longrightarrow> enter lc = Inr (e, lc') \<Longrightarrow> lifecycle_step lc lc'"
| step_leave: "e \<in> set (lc_active lc) \<Longrightarrow> lifecycle_step lc (leave e lc)"
| step_close: "close_service markers lc = Inr lc' \<Longrightarrow> lifecycle_step lc lc'"

section \<open>Invariant\<close>

definition lifecycle_inv :: "nat \<Rightarrow> lifecycle \<Rightarrow> bool" where
  "lifecycle_inv limit lc \<longleftrightarrow>
     lc_limit lc = limit \<and> distinct (lc_active lc) \<and> length (lc_active lc) \<le> limit \<and>
     (\<forall>e \<in> set (lc_active lc). e < lc_next lc) \<and> (lc_closed lc \<longrightarrow> set (lc_active lc) \<subseteq> lc_cancelled lc) \<and>
     (\<not> lc_closed lc \<longrightarrow> lc_cancelled lc = {})"

lemmas lifecycle_defs = enter_def leave_def close_service_def can_enter_def check_reentry_def res_simps

lemma lifecycle_inv_step: "lifecycle_step lc lc' \<Longrightarrow> lifecycle_inv limit lc \<Longrightarrow> lifecycle_inv limit lc'"
proof (induction rule: lifecycle_step.induct)
  case (step_leave e lc)
  then have "lc_active lc \<noteq> []" by auto
  with step_leave show ?case
    by (auto simp: lifecycle_inv_def leave_def length_remove1 dest: notin_set_remove1 in_set_remove1[THEN iffD1, rotated] set_remove1_subset[THEN subsetD])
qed (auto simp: lifecycle_inv_def lifecycle_defs)

lemma lifecycle_inv_reachable: "lifecycle_step\<^sup>*\<^sup>* (new_lifecycle limit) lc \<Longrightarrow> lifecycle_inv limit lc"
proof (induction rule: rtranclp_induct)
  case base
  show ?case by (simp add: lifecycle_inv_def new_lifecycle_def)
qed (rule lifecycle_inv_step)

lemma closed_shrinks: "lifecycle_step lc lc' \<Longrightarrow> lc_closed lc \<Longrightarrow> lc_closed lc' \<and> set (lc_active lc') \<subseteq> set (lc_active lc)"
  by (induction rule: lifecycle_step.induct) (auto simp: lifecycle_defs dest: notin_set_remove1 set_remove1_subset[THEN subsetD])

lemma closed_stays:
  "lifecycle_step\<^sup>*\<^sup>* lc lc' \<Longrightarrow> lc_closed lc \<Longrightarrow> lc_closed lc' \<and> set (lc_active lc') \<subseteq> set (lc_active lc)"
proof (induction rule: rtranclp_induct)
  case (step lc1 lc2)
  then show ?case using closed_shrinks[of lc1 lc2] by blast
qed simp

lemma all_leave: "\<exists>lc'. lifecycle_step\<^sup>*\<^sup>* lc lc' \<and> lc_active lc' = [] \<and> lc_closed lc' = lc_closed lc"
proof (induction "length (lc_active lc)" arbitrary: lc)
  case (Suc n)
  then obtain e es where act: "lc_active lc = e # es" by (cases "lc_active lc") auto
  with Suc.hyps(2) have "n = length (lc_active (leave e lc))" by (simp add: leave_def)
  from Suc.hyps(1)[OF this] obtain lc' where "lifecycle_step\<^sup>*\<^sup>* (leave e lc) lc'" "lc_active lc' = []" "lc_closed lc' = lc_closed lc"
    by (auto simp: leave_def)
  moreover have "lifecycle_step lc (leave e lc)" by (rule step_leave) (simp add: act)
  ultimately show ?case by (meson converse_rtranclp_into_rtranclp)
qed auto

section \<open>Properties\<close>

text \<open>
  C15. However executions begin and end and whenever the service is closed, no more of them are active
  than the limit allows. Once the service is closed, every active execution is cancelled and no
  execution is admitted again, so the wait of \<open>close\<close> ends as soon as the active ones have left, which
  they can always do, and then the service stays idle.
\<close>

theorem service_lifecycle:
  assumes "lifecycle_step\<^sup>*\<^sup>* (new_lifecycle limit) lc"
  shows "length (lc_active lc) \<le> limit \<and> distinct (lc_active lc) \<and>
    (lc_closed lc \<longrightarrow> set (lc_active lc) \<subseteq> lc_cancelled lc \<and>
       (\<forall>lc'. lifecycle_step\<^sup>*\<^sup>* lc lc' \<longrightarrow> lc_closed lc' \<and> set (lc_active lc') \<subseteq> set (lc_active lc)) \<and>
       (\<exists>lc'. lifecycle_step\<^sup>*\<^sup>* lc lc' \<and> close_returns lc'))"
  using lifecycle_inv_reachable[OF assms] closed_stays[of lc] all_leave[of lc]
  unfolding lifecycle_inv_def close_returns_def by blast

definition demo_lifecycle :: lifecycle where
  "demo_lifecycle = \<lparr>lc_limit = 1, lc_closed = True, lc_active = [0], lc_cancelled = {0}, lc_next = 1\<rparr>"

lemma demo_lifecycle_reachable: "lifecycle_step\<^sup>*\<^sup>* (new_lifecycle 1) demo_lifecycle"
proof -
  let ?lc = "snd (projr (enter (new_lifecycle 1)))"
  have "lifecycle_step (new_lifecycle 1) ?lc"
    by (rule step_enter[of "[]" _ 0]) (simp_all add: lifecycle_defs new_lifecycle_def)
  moreover have "lifecycle_step ?lc demo_lifecycle"
    by (rule step_close[of "[]"]) (simp add: lifecycle_defs new_lifecycle_def demo_lifecycle_def)
  ultimately show ?thesis by (meson converse_rtranclp_into_rtranclp rtranclp.rtrancl_refl)
qed

theorem service_lifecycle_witness:
  "\<exists>lc. lifecycle_step\<^sup>*\<^sup>* demo_lifecycle lc \<and> close_returns lc"
  using service_lifecycle[OF demo_lifecycle_reachable] by (simp add: demo_lifecycle_def)

end
