(* ===== verification/Stage_Service.thy ===== *)
theory Stage_Service
  imports Stage_Configuration Runner Service_Lifecycle
begin

text \<open>
  The service that runs the configured stages (\<open>engine/stages/service.py\<close>): it compiles every stage
  against the stages before it, selects the stages that a request needs, runs them one after the
  other, hands outputs of earlier stages to later ones, and keeps track of the executions that are
  under way so that it can be closed. A stage is run as the sequential evaluation of its plan, which
  is the result of every run of the scheduling loop (\<open>Runner\<close>).

  Arguments of the model: the runtime context of each stage (with Pydantic's validators); the
  construction of the triage request from the SARIF payload, which reads files and may raise; the
  callback that the caller has after every stage, which may raise; the state of the lifecycle
  (\<open>Service_Lifecycle\<close>) when the execution begins and after it has waited for its turn; and the
  moments at which a cancellation is seen.
\<close>

section \<open>Compiling the stages\<close>

datatype service_error =
    StageOrderFailed pipeline_error
  | NodeCatalogFailed catalog_error
  | StageCompileFailed compile_error
  | StageWithoutOutputs string
  | MissingStageOutputs string "string list"
  | IncompatibleStageOutput string string
  | UnknownOutputReference string string string
  | IncompatibleInputSource string string string
  | ServiceKeyError string

type_synonym ('j, 'm, 'o, 'cap) stage_plans = "(string, ('j, 'm, 'o pyvalue, 'cap) stage_plan) dict"

record ('j, 'm, 'o, 'cap) service =
  sv_stages :: execution_stages
  sv_stage_order :: "string list"
  sv_inputs :: "'o execution_inputs"
  sv_contracts :: "(string, resolved_contract) dict"
  sv_plans :: "('j, 'm, 'o, 'cap) stage_plans"

definition source_output :: "string \<Rightarrow> string" where
  "source_output source = snd (snd (partition_at (CHR ''.'') source))"

definition key_or :: "'e \<Rightarrow> 'a option \<Rightarrow> 'e + 'a" where
  "key_or e x = (case x of None \<Rightarrow> Inl e | Some v \<Rightarrow> Inr v)"

definition value_type :: "('o pyvalue \<Rightarrow> annotation) \<Rightarrow> 'o pyvalue \<Rightarrow> annotation" where
  "value_type type_of v = (if v = PyNone then NoneT else type_of v)"

text \<open>The annotation of one stage input, in the dictionary \<open>initial_inputs\<close> that compilation starts from.\<close>

definition initial_annotation ::
  "('o pyvalue \<Rightarrow> annotation) \<Rightarrow> 'o execution_inputs \<Rightarrow> ('j, 'm, 'o, 'cap) stage_plans \<Rightarrow> stage_configuration \<Rightarrow>
   (string, annotation) dict \<Rightarrow> string \<Rightarrow> service_error + (string, annotation) dict" where
  "initial_annotation type_of inputs plans stage d name =
     (case map_of (sc_inputs stage) name of
        None \<Rightarrow> Inr (AList.update name NoneT d)
      | Some source \<Rightarrow>
          if is_stage_input source
          then and_then (key_or (ServiceKeyError (stage_input_name source)) (input_field inputs (stage_input_name source)))
                 (\<lambda>v. Inr (AList.update name (value_type type_of v) d))
          else case map_of plans (producer_of source) of
            None \<Rightarrow> Inr d
          | Some plan \<Rightarrow>
              (case map_of (plan_output_annotations plan) (source_output source) of
                 None \<Rightarrow> Inr d
               | Some a \<Rightarrow> Inr (AList.update name a d)))"

definition expected_outputs :: "string \<Rightarrow> resolved_contract \<Rightarrow> ('j, 'm, 'o pyvalue, 'cap) stage_plan \<Rightarrow> (string, annotation) dict" where
  "expected_outputs name c plan =
     (if name \<in> {''review'', ''triage''} \<and> ''filename'' \<in> set (keys (plan_output_annotations plan))
      then AList.update ''filename'' (UnionT [ClassT ''str'', NoneT]) (rc_required_outputs c) else rc_required_outputs c)"

definition check_stage_outputs ::
  "typing_context \<Rightarrow> string \<Rightarrow> resolved_contract \<Rightarrow> ('j, 'm, 'o pyvalue, 'cap) stage_plan \<Rightarrow> service_error + unit" where
  "check_stage_outputs ctx name c plan =
     (let missing = set (keys (rc_required_outputs c)) - set (keys (plan_output_annotations plan))
      in and_then (raise_if (plan_output_annotations plan = []) (StageWithoutOutputs name)) (\<lambda>_.
         and_then (raise_if (missing \<noteq> {}) (MissingStageOutputs name (sorted_list_of_set missing))) (\<lambda>_.
         fold_res (\<lambda>_ (output_name, a).
             and_then (key_or (ServiceKeyError output_name) (map_of (plan_output_annotations plan) output_name)) (\<lambda>actual.
             raise_if (\<not> compatible ctx actual a) (IncompatibleStageOutput name output_name)))
           () (expected_outputs name c plan))))"

definition check_stage_source ::
  "typing_context \<Rightarrow> string \<Rightarrow> resolved_contract \<Rightarrow> ('j, 'm, 'o, 'cap) stage_plans \<Rightarrow> string \<times> string \<Rightarrow> service_error + unit" where
  "check_stage_source ctx name c plans = (\<lambda>(input_name, source).
     if is_stage_input source then Inr ()
     else and_then (key_or (ServiceKeyError (producer_of source)) (map_of plans (producer_of source))) (\<lambda>source_plan.
          and_then (key_or (UnknownOutputReference name input_name source)
                      (map_of (plan_output_annotations source_plan) (source_output source))) (\<lambda>a.
          and_then (key_or (ServiceKeyError input_name) (map_of (rc_stage_inputs c) input_name)) (\<lambda>target.
          raise_if (\<not> compatible ctx a target) (IncompatibleInputSource name input_name source)))))"

definition compile_configured ::
  "typing_context \<Rightarrow> ('o pyvalue \<Rightarrow> annotation) \<Rightarrow> ('j, 'o) execution_configuration \<Rightarrow> (string, resolved_contract) dict \<Rightarrow>
   (string, 'cap) dict \<Rightarrow> ('j, 'm, 'o pyvalue, 'cap) node_catalog \<times> ('j, 'm, 'o, 'cap) stage_plans \<Rightarrow> string \<Rightarrow>
   service_error + (('j, 'm, 'o pyvalue, 'cap) node_catalog \<times> ('j, 'm, 'o, 'cap) stage_plans)" where
  "compile_configured ctx type_of cfg contracts capabilities = (\<lambda>(cat, plans) name.
     and_then (key_or (ServiceKeyError name) (map_of contracts name)) (\<lambda>c.
     and_then (key_or (ServiceKeyError name) (map_of (ec_stages cfg) name)) (\<lambda>stage.
     and_then (fold_res (initial_annotation type_of (ec_inputs cfg) plans stage) (rc_initial_inputs c) (keys (rc_stage_inputs c))) (\<lambda>initial.
     let configuration = (case map_of (ec_node_configuration cfg) name of None \<Rightarrow> [] | Some d \<Rightarrow> d);
         (cat', compiled) = compile_stage ctx cat name stage configuration initial capabilities
     in and_then (map_sum StageCompileFailed id compiled) (\<lambda>plan.
        and_then (check_stage_outputs ctx name c plan) (\<lambda>_.
        let plans' = AList.update name plan plans
        in and_then (fold_res (\<lambda>_. check_stage_source ctx name c plans') () (sc_inputs stage)) (\<lambda>_. Inr (cat', plans'))))))))"

definition new_service ::
  "typing_context \<Rightarrow> ('o pyvalue \<Rightarrow> annotation) \<Rightarrow> ('j, 'o) execution_configuration \<Rightarrow> (string, resolved_contract) dict \<Rightarrow>
   ('j, 'm, 'o pyvalue, 'cap) node_registration list \<Rightarrow> ('j, 'm, 'o pyvalue, 'cap) node_registration entry_point list \<Rightarrow>
   (string, 'cap) dict \<Rightarrow> service_error + ('j, 'm, 'o, 'cap) service" where
  "new_service ctx type_of cfg contracts registrations entry_points capabilities =
     and_then (map_sum StageOrderFailed id (stage_order (ec_stages cfg))) (\<lambda>order.
     and_then (map_sum NodeCatalogFailed id (new_catalog registrations entry_points)) (\<lambda>cat.
     and_then (fold_res (compile_configured ctx type_of cfg contracts capabilities) (cat, []) order) (\<lambda>(_, plans).
     Inr \<lparr>sv_stages = ec_stages cfg, sv_stage_order = order, sv_inputs = ec_inputs cfg, sv_contracts = contracts, sv_plans = plans\<rparr>)))"

section \<open>Running one stage\<close>

record 'o execution_result =
  ex_status :: execution_status
  ex_outputs :: "(string, (string, 'o pyvalue) dict) dict"
  ex_diagnostics :: "execution_diagnostic list"

datatype execution_error =
    ExecutionCancelled
  | LookupFailed string
  | StageRunFailed node_error
  | ScopeRefused lifecycle_error
  | OutsideRaised string

record ('j, 'o) execution_env =
  xe_context :: "string \<Rightarrow> ('j, 'o) runner_env"
  xe_triage_run :: "'o pyvalue \<Rightarrow> string + 'o pyvalue"
  xe_stage_completed :: "('o execution_result \<Rightarrow> string option) option"
  xe_markers :: "nat list"
  xe_lifecycle :: lifecycle
  xe_admitted :: lifecycle
  xe_cancelled :: "string \<Rightarrow> bool"
  xe_cancelled_at_end :: bool

definition resolve_stage_input ::
  "string \<Rightarrow> (string, (string, 'o pyvalue) dict) dict \<Rightarrow> 'o execution_inputs \<Rightarrow> execution_error + 'o pyvalue" where
  "resolve_stage_input source outputs inputs =
     (if is_stage_input source
      then key_or (LookupFailed (stage_input_name source)) (input_field inputs (stage_input_name source))
      else and_then (key_or (LookupFailed (producer_of source)) (map_of outputs (producer_of source))) (\<lambda>values.
           key_or (LookupFailed (source_output source)) (map_of values (source_output source))))"

definition update_all :: "('k, 'v) dict \<Rightarrow> ('k, 'v) dict \<Rightarrow> ('k, 'v) dict" where
  "update_all d e = foldl (\<lambda>d (k, v). AList.update k v d) d e"

definition stage_diagnostic :: "string \<Rightarrow> string \<Rightarrow> string \<Rightarrow> string \<Rightarrow> string \<Rightarrow> execution_diagnostic" where
  "stage_diagnostic code stage port_kind port msg =
     \<lparr>diag_code = code,
      diag_message = ''Execution stage '' @ repr_str stage @ '' '' @ port_kind @ '' '' @ repr_str port @ '' is invalid: '' @ msg,
      diag_severity = ''error''\<rparr>"

text \<open>The inputs of a stage before they are validated.\<close>

definition gather_inputs ::
  "typing_context \<Rightarrow> ('j, 'm, 'o, 'cap) service \<Rightarrow> string \<Rightarrow> resolved_contract \<Rightarrow> stage_configuration \<Rightarrow>
   (string, (string, 'o pyvalue) dict) dict \<Rightarrow> (string, 'o pyvalue) dict \<Rightarrow> execution_error + (string, 'o pyvalue) dict" where
  "gather_inputs ctx sv name c stage outputs overrides =
     and_then (map_res (\<lambda>(port, source). and_then (resolve_stage_input source outputs (sv_inputs sv)) (\<lambda>v. Inr (port, v)))
         (filter (\<lambda>(port, _). port \<notin> set (keys overrides)) (sc_inputs stage))) (\<lambda>resolved.
     let inputs = map (\<lambda>(port, _). (port, PyNone)) (filter (\<lambda>(_, a). allows_none ctx a) (rc_stage_inputs c));
         inputs = update_all inputs resolved;
         inputs = (if name = ''review'' then AList.update ''request'' (in_review_request (sv_inputs sv)) inputs else inputs)
     in Inr (update_all inputs overrides))"

fun validate_inputs ::
  "('j, 'o) runner_env \<Rightarrow> string \<Rightarrow> (string, 'o pyvalue) dict \<Rightarrow> (string, annotation) dict \<Rightarrow>
   execution_diagnostic + (string, 'o pyvalue) dict" where
  "validate_inputs env name inputs [] = Inr inputs"
| "validate_inputs env name inputs ((port, a) # ports) =
     (case and_then (key_or (repr_str port) (map_of inputs port)) (env_validate env a) of
        Inl msg \<Rightarrow> Inl (stage_diagnostic ''execution.stage_input_invalid'' name ''input'' port msg)
      | Inr v \<Rightarrow> validate_inputs env name (AList.update port v inputs) ports)"

definition validate_output ::
  "('j, 'o) runner_env \<Rightarrow> string \<Rightarrow> 'o stage_run \<Rightarrow> string \<times> annotation \<Rightarrow> 'o stage_run" where
  "validate_output env name run = (\<lambda>(port, a).
     case map_of (run_outputs run) port of
       None \<Rightarrow> run
     | Some v \<Rightarrow>
         (case env_validate env a v of
            Inl msg \<Rightarrow> run\<lparr>run_outputs := AList.delete port (run_outputs run), run_status := ERROR,
              run_diagnostics := run_diagnostics run @ [stage_diagnostic ''execution.stage_output_invalid'' name ''output'' port msg]\<rparr>
          | Inr v' \<Rightarrow> run\<lparr>run_outputs := AList.update port v' (run_outputs run)\<rparr>))"

definition triage_input :: "('j, 'o) execution_env \<Rightarrow> string \<Rightarrow> (string, 'o pyvalue) dict \<Rightarrow> execution_error + (string, 'o pyvalue) dict" where
  "triage_input xe name inputs =
     (if name = ''triage''
      then and_then (key_or (LookupFailed ''sarif'') (map_of inputs ''sarif''))
             (\<lambda>sarif. and_then (map_sum OutsideRaised id (xe_triage_run xe sarif))
             (\<lambda>request. Inr (AList.update ''request'' request inputs)))
      else Inr inputs)"

definition execute_configured_stage ::
  "typing_context \<Rightarrow> ('j, 'm, 'o, 'cap) service \<Rightarrow> ('j, 'o) execution_env \<Rightarrow> string \<Rightarrow>
   (string, (string, 'o pyvalue) dict) dict \<Rightarrow> (string, 'o pyvalue) dict \<Rightarrow> execution_error + 'o execution_result" where
  "execute_configured_stage ctx sv xe name outputs overrides =
     and_then (key_or (LookupFailed name) (map_of (sv_stages sv) name)) (\<lambda>stage.
     and_then (key_or (LookupFailed name) (map_of (sv_contracts sv) name)) (\<lambda>c.
     and_then (gather_inputs ctx sv name c stage outputs overrides) (\<lambda>gathered.
     case validate_inputs (xe_context xe name) name gathered (rc_stage_inputs c) of
       Inl diagnostic \<Rightarrow> Inr \<lparr>ex_status = ERROR, ex_outputs = [(name, [])], ex_diagnostics = [diagnostic]\<rparr>
     | Inr validated \<Rightarrow>
         and_then (triage_input xe name validated) (\<lambda>inputs.
         and_then (key_or (LookupFailed name) (map_of (sv_plans sv) name)) (\<lambda>plan.
         case sequential_run (xe_context xe name) inputs plan of
           None \<Rightarrow> Inl ExecutionCancelled
         | Some (Inl e) \<Rightarrow> Inl (StageRunFailed e)
         | Some (Inr run) \<Rightarrow>
             let final = foldl (validate_output (xe_context xe name) name) run (rc_required_outputs c)
             in Inr \<lparr>ex_status = run_status final, ex_outputs = [(name, run_outputs final)],
                     ex_diagnostics = run_diagnostics final\<rparr>)))))"

section \<open>Running the stages\<close>

definition worse_status :: "execution_status \<Rightarrow> execution_status \<Rightarrow> execution_status" where
  "worse_status status result = (case result of OK \<Rightarrow> status | _ \<Rightarrow> result)"

text \<open>
  Entering the scope of an execution: it is refused from within an active execution of the service,
  and, after the wait for a free place, when the service is closed. The new execution is one of the
  steps of \<open>Service_Lifecycle\<close>.
\<close>

definition execution_scope :: "('j, 'o) execution_env \<Rightarrow> execution_error + nat \<times> lifecycle" where
  "execution_scope xe =
     map_sum ScopeRefused id (and_then (check_reentry (xe_markers xe) (xe_lifecycle xe)) (\<lambda>_. enter (xe_admitted xe)))"

definition call_stage_completed :: "('j, 'o) execution_env \<Rightarrow> 'o execution_result \<Rightarrow> execution_error + unit" where
  "call_stage_completed xe result =
     (case xe_stage_completed xe of
        None \<Rightarrow> Inr ()
      | Some callback \<Rightarrow> (case callback result of None \<Rightarrow> Inr () | Some e \<Rightarrow> Inl (OutsideRaised e)))"

text \<open>The loop of \<open>_execute_stages\<close>. The callback is called after every stage, also after one that failed.\<close>

fun stage_loop ::
  "typing_context \<Rightarrow> ('j, 'm, 'o, 'cap) service \<Rightarrow> ('j, 'o) execution_env \<Rightarrow> (string, (string, 'o pyvalue) dict) dict \<Rightarrow>
   'o execution_result \<Rightarrow> string list \<Rightarrow> execution_error + 'o execution_result" where
  "stage_loop ctx sv xe overrides so_far [] = (if xe_cancelled_at_end xe then Inl ExecutionCancelled else Inr so_far)"
| "stage_loop ctx sv xe overrides so_far (name # names) =
     (if xe_cancelled xe name then Inl ExecutionCancelled
      else and_then (execute_configured_stage ctx sv xe name (ex_outputs so_far)
                       (case map_of overrides name of None \<Rightarrow> [] | Some d \<Rightarrow> d)) (\<lambda>result.
        let next = \<lparr>ex_status = worse_status (ex_status so_far) (ex_status result),
                    ex_outputs = update_all (ex_outputs so_far)
                      (filter (\<lambda>(_, values). values \<noteq> [] \<or> ex_status result \<noteq> ERROR) (ex_outputs result)),
                    ex_diagnostics = ex_diagnostics so_far @ ex_diagnostics result\<rparr>
        in and_then (call_stage_completed xe next) (\<lambda>_.
           if ex_status result = ERROR then Inr next else stage_loop ctx sv xe overrides next names)))"

definition no_result :: "'o execution_result" where
  "no_result = \<lparr>ex_status = OK, ex_outputs = [], ex_diagnostics = []\<rparr>"

definition execute_stages ::
  "typing_context \<Rightarrow> ('j, 'm, 'o, 'cap) service \<Rightarrow> ('j, 'o) execution_env \<Rightarrow> (string, (string, 'o pyvalue) dict) dict \<Rightarrow>
   string list \<Rightarrow> execution_error + 'o execution_result" where
  "execute_stages ctx sv xe overrides order =
     and_then (execution_scope xe) (\<lambda>_. stage_loop ctx sv xe overrides no_result order)"

definition execute_graph ::
  "typing_context \<Rightarrow> ('j, 'm, 'o, 'cap) service \<Rightarrow> ('j, 'o) execution_env \<Rightarrow> execution_error + 'o execution_result" where
  "execute_graph ctx sv xe = execute_stages ctx sv xe [] (sv_stage_order sv)"

text \<open>The stages that a stage needs; the target does not need the sources of ports it is given.\<close>

definition stage_needs :: "string \<Rightarrow> string list \<Rightarrow> string \<Rightarrow> stage_configuration \<Rightarrow> string list" where
  "stage_needs target given name stage =
     sc_depends_on stage @
     map (producer_of \<circ> snd) (filter (\<lambda>(port, source). \<not> is_stage_input source \<and> \<not> (name = target \<and> port \<in> set given)) (sc_inputs stage))"

text \<open>The worklist of \<open>_execute_target\<close>; the end of the Python list, where \<open>pop\<close> takes, is the head here.\<close>

function (sequential) select_stages ::
  "execution_stages \<Rightarrow> string \<Rightarrow> string list \<Rightarrow> string list \<Rightarrow> string list \<Rightarrow> execution_error + string list" where
  "select_stages stages target given selected [] = Inr selected"
| "select_stages stages target given selected (name # pending) =
     (if name \<in> set selected then select_stages stages target given selected pending
      else case map_of stages name of
        None \<Rightarrow> Inl (LookupFailed name)
      | Some stage \<Rightarrow> select_stages stages target given (selected @ [name]) (rev (stage_needs target given name stage) @ pending))"
  by pat_completeness auto
termination
proof (relation "measures [\<lambda>(stages, _, _, selected, _). card (set (keys stages) - set selected), \<lambda>(_, _, _, _, pending). length pending]")
  fix stages :: execution_stages and target given selected name pending stage
  assume "name \<notin> set selected" and "map_of stages name = Some stage"
  then have "name \<in> set (keys stages) - set selected" "set (keys stages) - set (selected @ [name]) = (set (keys stages) - set selected) - {name}"
    by (auto dest: map_of_Some_keys)
  then have "card (set (keys stages) - set (selected @ [name])) < card (set (keys stages) - set selected)"
    by (metis card_Diff1_less finite_Diff finite_set)
  then show "((stages, target, given, selected @ [name], rev (stage_needs target given name stage) @ pending), stages, target, given, selected, name # pending)
    \<in> measures [\<lambda>(stages, _, _, selected, _). card (set (keys stages) - set selected), \<lambda>(_, _, _, _, pending). length pending]" by simp
qed auto

definition unavailable_stage :: "string \<Rightarrow> 'o execution_result" where
  "unavailable_stage name =
     \<lparr>ex_status = ERROR, ex_outputs = [],
      ex_diagnostics = [\<lparr>diag_code = ''execution.stage_unavailable'',
        diag_message = ''Execution stage '' @ repr_str name @ '' is not configured'', diag_severity = ''error''\<rparr>]\<rparr>"

definition execute_target ::
  "typing_context \<Rightarrow> ('j, 'm, 'o, 'cap) service \<Rightarrow> ('j, 'o) execution_env \<Rightarrow> string \<Rightarrow> (string, 'o pyvalue) dict \<Rightarrow>
   execution_error + 'o execution_result" where
  "execute_target ctx sv xe target initial_inputs =
     (if target \<notin> set (keys (sv_stages sv)) then Inr (unavailable_stage target)
      else and_then (select_stages (sv_stages sv) target (keys initial_inputs) [] [target]) (\<lambda>selected.
        execute_stages ctx sv xe [(target, initial_inputs)]
          (filter (\<lambda>name. name \<in> set selected) (sv_stage_order sv))))"

section \<open>The outputs of a stage\<close>

lemma reference_available:
  assumes "reference_annotation source registrations = Inr a" and "map_of registrations (producer_of source) = Some r"
    and "map_of outputs (producer_of source) = Some outs" and "keys outs = keys (reg_outputs r)"
  shows "source_is_available source outputs"
  using assms
  by (auto simp: reference_annotation_def source_is_available_def producer_of_def Let_def dest: map_of_Some_keys
      split: prod.splits if_splits option.splits)

lemma bound_producer:
  assumes "plan_ok ctx stage registrations annotations plan" and "(n, source) \<in> set (plan_output_bindings plan)"
  obtains a p where "reference_annotation source registrations = Inr a" and "p \<in> set (plan_nodes plan)" and "pn_name p = producer_of source"
    and "map_of registrations (producer_of source) = Some (pn_registration p)" and "reg_outputs (pn_registration p) \<noteq> []"
proof -
  have regs: "map_of (plan_registrations plan) = map_of registrations"
    and outs: "list_all2 (\<lambda>(n, source) (m, a). m = n \<and> reference_annotation source registrations = Inr a)
        (plan_output_bindings plan) (plan_output_annotations plan)"
    using assms(1) by (simp_all only: plan_ok_def Let_def)
  from list_all2_left[OF outs assms(2)] obtain a where a: "reference_annotation source registrations = Inr a" by auto
  then obtain r where r: "map_of (plan_registrations plan) (producer_of source) = Some r" "reg_outputs r \<noteq> []"
    using reference_annotation_nonempty regs by metis
  then obtain p where "p \<in> set (plan_nodes plan)" "pn_name p = producer_of source" "pn_registration p = r"
    by (auto simp: plan_registrations_def dest!: map_of_SomeD)
  with a r regs that show thesis by metis
qed

lemma plan_ok_output_keys:
  assumes "plan_ok ctx stage registrations annotations plan"
  shows "keys (plan_output_bindings plan) = keys (plan_output_annotations plan)"
proof -
  have "list_all2 (\<lambda>x y. fst y = fst x \<and> True) (plan_output_bindings plan) (plan_output_annotations plan)"
    using assms by (auto simp: plan_ok_def Let_def elim!: list_all2_mono)
  from list_all2_keys[OF this] show ?thesis by simp
qed

text \<open>A stage that is not in error has produced every output it declares.\<close>

lemma sequential_run_outputs:
  assumes ok: "plan_ok ctx stage registrations annotations plan" and nonempty: "plan_output_bindings plan \<noteq> []"
    and run: "sequential_run env initial plan = Some r"
  shows "\<exists>run. r = Inr run \<and> (run_status run \<noteq> ERROR \<longrightarrow> keys (run_outputs run) = keys (plan_output_annotations plan))"
proof -
  let ?refs = "eval_nodes env initial (plan_nodes plan)" and ?outs = "outputs_of (eval_nodes env initial (plan_nodes plan))"
  let ?b = "plan_output_bindings plan"
  have runnable: "runnable plan" by (rule plan_ok_runnable[OF ok])
  then have dist: "distinct (keys ?refs)" by (simp add: runnable_def)
  have wf: "wf_dict ?refs" using dist by (simp add: wf_dict_keys)
  have r: "r = conclude plan (sequential_state ?refs)" and nc: "\<not> any_cancelled ?refs"
    using run by (auto simp: sequential_run_def Let_def split: if_splits)
  have res: "\<exists>v. resolve_source source ?outs [] = Inr v" if "(n, source) \<in> set ?b" "source_is_available source ?outs" for n source
    using that(2)
  proof (rule available_resolves)
    fix os assume os: "map_of ?outs (producer_of source) = Some os"
    from bound_producer[OF ok that(1)] obtain p where p: "p \<in> set (plan_nodes plan)" "pn_name p = producer_of source"
      "reg_outputs (pn_registration p) \<noteq> []" by metis
    with os reference_outputs[OF p(1) runnable, of env initial os] have "keys os = keys (reg_outputs (pn_registration p))"
      by (simp add: outputs_of_lookup[OF dist])
    with p(3) show "os \<noteq> []" by (metis length_0_conv length_keys)
  qed
  have "\<exists>y. (case x of (name, source) \<Rightarrow> and_then (resolve_source source ?outs []) (\<lambda>v. Inr (name, v))) = Inr y \<and> fst y = fst x"
    if "x \<in> set (filter (\<lambda>(_, source). source_is_available source ?outs) ?b)" for x
    using that res by (auto simp: res_simps)
  then obtain outs where outs: "stage_outputs_of plan ?outs = Inr outs"
    using map_res_total[of "filter (\<lambda>(_, source). source_is_available source ?outs) ?b"] nonempty unfolding stage_outputs_of_def by (metis (no_types, lifting))
  with nonempty have "list_all2 (\<lambda>x y. fst y = fst x \<and> True) (filter (\<lambda>(_, source). source_is_available source ?outs) ?b) outs"
    by (auto simp: stage_outputs_of_def res_simps elim!: list_all2_mono)
  then have keys: "keys outs = keys (filter (\<lambda>(_, source). source_is_available source ?outs) ?b)" by (rule list_all2_keys)
  have "source_is_available source ?outs" if b: "(n, source) \<in> set ?b" and fine: "failed_of ?refs \<inter> output_producers plan = {}" for n source
  proof -
    from bound_producer[OF ok b] obtain a p where a: "reference_annotation source registrations = Inr a" and p: "p \<in> set (plan_nodes plan)"
      "pn_name p = producer_of source" "map_of registrations (producer_of source) = Some (pn_registration p)" by metis
    have "producer_of source \<in> output_producers plan" using b by (force simp: output_producers_def vals_def)
    with fine p(2) have "pn_name p \<notin> failed_of ?refs" by auto
    moreover have "pn_name p \<in> set (keys ?refs)" using p(1) by simp
    ultimately have "\<not> out_failed (outcome_of ?refs (pn_name p))" unfolding failed_of_iff[OF dist] by blast
    moreover have "outcome_of ?refs (pn_name p) \<noteq> Ran NodeRunCancelled"
      using nc p(1) by (auto simp: any_cancelled_def list_ex_vals[OF wf] split: node_outcome.splits node_run.splits)
    ultimately obtain os where os: "out_outputs (outcome_of ?refs (pn_name p)) = Some os"
      by (cases "outcome_of ?refs (pn_name p)" rule: out_failed.cases) (auto split: if_splits)
    then have "map_of ?outs (producer_of source) = Some os" by (simp add: outputs_of_lookup[OF dist] p(2)[symmetric])
    from reference_available[OF a p(3) this] reference_outputs[OF p(1) runnable os] show ?thesis by simp
  qed
  then have "filter (\<lambda>(_, source). source_is_available source ?outs) ?b = ?b" if "failed_of ?refs \<inter> output_producers plan = {}"
    using that by (auto simp: filter_id_conv)
  moreover have "failed_of ?refs \<inter> output_producers plan = {}" if "final_status plan s (failed_of ?refs) \<noteq> ERROR" for s
    using that by (auto simp: final_status_def Let_def split: if_splits)
  ultimately show ?thesis
    using r outs keys plan_ok_output_keys[OF ok] by (auto simp: conclude_def sequential_state_def)
qed

section \<open>Compiled services\<close>

text \<open>What compiling a stage says about its plan and about the plans it reads from.\<close>

definition stage_compiled ::
  "typing_context \<Rightarrow> ('j, 'o) execution_configuration \<Rightarrow> ('j, 'm, 'o, 'cap) stage_plans \<Rightarrow> string \<Rightarrow> bool" where
  "stage_compiled ctx cfg plans name \<longleftrightarrow>
     (\<exists>stage plan registrations annotations.
        map_of (ec_stages cfg) name = Some stage \<and> map_of plans name = Some plan \<and>
        plan_ok ctx stage registrations annotations plan \<and> plan_output_annotations plan \<noteq> [] \<and>
        (\<forall>(port, source) \<in> set (sc_inputs stage). is_stage_input source \<or>
           (\<exists>p. map_of plans (producer_of source) = Some p \<and> source_output source \<in> set (keys (plan_output_annotations p)))))"

lemma stage_compiled_mono:
  assumes "stage_compiled ctx cfg plans name" and "\<And>n p. map_of plans n = Some p \<Longrightarrow> map_of plans' n = Some p"
  shows "stage_compiled ctx cfg plans' name"
  using assms unfolding stage_compiled_def by fastforce

lemma key_or_Inr [simp]: "key_or e x = Inr v \<longleftrightarrow> x = Some v"
  by (simp add: key_or_def split: option.splits)

lemma key_or_Inl [simp]: "key_or e x = Inl e' \<longleftrightarrow> x = None \<and> e' = e"
  by (auto simp: key_or_def split: option.splits)

lemma map_sum_Inr: "map_sum f id r = Inr x \<longleftrightarrow> r = Inr x"
  by (cases r) auto

lemma fold_res_snoc: "fold_res f s (xs @ [x]) = and_then (fold_res f s xs) (\<lambda>s'. f s' x)"
proof -
  have "fold_res f s' [x] = f s' x" for s' by (cases "f s' x") simp_all
  then show ?thesis by (simp only: fold_res_append)
qed

lemma compile_configured_ok:
  assumes "compile_configured ctx type_of cfg contracts capabilities (cat, plans) name = Inr (cat', plans')"
    and "name \<notin> set (keys plans)" and "\<forall>n stage. map_of (ec_stages cfg) n = Some stage \<longrightarrow> wf_dict (sc_nodes stage)"
  shows "\<exists>plan. plans' = AList.update name plan plans" and "stage_compiled ctx cfg plans' name"
proof -
  from assms(1) obtain c stage initial plan configuration where
    s: "map_of (ec_stages cfg) name = Some stage"
    and compiled: "compile_stage ctx cat name stage configuration initial capabilities = (cat', Inr plan)"
    and out: "check_stage_outputs ctx name c plan = Inr ()"
    and plans': "plans' = AList.update name plan plans"
    and src: "fold_res (\<lambda>_. check_stage_source ctx name c plans') () (sc_inputs stage) = Inr ()"
    by (auto simp: compile_configured_def res_simps map_sum_Inr Let_def case_prod_unfold) (metis prod.collapse)
  show "\<exists>plan. plans' = AList.update name plan plans" using plans' by blast
  obtain registrations where ok: "plan_ok ctx stage registrations initial plan"
    by (rule compile_stage_ok[OF compiled assms(3)[rule_format, OF s]])
  have "is_stage_input source \<or> (\<exists>p. map_of plans' (producer_of source) = Some p \<and> source_output source \<in> set (keys (plan_output_annotations p)))"
    if "(port, source) \<in> set (sc_inputs stage)" for port source
    using fold_res_unit[OF src that] by (auto simp: check_stage_source_def res_simps split: if_splits dest: map_of_Some_keys)
  moreover have "plan_output_annotations plan \<noteq> []" using out by (auto simp: check_stage_outputs_def res_simps Let_def)
  ultimately show "stage_compiled ctx cfg plans' name" using s ok plans' unfolding stage_compiled_def by fastforce
qed

lemma compile_order_ok:
  assumes "fold_res (compile_configured ctx type_of cfg contracts capabilities) (cat, []) order = Inr (cat', plans)"
    and "distinct order" and "\<forall>n stage. map_of (ec_stages cfg) n = Some stage \<longrightarrow> wf_dict (sc_nodes stage)"
  shows "set (keys plans) = set order \<and> (\<forall>n \<in> set order. stage_compiled ctx cfg plans n)"
  using assms(1,2)
proof (induction order arbitrary: cat' plans rule: rev_induct)
  case (snoc name order)
  from snoc.prems(1) obtain s where s: "fold_res (compile_configured ctx type_of cfg contracts capabilities) (cat, []) order = Inr s"
    "compile_configured ctx type_of cfg contracts capabilities s name = Inr (cat', plans)"
    by (auto simp: fold_res_snoc res_simps)
  obtain cat1 plans1 where s1: "s = (cat1, plans1)" by (cases s)
  with snoc.IH s(1) snoc.prems(2) have IH: "set (keys plans1) = set order" "\<forall>n \<in> set order. stage_compiled ctx cfg plans1 n" by auto
  have fresh: "name \<notin> set (keys plans1)" using IH(1) snoc.prems(2) by simp
  note new = compile_configured_ok[OF s(2)[unfolded s1] fresh assms(3)]
  then obtain plan where plans: "plans = AList.update name plan plans1" by blast
  have "map_of plans n = Some p" if "map_of plans1 n = Some p" for n p
    using that fresh map_of_Some_keys[OF that] by (auto simp: plans)
  then have "\<forall>n \<in> set order. stage_compiled ctx cfg plans n" using IH(2) stage_compiled_mono by metis
  then show ?case using new(2) IH(1) by (auto simp: plans)
qed simp

text \<open>A configuration whose dictionaries have distinct keys, as Python's do.\<close>

definition wf_configuration :: "('j, 'o) execution_configuration \<Rightarrow> bool" where
  "wf_configuration cfg \<longleftrightarrow> wf_dict (ec_stages cfg) \<and> (\<forall>n stage. map_of (ec_stages cfg) n = Some stage \<longrightarrow> wf_dict (sc_nodes stage))"

text \<open>What execution relies on: the stages and their plans, in the order of execution.\<close>

definition runs_after ::
  "typing_context \<Rightarrow> ('j, 'm, 'o, 'cap) service \<Rightarrow> string set \<Rightarrow> string \<Rightarrow> bool" where
  "runs_after ctx sv before name \<longleftrightarrow>
     (\<exists>stage c plan registrations annotations.
        map_of (sv_stages sv) name = Some stage \<and> map_of (sv_contracts sv) name = Some c \<and> map_of (sv_plans sv) name = Some plan \<and>
        plan_ok ctx stage registrations annotations plan \<and> plan_output_annotations plan \<noteq> [] \<and>
        (name = ''triage'' \<longrightarrow> ''sarif'' \<in> set (keys (rc_stage_inputs c))) \<and>
        set (sc_depends_on stage) \<union> set (source_stages stage) \<subseteq> before \<and>
        (\<forall>(port, source) \<in> set (sc_inputs stage).
           if is_stage_input source then input_field (sv_inputs sv) (stage_input_name source) \<noteq> None
           else \<exists>p. map_of (sv_plans sv) (producer_of source) = Some p \<and> source_output source \<in> set (keys (plan_output_annotations p))))"

definition service_ok :: "typing_context \<Rightarrow> ('j, 'm, 'o, 'cap) service \<Rightarrow> bool" where
  "service_ok ctx sv \<longleftrightarrow>
     distinct (sv_stage_order sv) \<and> set (sv_stage_order sv) = set (keys (sv_stages sv)) \<and>
     (\<forall>ys name zs. sv_stage_order sv = ys @ name # zs \<longrightarrow> runs_after ctx sv (set ys) name)"

lemma resolve_contracts_builtin:
  "resolve_contracts cat names = Inr contracts \<Longrightarrow> map_of builtin_stage_contracts n = Some c \<Longrightarrow> n \<in> set names \<Longrightarrow> map_of contracts n = Some c"
  by (induction names arbitrary: cat contracts) (auto simp: res_simps split: option.splits)

lemma triage_contract:
  assumes "stage_contracts discovered stages = Inr contracts" and "map_of contracts ''triage'' = Some c"
  shows "''sarif'' \<in> set (keys (rc_stage_inputs c))"
proof -
  from assms(1) obtain cat where r: "resolve_contracts cat (keys (configured stages)) = Inr contracts"
    by (auto simp: stage_contracts_def res_simps)
  have "''triage'' \<in> set (keys (configured stages))" using resolve_contracts_keys[OF r] map_of_Some_keys[OF assms(2)] by simp
  from resolve_contracts_builtin[OF r _ this] assms(2) show ?thesis by (auto simp: builtin_stage_contracts_def)
qed

lemma new_service_ok:
  assumes "wf_configuration cfg" and "validate_pipeline ctx type_of discovered cfg = Inr contracts"
    and "new_service ctx type_of cfg contracts registrations entry_points capabilities = Inr sv"
  shows "service_ok ctx sv"
proof -
  obtain order where c: "stage_contracts discovered (ec_stages cfg) = Inr contracts" and order: "stage_order (ec_stages cfg) = Inr order"
    and conn: "\<forall>name stage. map_of (ec_stages cfg) name = Some stage \<longrightarrow>
      (\<exists>c. map_of contracts name = Some c \<and> stage_connected ctx type_of (ec_inputs cfg) (set (keys (ec_stages cfg))) c stage)"
    by (rule validate_pipelineE[OF assms(2)])
  from assms(1) have wf: "wf_dict (ec_stages cfg)" "\<forall>n stage. map_of (ec_stages cfg) n = Some stage \<longrightarrow> wf_dict (sc_nodes stage)"
    by (auto simp: wf_configuration_def)
  note sound = stage_order_sound[OF wf(1) order]
  from assms(3) order obtain cat cat' plans where
    plans: "fold_res (compile_configured ctx type_of cfg contracts capabilities) (cat, []) order = Inr (cat', plans)"
    and sv: "sv = \<lparr>sv_stages = ec_stages cfg, sv_stage_order = order, sv_inputs = ec_inputs cfg, sv_contracts = contracts, sv_plans = plans\<rparr>"
    by (auto simp: new_service_def res_simps map_sum_Inr)
  note compiled = compile_order_ok[OF plans sound(1) wf(2)]
  have "runs_after ctx sv (set ys) name" if dec: "order = ys @ name # zs" for ys name zs
  proof -
    from compiled dec have "stage_compiled ctx cfg plans name" by simp
    then obtain stage plan registrations annotations where s: "map_of (ec_stages cfg) name = Some stage" "map_of plans name = Some plan"
      "plan_ok ctx stage registrations annotations plan" "plan_output_annotations plan \<noteq> []"
      and src: "\<forall>(port, source) \<in> set (sc_inputs stage). is_stage_input source \<or>
           (\<exists>p. map_of plans (producer_of source) = Some p \<and> source_output source \<in> set (keys (plan_output_annotations p)))"
      unfolding stage_compiled_def by blast
    from conn s(1) obtain k where k: "map_of contracts name = Some k"
      "stage_connected ctx type_of (ec_inputs cfg) (set (keys (ec_stages cfg))) k stage" by blast
    have "if is_stage_input source then input_field (ec_inputs cfg) (stage_input_name source) \<noteq> None
       else \<exists>p. map_of plans (producer_of source) = Some p \<and> source_output source \<in> set (keys (plan_output_annotations p))"
      if "(port, source) \<in> set (sc_inputs stage)" for port source
      using that src k(2) by (fastforce simp: stage_connected_def source_ok_def split: if_splits)
    moreover have "name = ''triage'' \<longrightarrow> ''sarif'' \<in> set (keys (rc_stage_inputs k))" using triage_contract[OF c] k(1) by auto
    ultimately show ?thesis using s k(1) sound(3)[OF dec s(1)] unfolding runs_after_def sv service.simps by blast
  qed
  with sound(1,2) show ?thesis by (simp add: service_ok_def sv)
qed

section \<open>Executions of a compiled service\<close>

text \<open>The stages in a set have published every output they declare.\<close>

definition published ::
  "('j, 'm, 'o, 'cap) service \<Rightarrow> (string, (string, 'o pyvalue) dict) dict \<Rightarrow> string set \<Rightarrow> bool" where
  "published sv outputs names \<longleftrightarrow>
     (\<forall>n \<in> names. \<exists>plan outs. map_of (sv_plans sv) n = Some plan \<and> map_of outputs n = Some outs \<and>
        set (keys (plan_output_annotations plan)) \<subseteq> set (keys outs))"

text \<open>The sources of the ports that are not given have been published.\<close>

definition inputs_published ::
  "('j, 'm, 'o, 'cap) service \<Rightarrow> string list \<Rightarrow> string set \<Rightarrow> string \<Rightarrow> bool" where
  "inputs_published sv given names n \<longleftrightarrow>
     (\<forall>stage. map_of (sv_stages sv) n = Some stage \<longrightarrow>
        (\<forall>(port, source) \<in> set (sc_inputs stage). is_stage_input source \<or> port \<in> set given \<or> producer_of source \<in> names))"

lemma update_all_keys: "set (keys (update_all d e)) = set (keys d) \<union> set (keys e)"
  unfolding update_all_def by (induction e arbitrary: d) auto

lemma gather_inputs_ok:
  assumes "runs_after ctx sv before name" and "map_of (sv_stages sv) name = Some stage"
    and "published sv outputs names" and "inputs_published sv (keys overrides) names name"
  shows "\<exists>gathered. gather_inputs ctx sv name c stage outputs overrides = Inr gathered"
proof -
  have "\<exists>y. (case x of (port, source) \<Rightarrow> and_then (resolve_stage_input source outputs (sv_inputs sv)) (\<lambda>v. Inr (port, v))) = Inr y"
    if "x \<in> set (filter (\<lambda>(port, _). port \<notin> set (keys overrides)) (sc_inputs stage))" for x
  proof -
    obtain port source where "x = (port, source)" by (cases x)
    with that have x: "x = (port, source)" "(port, source) \<in> set (sc_inputs stage)" "port \<notin> set (keys overrides)" by auto
    have "\<exists>v. resolve_stage_input source outputs (sv_inputs sv) = Inr v"
    proof (cases "is_stage_input source")
      case True
      with assms(1,2) x show ?thesis by (force simp: runs_after_def resolve_stage_input_def)
    next
      case False
      with assms(4,2) x have "producer_of source \<in> names" by (force simp: inputs_published_def)
      with assms(3) obtain plan outs where p: "map_of (sv_plans sv) (producer_of source) = Some plan"
        "map_of outputs (producer_of source) = Some outs" "set (keys (plan_output_annotations plan)) \<subseteq> set (keys outs)"
        by (auto simp: published_def)
      have "source_output source \<in> set (keys (plan_output_annotations plan))"
        using assms(1,2) x(2) False p(1) by (fastforce simp: runs_after_def)
      with p(3) have "source_output source \<in> set (keys outs)" by blast
      then obtain v where "map_of outs (source_output source) = Some v" by (rule map_of_keysE)
      with False p(2) show ?thesis by (simp add: resolve_stage_input_def key_or_def)
    qed
    with x(1) show ?thesis by auto
  qed
  then have "\<exists>ys. map_res (\<lambda>(port, source). and_then (resolve_stage_input source outputs (sv_inputs sv)) (\<lambda>v. Inr (port, v)))
      (filter (\<lambda>(port, _). port \<notin> set (keys overrides)) (sc_inputs stage)) = Inr ys" by (intro map_res_total) blast
  then show ?thesis by (auto simp: gather_inputs_def Let_def)
qed

lemma validate_inputs_keys:
  "validate_inputs env name inputs ports = Inr validated \<Longrightarrow> set (keys ports) \<subseteq> set (keys validated) \<and> set (keys inputs) \<subseteq> set (keys validated)"
  by (induction env name inputs ports rule: validate_inputs.induct) (auto split: sum.splits)

lemma validate_outputs_fold:
  assumes "run_status (foldl (validate_output env name) run ports) \<noteq> ERROR"
  shows "run_status run \<noteq> ERROR \<and> set (keys (run_outputs (foldl (validate_output env name) run ports))) = set (keys (run_outputs run))"
  using assms
proof (induction ports arbitrary: run)
  case (Cons p ports)
  obtain port a where p: "p = (port, a)" by (cases p)
  from Cons have rest: "run_status (validate_output env name run p) \<noteq> ERROR"
    "set (keys (run_outputs (foldl (validate_output env name) run (p # ports)))) = set (keys (run_outputs (validate_output env name run p)))" by simp_all
  then have "run_status run \<noteq> ERROR" "set (keys (run_outputs (validate_output env name run p))) = set (keys (run_outputs run))"
    using map_of_Some_keys[of "run_outputs run" port]
    by (simp_all add: p validate_output_def insert_absorb split: option.splits sum.splits)
  with rest(2) show ?case by blast
qed simp

text \<open>
  The exceptions that come from outside: a cancellation that was seen, a scope that refuses the
  execution, and what the construction of the triage request or the callback raises.
\<close>

definition sees_cancellation :: "('j, 'm, 'o, 'cap) service \<Rightarrow> ('j, 'o) execution_env \<Rightarrow> bool" where
  "sees_cancellation sv xe \<longleftrightarrow> xe_cancelled_at_end xe \<or> (\<exists>name. xe_cancelled xe name) \<or>
     (\<exists>name plan inputs. map_of (sv_plans sv) name = Some plan \<and> sequential_run (xe_context xe name) inputs plan = None)"

definition outside_error :: "('j, 'm, 'o, 'cap) service \<Rightarrow> ('j, 'o) execution_env \<Rightarrow> execution_error \<Rightarrow> bool" where
  "outside_error sv xe e \<longleftrightarrow>
     (case e of
        ExecutionCancelled \<Rightarrow> sees_cancellation sv xe
      | ScopeRefused Reentered \<Rightarrow> \<exists>m \<in> set (xe_markers xe). m \<in> set (lc_active (xe_lifecycle xe))
      | ScopeRefused ServiceClosed \<Rightarrow> lc_closed (xe_admitted xe)
      | OutsideRaised m \<Rightarrow> (\<exists>sarif. xe_triage_run xe sarif = Inl m) \<or>
          (\<exists>callback result. xe_stage_completed xe = Some callback \<and> callback result = Some m)
      | _ \<Rightarrow> False)"

lemma execution_scope_outside: "execution_scope xe = Inl e \<Longrightarrow> outside_error sv xe e"
  by (auto simp: execution_scope_def outside_error_def check_reentry_def enter_def raise_if_def list_ex_iff split: if_splits)

lemma call_stage_completed_outside: "call_stage_completed xe result = Inl e \<Longrightarrow> outside_error sv xe e"
  by (auto simp: call_stage_completed_def outside_error_def split: option.splits)

lemma execute_configured_stage_ok:
  assumes after: "runs_after ctx sv before name" and pub: "published sv outputs names"
    and given: "inputs_published sv (keys overrides) names name"
  shows "(\<exists>e. execute_configured_stage ctx sv xe name outputs overrides = Inl e \<and> outside_error sv xe e) \<or>
    (\<exists>result outs plan. execute_configured_stage ctx sv xe name outputs overrides = Inr result \<and> ex_outputs result = [(name, outs)] \<and>
       map_of (sv_plans sv) name = Some plan \<and>
       (ex_status result \<noteq> ERROR \<longrightarrow> set (keys (plan_output_annotations plan)) \<subseteq> set (keys outs)))"
proof -
  from after obtain stage c plan registrations annotations where s: "map_of (sv_stages sv) name = Some stage" "map_of (sv_contracts sv) name = Some c"
    "map_of (sv_plans sv) name = Some plan" and ok: "plan_ok ctx stage registrations annotations plan" "plan_output_annotations plan \<noteq> []"
    and tri: "name = ''triage'' \<longrightarrow> ''sarif'' \<in> set (keys (rc_stage_inputs c))" unfolding runs_after_def by blast
  from gather_inputs_ok[OF after s(1) pub given] obtain gathered where g: "gather_inputs ctx sv name c stage outputs overrides = Inr gathered" by blast
  have bindings: "plan_output_bindings plan \<noteq> []" using plan_ok_output_keys[OF ok(1)] ok(2) by (metis length_0_conv length_keys)
  show ?thesis
  proof (cases "validate_inputs (xe_context xe name) name gathered (rc_stage_inputs c)")
    case (Inl diagnostic)
    with s g show ?thesis by (simp add: execute_configured_stage_def key_or_def)
  next
    case (Inr validated)
    have outside: "outside_error sv xe e" if "triage_input xe name validated = Inl e" for e
    proof (cases "name = ''triage''")
      case True
      with tri validate_inputs_keys[OF Inr] have "''sarif'' \<in> set (keys validated)" by blast
      then obtain v where "map_of validated ''sarif'' = Some v" by (rule map_of_keysE)
      with True that show ?thesis by (cases "xe_triage_run xe v") (auto simp: triage_input_def key_or_def outside_error_def)
    qed (use that in \<open>simp add: triage_input_def\<close>)
    show ?thesis
    proof (cases "triage_input xe name validated")
      case (Inl e)
      with s g Inr outside show ?thesis by (simp add: execute_configured_stage_def key_or_def)
    next
      case i: (Inr inputs)
      show ?thesis
      proof (cases "sequential_run (xe_context xe name) inputs plan")
        case None
        with s have "outside_error sv xe ExecutionCancelled" unfolding outside_error_def sees_cancellation_def by auto
        with None s g Inr i show ?thesis by (simp add: execute_configured_stage_def key_or_def)
      next
        case (Some r)
        from sequential_run_outputs[OF ok(1) bindings this] obtain run where
          run: "r = Inr run" "run_status run \<noteq> ERROR \<longrightarrow> keys (run_outputs run) = keys (plan_output_annotations plan)" by blast
        with s g Inr i Some validate_outputs_fold[of "xe_context xe name" name run "rc_required_outputs c"] show ?thesis
          by (auto simp: execute_configured_stage_def key_or_def Let_def)
      qed
    qed
  qed
qed

text \<open>The loop over a list of stages, each of which runs after what it reads.\<close>

definition given_ports :: "(string, (string, 'o pyvalue) dict) dict \<Rightarrow> string \<Rightarrow> string list" where
  "given_ports overrides name = (case map_of overrides name of None \<Rightarrow> [] | Some d \<Rightarrow> keys d)"

lemma stage_loop_ok:
  assumes "published sv (ex_outputs so_far) names" and "\<And>n. n \<in> set todo \<Longrightarrow> \<exists>before. runs_after ctx sv before n"
    and "\<And>ys n zs. todo = ys @ n # zs \<Longrightarrow> inputs_published sv (given_ports overrides n) (names \<union> set ys) n"
  shows "(\<exists>e. stage_loop ctx sv xe overrides so_far todo = Inl e \<and> outside_error sv xe e) \<or>
    (\<exists>result. stage_loop ctx sv xe overrides so_far todo = Inr result \<and>
       (ex_status result \<noteq> ERROR \<longrightarrow> published sv (ex_outputs result) (names \<union> set todo)))"
  using assms
proof (induction todo arbitrary: so_far names)
  case (Cons name todo)
  let ?given = "case map_of overrides name of None \<Rightarrow> [] | Some d \<Rightarrow> d"
  have "keys ?given = given_ports overrides name" by (simp add: given_ports_def split: option.splits)
  with Cons.prems(3)[of "[]" name todo] have given: "inputs_published sv (keys ?given) names name" by simp
  obtain before where "runs_after ctx sv before name" using Cons.prems(2) by auto
  from execute_configured_stage_ok[OF this Cons.prems(1) given, of xe]
  consider (raised) e where "execute_configured_stage ctx sv xe name (ex_outputs so_far) ?given = Inl e" "outside_error sv xe e"
    | (ran) result outs plan where "execute_configured_stage ctx sv xe name (ex_outputs so_far) ?given = Inr result" "ex_outputs result = [(name, outs)]"
      "map_of (sv_plans sv) name = Some plan" "ex_status result \<noteq> ERROR \<longrightarrow> set (keys (plan_output_annotations plan)) \<subseteq> set (keys outs)" by blast
  moreover have cancelled: "outside_error sv xe ExecutionCancelled" if "xe_cancelled xe name"
    using that by (auto simp: outside_error_def sees_cancellation_def)
  ultimately show ?case
  proof cases
    case raised
    with cancelled show ?thesis by (cases "xe_cancelled xe name") simp_all
  next
    case ran
    define nxt where "nxt = \<lparr>ex_status = worse_status (ex_status so_far) (ex_status result),
      ex_outputs = update_all (ex_outputs so_far) (filter (\<lambda>(_, values). values \<noteq> [] \<or> ex_status result \<noteq> ERROR) (ex_outputs result)),
      ex_diagnostics = ex_diagnostics so_far @ ex_diagnostics result\<rparr>"
    have loop: "stage_loop ctx sv xe overrides so_far (name # todo) =
        (if xe_cancelled xe name then Inl ExecutionCancelled
         else and_then (call_stage_completed xe nxt) (\<lambda>_. if ex_status result = ERROR then Inr nxt else stage_loop ctx sv xe overrides nxt todo))"
      using ran(1) by (simp add: Let_def nxt_def)
    show ?thesis
    proof (cases "xe_cancelled xe name \<or> ex_status result = ERROR \<or> call_stage_completed xe nxt \<noteq> Inr ()")
      case True
      then show ?thesis unfolding loop using cancelled call_stage_completed_outside[of xe nxt _ sv]
        by (cases "call_stage_completed xe nxt") (auto simp: nxt_def worse_status_def)
    next
      case False
      then have "ex_outputs nxt = AList.update name outs (ex_outputs so_far)" using ran(2) by (simp add: nxt_def update_all_def)
      then have "published sv (ex_outputs nxt) (insert name names)" using Cons.prems(1) ran(3,4) False by (auto simp: published_def)
      moreover have "inputs_published sv (given_ports overrides n) (insert name names \<union> set ys) n" if "todo = ys @ n # zs" for ys n zs
        using Cons.prems(3)[of "name # ys" n zs] that by simp
      ultimately have "(\<exists>e. stage_loop ctx sv xe overrides nxt todo = Inl e \<and> outside_error sv xe e) \<or>
        (\<exists>result. stage_loop ctx sv xe overrides nxt todo = Inr result \<and>
           (ex_status result \<noteq> ERROR \<longrightarrow> published sv (ex_outputs result) (insert name names \<union> set todo)))"
        using Cons.prems(2) by (intro Cons.IH) auto
      with False show ?thesis unfolding loop by simp
    qed
  qed
qed (simp add: outside_error_def sees_cancellation_def)

lemma execute_stages_ok:
  assumes "\<And>n. n \<in> set todo \<Longrightarrow> \<exists>before. runs_after ctx sv before n"
    and "\<And>ys n zs. todo = ys @ n # zs \<Longrightarrow> inputs_published sv (given_ports overrides n) (set ys) n"
  shows "(\<exists>e. execute_stages ctx sv xe overrides todo = Inl e \<and> outside_error sv xe e) \<or>
    (\<exists>result. execute_stages ctx sv xe overrides todo = Inr result \<and>
       (ex_status result \<noteq> ERROR \<longrightarrow> published sv (ex_outputs result) (set todo)))"
proof (cases "execution_scope xe")
  case (Inl e)
  then show ?thesis using execution_scope_outside by (auto simp: execute_stages_def)
next
  case (Inr scope)
  have "published sv (ex_outputs no_result) {}" by (simp add: published_def)
  from stage_loop_ok[OF this, of todo ctx overrides xe] assms Inr show ?thesis by (simp add: execute_stages_def)
qed

section \<open>The stages a target needs\<close>

definition need_edges :: "execution_stages \<Rightarrow> string \<Rightarrow> string list \<Rightarrow> (string \<times> string) set" where
  "need_edges stages target given = {(m, n). \<exists>stage. map_of stages n = Some stage \<and> m \<in> set (stage_needs target given n stage)}"

lemma select_stages_closure:
  assumes "select_stages stages target given selected pending = Inr result"
    and "\<forall>m n. (m, n) \<in> need_edges stages target given \<longrightarrow> n \<in> set selected \<longrightarrow> m \<in> set selected \<union> set pending"
  shows "set selected \<union> set pending \<subseteq> set result \<and>
    (\<forall>m n. (m, n) \<in> need_edges stages target given \<longrightarrow> n \<in> set result \<longrightarrow> m \<in> set result) \<and>
    (\<forall>m \<in> set result. \<exists>n \<in> set selected \<union> set pending. (m, n) \<in> (need_edges stages target given)\<^sup>*)"
  using assms
proof (induction stages target given selected pending rule: select_stages.induct)
  case (2 stages target given selected name pending)
  show ?case
  proof (cases "name \<in> set selected")
    case True
    with 2 show ?thesis by (simp add: insert_absorb)
  next
    case False
    with 2(3) obtain stage where s: "map_of stages name = Some stage" by (auto split: option.splits)
    let ?needs = "stage_needs target given name stage"
    have edge: "(m, name) \<in> need_edges stages target given \<longleftrightarrow> m \<in> set ?needs" for m using s by (simp add: need_edges_def)
    have "set (selected @ [name]) \<union> set (rev ?needs @ pending) \<subseteq> set result \<and>
      (\<forall>m n. (m, n) \<in> need_edges stages target given \<longrightarrow> n \<in> set result \<longrightarrow> m \<in> set result) \<and>
      (\<forall>m \<in> set result. \<exists>n \<in> set (selected @ [name]) \<union> set (rev ?needs @ pending). (m, n) \<in> (need_edges stages target given)\<^sup>*)"
      using 2(3,4) False s edge by (intro 2(2)[OF False s]) auto
    then have closed: "set selected \<union> set (name # pending) \<subseteq> set result" "\<forall>m n. (m, n) \<in> need_edges stages target given \<longrightarrow> n \<in> set result \<longrightarrow> m \<in> set result"
      and reach: "\<forall>m \<in> set result. \<exists>n \<in> set (selected @ [name]) \<union> set (rev ?needs @ pending). (m, n) \<in> (need_edges stages target given)\<^sup>*" by auto
    have "\<exists>n \<in> set selected \<union> set (name # pending). (m, n) \<in> (need_edges stages target given)\<^sup>*" if "m \<in> set result" for m
    proof -
      from reach that obtain n where n: "n \<in> set (selected @ [name]) \<union> set (rev ?needs @ pending)" "(m, n) \<in> (need_edges stages target given)\<^sup>*" by blast
      show ?thesis
      proof (cases "n \<in> set ?needs")
        case True
        with n(2) edge have "(m, name) \<in> (need_edges stages target given)\<^sup>*" by (metis rtrancl.rtrancl_into_rtrancl)
        then show ?thesis by auto
      qed (use n in auto)
    qed
    with closed show ?thesis by blast
  qed
qed auto

lemma select_stages_total:
  assumes "\<forall>m n. (m, n) \<in> need_edges stages target given \<longrightarrow> m \<in> set (keys stages)" and "set pending \<subseteq> set (keys stages)"
  shows "\<exists>result. select_stages stages target given selected pending = Inr result"
  using assms
proof (induction stages target given selected pending rule: select_stages.induct)
  case (2 stages target given selected name pending)
  show ?case
  proof (cases "name \<in> set selected")
    case False
    from 2(4) have "name \<in> set (keys stages)" by simp
    then obtain stage where s: "map_of stages name = Some stage" by (rule map_of_keysE)
    then have "set (rev (stage_needs target given name stage) @ pending) \<subseteq> set (keys stages)"
      using 2(3,4) by (auto simp: need_edges_def)
    from 2(2)[OF False s 2(3) this] False s show ?thesis by simp
  qed (use 2 in simp)
qed simp

text \<open>Every need of a stage is among the stages it runs after.\<close>

lemma needs_before:
  assumes "runs_after ctx sv before n" and "(m, n) \<in> need_edges (sv_stages sv) target given"
  shows "m \<in> before"
proof -
  from assms obtain stage where s: "map_of (sv_stages sv) n = Some stage" "m \<in> set (stage_needs target given n stage)"
    "set (sc_depends_on stage) \<union> set (source_stages stage) \<subseteq> before"
    by (auto simp: need_edges_def runs_after_def)
  then show ?thesis by (force simp: stage_needs_def source_stages_def vals_def)
qed

lemma input_need:
  assumes "map_of stages n = Some stage" and "(port, source) \<in> set (sc_inputs stage)" and "\<not> is_stage_input source"
    and "\<not> (n = target \<and> port \<in> set given)"
  shows "(producer_of source, n) \<in> need_edges stages target given"
  using assms by (force simp: need_edges_def stage_needs_def)

lemma filter_split:
  "filter P xs = ys' @ n # zs' \<Longrightarrow> \<exists>ys zs. xs = ys @ n # zs \<and> filter P ys = ys' \<and> P n"
proof (induction xs arbitrary: ys')
  case (Cons x xs)
  consider (here) "P x" "ys' = []" | (later) ys1 where "P x" "ys' = x # ys1" "filter P xs = ys1 @ n # zs'" | (skip) "\<not> P x" "filter P xs = ys' @ n # zs'"
    using Cons.prems by (cases "P x"; cases ys') simp_all
  then show ?case
  proof cases
    case here
    with Cons.prems show ?thesis by (intro exI[of _ "[]"] exI[of _ xs]) simp
  next
    case later
    with Cons.IH[of ys1] obtain ys zs where "xs = ys @ n # zs" "filter P ys = ys1" "P n" by blast
    with later show ?thesis by (intro exI[of _ "x # ys"] exI[of _ zs]) simp
  next
    case skip
    with Cons.IH[of ys'] obtain ys zs where "xs = ys @ n # zs" "filter P ys = ys'" "P n" by blast
    with skip show ?thesis by (intro exI[of _ "x # ys"] exI[of _ zs]) simp
  qed
qed simp

section \<open>Properties\<close>


text \<open>
  C14. A single stage is executed with exactly the stages it needs: \<open>_execute_target\<close> selects the stages
  from which the target can be reached through dependencies and input sources, not counting the
  sources of the ports that the caller supplies. Running these, in order, again misses no
  value and raises no exception but those from outside, and when the result is not an error, each of them has published its outputs. A stage that
  is not configured is reported as unavailable.
\<close>

theorem execute_target_exact:
  assumes "wf_configuration cfg" and "validate_pipeline ctx type_of discovered cfg = Inr contracts"
    and "new_service ctx type_of cfg contracts registrations entry_points capabilities = Inr sv"
  shows "if target \<notin> set (keys (sv_stages sv)) then execute_target ctx sv xe target given = Inr (unavailable_stage target)
    else \<exists>selected. select_stages (sv_stages sv) target (keys given) [] [target] = Inr selected \<and>
      set selected = {n. (n, target) \<in> (need_edges (sv_stages sv) target (keys given))\<^sup>*} \<and>
      ((\<exists>e. execute_target ctx sv xe target given = Inl e \<and> outside_error sv xe e) \<or>
       (\<exists>r. execute_target ctx sv xe target given = Inr r \<and> (ex_status r \<noteq> ERROR \<longrightarrow> published sv (ex_outputs r) (set selected))))"
proof (cases "target \<in> set (keys (sv_stages sv))")
  case True
  let ?E = "need_edges (sv_stages sv) target (keys given)" and ?o = "[(target, given)]"
  have ok: "service_ok ctx sv" by (rule new_service_ok[OF assms])
  have after: "runs_after ctx sv (set ys) n" if "sv_stage_order sv = ys @ n # zs" for ys n zs using ok that by (simp add: service_ok_def)
  have order: "set (sv_stage_order sv) = set (keys (sv_stages sv))" using ok by (simp add: service_ok_def)
  have keys: "m \<in> set (sv_stage_order sv) \<and> n \<in> set (sv_stage_order sv)" if "(m, n) \<in> ?E" for m n
  proof -
    from that have n: "n \<in> set (sv_stage_order sv)" unfolding order by (auto simp: need_edges_def dest: map_of_Some_keys)
    from split_list[OF n] obtain ys zs where "sv_stage_order sv = ys @ n # zs" by blast
    with needs_before[OF after[OF this] that] n show ?thesis by auto
  qed
  with True order obtain selected where sel: "select_stages (sv_stages sv) target (keys given) [] [target] = Inr selected"
    using select_stages_total[of "sv_stages sv" target "keys given" "[target]" "[]"] by auto
  note closure = select_stages_closure[OF sel, simplified]
  have "n \<in> set selected" if "(n, target) \<in> ?E\<^sup>*" for n
    using that closure by (induction rule: converse_rtrancl_induct) auto
  then have exact: "set selected = {n. (n, target) \<in> ?E\<^sup>*}" using closure by auto
  have "set selected \<subseteq> set (sv_stage_order sv)"
  proof
    fix n assume "n \<in> set selected"
    then have "(n, target) \<in> ?E\<^sup>*" using exact by simp
    then show "n \<in> set (sv_stage_order sv)" using True order keys by (cases rule: converse_rtranclE) auto
  qed
  then have todo: "set (filter (\<lambda>n. n \<in> set selected) (sv_stage_order sv)) = set selected" by auto
  have "inputs_published sv (given_ports ?o n) (set ys') n"
    if dec: "filter (\<lambda>n. n \<in> set selected) (sv_stage_order sv) = ys' @ n # zs'" for ys' n zs'
  proof -
    from filter_split[OF dec] obtain ys zs where ys: "sv_stage_order sv = ys @ n # zs" "filter (\<lambda>n. n \<in> set selected) ys = ys'" "n \<in> set selected" by blast
    have "producer_of source \<in> set ys'"
      if "map_of (sv_stages sv) n = Some stage" "(port, source) \<in> set (sc_inputs stage)" "\<not> is_stage_input source" "port \<notin> set (given_ports ?o n)"
      for stage port source
    proof -
      have "(producer_of source, n) \<in> ?E"
        using that by (intro input_need) (auto simp: given_ports_def)
      with needs_before[OF after[OF ys(1)] this] closure ys(2,3) show ?thesis by auto
    qed
    then show ?thesis unfolding inputs_published_def by blast
  qed
  moreover have "\<exists>before. runs_after ctx sv before n" if "n \<in> set (filter (\<lambda>n. n \<in> set selected) (sv_stage_order sv))" for n
    using that after split_list[of n "sv_stage_order sv"] by auto
  ultimately have "(\<exists>e. execute_stages ctx sv xe ?o (filter (\<lambda>n. n \<in> set selected) (sv_stage_order sv)) = Inl e \<and> outside_error sv xe e) \<or>
    (\<exists>r. execute_stages ctx sv xe ?o (filter (\<lambda>n. n \<in> set selected) (sv_stage_order sv)) = Inr r \<and>
      (ex_status r \<noteq> ERROR \<longrightarrow> published sv (ex_outputs r) (set (filter (\<lambda>n. n \<in> set selected) (sv_stage_order sv)))))"
    by (intro execute_stages_ok) auto
  with True sel exact todo show ?thesis by (simp add: execute_target_def)
qed (simp add: execute_target_def)

section \<open>A two-stage service\<close>

text \<open>\<open>report\<close>, an installed stage, shows the text that \<open>initialize\<close> produces.\<close>

definition demo_stages :: execution_stages where
  "demo_stages =
     [(''report'', \<lparr>sc_depends_on = [], sc_inputs = [(''text'', ''initialize.text'')], sc_outputs = OutMap [(''page'', ''show.page'')], sc_nodes = [(''show'', demo_node)]\<rparr>),
      (''initialize'', \<lparr>sc_depends_on = [], sc_inputs = [], sc_outputs = OutMap [(''text'', ''scan.text'')], sc_nodes = [(''scan'', demo_node)]\<rparr>)]"

definition demo_execution :: "(unit, string) execution_configuration" where
  "demo_execution = \<lparr>ec_inputs = \<lparr>in_review_request = PyNone, in_sarif = PyNone, in_codegraph = PyNone\<rparr>,
     ec_stages = demo_stages, ec_node_configuration = []\<rparr>"

definition demo_packages :: "stage_registration entry_point list" where
  "demo_packages = [\<lparr>ep_name = ''report'', ep_load = Loaded (RegistrationObject
     \<lparr>sr_name = ''report'', sr_contract = \<lparr>sk_inputs = [(''text'', ClassT ''str'')], sk_required_outputs = [(''page'', ClassT ''str'')]\<rparr>\<rparr>)\<rparr>]"

definition demo_nodes :: "(unit, unit, string pyvalue, unit) node_registration list" where
  "demo_nodes =
     [(demo_registration ''scan'' [] [(''text'', ClassT ''str'')])\<lparr>reg_stage := ''initialize''\<rparr>,
      (demo_registration ''show'' [(''text'', ClassT ''str'')] [(''page'', ClassT ''str'')])\<lparr>reg_stage := ''report''\<rparr>]"

definition demo_xe :: "(unit, string) execution_env" where
  "demo_xe = \<lparr>xe_context = (\<lambda>_. demo_env), xe_triage_run = Inr,
     xe_stage_completed = Some (\<lambda>r. if ex_status r = OK then None else Some ''stopped''), xe_markers = [],
     xe_lifecycle = new_lifecycle 1, xe_admitted = new_lifecycle 1, xe_cancelled = (\<lambda>_. False), xe_cancelled_at_end = False\<rparr>"

definition demo_service :: "service_error + (unit, unit, string, unit) service" where
  "demo_service = (case validate_pipeline demo_context (\<lambda>_. ClassT ''str'') demo_packages demo_execution of
     Inl e \<Rightarrow> Inl (StageOrderFailed e)
   | Inr contracts \<Rightarrow> new_service demo_context (\<lambda>_. ClassT ''str'') demo_execution contracts demo_nodes [] [])"

lemma demo_serviceE:
  obtains contracts sv where "validate_pipeline demo_context (\<lambda>_. ClassT ''str'') demo_packages demo_execution = Inr contracts"
    and "new_service demo_context (\<lambda>_. ClassT ''str'') demo_execution contracts demo_nodes [] [] = Inr sv"
    and "sv_stages sv = demo_stages"
    and "map_sum id ex_status (execute_graph demo_context sv demo_xe) = Inr OK"
    and "map_sum id ex_status (execute_target demo_context sv demo_xe ''report'' [(''text'', PyObject ''given'')]) = Inr OK"
    and "select_stages demo_stages ''report'' [''text''] [] [''report''] = Inr [''report'']"
proof -
  have "case demo_service of Inl _ \<Rightarrow> False | Inr sv \<Rightarrow>
      map_sum id ex_status (execute_graph demo_context sv demo_xe) = Inr OK \<and>
      map_sum id ex_status (execute_target demo_context sv demo_xe ''report'' [(''text'', PyObject ''given'')]) = Inr OK" by code_simp
  moreover have "select_stages demo_stages ''report'' [''text''] [] [''report''] = Inr [''report'']" by code_simp
  moreover have "sv_stages sv = ec_stages cfg" if "new_service ctx type_of cfg contracts rs es caps = Inr sv"
    for ctx type_of and cfg :: "(unit, string) execution_configuration" and contracts and rs :: "(unit, unit, string pyvalue, unit) node_registration list"
      and es caps sv using that by (auto simp: new_service_def res_simps)
  ultimately show thesis using that by (fastforce simp: demo_service_def demo_execution_def split: sum.splits)
qed

lemma demo_execution_wf: "wf_configuration demo_execution"
  by (auto simp: wf_configuration_def demo_execution_def demo_stages_def wf_dict_def split: if_splits)

lemma map_sum_statusE:
  assumes "map_sum id ex_status x = Inr OK"
  obtains r where "x = Inr r" and "ex_status r = OK"
  using assms by (cases x) auto


theorem execute_target_exact_witness:
  "\<exists>contracts sv r. new_service demo_context (\<lambda>_. ClassT ''str'') demo_execution contracts demo_nodes [] [] = Inr sv \<and>
     execute_target demo_context sv demo_xe ''report'' [(''text'', PyObject ''given'')] = Inr r \<and> ex_status r = OK \<and>
     published sv (ex_outputs r) {''report''}"
proof -
  obtain contracts sv where d: "validate_pipeline demo_context (\<lambda>_. ClassT ''str'') demo_packages demo_execution = Inr contracts"
    "new_service demo_context (\<lambda>_. ClassT ''str'') demo_execution contracts demo_nodes [] [] = Inr sv" "sv_stages sv = demo_stages"
    and run: "map_sum id ex_status (execute_target demo_context sv demo_xe ''report'' [(''text'', PyObject ''given'')]) = Inr OK"
    and sel: "select_stages demo_stages ''report'' [''text''] [] [''report''] = Inr [''report'']" by (rule demo_serviceE)
  from run obtain r where r: "execute_target demo_context sv demo_xe ''report'' [(''text'', PyObject ''given'')] = Inr r" "ex_status r = OK"
    by (rule map_sum_statusE)
  have "''report'' \<in> set (keys demo_stages)" by (simp add: demo_stages_def)
  then have "published sv (ex_outputs r) {''report''}"
    using execute_target_exact[OF demo_execution_wf d(1,2), of "''report''" demo_xe "[(''text'', PyObject ''given'')]"] sel
    unfolding r(1) d(3) using r(2) by simp metis
  with d(2) r show ?thesis by blast
qed

end
