(* ===== verification/Concurrency.thy ===== *)
theory Concurrency
  imports Prelude
begin

text \<open>
  The shared job scheduler (\<open>engine/concurrency.py\<close>): one pool of workers serves the runs that the
  nodes of a stage start, within the pool's size, each run's own limit and the quotas of the
  scopes a run belongs to.

  \<open>_JobRun\<close> objects, quotas and events are shared and mutable: a run is an entry of the scheduler's
  list under its identity, quotas and events live in stores indexed by theirs. Everything done
  while holding the condition's lock is one function on the scheduler's state; the threads
  interleave these functions (\<open>sched_step\<close>).

  Re-entrancy. \<open>Future.cancel\<close> of a queued future and \<open>add_done_callback\<close> on a future that is already
  done call \<open>_complete\<close> at once, in the same thread, and \<open>_complete\<close> calls \<open>_dispatch_locked\<close>; the flag
  \<open>_dispatching\<close> makes the inner call return immediately. So inside the dispatch loop completing
  and cancelling are \<open>complete_core\<close> and \<open>cancel_core\<close>, which do not dispatch; everywhere else they
  are \<open>complete\<close> and \<open>cancel_locked\<close>, which do.

  The thread pool is the argument \<open>submit\<close>: whether submitting a job raises, returns a future, or
  returns one that is done before the callback is attached.
\<close>

section \<open>State\<close>

record job_quota =
  q_limit :: int
  q_active :: int

record 'job job_run =
  jr_jobs :: "'job list"
  jr_pending :: "'job list"
  jr_max_concurrency :: int
  jr_cancellation :: "nat option"
  jr_parents :: "nat list"
  jr_quotas :: "nat list"
  jr_total :: nat
  jr_active :: "(nat, 'job) dict"
  jr_completed :: "('job \<times> nat) list"
  jr_collecting :: bool
  jr_cancelled :: bool
  jr_failed :: bool
  jr_taken :: "('job \<times> nat) list"
  jr_results :: "('job \<times> nat) list"

text \<open>\<open>jr_jobs\<close> is the argument of \<open>run\<close>; \<open>jr_taken\<close> and \<open>jr_results\<close> are its locals \<open>completed\<close> and \<open>results\<close>.
  \<open>js_started\<close> holds the futures a worker thread has picked up: they can no longer be cancelled.\<close>

record 'job scheduler =
  js_max_workers :: int
  js_runs :: "(nat, 'job job_run) dict"
  js_active_workers :: int
  js_cursor :: nat
  js_closed :: bool
  js_quotas :: "nat \<Rightarrow> job_quota"
  js_events :: "nat set"
  js_started :: "nat set"
  js_next :: nat

datatype submit_outcome = SubmitFailed | Submitted | SubmittedDone

datatype sched_error = NotPositive string | SchedulerClosed | JobsCancelled | NestedJobs | CloseFromWorker

definition validate_worker_limit :: "int \<Rightarrow> string \<Rightarrow> sched_error + unit" where
  "validate_worker_limit n name = raise_if (n < 1) (NotPositive name)"

definition new_scheduler :: "int \<Rightarrow> (nat \<Rightarrow> job_quota) \<Rightarrow> sched_error + 'job scheduler" where
  "new_scheduler max_workers quotas =
     and_then (validate_worker_limit max_workers ''max_workers'') (\<lambda>_.
       Inr \<lparr>js_max_workers = max_workers, js_runs = [], js_active_workers = 0, js_cursor = 0,
            js_closed = False, js_quotas = quotas, js_events = {}, js_started = {}, js_next = 0\<rparr>)"

section \<open>Operations under the lock\<close>

definition set_run :: "nat \<Rightarrow> 'job job_run \<Rightarrow> 'job scheduler \<Rightarrow> 'job scheduler" where
  "set_run rid r s = s\<lparr>js_runs := AList.update rid r (js_runs s)\<rparr>"

definition add_quotas :: "int \<Rightarrow> nat list \<Rightarrow> (nat \<Rightarrow> job_quota) \<Rightarrow> nat \<Rightarrow> job_quota" where
  "add_quotas d qs store = foldl (\<lambda>st q. st(q := (st q)\<lparr>q_active := q_active (st q) + d\<rparr>)) store qs"

definition run_is_cancelled :: "'job scheduler \<Rightarrow> 'job job_run \<Rightarrow> bool" where
  "run_is_cancelled s r \<longleftrightarrow>
     (\<exists>e \<in> set_option (jr_cancellation r). e \<in> js_events s) \<or> list_ex (\<lambda>e. e \<in> js_events s) (jr_parents r)"

text \<open>\<open>_complete\<close> without its call of \<open>_dispatch_locked\<close>.\<close>

definition complete_core :: "nat \<Rightarrow> nat \<Rightarrow> 'job scheduler \<Rightarrow> 'job scheduler" where
  "complete_core rid fut s =
     (case map_of (js_runs s) rid of
        None \<Rightarrow> s
      | Some r \<Rightarrow>
          (case map_of (jr_active r) fut of
             None \<Rightarrow> s
           | Some job \<Rightarrow>
               (set_run rid (r\<lparr>jr_active := AList.delete fut (jr_active r),
                               jr_completed := jr_completed r @ [(job, fut)]\<rparr>) s)
               \<lparr>js_active_workers := js_active_workers s - 1,
                js_quotas := add_quotas (- 1) (jr_quotas r) (js_quotas s)\<rparr>))"

definition mark_cancelled :: "nat \<Rightarrow> 'job job_run \<Rightarrow> 'job scheduler \<Rightarrow> 'job scheduler" where
  "mark_cancelled rid r s =
     (set_run rid (r\<lparr>jr_cancelled := True, jr_pending := []\<rparr>) s)
     \<lparr>js_events := js_events s \<union> set_option (jr_cancellation r)\<rparr>"

text \<open>\<open>_cancel_locked\<close> inside the dispatch loop: the queued futures of the run are cancelled, and
  each calls \<open>_complete\<close>.\<close>

definition cancel_core :: "nat \<Rightarrow> 'job scheduler \<Rightarrow> 'job scheduler" where
  "cancel_core rid s =
     (case map_of (js_runs s) rid of
        None \<Rightarrow> s
      | Some r \<Rightarrow>
          if jr_cancelled r then s
          else foldl (\<lambda>s fut. if fut \<in> js_started s then s else complete_core rid fut s)
                 (mark_cancelled rid r s) (keys (jr_active r)))"

definition eligible :: "'job scheduler \<Rightarrow> nat \<Rightarrow> bool" where
  "eligible s rid \<longleftrightarrow>
     (case map_of (js_runs s) rid of
        None \<Rightarrow> False
      | Some r \<Rightarrow> \<not> jr_cancelled r \<and> jr_pending r \<noteq> [] \<and> jr_completed r = [] \<and> \<not> jr_collecting r \<and>
          int (length (jr_active r)) < jr_max_concurrency r \<and>
          list_all (\<lambda>q. q_active (js_quotas s q) < q_limit (js_quotas s q)) (jr_quotas r))"

definition active_count :: "'job scheduler \<Rightarrow> nat \<Rightarrow> nat" where
  "active_count s rid = (case map_of (js_runs s) rid of None \<Rightarrow> 0 | Some r \<Rightarrow> length (jr_active r))"

definition sweep :: "'job scheduler \<Rightarrow> 'job scheduler" where
  "sweep s = foldl (\<lambda>s rid. case map_of (js_runs s) rid of
      None \<Rightarrow> s
    | Some r \<Rightarrow> if run_is_cancelled s r then cancel_core rid s else s) s (keys (js_runs s))"

text \<open>Prefer less active runs, breaking ties from the rotating cursor.\<close>

definition candidates :: "'job scheduler \<Rightarrow> nat list" where
  "candidates s = filter (\<lambda>i. eligible s (keys (js_runs s) ! i)) [0..<length (js_runs s)]"

definition dispatch_key :: "'job scheduler \<Rightarrow> nat \<Rightarrow> nat \<times> int" where
  "dispatch_key s i = (active_count s (keys (js_runs s) ! i),
     (int i - int (js_cursor s)) mod int (length (js_runs s)))"

definition next_run :: "'job scheduler \<Rightarrow> 'job scheduler \<times> nat option" where
  "next_run s =
     (let s1 = sweep s in
      if candidates s1 = [] then (s1, None)
      else let index = arg_min_list (dispatch_key s1) (candidates s1)
        in (s1\<lparr>js_cursor := (index + 1) mod length (js_runs s1)\<rparr>, Some (keys (js_runs s1) ! index)))"

definition submit_job :: "(nat \<Rightarrow> submit_outcome) \<Rightarrow> nat \<Rightarrow> 'job scheduler \<Rightarrow> 'job scheduler" where
  "submit_job submit rid s =
     (case map_of (js_runs s) rid of
        None \<Rightarrow> s
      | Some r \<Rightarrow>
          (case jr_pending r of
             [] \<Rightarrow> s
           | job # rest \<Rightarrow>
               let fut = js_next s; r1 = r\<lparr>jr_pending := rest\<rparr>; s1 = s\<lparr>js_next := Suc fut\<rparr>;
                   s2 = (set_run rid (r1\<lparr>jr_active := AList.update fut job (jr_active r1)\<rparr>) s1)
                     \<lparr>js_active_workers := js_active_workers s + 1,
                      js_quotas := add_quotas 1 (jr_quotas r) (js_quotas s)\<rparr>
               in case submit fut of
                    SubmitFailed \<Rightarrow> cancel_core rid (set_run rid (r1\<lparr>jr_failed := True\<rparr>) s1)
                  | Submitted \<Rightarrow> s2
                  | SubmittedDone \<Rightarrow> complete_core rid fut s2))"

section \<open>Sums over the runs\<close>

definition usage :: "('job job_run \<Rightarrow> int) \<Rightarrow> (nat, 'job job_run) dict \<Rightarrow> int" where
  "usage w runs = sum_list (map (w \<circ> snd) runs)"

lemma usage_update:
  "map_of runs k = Some r \<Longrightarrow> usage w (AList.update k r' runs) = usage w runs - w r + w r'"
  by (induction runs) (auto simp: usage_def)

lemma usage_update_fresh:
  "map_of runs k = None \<Longrightarrow> usage w (AList.update k r' runs) = usage w runs + w r'"
  by (induction runs) (auto simp: usage_def)

lemma usage_delete:
  "wf_dict runs \<Longrightarrow> map_of runs k = Some r \<Longrightarrow> usage w (AList.delete k runs) = usage w runs - w r"
proof (induction runs)
  case (Cons p runs)
  obtain k' r' where p: "p = (k', r')" by (cases p)
  show ?case
  proof (cases "k' = k")
    case True
    then have "map_of runs k = None" using Cons.prems(1) p by (simp add: wf_dict_def map_of_eq_None_iff)
    with True Cons.prems(2) p show ?thesis by (simp add: usage_def delete_absent)
  next
    case False
    with Cons p show ?thesis by (simp add: usage_def wf_dict_def)
  qed
qed simp

lemma usage_nonneg: "(\<And>r. 0 \<le> w r) \<Longrightarrow> 0 \<le> usage w runs"
  by (induction runs) (auto simp: usage_def)

definition pending_count :: "'job scheduler \<Rightarrow> int" where
  "pending_count s = usage (\<lambda>r. int (length (jr_pending r))) (js_runs s)"

lemma pending_set_run:
  "map_of (js_runs s) rid = Some r \<Longrightarrow>
     pending_count (set_run rid r' s) = pending_count s - int (length (jr_pending r)) + int (length (jr_pending r'))"
  by (simp add: pending_count_def set_run_def usage_update)

lemma pending_count_fields [simp]:
  "pending_count (s\<lparr>js_active_workers := a\<rparr>) = pending_count s"
  "pending_count (s\<lparr>js_quotas := q\<rparr>) = pending_count s"
  "pending_count (s\<lparr>js_events := e\<rparr>) = pending_count s"
  "pending_count (s\<lparr>js_cursor := c\<rparr>) = pending_count s"
  "pending_count (s\<lparr>js_next := n\<rparr>) = pending_count s"
  by (simp_all add: pending_count_def)

lemma pending_complete_core [simp]: "pending_count (complete_core rid fut s) = pending_count s"
  by (auto simp: complete_core_def pending_set_run split: option.splits)

lemma pending_cancel_core: "pending_count (cancel_core rid s) \<le> pending_count s"
proof -
  have fold: "pending_count (foldl (\<lambda>s fut. if fut \<in> js_started s then s else complete_core rid fut s) t futs)
      = pending_count t" for t :: "'a scheduler" and futs
    by (induction futs arbitrary: t) auto
  show ?thesis
    by (auto simp: cancel_core_def fold mark_cancelled_def pending_set_run split: option.splits)
qed

lemma pending_sweep: "pending_count (sweep s) \<le> pending_count s"
proof -
  have "pending_count (foldl (\<lambda>s rid. case map_of (js_runs s) rid of
      None \<Rightarrow> s | Some r \<Rightarrow> if run_is_cancelled s r then cancel_core rid s else s) t ids) \<le> pending_count t"
    for t :: "'a scheduler" and ids
  proof (induction ids rule: rev_induct)
    case (snoc i ids)
    then show ?case
      by (auto split: option.splits intro: order_trans[OF pending_cancel_core])
  qed simp
  then show ?thesis by (simp add: sweep_def)
qed

lemma eligible_cursor [simp]: "eligible (s\<lparr>js_cursor := c\<rparr>) rid = eligible s rid"
  by (auto simp: eligible_def split: option.splits)

lemma next_run_eligible:
  assumes "next_run s = (s1, Some rid)"
  shows "eligible s1 rid" and "pending_count s1 \<le> pending_count s"
proof -
  let ?i = "arg_min_list (dispatch_key (sweep s)) (candidates (sweep s))"
  from assms have ne: "candidates (sweep s) \<noteq> []" and rid: "rid = keys (js_runs (sweep s)) ! ?i"
    and s1: "s1 = sweep s\<lparr>js_cursor := (?i + 1) mod length (js_runs (sweep s))\<rparr>"
    by (auto simp: next_run_def Let_def split: if_splits)
  have "?i \<in> set (candidates (sweep s))" using arg_min_list_in[OF ne] .
  then show "eligible s1 rid" by (simp add: candidates_def rid s1)
  show "pending_count s1 \<le> pending_count s" using pending_sweep[of s] by (simp add: s1)
qed

lemma pending_submit_job:
  assumes "eligible s rid"
  shows "pending_count (submit_job submit rid s) < pending_count s"
proof -
  from assms obtain r job rest where r: "map_of (js_runs s) rid = Some r" and p: "jr_pending r = job # rest"
    by (auto simp: eligible_def neq_Nil_conv split: option.splits)
  have less: "pending_count (set_run rid (r\<lparr>jr_pending := rest, jr_failed := True\<rparr>) (s\<lparr>js_next := n\<rparr>)) < pending_count s"
    for n using r p pending_set_run[of "s\<lparr>js_next := n\<rparr>" rid r] by simp
  have "pending_count (set_run rid (r\<lparr>jr_pending := rest, jr_active := a\<rparr>) (s\<lparr>js_next := n\<rparr>)) < pending_count s"
    for a n using r p pending_set_run[of "s\<lparr>js_next := n\<rparr>" rid r] by simp
  with order_le_less_trans[OF pending_cancel_core less, of rid] r p show ?thesis
    by (simp add: submit_job_def Let_def split: submit_outcome.splits)
qed

lemma dispatch_decreases:
  assumes "(s1, Some rid) = next_run s"
  shows "0 < pending_count s \<and> pending_count (submit_job submit rid s1) < pending_count s"
proof -
  note * = next_run_eligible[OF assms[symmetric]]
  have "0 \<le> pending_count (submit_job submit rid s1)" by (simp add: pending_count_def usage_nonneg)
  then show ?thesis using * pending_submit_job[OF *(1), of submit] by simp
qed

section \<open>Dispatching\<close>

function (sequential) dispatch_loop :: "(nat \<Rightarrow> submit_outcome) \<Rightarrow> 'job scheduler \<Rightarrow> 'job scheduler" where
  "dispatch_loop submit s =
     (if js_closed s \<or> js_max_workers s \<le> js_active_workers s then s
      else (case next_run s of
              (s1, None) \<Rightarrow> s1
            | (s1, Some rid) \<Rightarrow> dispatch_loop submit (submit_job submit rid s1)))"
  by pat_completeness auto
termination
  by (relation "measure (\<lambda>(_, s). nat (pending_count s))") (simp_all add: dispatch_decreases)

declare dispatch_loop.simps [simp del]

definition complete :: "(nat \<Rightarrow> submit_outcome) \<Rightarrow> nat \<Rightarrow> nat \<Rightarrow> 'job scheduler \<Rightarrow> 'job scheduler" where
  "complete submit rid fut s = dispatch_loop submit (complete_core rid fut s)"

definition cancel_locked :: "(nat \<Rightarrow> submit_outcome) \<Rightarrow> nat \<Rightarrow> 'job scheduler \<Rightarrow> 'job scheduler" where
  "cancel_locked submit rid s =
     (case map_of (js_runs s) rid of
        None \<Rightarrow> s
      | Some r \<Rightarrow>
          if jr_cancelled r then s
          else foldl (\<lambda>s fut. if fut \<in> js_started s then s else complete submit rid fut s)
                 (mark_cancelled rid r s) (keys (jr_active r)))"

section \<open>The operations of the scheduler\<close>

text \<open>The first part of \<open>run\<close>: the checks and the new \<open>_JobRun\<close>. \<open>Inr None\<close> is the early return of
  an empty list. \<open>nested\<close> tells whether the caller is itself a worker of the scheduler.\<close>

definition start_run :: "bool \<Rightarrow> 'job list \<Rightarrow> int \<Rightarrow> nat option \<Rightarrow> nat list \<Rightarrow> nat list \<Rightarrow> 'job scheduler
    \<Rightarrow> sched_error + 'job job_run option" where
  "start_run nested jobs max_concurrency cancellation parents quotas s =
     and_then (validate_worker_limit max_concurrency ''max_concurrency'') (\<lambda>_.
     and_then (raise_if nested NestedJobs) (\<lambda>_.
     and_then (raise_if (js_closed s) SchedulerClosed) (\<lambda>_.
     and_then (raise_if ((\<exists>e \<in> set_option cancellation. e \<in> js_events s) \<or> list_ex (\<lambda>e. e \<in> js_events s) parents)
       JobsCancelled) (\<lambda>_.
     Inr (if jobs = [] then None
          else Some \<lparr>jr_jobs = jobs, jr_pending = jobs, jr_max_concurrency = min max_concurrency (js_max_workers s),
            jr_cancellation = cancellation, jr_parents = parents, jr_quotas = quotas, jr_total = length jobs,
            jr_active = [], jr_completed = [], jr_collecting = False, jr_cancelled = False, jr_failed = False,
            jr_taken = [], jr_results = []\<rparr>)))))"

definition register :: "(nat \<Rightarrow> submit_outcome) \<Rightarrow> nat \<Rightarrow> 'job job_run \<Rightarrow> 'job scheduler
    \<Rightarrow> sched_error + 'job scheduler" where
  "register submit rid r s =
     and_then (raise_if (js_closed s) SchedulerClosed) (\<lambda>_.
     and_then (raise_if (run_is_cancelled s r) JobsCancelled) (\<lambda>_.
       let runs = AList.update rid r (js_runs s)
       in Inr (dispatch_loop submit (s\<lparr>js_runs := runs, js_cursor := length runs - 1\<rparr>))))"

definition remove :: "(nat \<Rightarrow> submit_outcome) \<Rightarrow> nat \<Rightarrow> 'job scheduler \<Rightarrow> 'job scheduler" where
  "remove submit rid s =
     (if rid \<notin> set (keys (js_runs s)) then s
      else let index = length (takeWhile (\<lambda>k. k \<noteq> rid) (keys (js_runs s)));
               runs = AList.delete rid (js_runs s);
               cursor = (if runs = [] then 0
                 else (if index < js_cursor s then js_cursor s - 1 else js_cursor s) mod length runs)
        in dispatch_loop submit (s\<lparr>js_runs := runs, js_cursor := cursor\<rparr>))"

definition cancel_event :: "(nat \<Rightarrow> submit_outcome) \<Rightarrow> nat \<Rightarrow> 'job scheduler \<Rightarrow> 'job scheduler" where
  "cancel_event submit e s =
     foldl (\<lambda>s rid. case map_of (js_runs s) rid of
         None \<Rightarrow> s
       | Some r \<Rightarrow> if jr_cancellation r = Some e \<or> e \<in> set (jr_parents r) then cancel_locked submit rid s else s)
       (s\<lparr>js_events := insert e (js_events s)\<rparr>) (keys (js_runs s))"

definition close :: "(nat \<Rightarrow> submit_outcome) \<Rightarrow> bool \<Rightarrow> 'job scheduler \<Rightarrow> sched_error + 'job scheduler" where
  "close submit nested s =
     and_then (raise_if nested CloseFromWorker) (\<lambda>_.
       Inr (foldl (\<lambda>s rid. cancel_locked submit rid s) (s\<lparr>js_closed := True\<rparr>) (keys (js_runs s))))"

text \<open>The loop of \<open>run\<close>, one critical section at a time. \<open>collect\<close>: the thread wakes up and takes what
  is completed; \<open>deliver\<close>: one taken result is appended; \<open>resume\<close>: all taken results are in, and the
  run may get workers again. A result that raises, a callback that raises and a cancellation end in
  \<open>cancel_locked\<close>, and the run is removed once it has no active job.\<close>

definition collect :: "(nat \<Rightarrow> submit_outcome) \<Rightarrow> nat \<Rightarrow> 'job scheduler \<Rightarrow> 'job scheduler" where
  "collect submit rid s =
     (case map_of (js_runs s) rid of
        None \<Rightarrow> s
      | Some r0 \<Rightarrow>
          let s1 = (if run_is_cancelled s r0 then cancel_locked submit rid s else s) in
          (case map_of (js_runs s1) rid of
             None \<Rightarrow> s1
           | Some r \<Rightarrow> set_run rid (r\<lparr>jr_taken := jr_completed r, jr_completed := [],
                 jr_collecting := jr_completed r \<noteq> [] \<and> \<not> jr_cancelled r\<rparr>) s1))"

definition deliver :: "nat \<Rightarrow> 'job scheduler \<Rightarrow> 'job scheduler" where
  "deliver rid s =
     (case map_of (js_runs s) rid of
        None \<Rightarrow> s
      | Some r \<Rightarrow>
          (case jr_taken r of
             [] \<Rightarrow> s
           | x # rest \<Rightarrow> set_run rid (r\<lparr>jr_taken := rest, jr_results := jr_results r @ [x]\<rparr>) s))"

definition resume :: "(nat \<Rightarrow> submit_outcome) \<Rightarrow> nat \<Rightarrow> 'job scheduler \<Rightarrow> 'job scheduler" where
  "resume submit rid s =
     (case map_of (js_runs s) rid of
        None \<Rightarrow> s
      | Some r \<Rightarrow> dispatch_loop submit (set_run rid (r\<lparr>jr_collecting := False\<rparr>) s))"

section \<open>Scopes\<close>

text \<open>\<open>_NodeJobs\<close>: a view of the scheduler with a limit, a cancellation scope and quotas. New quotas
  and events are fresh identities.\<close>

record node_jobs =
  nj_max_concurrency :: int
  nj_cancellation :: "nat option"
  nj_parents :: "nat list"
  nj_quotas :: "nat list"
  nj_explicit :: bool

definition limit :: "nat \<Rightarrow> int \<Rightarrow> node_jobs \<Rightarrow> sched_error + (node_jobs \<times> (nat \<times> job_quota) option)" where
  "limit fresh max_concurrency nj =
     and_then (validate_worker_limit max_concurrency ''max_concurrency'') (\<lambda>_.
       let maximum = min max_concurrency (nj_max_concurrency nj);
           new = (nj_quotas nj = [] \<or> maximum < nj_max_concurrency nj)
       in Inr (nj\<lparr>nj_max_concurrency := maximum, nj_quotas := nj_quotas nj @ (if new then [fresh] else [])\<rparr>,
               if new then Some (fresh, \<lparr>q_limit = maximum, q_active = 0\<rparr>) else None))"

definition with_cancellation :: "nat \<Rightarrow> node_jobs \<Rightarrow> node_jobs" where
  "with_cancellation e nj =
     nj\<lparr>nj_cancellation := Some e, nj_explicit := True,
        nj_parents := nj_parents nj @ (case nj_cancellation nj of None \<Rightarrow> [] | Some c \<Rightarrow> if c = e then [] else [c])\<rparr>"

text \<open>The cancellation event and the parents a run of this scope gets.\<close>

definition run_scope :: "nat \<Rightarrow> node_jobs \<Rightarrow> nat option \<times> nat list" where
  "run_scope fresh nj =
     (if nj_explicit nj then (nj_cancellation nj, nj_parents nj)
      else (Some fresh, nj_parents nj @ (case nj_cancellation nj of None \<Rightarrow> [] | Some c \<Rightarrow> [c])))"

definition scheduler_limit :: "nat \<Rightarrow> nat \<Rightarrow> int \<Rightarrow> 'job scheduler
    \<Rightarrow> sched_error + (node_jobs \<times> (nat \<times> job_quota) option)" where
  "scheduler_limit fresh_quota fresh_event max_concurrency s =
     limit fresh_quota max_concurrency \<lparr>nj_max_concurrency = js_max_workers s,
       nj_cancellation = Some fresh_event, nj_parents = [], nj_quotas = [], nj_explicit = False\<rparr>"

section \<open>Interleavings\<close>

text \<open>The steps of the threads that share the scheduler. Identities of runs, quotas and events are
  fresh when they are created; a quota starts with no active job.\<close>

inductive sched_step :: "(nat \<Rightarrow> submit_outcome) \<Rightarrow> 'job scheduler \<Rightarrow> 'job scheduler \<Rightarrow> bool"
  for submit where
  step_register: "start_run False jobs m c ps qs s = Inr (Some r) \<Longrightarrow> distinct qs \<Longrightarrow>
    rid \<notin> set (keys (js_runs s)) \<Longrightarrow> register submit rid r s = Inr s' \<Longrightarrow> sched_step submit s s'"
| step_quota: "limit q m nj = Inr (nj', Some (q, quota)) \<Longrightarrow> 1 \<le> nj_max_concurrency nj \<Longrightarrow>
    (\<forall>(_, r) \<in> set (js_runs s). q \<notin> set (jr_quotas r)) \<Longrightarrow>
    sched_step submit s (s\<lparr>js_quotas := (js_quotas s)(q := quota)\<rparr>)"
| step_pick_up: "sched_step submit s (s\<lparr>js_started := insert fut (js_started s)\<rparr>)"
| step_complete: "sched_step submit s (complete submit rid fut s)"
| step_collect: "map_of (js_runs s) rid = Some r \<Longrightarrow> jr_taken r = [] \<Longrightarrow> \<not> jr_collecting r \<Longrightarrow>
    sched_step submit s (collect submit rid s)"
| step_deliver: "map_of (js_runs s) rid = Some r \<Longrightarrow> \<not> jr_cancelled r \<Longrightarrow> sched_step submit s (deliver rid s)"
| step_resume: "map_of (js_runs s) rid = Some r \<Longrightarrow> jr_taken r = [] \<Longrightarrow> sched_step submit s (resume submit rid s)"
| step_fail: "sched_step submit s (cancel_locked submit rid s)"
| step_remove: "map_of (js_runs s) rid = Some r \<Longrightarrow> jr_active r = [] \<Longrightarrow>
    jr_cancelled r \<or> length (jr_results r) = jr_total r \<Longrightarrow> sched_step submit s (remove submit rid s)"
| step_cancel: "sched_step submit s (cancel_event submit e s)"
| step_signal: "sched_step submit s (s\<lparr>js_events := insert e (js_events s)\<rparr>)"
| step_close: "close submit False s = Inr s' \<Longrightarrow> sched_step submit s s'"

section \<open>The resource invariant\<close>

definition act :: "'job job_run \<Rightarrow> int" where
  "act r = int (length (jr_active r))"

definition quota_act :: "nat \<Rightarrow> 'job job_run \<Rightarrow> int" where
  "quota_act q r = (if q \<in> set (jr_quotas r) then act r else 0)"

text \<open>One run: futures are known and distinct, the run's own limit holds, a cancelled run has nothing
  pending, and no job of a run that goes on is lost or duplicated.\<close>

definition run_inv :: "nat \<Rightarrow> 'job job_run \<Rightarrow> bool" where
  "run_inv n r \<longleftrightarrow>
     wf_dict (jr_active r) \<and> (\<forall>f \<in> set (keys (jr_active r)). f < n) \<and> act r \<le> jr_max_concurrency r \<and>
     distinct (jr_quotas r) \<and> jr_total r = length (jr_jobs r) \<and> (jr_cancelled r \<longrightarrow> jr_pending r = []) \<and>
     (\<not> jr_cancelled r \<longrightarrow> mset (jr_jobs r) = mset (jr_pending r) + mset (vals (jr_active r)) +
        mset (map fst (jr_completed r)) + mset (map fst (jr_taken r)) + mset (map fst (jr_results r)))"

definition sched_inv :: "'job scheduler \<Rightarrow> bool" where
  "sched_inv s \<longleftrightarrow>
     wf_dict (js_runs s) \<and> (\<forall>rid r. map_of (js_runs s) rid = Some r \<longrightarrow> run_inv (js_next s) r) \<and>
     js_active_workers s = usage act (js_runs s) \<and> js_active_workers s \<le> js_max_workers s \<and>
     (\<forall>q. q_active (js_quotas s q) = usage (quota_act q) (js_runs s)) \<and>
     (\<forall>q. q_active (js_quotas s q) \<le> q_limit (js_quotas s q))"

lemma sched_inv_fields [simp]:
  "sched_inv (s\<lparr>js_events := e\<rparr>) = sched_inv s" "sched_inv (s\<lparr>js_cursor := c\<rparr>) = sched_inv s"
  "sched_inv (s\<lparr>js_started := t\<rparr>) = sched_inv s" "sched_inv (s\<lparr>js_closed := b\<rparr>) = sched_inv s"
  by (simp_all add: sched_inv_def)

lemma run_inv_mono: "run_inv n r \<Longrightarrow> n \<le> m \<Longrightarrow> run_inv m r"
  by (auto simp: run_inv_def)

lemma sched_inv_next: "sched_inv s \<Longrightarrow> js_next s \<le> n \<Longrightarrow> sched_inv (s\<lparr>js_next := n\<rparr>)"
  by (auto simp: sched_inv_def intro: run_inv_mono)

lemma add_quotas_lookup:
  "distinct qs \<Longrightarrow> add_quotas d qs store q =
     (if q \<in> set qs then (store q)\<lparr>q_active := q_active (store q) + d\<rparr> else store q)"
proof (induction qs arbitrary: store)
  case (Cons q' qs)
  then show ?case by (auto simp: add_quotas_def)
qed (simp add: add_quotas_def)

lemma add_quotas_zero: "add_quotas 0 qs store = store"
  by (induction qs arbitrary: store) (simp_all add: add_quotas_def)

lemma sched_inv_run: "sched_inv s \<Longrightarrow> map_of (js_runs s) rid = Some r \<Longrightarrow> run_inv (js_next s) r"
  by (auto simp: sched_inv_def)

lemma sched_inv_quota:
  assumes "sched_inv s"
  shows "q_active (js_quotas s q) \<le> q_limit (js_quotas s q)"
    and "q_active (js_quotas s q) = usage (quota_act q) (js_runs s)"
  using assms unfolding sched_inv_def by blast+

lemma sched_inv_workers: "sched_inv s \<Longrightarrow> js_active_workers s \<le> js_max_workers s"
  by (simp add: sched_inv_def)

text \<open>Changing one run by \<open>d\<close> active jobs, with the counters changed accordingly.\<close>

lemma sched_inv_change:
  assumes inv: "sched_inv s" and r: "map_of (js_runs s) rid = Some r"
    and r': "run_inv (js_next s) r'" "jr_quotas r' = jr_quotas r" "act r' = act r + d"
    and room: "js_active_workers s + d \<le> js_max_workers s"
      "\<And>q. q \<in> set (jr_quotas r) \<Longrightarrow> q_active (js_quotas s q) + d \<le> q_limit (js_quotas s q)"
  shows "sched_inv ((set_run rid r' s)\<lparr>js_active_workers := js_active_workers s + d,
    js_quotas := add_quotas d (jr_quotas r) (js_quotas s)\<rparr>)"
proof -
  have dist: "distinct (jr_quotas r)" using inv r by (auto simp: sched_inv_def run_inv_def)
  have "usage act (AList.update rid r' (js_runs s)) = usage act (js_runs s) + d"
    using usage_update[OF r] r'(3) by simp
  moreover have "usage (quota_act q) (AList.update rid r' (js_runs s))
      = usage (quota_act q) (js_runs s) + (if q \<in> set (jr_quotas r) then d else 0)" for q
    using usage_update[OF r, of "quota_act q" r'] r' by (simp add: quota_act_def)
  moreover have "\<forall>i x. map_of (AList.update rid r' (js_runs s)) i = Some x \<longrightarrow> run_inv (js_next s) x"
    using sched_inv_run[OF inv] r'(1) by simp
  moreover note sched_inv_quota[OF inv]
  moreover have "wf_dict (js_runs s)" "js_active_workers s = usage act (js_runs s)"
    using inv by (simp_all add: sched_inv_def)
  ultimately show ?thesis
    using room by (simp add: sched_inv_def set_run_def add_quotas_lookup[OF dist])
qed

lemma sched_inv_set_run:
  assumes "sched_inv s" and "map_of (js_runs s) rid = Some r"
    and "run_inv (js_next s) r'" "jr_quotas r' = jr_quotas r" "act r' = act r"
  shows "sched_inv (set_run rid r' s)"
proof -
  have "sched_inv ((set_run rid r' s)\<lparr>js_active_workers := js_active_workers s + 0,
    js_quotas := add_quotas 0 (jr_quotas r) (js_quotas s)\<rparr>)"
    by (rule sched_inv_change) (use assms in \<open>auto simp: sched_inv_def\<close>)
  then show ?thesis by (simp add: add_quotas_zero set_run_def)
qed

lemma inv_complete_core:
  assumes inv: "sched_inv s"
  shows "sched_inv (complete_core rid fut s)"
proof (cases "map_of (js_runs s) rid")
  case None
  with inv show ?thesis by (simp add: complete_core_def)
next
  case (Some r)
  note r = sched_inv_run[OF inv Some]
  show ?thesis
  proof (cases "map_of (jr_active r) fut")
    case None
    with inv Some show ?thesis by (simp add: complete_core_def)
  next
    case job: (Some job)
    let ?r' = "r\<lparr>jr_active := AList.delete fut (jr_active r), jr_completed := jr_completed r @ [(job, fut)]\<rparr>"
    have wf: "wf_dict (jr_active r)" using r by (simp add: run_inv_def)
    have act: "act ?r' = act r + (- 1)" using length_delete[OF wf job] by (simp add: act_def)
    have "run_inv (js_next s) ?r'"
      using r vals_delete[OF wf job] act by (auto simp: run_inv_def)
    then have "sched_inv ((set_run rid ?r' s)\<lparr>js_active_workers := js_active_workers s + - 1,
        js_quotas := add_quotas (- 1) (jr_quotas r) (js_quotas s)\<rparr>)"
    proof (rule sched_inv_change[OF inv Some _ _ act])
      show "js_active_workers s + - 1 \<le> js_max_workers s" using sched_inv_workers[OF inv] by simp
      show "q_active (js_quotas s q) + - 1 \<le> q_limit (js_quotas s q)" for q
        using sched_inv_quota(1)[OF inv, of q] by simp
    qed simp
    with Some job show ?thesis by (simp add: complete_core_def)
  qed
qed

lemma inv_mark:
  assumes "sched_inv s" and "map_of (js_runs s) rid = Some r"
  shows "sched_inv (mark_cancelled rid r s)"
  using sched_inv_set_run[OF assms, of "r\<lparr>jr_cancelled := True, jr_pending := []\<rparr>"] sched_inv_run[OF assms]
  by (simp add: mark_cancelled_def run_inv_def act_def)

lemma inv_cancel_core: "sched_inv s \<Longrightarrow> sched_inv (cancel_core rid s)"
  by (auto simp: cancel_core_def inv_mark intro!: foldl_inv[where P = sched_inv] inv_complete_core split: option.splits)

lemma inv_sweep: "sched_inv s \<Longrightarrow> sched_inv (sweep s)"
  by (auto simp: sweep_def intro!: foldl_inv[where P = sched_inv] inv_cancel_core split: option.splits)

text \<open>Cancelling inside the dispatch loop does not raise the number of active jobs and does not touch the pool.\<close>

definition not_more_active :: "'job scheduler \<Rightarrow> 'job scheduler \<Rightarrow> bool" where
  "not_more_active s t \<longleftrightarrow> js_active_workers t \<le> js_active_workers s \<and> js_max_workers t = js_max_workers s \<and>
     js_closed t = js_closed s \<and> js_next t = js_next s"

lemma not_more_refl [simp]: "not_more_active s s"
  by (simp add: not_more_active_def)

lemma not_more_complete_core: "not_more_active s t \<Longrightarrow> not_more_active s (complete_core rid fut t)"
  by (auto simp: not_more_active_def complete_core_def set_run_def split: option.splits)

lemma not_more_cancel_core: "not_more_active s t \<Longrightarrow> not_more_active s (cancel_core rid t)"
  by (auto simp: cancel_core_def mark_cancelled_def set_run_def split: option.splits
      intro!: foldl_inv[where P = "not_more_active s"] not_more_complete_core) (simp_all add: not_more_active_def)

lemma not_more_sweep: "not_more_active s (sweep s)"
  by (auto simp: sweep_def split: option.splits
      intro!: foldl_inv[where P = "not_more_active s"] not_more_cancel_core)

lemma inv_next_run:
  assumes "sched_inv s" and "next_run s = (s1, n)"
  shows "sched_inv s1" and "not_more_active s s1"
  using assms inv_sweep not_more_sweep[of s]
  by (auto simp: next_run_def Let_def not_more_active_def split: if_splits)

lemma inv_submit_job:
  assumes inv: "sched_inv s" and el: "eligible s rid" and free: "js_active_workers s < js_max_workers s"
  shows "sched_inv (submit_job submit rid s)"
proof -
  from el obtain r job rest where r: "map_of (js_runs s) rid = Some r" and p: "jr_pending r = job # rest"
    and limit: "act r < jr_max_concurrency r"
    and quota: "\<And>q. q \<in> set (jr_quotas r) \<Longrightarrow> q_active (js_quotas s q) < q_limit (js_quotas s q)"
    and alive: "\<not> jr_cancelled r"
    by (auto simp: eligible_def act_def neq_Nil_conv list_all_iff split: option.splits)
  define n where "n = js_next s"
  define s1 where "s1 = s\<lparr>js_next := Suc n\<rparr>"
  define r2 where "r2 = r\<lparr>jr_pending := rest, jr_active := AList.update n job (jr_active r)\<rparr>"
  define s2 where "s2 = (set_run rid r2 s1)\<lparr>js_active_workers := js_active_workers s1 + 1,
      js_quotas := add_quotas 1 (jr_quotas r) (js_quotas s1)\<rparr>"
  have inv1: "sched_inv s1" using sched_inv_next[OF inv] by (simp add: s1_def n_def)
  have r1: "map_of (js_runs s1) rid = Some r" using r by (simp add: s1_def)
  note rinv = sched_inv_run[OF inv r]
  have fresh: "n \<notin> set (keys (jr_active r))" using rinv by (auto simp: run_inv_def n_def)
  have act2: "act r2 = act r + 1" using fresh by (simp add: act_def r2_def update_fresh)
  have "run_inv (js_next s1) r2"
    using rinv alive p limit act2 unfolding run_inv_def
    by (auto simp: r2_def s1_def n_def update_fresh[OF fresh[unfolded n_def]] less_Suc_eq vals_def act_def
        wf_dict_keys fresh[unfolded n_def])
  then have inv2: "sched_inv s2"
    unfolding s2_def using sched_inv_change[OF inv1 r1, of r2 1] act2 free quota
    by (simp add: r2_def s1_def zless_imp_add1_zle)
  have "sched_inv (set_run rid (r\<lparr>jr_failed := True, jr_cancelled := True, jr_pending := []\<rparr>) s1)"
    by (rule sched_inv_set_run[OF inv1 r1]) (use rinv in \<open>auto simp: run_inv_def s1_def n_def act_def less_SucI\<close>)
  then have "sched_inv (cancel_core rid (set_run rid (r\<lparr>jr_pending := rest, jr_failed := True\<rparr>) s1))"
    using alive by (auto simp: cancel_core_def mark_cancelled_def set_run_def
        intro!: foldl_inv[where P = sched_inv] inv_complete_core)
  moreover have "submit_job submit rid s = (case submit n of
      SubmitFailed \<Rightarrow> cancel_core rid (set_run rid (r\<lparr>jr_pending := rest, jr_failed := True\<rparr>) s1)
    | Submitted \<Rightarrow> s2 | SubmittedDone \<Rightarrow> complete_core rid n s2)"
    using r p by (cases "submit n") (simp_all add: submit_job_def Let_def s1_def s2_def r2_def n_def)
  ultimately show ?thesis using inv2 inv_complete_core by (simp split: submit_outcome.splits)
qed

lemma inv_dispatch_loop: "sched_inv s \<Longrightarrow> sched_inv (dispatch_loop submit s)"
proof (induction submit s rule: dispatch_loop.induct)
  case (1 submit s)
  show ?case
  proof (cases "js_closed s \<or> js_max_workers s \<le> js_active_workers s")
    case True
    with 1 show ?thesis by (simp add: dispatch_loop.simps)
  next
    case False
    obtain s1 n where n: "next_run s = (s1, n)" by fastforce
    note s1 = inv_next_run[OF 1(2) n]
    show ?thesis
    proof (cases n)
      case None
      with n False s1 show ?thesis by (simp add: dispatch_loop.simps)
    next
      case (Some rid)
      have "sched_inv (submit_job submit rid s1)"
        using next_run_eligible(1)[of s s1 rid] n Some s1 False
        by (intro inv_submit_job) (auto simp: not_more_active_def)
      with 1(1)[OF False n[symmetric] Some] n Some False show ?thesis by (simp add: dispatch_loop.simps)
    qed
  qed
qed

lemma inv_complete: "sched_inv s \<Longrightarrow> sched_inv (complete submit rid fut s)"
  by (simp add: complete_def inv_complete_core inv_dispatch_loop)

lemma inv_cancel_locked: "sched_inv s \<Longrightarrow> sched_inv (cancel_locked submit rid s)"
  by (auto simp: cancel_locked_def inv_mark intro!: foldl_inv[where P = sched_inv] inv_complete split: option.splits)
subsection \<open>Every step keeps the invariant\<close>

lemma inv_new_scheduler:
  "new_scheduler m quotas = Inr s \<Longrightarrow> (\<forall>q. q_active (quotas q) = 0 \<and> 0 \<le> q_limit (quotas q)) \<Longrightarrow> sched_inv s"
  by (auto simp: new_scheduler_def validate_worker_limit_def res_simps sched_inv_def usage_def)

lemma sched_inv_runs:
  assumes "sched_inv s" and "wf_dict runs" and "\<And>rid r. map_of runs rid = Some r \<Longrightarrow> run_inv (js_next s) r"
    and "usage act runs = usage act (js_runs s)" and "\<And>q. usage (quota_act q) runs = usage (quota_act q) (js_runs s)"
  shows "sched_inv (s\<lparr>js_runs := runs\<rparr>)"
  using assms by (auto simp: sched_inv_def)

lemma inv_register:
  assumes inv: "sched_inv s" and start: "start_run False jobs m c ps qs s = Inr (Some r)" and "distinct qs"
    and fresh: "rid \<notin> set (keys (js_runs s))" and reg: "register submit rid r s = Inr s'"
  shows "sched_inv s'"
proof -
  from start have r: "jr_active r = []" "jr_quotas r = qs" "jr_pending r = jr_jobs r" "jr_total r = length (jr_jobs r)"
    "jr_completed r = []" "jr_taken r = []" "jr_results r = []" "0 \<le> jr_max_concurrency r" "\<not> jr_cancelled r"
    using sched_inv_workers[OF inv] usage_nonneg[of act "js_runs s"] inv
    by (auto simp: start_run_def validate_worker_limit_def res_simps sched_inv_def act_def split: if_splits)
  have none: "map_of (js_runs s) rid = None" using fresh by (simp add: map_of_None_keys)
  have "run_inv (js_next s) r" using r \<open>distinct qs\<close> by (simp add: run_inv_def act_def)
  moreover have "act r = 0" "quota_act q r = 0" for q using r by (simp_all add: act_def quota_act_def)
  ultimately have "sched_inv (s\<lparr>js_runs := AList.update rid r (js_runs s)\<rparr>)"
    using inv usage_update_fresh[OF none, of act r] usage_update_fresh[OF none, of "quota_act q" r for q]
    by (intro sched_inv_runs) (auto simp: sched_inv_def split: if_splits)
  then show ?thesis
    using reg by (auto simp: register_def res_simps Let_def intro!: inv_dispatch_loop)
qed

lemma inv_remove:
  assumes inv: "sched_inv s" and r: "map_of (js_runs s) rid = Some r" and idle: "jr_active r = []"
  shows "sched_inv (remove submit rid s)"
proof -
  have wf: "wf_dict (js_runs s)" using inv by (simp add: sched_inv_def)
  have "act r = 0" "quota_act q r = 0" for q using idle by (simp_all add: act_def quota_act_def)
  then have "sched_inv (s\<lparr>js_runs := AList.delete rid (js_runs s)\<rparr>)"
    using inv usage_delete[OF wf r, of act] usage_delete[OF wf r, of "quota_act q" for q]
    by (intro sched_inv_runs) (auto simp: sched_inv_def split: if_splits)
  then show ?thesis using inv by (simp add: remove_def Let_def inv_dispatch_loop)
qed

text \<open>What a thread has taken is its own: no operation under the lock changes it.\<close>

definition taken_of :: "'job scheduler \<Rightarrow> nat \<Rightarrow> ('job \<times> nat) list option" where
  "taken_of s rid = map_option jr_taken (map_of (js_runs s) rid)"

lemma taken_fields [simp]:
  "taken_of (s\<lparr>js_events := e\<rparr>) = taken_of s" "taken_of (s\<lparr>js_cursor := c\<rparr>) = taken_of s"
  "taken_of (s\<lparr>js_next := n\<rparr>) = taken_of s" "taken_of (s\<lparr>js_active_workers := a\<rparr>) = taken_of s"
  "taken_of (s\<lparr>js_quotas := q\<rparr>) = taken_of s"
  by (auto simp: taken_of_def)

lemma taken_set_run:
  "map_of (js_runs s) rid = Some r \<Longrightarrow> jr_taken r' = jr_taken r \<Longrightarrow> taken_of (set_run rid r' s) = taken_of s"
  by (auto simp: taken_of_def set_run_def)

lemma taken_complete_core [simp]: "taken_of (complete_core rid fut s) = taken_of s"
  by (auto simp: complete_core_def taken_set_run split: option.splits)

lemma taken_cancel_core [simp]: "taken_of (cancel_core rid s) = taken_of s"
proof -
  have "taken_of (foldl (\<lambda>s fut. if fut \<in> js_started s then s else complete_core rid fut s) t futs) = taken_of t" for t :: "'a scheduler" and futs
    by (rule foldl_same) simp
  then show ?thesis by (auto simp: cancel_core_def mark_cancelled_def taken_set_run split: option.splits)
qed

lemma taken_sweep [simp]: "taken_of (sweep s) = taken_of s"
  unfolding sweep_def by (rule foldl_same) (auto split: option.splits)

lemma taken_next_run: "next_run s = (s1, n) \<Longrightarrow> taken_of s1 = taken_of s"
  by (auto simp: next_run_def Let_def split: if_splits)

lemma taken_submit_job [simp]: "taken_of (submit_job submit rid s) = taken_of s"
proof (cases "map_of (js_runs s) rid")
  case (Some r)
  then have "taken_of (set_run rid r' (s\<lparr>js_next := n\<rparr>)) = taken_of s" if "jr_taken r' = jr_taken r" for r' n
    using that taken_set_run[of "s\<lparr>js_next := n\<rparr>" rid r r'] by simp
  with Some show ?thesis
    by (auto simp: submit_job_def Let_def split: list.splits submit_outcome.splits)
qed (simp add: submit_job_def)

lemma taken_dispatch_loop [simp]: "taken_of (dispatch_loop submit s) = taken_of s"
proof (induction submit s rule: dispatch_loop.induct)
  case (1 submit s)
  then show ?case
    by (subst dispatch_loop.simps) (auto split: prod.splits option.splits dest: taken_next_run)
qed

lemma taken_cancel_locked [simp]: "taken_of (cancel_locked submit rid s) = taken_of s"
proof -
  have "taken_of (foldl (\<lambda>s fut. if fut \<in> js_started s then s else complete submit rid fut s) t futs) = taken_of t" for t :: "'a scheduler" and futs
    by (rule foldl_same) (simp add: complete_def)
  then show ?thesis by (auto simp: cancel_locked_def mark_cancelled_def taken_set_run split: option.splits)
qed

lemma inv_collect:
  assumes inv: "sched_inv s" and r: "map_of (js_runs s) rid = Some r" and t: "jr_taken r = []"
  shows "sched_inv (collect submit rid s)"
proof -
  let ?s1 = "if run_is_cancelled s r then cancel_locked submit rid s else s"
  have inv1: "sched_inv ?s1" using inv inv_cancel_locked by auto
  have "taken_of ?s1 rid = Some []" using r t by (auto simp: taken_of_def[of s])
  then obtain r1 where r1: "map_of (js_runs ?s1) rid = Some r1" "jr_taken r1 = []" by (auto simp: taken_of_def)
  have "run_inv (js_next ?s1) (r1\<lparr>jr_taken := jr_completed r1, jr_completed := [],
      jr_collecting := jr_completed r1 \<noteq> [] \<and> \<not> jr_cancelled r1\<rparr>)"
    using sched_inv_run[OF inv1 r1(1)] r1(2) by (auto simp: run_inv_def act_def)
  from sched_inv_set_run[OF inv1 r1(1) this] r r1(1) show ?thesis
    by (simp add: collect_def Let_def act_def)
qed

lemma inv_deliver: "sched_inv s \<Longrightarrow> sched_inv (deliver rid s)"
  by (auto simp: deliver_def split: option.splits list.splits
      intro!: sched_inv_set_run) (auto dest!: sched_inv_run simp: run_inv_def act_def)

lemma inv_resume:
  assumes inv: "sched_inv s" and r: "map_of (js_runs s) rid = Some r"
  shows "sched_inv (resume submit rid s)"
  using sched_inv_set_run[OF inv r, of "r\<lparr>jr_collecting := False\<rparr>"] sched_inv_run[OF inv r] r
  by (simp add: resume_def run_inv_def act_def inv_dispatch_loop)

lemma usage_zero: "\<forall>(_, r) \<in> set runs. w r = 0 \<Longrightarrow> usage w runs = 0"
  by (induction runs) (auto simp: usage_def)

lemma inv_quota:
  assumes inv: "sched_inv s" and new: "limit q m nj = Inr (nj', Some (q, quota))" and pos: "1 \<le> nj_max_concurrency nj"
    and fresh: "\<forall>(_, r) \<in> set (js_runs s). q \<notin> set (jr_quotas r)"
  shows "sched_inv (s\<lparr>js_quotas := (js_quotas s)(q := quota)\<rparr>)"
proof -
  have "usage (quota_act q) (js_runs s) = 0"
    using fresh by (intro usage_zero) (auto simp: quota_act_def)
  moreover have "q_active quota = 0" "0 \<le> q_limit quota"
    using new pos by (auto simp: limit_def Let_def validate_worker_limit_def res_simps split: if_splits)
  ultimately show ?thesis using inv by (auto simp: sched_inv_def)
qed

lemma inv_cancel_event: "sched_inv s \<Longrightarrow> sched_inv (cancel_event submit e s)"
  by (auto simp: cancel_event_def intro!: foldl_inv[where P = sched_inv] inv_cancel_locked split: option.splits)

lemma inv_close: "sched_inv s \<Longrightarrow> close submit b s = Inr s' \<Longrightarrow> sched_inv s'"
  by (auto simp: close_def res_simps intro!: foldl_inv[where P = sched_inv] inv_cancel_locked)

lemma inv_step: "sched_step submit s s' \<Longrightarrow> sched_inv s \<Longrightarrow> sched_inv s'"
  by (induction rule: sched_step.induct)
     (auto intro: inv_register inv_quota inv_complete inv_collect inv_deliver inv_resume inv_cancel_locked inv_remove
        inv_cancel_event inv_close)

lemma inv_reachable:
  assumes "(sched_step submit)\<^sup>*\<^sup>* s t" and "sched_inv s"
  shows "sched_inv t"
  using assms by (induction rule: rtranclp_induct) (auto intro: inv_step)
section \<open>Dispatching is fair and keeps the workers busy\<close>

lemma eligible_candidate:
  assumes "eligible s rid"
  shows "\<exists>i \<in> set (candidates s). keys (js_runs s) ! i = rid"
proof -
  from assms have "rid \<in> set (keys (js_runs s))" by (auto simp: eligible_def keys_map_of split: option.splits)
  then obtain i where "i < length (js_runs s)" "keys (js_runs s) ! i = rid" by (auto simp: in_set_conv_nth)
  with assms show ?thesis by (intro bexI[of _ i]) (auto simp: candidates_def)
qed

lemma next_run_least:
  assumes "next_run s = (s1, Some rid)" and "eligible s1 rid'"
  shows "active_count s1 rid \<le> active_count s1 rid'"
proof -
  let ?i = "arg_min_list (dispatch_key (sweep s)) (candidates (sweep s))"
  from assms(1) have rid: "rid = keys (js_runs (sweep s)) ! ?i"
    and s1: "s1 = sweep s\<lparr>js_cursor := (?i + 1) mod length (js_runs (sweep s))\<rparr>"
    by (auto simp: next_run_def Let_def split: if_splits)
  from assms(2) obtain j where j: "j \<in> set (candidates (sweep s))" "keys (js_runs (sweep s)) ! j = rid'"
    using eligible_candidate[of "sweep s" rid'] s1 by auto
  from arg_min_list_le[OF j(1), of "dispatch_key (sweep s)"]
  have "active_count (sweep s) rid \<le> active_count (sweep s) rid'"
    using j(2) by (auto simp: dispatch_key_def rid less_eq_prod_def)
  then show ?thesis by (simp add: s1 active_count_def)
qed

lemma dispatch_loop_saturates:
  "(let t = dispatch_loop submit s in
     js_closed t \<or> js_max_workers t \<le> js_active_workers t \<or> (\<forall>rid. \<not> eligible t rid))"
proof (induction submit s rule: dispatch_loop.induct)
  case (1 submit s)
  show ?case
  proof (cases "js_closed s \<or> js_max_workers s \<le> js_active_workers s")
    case True
    then show ?thesis by (auto simp: dispatch_loop.simps[of submit s])
  next
    case False
    obtain s1 n where n: "next_run s = (s1, n)" by fastforce
    show ?thesis
    proof (cases n)
      case None
      with n have "candidates s1 = []" by (auto simp: next_run_def Let_def split: if_splits)
      then have "\<not> eligible s1 rid" for rid using eligible_candidate[of s1 rid] by auto
      with n None False show ?thesis by (simp add: dispatch_loop.simps[of submit s])
    next
      case (Some rid)
      with 1[OF False n[symmetric] Some] n False show ?thesis by (simp add: dispatch_loop.simps[of submit s])
    qed
  qed
qed

section \<open>Properties of the scheduler\<close>

text \<open>A concrete use: two workers, one quota of one job, two runs.\<close>

definition demo_quotas :: "nat \<Rightarrow> job_quota" where
  "demo_quotas = (\<lambda>_. \<lparr>q_limit = 1, q_active = 0\<rparr>)"

definition demo_submit :: "nat \<Rightarrow> submit_outcome" where
  "demo_submit n = (if n = 1 then SubmittedDone else Submitted)"

definition demo_scheduler :: "string scheduler" where
  "demo_scheduler = (case new_scheduler 2 demo_quotas of Inr s \<Rightarrow> s)"

definition demo_run :: "string list \<Rightarrow> nat list \<Rightarrow> string job_run" where
  "demo_run jobs qs = (case start_run False jobs 2 None [] qs demo_scheduler of Inr (Some r) \<Rightarrow> r)"

definition demo_registered :: "string scheduler" where
  "demo_registered = (case register demo_submit 0 (demo_run [''a'', ''b'', ''c''] []) demo_scheduler of Inr s \<Rightarrow> s)"

definition demo_collected :: "string scheduler" where
  "demo_collected =
     (let submit = demo_submit; s = demo_registered;
          s = resume submit 0 (deliver 0 (collect submit 0 s));
          s = resume submit 0 (deliver 0 (collect submit 0 (complete submit 0 0 s)));
          s = deliver 0 (collect submit 0 (complete submit 0 2 s))
      in s)"

lemma demo_scheduler_new: "new_scheduler 2 demo_quotas = Inr demo_scheduler"
  by (simp add: demo_scheduler_def new_scheduler_def validate_worker_limit_def)

lemma demo_quotas_ok: "\<forall>q. q_active (demo_quotas q) = 0 \<and> 0 \<le> q_limit (demo_quotas q)"
  by (simp add: demo_quotas_def)

lemma demo_registered_reachable: "(sched_step demo_submit)\<^sup>*\<^sup>* demo_scheduler demo_registered"
proof -
  have r: "start_run False [''a'', ''b'', ''c''] 2 None [] [] demo_scheduler = Inr (Some (demo_run [''a'', ''b'', ''c''] []))"
    by (simp add: demo_run_def demo_scheduler_def new_scheduler_def start_run_def validate_worker_limit_def)
  have "register demo_submit 0 (demo_run [''a'', ''b'', ''c''] []) demo_scheduler = Inr demo_registered"
    by (simp add: demo_registered_def register_def demo_run_def demo_scheduler_def new_scheduler_def start_run_def
        validate_worker_limit_def run_is_cancelled_def Let_def)
  from sched_step.step_register[OF r _ _ this] show ?thesis
    by (intro r_into_rtranclp) (simp add: demo_scheduler_def new_scheduler_def validate_worker_limit_def)
qed
text \<open>
  C9. The limits hold at every moment. In every state the threads can reach, the number of active
  workers is the number of active jobs and at most the size of the pool, no run exceeds its own
  limit, and the counter of each quota is the number of jobs active over all the runs that share
  the quota, which stays within the quota.
\<close>

theorem scheduler_limits:
  assumes "new_scheduler max_workers quotas = Inr s0"
    and "\<forall>q. q_active (quotas q) = 0 \<and> 0 \<le> q_limit (quotas q)"
    and "(sched_step submit)\<^sup>*\<^sup>* s0 s"
  shows "js_active_workers s = usage (\<lambda>r. int (length (jr_active r))) (js_runs s) \<and>
    js_active_workers s \<le> js_max_workers s \<and>
    (\<forall>rid r. map_of (js_runs s) rid = Some r \<longrightarrow> int (length (jr_active r)) \<le> jr_max_concurrency r) \<and>
    (\<forall>q. q_active (js_quotas s q) =
         usage (\<lambda>r. if q \<in> set (jr_quotas r) then int (length (jr_active r)) else 0) (js_runs s) \<and>
       usage (\<lambda>r. if q \<in> set (jr_quotas r) then int (length (jr_active r)) else 0) (js_runs s)
         \<le> q_limit (js_quotas s q))"
proof -
  have inv: "sched_inv s" using inv_reachable[OF assms(3) inv_new_scheduler[OF assms(1,2)]] .
  have "act = (\<lambda>r. int (length (jr_active r)))"
    and "quota_act q = (\<lambda>r. if q \<in> set (jr_quotas r) then int (length (jr_active r)) else 0)" for q
    by (auto simp: act_def quota_act_def)
  note weights = this
  have "js_active_workers s = usage act (js_runs s)" using inv by (simp add: sched_inv_def)
  moreover have "act r \<le> jr_max_concurrency r" if "map_of (js_runs s) rid = Some r" for rid r
    using sched_inv_run[OF inv that] by (simp add: run_inv_def)
  moreover have "q_active (js_quotas s q) = usage (quota_act q) (js_runs s) \<and> usage (quota_act q) (js_runs s) \<le> q_limit (js_quotas s q)" for q
    using sched_inv_quota[OF inv, of q] by simp
  ultimately show ?thesis using sched_inv_workers[OF inv] unfolding weights by blast
qed

theorem scheduler_limits_witness:
  "js_active_workers demo_registered = 1 \<and> js_active_workers demo_registered \<le> js_max_workers demo_registered"
proof -
  have "js_active_workers demo_registered = 1" by code_simp
  with scheduler_limits[OF demo_scheduler_new demo_quotas_ok demo_registered_reachable] show ?thesis by simp
qed

text \<open>
  C10. No job is lost and none runs twice. When a run that was not cancelled has collected as many
  results as it had jobs, the jobs of those results are the jobs the run was started with, each as
  often as it was given, and nothing of the run is pending, active or waiting to be collected.
\<close>

theorem scheduler_runs_every_job:
  assumes "new_scheduler max_workers quotas = Inr s0"
    and "\<forall>q. q_active (quotas q) = 0 \<and> 0 \<le> q_limit (quotas q)"
    and "(sched_step submit)\<^sup>*\<^sup>* s0 s"
    and "map_of (js_runs s) rid = Some r" and "\<not> jr_cancelled r" and "length (jr_results r) = jr_total r"
  shows "mset (map fst (jr_results r)) = mset (jr_jobs r) \<and>
    jr_pending r = [] \<and> jr_active r = [] \<and> jr_completed r = [] \<and> jr_taken r = []"
proof -
  have "sched_inv s" using inv_reachable[OF assms(3) inv_new_scheduler[OF assms(1,2)]] .
  from sched_inv_run[OF this assms(4)] assms(5)
  have all: "mset (jr_jobs r) = mset (jr_pending r) + mset (vals (jr_active r)) +
        mset (map fst (jr_completed r)) + mset (map fst (jr_taken r)) + mset (map fst (jr_results r))"
    and "jr_total r = length (jr_jobs r)" by (auto simp: run_inv_def)
  from arg_cong[OF all, of size] have "length (jr_jobs r) = length (jr_pending r) + length (jr_active r)
      + length (jr_completed r) + length (jr_taken r) + length (jr_results r)" by (simp add: vals_def)
  with assms(6) \<open>jr_total r = length (jr_jobs r)\<close>
  have none: "jr_pending r = [] \<and> jr_active r = [] \<and> jr_completed r = [] \<and> jr_taken r = []" by simp
  with all show ?thesis by simp
qed

lemma demo_collected_reachable: "(sched_step demo_submit)\<^sup>*\<^sup>* demo_scheduler demo_collected"
proof -
  let ?R = "(sched_step demo_submit)\<^sup>*\<^sup>* demo_scheduler"
  have col: "?R (collect demo_submit 0 s)"
    if "?R s" and "case map_of (js_runs s) 0 of None \<Rightarrow> False | Some r \<Rightarrow> jr_taken r = [] \<and> \<not> jr_collecting r" for s
    using that by (auto intro: rtranclp.rtrancl_into_rtrancl step_collect split: option.splits)
  have del: "?R (deliver 0 s)"
    if "?R s" and "case map_of (js_runs s) 0 of None \<Rightarrow> False | Some r \<Rightarrow> \<not> jr_cancelled r" for s
    using that by (auto intro: rtranclp.rtrancl_into_rtrancl step_deliver split: option.splits)
  have res: "?R (resume demo_submit 0 s)"
    if "?R s" and "case map_of (js_runs s) 0 of None \<Rightarrow> False | Some r \<Rightarrow> jr_taken r = []" for s
    using that by (auto intro: rtranclp.rtrancl_into_rtrancl step_resume split: option.splits)
  have com: "?R (complete demo_submit 0 f s)" if "?R s" for s f
    using that by (auto intro: rtranclp.rtrancl_into_rtrancl step_complete)
  show ?thesis
    unfolding demo_collected_def Let_def
    by (intro col del res com demo_registered_reachable; code_simp)
qed

theorem scheduler_runs_every_job_witness:
  "\<exists>r. map_of (js_runs demo_collected) 0 = Some r \<and> map fst (jr_results r) = [''b'', ''a'', ''c''] \<and>
     mset (map fst (jr_results r)) = {#''a'', ''b'', ''c''#}"
proof -
  have "case map_of (js_runs demo_collected) 0 of None \<Rightarrow> False
      | Some r \<Rightarrow> \<not> jr_cancelled r \<and> length (jr_results r) = jr_total r \<and>
          map fst (jr_results r) = [''b'', ''a'', ''c''] \<and> jr_jobs r = [''a'', ''b'', ''c'']"
    by code_simp
  then obtain r where r: "map_of (js_runs demo_collected) 0 = Some r" "\<not> jr_cancelled r"
      "length (jr_results r) = jr_total r" "map fst (jr_results r) = [''b'', ''a'', ''c'']"
      "jr_jobs r = [''a'', ''b'', ''c'']"
    by (auto split: option.splits)
  from scheduler_runs_every_job[OF demo_scheduler_new demo_quotas_ok demo_collected_reachable r(1,2,3)] r
  show ?thesis by auto
qed

text \<open>
  C11. Dispatching ends, and it leaves a worker idle only when there is nothing to do: afterwards
  the scheduler is closed, or every worker is busy, or no run may start a job (each one is
  cancelled, has no pending job, has results to collect, or is at its limit or at a quota).
\<close>

theorem dispatch_work_conserving:
  "js_closed (dispatch_loop submit s) \<or>
   js_max_workers (dispatch_loop submit s) \<le> js_active_workers (dispatch_loop submit s) \<or>
   (\<forall>rid. \<not> eligible (dispatch_loop submit s) rid)"
  using dispatch_loop_saturates[of submit s] by (simp add: Let_def)

text \<open>
  The next job comes from a run that may start one and has the fewest active jobs of all such
  runs; the rotating cursor moves to the position after it.
\<close>

theorem next_run_fair:
  assumes "next_run s = (s1, Some rid)"
  shows "eligible s1 rid \<and> (\<forall>rid'. eligible s1 rid' \<longrightarrow> active_count s1 rid \<le> active_count s1 rid') \<and>
    (\<exists>i < length (js_runs s1). keys (js_runs s1) ! i = rid \<and> js_cursor s1 = (i + 1) mod length (js_runs s1))"
proof -
  let ?i = "arg_min_list (dispatch_key (sweep s)) (candidates (sweep s))"
  from assms have ne: "candidates (sweep s) \<noteq> []" and rid: "rid = keys (js_runs (sweep s)) ! ?i"
    and s1: "s1 = sweep s\<lparr>js_cursor := (?i + 1) mod length (js_runs (sweep s))\<rparr>"
    by (auto simp: next_run_def Let_def split: if_splits)
  have "?i < length (js_runs (sweep s))" using arg_min_list_in[OF ne, of "dispatch_key (sweep s)"]
    unfolding candidates_def by auto
  then show ?thesis
    using next_run_eligible(1)[OF assms] next_run_least[OF assms] rid s1 by auto
qed

theorem next_run_fair_witness:
  "let s = set_run 5 (demo_run [''x''] []) demo_registered\<lparr>js_cursor := 0\<rparr> in
   snd (next_run s) = Some 5 \<and> eligible (fst (next_run s)) 5"
proof -
  let ?s = "set_run 5 (demo_run [''x''] []) demo_registered\<lparr>js_cursor := 0\<rparr>"
  have "snd (next_run ?s) = Some 5" by code_simp
  then have "next_run ?s = (fst (next_run ?s), Some 5)" by (metis prod.collapse)
  from next_run_fair[OF this] \<open>snd (next_run ?s) = Some 5\<close> show ?thesis by simp
qed

text \<open>
  Scopes nest. A limit is positive; the limit of a scope within a scope is the smaller of the
  two, the inner scope keeps every quota of the outer one and has at least one, and a quota that is
  added has the scope's limit and no active job. A run started in a scope made by \<open>with_cancellation\<close> is cancelled by the
  scope's own event and by every event that cancels the outer scope.
\<close>

theorem scopes_nest:
  assumes "limit fresh n nj = Inr (nj', new)"
  shows "1 \<le> n \<and> nj_max_concurrency nj' = min n (nj_max_concurrency nj) \<and>
    set (nj_quotas nj) \<subseteq> set (nj_quotas nj') \<and> nj_quotas nj' \<noteq> [] \<and>
    (\<forall>q. new = Some q \<longrightarrow> q = (fresh, \<lparr>q_limit = nj_max_concurrency nj', q_active = 0\<rparr>) \<and> fresh \<in> set (nj_quotas nj')) \<and>
    (let (c, ps) = run_scope event (with_cancellation e nj') in
       c = Some e \<and> set_option (nj_cancellation nj) \<union> set (nj_parents nj) \<subseteq> insert e (set ps))"
proof -
  let ?max = "min n (nj_max_concurrency nj)"
  let ?new = "nj_quotas nj = [] \<or> ?max < nj_max_concurrency nj"
  from assms have n: "1 \<le> n"
    and nj': "nj' = nj\<lparr>nj_max_concurrency := ?max, nj_quotas := nj_quotas nj @ (if ?new then [fresh] else [])\<rparr>"
    and new: "new = (if ?new then Some (fresh, \<lparr>q_limit = ?max, q_active = 0\<rparr>) else None)"
    by (auto simp: limit_def validate_worker_limit_def and_then_eq_Inr raise_if_eq_Inr Let_def)
  have "let (c, ps) = run_scope event (with_cancellation e nj') in
       c = Some e \<and> set_option (nj_cancellation nj) \<union> set (nj_parents nj) \<subseteq> insert e (set ps)"
    by (cases "nj_cancellation nj") (auto simp: nj' run_scope_def with_cancellation_def)
  moreover have "set (nj_quotas nj) \<subseteq> set (nj_quotas nj') \<and> nj_quotas nj' \<noteq> []" by (simp add: nj')
  moreover have "\<forall>q. new = Some q \<longrightarrow> q = (fresh, \<lparr>q_limit = nj_max_concurrency nj', q_active = 0\<rparr>) \<and> fresh \<in> set (nj_quotas nj')"
    by (simp add: nj' new)
  moreover have "nj_max_concurrency nj' = ?max" by (simp add: nj')
  ultimately show ?thesis using n by blast
qed

theorem scopes_nest_witness:
  "\<exists>nj'. limit 7 2 \<lparr>nj_max_concurrency = 4, nj_cancellation = Some 1, nj_parents = [], nj_quotas = [3], nj_explicit = False\<rparr>
      = Inr (nj', Some (7, \<lparr>q_limit = 2, q_active = 0\<rparr>)) \<and> nj_quotas nj' = [3, 7] \<and> nj_max_concurrency nj' = 2"
proof -
  let ?nj = "\<lparr>nj_max_concurrency = 4, nj_cancellation = Some 1, nj_parents = [], nj_quotas = [3], nj_explicit = False\<rparr>"
  let ?nj' = "?nj\<lparr>nj_max_concurrency := 2, nj_quotas := [3, 7]\<rparr>"
  have l: "limit 7 2 ?nj = Inr (?nj', Some (7, \<lparr>q_limit = 2, q_active = 0\<rparr>))"
    by (simp add: limit_def validate_worker_limit_def Let_def)
  from scopes_nest[OF l] have "nj_max_concurrency ?nj' = min 2 4" by simp
  with l show ?thesis by auto
qed

end
