(* ===== verification/Json_Validation.thy ===== *)
theory Json_Validation
  imports Prelude
begin

text \<open>
  The validation of JSON values in \<open>json_io.py\<close>. Python's lists and dictionaries are objects with an
  identity, and they may share or contain one another, so the model has a store of containers: a
  value is a scalar or a reference into the store, and \<open>id()\<close> is the address. Strings are lists of
  code points, because the check is about surrogates. \<open>validate_json_tree\<close> walks the containers
  with an explicit stack of iterators and the set of the containers it is inside of.
\<close>

section \<open>Values\<close>

type_synonym code_points = "nat list"

text \<open>\<open>FloatObj\<close> holds whether the number is finite; \<open>OtherObj\<close> is an object of any other type.\<close>

datatype json_object = NoneObj | BoolObj bool | IntObj int | FloatObj bool | StrObj code_points | OtherObj | Ref nat

datatype json_key = StrKey code_points | OtherKey

datatype json_container = DictObj "(json_key \<times> json_object) list" | ListObj "json_object list"

type_synonym json_store = "(nat, json_container) dict"

datatype json_error =
    DuplicateKey
  | SurrogateInString
  | NonFiniteNumber
  | NotAJsonValue
  | KeyNotAString
  | RecursiveContainer
  | DanglingReference nat

definition isascii :: "code_points \<Rightarrow> bool" where
  "isascii s = list_all (\<lambda>c. c < 128) s"

definition validate_string :: "code_points \<Rightarrow> json_error + unit" where
  "validate_string s = raise_if (\<not> isascii s \<and> list_ex (\<lambda>c. 0xD800 \<le> c \<and> c \<le> 0xDFFF) s) SurrogateInString"

definition validate_json_scalar :: "json_object \<Rightarrow> json_error + unit" where
  "validate_json_scalar v =
     (case v of
        StrObj s \<Rightarrow> validate_string s
      | FloatObj is_finite \<Rightarrow> raise_if (\<not> is_finite) NonFiniteNumber
      | NoneObj \<Rightarrow> Inr () | BoolObj _ \<Rightarrow> Inr () | IntObj _ \<Rightarrow> Inr ()
      | _ \<Rightarrow> Inl NotAJsonValue)"

definition validate_key :: "json_key \<Rightarrow> json_error + unit" where
  "validate_key k = (case k of StrKey s \<Rightarrow> validate_string s | OtherKey \<Rightarrow> Inl KeyNotAString)"

text \<open>The keys of a dictionary are checked before its values are visited.\<close>

definition open_container :: "json_container \<Rightarrow> json_error + json_object list" where
  "open_container c =
     (case c of
        DictObj items \<Rightarrow> and_then (fold_res (\<lambda>_ (k, _). validate_key k) () items) (\<lambda>_. Inr (map snd items))
      | ListObj xs \<Rightarrow> Inr xs)"

text \<open>\<open>json_object_from_pairs\<close>, which \<open>json.loads\<close> calls with the members of an object.\<close>

definition json_object_from_pairs :: "('k \<times> 'v) list \<Rightarrow> json_error + ('k, 'v) dict" where
  "json_object_from_pairs pairs =
     fold_res (\<lambda>d (k, v). if k \<in> set (keys d) then Inl DuplicateKey else Inr (AList.update k v d)) [] pairs"

section \<open>The walk\<close>

text \<open>
  The stack has its top first; an iterator is the list of the values it has left. The loop is a
  partial function: that it returns is proved below.
\<close>

type_synonym json_frame = "json_object list \<times> nat option"

partial_function (option) validate_loop ::
  "json_store \<Rightarrow> json_frame list \<Rightarrow> nat set \<Rightarrow> (json_error + unit) option" where
  "validate_loop store stack ancestors =
     (case stack of
        [] \<Rightarrow> Some (Inr ())
      | ([], container_id) # rest \<Rightarrow>
          validate_loop store rest (case container_id of None \<Rightarrow> ancestors | Some i \<Rightarrow> ancestors - {i})
      | (v # vs, container_id) # rest \<Rightarrow>
          (case v of
             Ref i \<Rightarrow>
               (case map_of store i of
                  None \<Rightarrow> Some (Inl (DanglingReference i))
                | Some c \<Rightarrow>
                    (case open_container c of
                       Inl e \<Rightarrow> Some (Inl e)
                     | Inr children \<Rightarrow>
                         if i \<in> ancestors then Some (Inl RecursiveContainer)
                         else validate_loop store ((children, Some i) # (vs, container_id) # rest) (insert i ancestors)))
           | _ \<Rightarrow>
               (case validate_json_scalar v of
                  Inl e \<Rightarrow> Some (Inl e)
                | Inr _ \<Rightarrow> validate_loop store ((vs, container_id) # rest) ancestors)))"

definition validate_json_tree :: "json_store \<Rightarrow> json_object \<Rightarrow> (json_error + unit) option" where
  "validate_json_tree store payload =
     (case payload of Ref _ \<Rightarrow> validate_loop store [([payload], None)] {} | _ \<Rightarrow> Some (validate_json_scalar payload))"

declare validate_loop.simps [code]

section \<open>The recursive reference\<close>

text \<open>The same checks by recursion over the values, with the containers around the current one.\<close>

function (sequential) check_value :: "json_store \<Rightarrow> nat set \<Rightarrow> json_object \<Rightarrow> json_error + unit"
  and check_values :: "json_store \<Rightarrow> nat set \<Rightarrow> json_object list \<Rightarrow> json_error + unit" where
  "check_value store ancestors (Ref i) =
     (case map_of store i of
        None \<Rightarrow> Inl (DanglingReference i)
      | Some c \<Rightarrow>
          (case open_container c of
             Inl e \<Rightarrow> Inl e
           | Inr children \<Rightarrow>
               if i \<in> ancestors then Inl RecursiveContainer else check_values store (insert i ancestors) children))"
| "check_value store ancestors v = validate_json_scalar v"
| "check_values store ancestors [] = Inr ()"
| "check_values store ancestors (v # vs) =
     (case check_value store ancestors v of Inl e \<Rightarrow> Inl e | Inr _ \<Rightarrow> check_values store ancestors vs)"
  by pat_completeness auto
termination
proof (relation "measures [
    \<lambda>x. case x of Inl (store, anc, _) \<Rightarrow> card (set (keys store) - anc) | Inr (store, anc, _) \<Rightarrow> card (set (keys store) - anc),
    \<lambda>x. case x of Inl _ \<Rightarrow> 0 | Inr (_, _, vs) \<Rightarrow> Suc (length vs)]", goal_cases)
  case (2 store anc i c children)
  then have "i \<in> set (keys store) - anc" using map_of_Some_keys[of store i c] by simp
  then have "card (set (keys store) - insert i anc) < card (set (keys store) - anc)"
    by (intro psubset_card_mono) auto
  then show ?case by simp
qed auto

declare check_value.simps(1) [simp del]

lemma loop_check:
  "validate_loop store ((v # vs, cid) # rest) ancestors =
     (case check_value store ancestors v of Inl e \<Rightarrow> Some (Inl e) | Inr _ \<Rightarrow> validate_loop store ((vs, cid) # rest) ancestors)"
  "validate_loop store ((vs, cid) # rest) ancestors =
     (case check_values store ancestors vs of Inl e \<Rightarrow> Some (Inl e) | Inr _ \<Rightarrow> validate_loop store (([], cid) # rest) ancestors)"
proof (induction store ancestors v and store ancestors vs arbitrary: vs cid rest and cid rest
    rule: check_value_check_values.induct)
  case (1 store ancestors i)
  show ?case
  proof (cases "map_of store i")
    case (Some c)
    show ?thesis
    proof (cases "open_container c")
      case (Inr children)
      show ?thesis
      proof (cases "i \<in> ancestors")
        case False
        have "validate_loop store (([], Some i) # (vs, cid) # rest) (insert i ancestors) = validate_loop store ((vs, cid) # rest) ancestors"
          using False by (subst validate_loop.simps) simp
        then show ?thesis
          using 1[OF Some Inr False] Some Inr False
          by (subst validate_loop.simps) (simp add: check_value.simps(1) split: sum.splits)
      qed (use Some Inr in \<open>subst validate_loop.simps, simp add: check_value.simps(1)\<close>)
    qed (use Some in \<open>subst validate_loop.simps, simp add: check_value.simps(1)\<close>)
  qed (subst validate_loop.simps, simp add: check_value.simps(1))
next
  case (4 store ancestors v vs)
  then show ?case by (simp split: sum.splits)
qed (subst validate_loop.simps, simp split: sum.splits)+

lemma validate_json_tree_eq: "validate_json_tree store payload = Some (check_value store {} payload)"
proof (cases payload)
  case (Ref i)
  have "validate_loop store [([], None)] {} = Some (Inr ())"
    by (subst validate_loop.simps, simp, subst validate_loop.simps, simp)
  then show ?thesis using Ref loop_check(1)[of store payload "[]" None "[]" "{}"]
    by (simp add: validate_json_tree_def split: sum.splits)
qed (simp_all add: validate_json_tree_def)

section \<open>JSON trees\<close>

text \<open>
  What the check is for: the value is a scalar of JSON, or a container whose keys are valid and
  whose members are JSON trees. The predicate is inductive, so a container that contains itself is
  none.
\<close>

inductive json_tree :: "json_store \<Rightarrow> json_object \<Rightarrow> bool" for store where
  scalar: "validate_json_scalar v = Inr () \<Longrightarrow> json_tree store v"
| container: "map_of store i = Some c \<Longrightarrow> open_container c = Inr children \<Longrightarrow>
    (\<And>v. v \<in> set children \<Longrightarrow> json_tree store v) \<Longrightarrow> json_tree store (Ref i)"

inductive_cases json_tree_RefE: "json_tree store (Ref i)"

definition member_edges :: "json_store \<Rightarrow> (nat \<times> nat) set" where
  "member_edges store = {(i, j). \<exists>c children. map_of store i = Some c \<and> open_container c = Inr children \<and> Ref j \<in> set children}"

lemma check_value_sound:
  "check_value store ancestors v = Inr () \<Longrightarrow> json_tree store v"
  "check_values store ancestors vs = Inr () \<Longrightarrow> \<forall>v' \<in> set vs. json_tree store v'"
proof (induction store ancestors v and store ancestors vs rule: check_value_check_values.induct)
  case (1 store ancestors i)
  then show ?case
    by (auto simp: check_value.simps(1) intro: json_tree.container split: option.splits sum.splits if_splits)
qed (auto intro: json_tree.scalar split: sum.splits)

lemma json_tree_acyclic:
  assumes "json_tree store v" and "v = Ref i"
  shows "(i, i) \<notin> (member_edges store)\<^sup>+"
  using assms
proof (induction arbitrary: i rule: json_tree.induct)
  case (container k c children)
  then have members: "Ref j \<in> set children" if "(i, j) \<in> member_edges store" for j
    using that by (auto simp: member_edges_def)
  show ?case
  proof
    assume "(i, i) \<in> (member_edges store)\<^sup>+"
    then obtain j where "(i, j) \<in> member_edges store" "(j, i) \<in> (member_edges store)\<^sup>*" by (auto dest: tranclD)
    then have "Ref j \<in> set children" "(j, j) \<in> (member_edges store)\<^sup>+"
      using members by (auto intro: rtrancl_into_trancl1)
    with container.IH show False by blast
  qed
qed (simp add: validate_json_scalar_def)

lemma check_value_complete:
  assumes "json_tree store v" and "\<forall>i a. v = Ref i \<longrightarrow> a \<in> ancestors \<longrightarrow> (i, a) \<notin> (member_edges store)\<^sup>*"
  shows "check_value store ancestors v = Inr ()"
  using assms
proof (induction arbitrary: ancestors rule: json_tree.induct)
  case (scalar v)
  then show ?case by (cases v) (simp_all add: validate_json_scalar_def)
next
  case (container i c children)
  have "(i, i) \<notin> (member_edges store)\<^sup>+"
    using json_tree_acyclic[OF json_tree.container[OF container.hyps]] by simp
  then have away: "(j, a) \<notin> (member_edges store)\<^sup>*" if "Ref j \<in> set children" "a \<in> insert i ancestors" for j a
  proof -
    have "(i, j) \<in> member_edges store" using container.hyps that(1) by (auto simp: member_edges_def)
    then show ?thesis
      using that(2) container.prems \<open>(i, i) \<notin> _\<close> by (auto dest: rtrancl_into_trancl2 converse_rtrancl_into_rtrancl)
  qed
  have "check_values store (insert i ancestors) vs = Inr ()" if "set vs \<subseteq> set children" for vs
    using that
  proof (induction vs)
    case (Cons v vs)
    then have "check_value store (insert i ancestors) v = Inr ()"
      using away by (intro container.IH) auto
    with Cons show ?case by simp
  qed simp
  moreover have "i \<notin> ancestors" using container.prems by auto
  ultimately show ?case using container.hyps by (simp add: check_value.simps(1))
qed

lemma never_recursive:
  "validate_json_scalar v \<noteq> Inl RecursiveContainer" "open_container c \<noteq> Inl RecursiveContainer"
proof -
  have key: "validate_key k \<noteq> Inl RecursiveContainer" for k
    by (auto simp: validate_key_def validate_string_def raise_if_def split: json_key.splits)
  have "fold_res (\<lambda>_ (k, _). validate_key k) () items \<noteq> Inl RecursiveContainer" for items :: "(json_key \<times> json_object) list"
    by (induction items) (auto simp: key split: sum.splits prod.splits)
  then show "open_container c \<noteq> Inl RecursiveContainer"
    by (auto simp: open_container_def and_then_def split: json_container.splits sum.splits)
  show "validate_json_scalar v \<noteq> Inl RecursiveContainer"
    by (auto simp: validate_json_scalar_def validate_string_def raise_if_def split: json_object.splits)
qed

lemma check_value_recursive:
  "check_value store ancestors v = Inl RecursiveContainer \<Longrightarrow>
   \<forall>a \<in> ancestors. \<forall>i. v = Ref i \<longrightarrow> (a, i) \<in> (member_edges store)\<^sup>+ \<Longrightarrow> \<exists>i. (i, i) \<in> (member_edges store)\<^sup>+"
  "check_values store ancestors vs = Inl RecursiveContainer \<Longrightarrow>
   \<forall>a \<in> ancestors. \<forall>i. Ref i \<in> set vs \<longrightarrow> (a, i) \<in> (member_edges store)\<^sup>+ \<Longrightarrow> \<exists>i. (i, i) \<in> (member_edges store)\<^sup>+"
proof (induction store ancestors v and store ancestors vs rule: check_value_check_values.induct)
  case (1 store ancestors i)
  show ?case
  proof (cases "i \<in> ancestors")
    case False
    with 1(2) obtain c children where c: "map_of store i = Some c" "open_container c = Inr children"
      and rec: "check_values store (insert i ancestors) children = Inl RecursiveContainer"
      by (auto simp: check_value.simps(1) never_recursive split: option.splits sum.splits)
    have "(a, j) \<in> (member_edges store)\<^sup>+" if "a \<in> insert i ancestors" "Ref j \<in> set children" for a j
    proof -
      have "(i, j) \<in> member_edges store" using c that(2) by (auto simp: member_edges_def)
      then show ?thesis using that(1) 1(3) by (auto intro: trancl_into_trancl)
    qed
    then show ?thesis using 1(1)[OF c False rec] by blast
  qed (use 1(3) in auto)
next
  case (4 store ancestors v vs)
  then show ?case by (cases "check_value store ancestors v") auto
qed (simp_all add: never_recursive)

section \<open>Properties\<close>

text \<open>
  C22. \<open>validate_json_tree\<close> always returns, also on containers that contain one another, and it
  accepts a value exactly when the value is a finite JSON tree: every container reached from it has
  string keys without lone surrogates, every scalar is a JSON scalar, and no container contains
  itself, while sharing a container between several places is accepted. It reports a recursive
  container only when there is one.
\<close>

theorem validate_json_tree_exact:
  "\<exists>r. validate_json_tree store payload = Some r \<and> (r = Inr () \<longleftrightarrow> json_tree store payload) \<and>
     (r = Inl RecursiveContainer \<longrightarrow> (\<exists>i. (i, i) \<in> (member_edges store)\<^sup>+))"
  using check_value_sound(1)[of store "{}" payload] check_value_complete[of store payload "{}"]
    check_value_recursive(1)[of store "{}" payload]
  by (auto simp: validate_json_tree_eq)

definition demo_store :: json_store where
  "demo_store = [(0, DictObj [(StrKey [97], Ref 1), (StrKey [98], Ref 1)]), (1, ListObj [IntObj 1, StrObj [233]]),
     (2, ListObj [NoneObj, Ref 3]), (3, DictObj [(StrKey [97], Ref 2)])]"

theorem validate_json_tree_exact_witness:
  "json_tree demo_store (Ref 0) \<and> \<not> json_tree demo_store (Ref 2) \<and> (\<exists>i. (i, i) \<in> (member_edges demo_store)\<^sup>+)"
proof -
  have "validate_json_tree demo_store (Ref 0) = Some (Inr ())"
    "validate_json_tree demo_store (Ref 2) = Some (Inl RecursiveContainer)"
    unfolding validate_json_tree_eq
    by (simp_all add: demo_store_def check_value.simps open_container_def validate_key_def validate_string_def
        isascii_def validate_json_scalar_def and_then_def raise_if_def)
  with validate_json_tree_exact[of demo_store "Ref 0"] validate_json_tree_exact[of demo_store "Ref 2"]
  show ?thesis by auto
qed

text \<open>\<open>json_object_from_pairs\<close> keeps the members in order and accepts them exactly when no key is repeated.\<close>

lemma json_object_from_pairs_iff:
  "json_object_from_pairs pairs = Inr d \<longleftrightarrow> distinct (map fst pairs) \<and> d = pairs"
proof -
  have "fold_res (\<lambda>d (k, v). if k \<in> set (keys d) then Inl DuplicateKey else Inr (AList.update k v d)) seen pairs = Inr d
      \<longleftrightarrow> distinct (map fst pairs) \<and> set (map fst pairs) \<inter> set (keys seen) = {} \<and> d = seen @ pairs" for seen
  proof (induction pairs arbitrary: seen)
    case (Cons p pairs)
    obtain k v where "p = (k, v)" by fastforce
    then show ?case by (cases "k \<in> set (keys seen)") (auto simp: Cons update_fresh image_iff)
  qed auto
  from this[of "[]"] show ?thesis by (simp add: json_object_from_pairs_def)
qed

end
