(* ===== verification/Json_Journal.thy ===== *)
theory Json_Journal
  imports Json_Validation "HOL-Library.Sublist"
begin

text \<open>
  The append-only journal of \<open>json_io.py\<close>: producers put encoded records into a bounded queue, one
  writer thread drains the queue into the file, \<open>flush\<close> waits until what was accepted is written,
  and \<open>close\<close> waits until the writer has ended. Every block under the condition variable is one
  step; a wait is the guard of the step that follows it. The write itself is outside the lock and
  may fail or write only a part, so its outcome is chosen by the environment. \<open>json.dumps\<close>,
  \<open>sys.getsizeof\<close> and the parser are parameters; a file is its bytes.
\<close>

section \<open>State\<close>

type_synonym bytes = string

text \<open>An entry of the queue: encoded records, the event of a \<open>flush\<close>, or the None of \<open>close\<close>.\<close>

datatype journal_item = Data bytes | Completed nat | Stop

datatype journal_error = Invalid json_error | JournalClosed | WriterFailed string

text \<open>
  The last two fields are not in the code: the records accepted so far, and for every \<open>flush\<close> how
  many records had been accepted when it began.
\<close>

record 'r journal =
  jn_queue :: "journal_item list"
  jn_queued_bytes :: nat
  jn_output :: bytes
  jn_count :: nat
  jn_size :: nat
  jn_error :: "string option"
  jn_closed :: bool
  jn_finished :: bool
  jn_batch :: "journal_item list option"
  jn_events :: "nat list"
  jn_accepted :: "'r list"
  jn_flushes :: "(nat, nat) dict"

record 'r codec =
  cd_validate :: "'r \<Rightarrow> json_error + unit" \<comment> \<open>an object, and \<open>validate_json_tree\<close>\<close>
  cd_dumps :: "'r \<Rightarrow> bytes"
  cd_getsizeof :: "bytes \<Rightarrow> nat"
  cd_parse :: "bytes \<Rightarrow> json_error + 'r" \<comment> \<open>\<open>parse_json_object\<close>\<close>

definition buffer_bytes :: nat where
  "buffer_bytes = 8 * 1024 * 1024"

definition line_feed :: char where
  "line_feed = CHR 0x0A"

definition encode :: "'r codec \<Rightarrow> 'r \<Rightarrow> bytes" where
  "encode cd r = cd_dumps cd r @ [line_feed]"

definition new_journal :: "'r journal" where
  "new_journal = \<lparr>jn_queue = [], jn_queued_bytes = 0, jn_output = [], jn_count = 0, jn_size = 0, jn_error = None,
     jn_closed = False, jn_finished = False, jn_batch = None, jn_events = [], jn_accepted = [], jn_flushes = []\<rparr>"

section \<open>Operations\<close>

text \<open>\<open>append\<close>: the guard of the wait, and the block after it.\<close>

definition can_append :: "'r codec \<Rightarrow> 'r \<Rightarrow> 'r journal \<Rightarrow> bool" where
  "can_append cd r j \<longleftrightarrow> jn_error j \<noteq> None \<or> jn_closed j \<or> jn_queued_bytes j = 0 \<or>
     jn_queued_bytes j + cd_getsizeof cd (encode cd r) \<le> buffer_bytes"

definition check_open :: "'r journal \<Rightarrow> journal_error + unit" where
  "check_open j =
     (case jn_error j of Some e \<Rightarrow> Inl (WriterFailed e) | None \<Rightarrow> raise_if (jn_closed j) JournalClosed)"

definition append_record :: "'r codec \<Rightarrow> 'r \<Rightarrow> 'r journal \<Rightarrow> journal_error + 'r journal" where
  "append_record cd r j =
     (case cd_validate cd r of
        Inl e \<Rightarrow> Inl (Invalid e)
      | Inr _ \<Rightarrow>
          let data = encode cd r
          in and_then (check_open j) (\<lambda>_.
             Inr (j\<lparr>jn_queue := jn_queue j @ [Data data],
                    jn_queued_bytes := jn_queued_bytes j + cd_getsizeof cd data,
                    jn_count := Suc (jn_count j), jn_size := jn_size j + length data,
                    jn_accepted := jn_accepted j @ [r]\<rparr>)))"

text \<open>\<open>flush\<close>: it enqueues an event that is new, and returns the size it saw when the event is set.\<close>

definition flush_begin :: "'r journal \<Rightarrow> journal_error + (nat \<times> nat \<times> 'r journal)" where
  "flush_begin j =
     and_then (check_open j) (\<lambda>_.
       let completed = length (jn_flushes j)
       in Inr (completed, jn_size j,
            j\<lparr>jn_queue := jn_queue j @ [Completed completed],
              jn_flushes := jn_flushes j @ [(completed, length (jn_accepted j))]\<rparr>))"

definition flush_end :: "nat \<Rightarrow> nat \<Rightarrow> 'r journal \<Rightarrow> (journal_error + nat) option" where
  "flush_end completed limit j =
     (case jn_error j of
        Some e \<Rightarrow> Some (Inl (WriterFailed e))
      | None \<Rightarrow> if completed \<in> set (jn_events j) then Some (Inr limit) else None)"

definition close_begin :: "'r journal \<Rightarrow> 'r journal" where
  "close_begin j = (if jn_closed j then j else j\<lparr>jn_closed := True, jn_queue := jn_queue j @ [Stop]\<rparr>)"

definition close_end :: "'r journal \<Rightarrow> (journal_error + unit) option" where
  "close_end j =
     (if jn_finished j then Some (case jn_error j of Some e \<Rightarrow> Inl (WriterFailed e) | None \<Rightarrow> Inr ()) else None)"

text \<open>
  The writer: it takes the queue, writes the data of the batch and sets the events of the batch.
  A write that raises, or that writes less than it was given, ends the writer with an error.
\<close>

datatype write_outcome = Wrote nat | WriteRaised nat string

definition data_of :: "journal_item list \<Rightarrow> bytes" where
  "data_of items = concat (map (\<lambda>x. case x of Data b \<Rightarrow> b | _ \<Rightarrow> []) items)"

definition events_of :: "journal_item list \<Rightarrow> nat list" where
  "events_of items = concat (map (\<lambda>x. case x of Completed e \<Rightarrow> [e] | _ \<Rightarrow> []) items)"

definition take_batch :: "'r journal \<Rightarrow> 'r journal" where
  "take_batch j = j\<lparr>jn_batch := Some (jn_queue j), jn_queue := [], jn_queued_bytes := 0\<rparr>"

definition writer_failed :: "string \<Rightarrow> 'r journal \<Rightarrow> 'r journal" where
  "writer_failed e j = j\<lparr>jn_error := Some e, jn_finished := True, jn_batch := None\<rparr>"

definition batch_done :: "journal_item list \<Rightarrow> 'r journal \<Rightarrow> 'r journal" where
  "batch_done batch j = j\<lparr>jn_events := jn_events j @ events_of batch, jn_batch := None, jn_finished := (last batch = Stop)\<rparr>"

definition write_batch :: "write_outcome \<Rightarrow> journal_item list \<Rightarrow> 'r journal \<Rightarrow> 'r journal" where
  "write_batch outcome batch j =
     (let data = data_of batch in
      if data = [] then batch_done batch j
      else case outcome of
          WriteRaised n e \<Rightarrow> writer_failed e (j\<lparr>jn_output := jn_output j @ take n data\<rparr>)
        | Wrote n \<Rightarrow>
            let j' = j\<lparr>jn_output := jn_output j @ take n data\<rparr>
            in if n \<noteq> length data then writer_failed ''Incomplete JSON journal write'' j' else batch_done batch j')"

inductive journal_step :: "'r codec \<Rightarrow> 'r journal \<Rightarrow> 'r journal \<Rightarrow> bool" for cd where
  append: "can_append cd r j \<Longrightarrow> append_record cd r j = Inr j' \<Longrightarrow> journal_step cd j j'"
| flush: "flush_begin j = Inr (completed, limit, j') \<Longrightarrow> journal_step cd j j'"
| close: "journal_step cd j (close_begin j)"
| take: "\<not> jn_finished j \<Longrightarrow> jn_batch j = None \<Longrightarrow> jn_queue j \<noteq> [] \<Longrightarrow> journal_step cd j (take_batch j)"
| written: "jn_batch j = Some batch \<Longrightarrow> journal_step cd j (write_batch outcome batch j)"

section \<open>Reading\<close>

text \<open>\<open>readline\<close> of a binary file: up to and with the next line feed, at most \<open>n\<close> bytes.\<close>

fun readline :: "bytes \<Rightarrow> nat \<Rightarrow> bytes" where
  "readline [] n = []"
| "readline (c # cs) 0 = []"
| "readline (c # cs) (Suc n) = c # (if c = line_feed then [] else readline cs n)"

lemma length_readline: "length (readline s n) \<le> length s"
  by (induction s n rule: readline.induct) auto

function records :: "'r codec \<Rightarrow> bytes \<Rightarrow> nat option \<Rightarrow> nat \<Rightarrow> json_error + 'r list" where
  "records cd source limit consumed =
     (if (case limit of None \<Rightarrow> False | Some l \<Rightarrow> l \<le> consumed) then Inr []
      else let line = readline (drop consumed source) (case limit of None \<Rightarrow> length source | Some l \<Rightarrow> l - consumed)
        in if line = [] then Inr []
           else and_then (cd_parse cd line) (\<lambda>r.
                and_then (records cd source limit (consumed + length line)) (\<lambda>rs. Inr (r # rs))))"
  by pat_completeness auto
termination
proof (relation "measure (\<lambda>(cd, source, limit, consumed). length source - consumed)", goal_cases)
  case (2 cd source limit consumed line r)
  then have "line \<noteq> []" "length line \<le> length source - consumed" using length_readline[of "drop consumed source"] by auto
  then have "length source - (consumed + length line) < length source - consumed" by (cases line) auto
  then show ?case by simp
qed simp

declare records.simps [simp del]

section \<open>Invariant\<close>

lemma data_of_simps [simp]:
  "data_of [] = []" "data_of (x # xs) = (case x of Data b \<Rightarrow> b | _ \<Rightarrow> []) @ data_of xs" "data_of (xs @ ys) = data_of xs @ data_of ys"
  by (simp_all add: data_of_def)

lemma events_of_simps [simp]:
  "events_of [] = []" "events_of (x # xs) = (case x of Completed e \<Rightarrow> [e] | _ \<Rightarrow> []) @ events_of xs"
  by (simp_all add: events_of_def)

text \<open>The bytes of the first \<open>k\<close> accepted records, and what waits for the writer, in its order.\<close>

definition lines :: "'r codec \<Rightarrow> 'r list \<Rightarrow> bytes" where
  "lines cd rs = concat (map (encode cd) rs)"

definition waiting :: "'r journal \<Rightarrow> journal_item list" where
  "waiting j = (case jn_batch j of None \<Rightarrow> [] | Some b \<Rightarrow> b) @ jn_queue j"

definition flushed_at :: "'r codec \<Rightarrow> 'r journal \<Rightarrow> nat \<Rightarrow> bytes \<Rightarrow> bool" where
  "flushed_at cd j e out \<longleftrightarrow> (\<exists>k. map_of (jn_flushes j) e = Some k \<and> k \<le> length (jn_accepted j) \<and> out = lines cd (take k (jn_accepted j)))"

fun flush_marks_ok :: "'r codec \<Rightarrow> 'r journal \<Rightarrow> bytes \<Rightarrow> journal_item list \<Rightarrow> bool" where
  "flush_marks_ok cd j out [] = True"
| "flush_marks_ok cd j out (x # xs) =
     ((case x of Completed e \<Rightarrow> flushed_at cd j e out | _ \<Rightarrow> True) \<and> flush_marks_ok cd j (out @ data_of [x]) xs)"

definition stop_last :: "journal_item list \<Rightarrow> bool" where
  "stop_last xs \<longleftrightarrow> xs \<noteq> [] \<and> last xs = Stop \<and> Stop \<notin> set (butlast xs)"

text \<open>
  Three parts: the counter of queued bytes is the size of the queue, which stays within its bound,
  unless a single record exceeds it; the file and
  what waits are the accepted records in order, and a set event has its bytes in the file; the None
  of \<open>close\<close> comes last, and the writer ends with it or with an error.
\<close>

definition queue_size :: "'r codec \<Rightarrow> journal_item list \<Rightarrow> nat" where
  "queue_size cd items = sum_list (map (\<lambda>x. case x of Data b \<Rightarrow> cd_getsizeof cd b | _ \<Rightarrow> 0) items)"

definition buffer_inv :: "'r codec \<Rightarrow> 'r journal \<Rightarrow> bool" where
  "buffer_inv cd j \<longleftrightarrow> jn_queued_bytes j = queue_size cd (jn_queue j) \<and>
     (queue_size cd (jn_queue j) \<le> buffer_bytes \<or>
      (\<exists>b. Data b \<in> set (jn_queue j) \<and> queue_size cd (jn_queue j) = cd_getsizeof cd b))"

lemma queue_size_simps [simp]:
  "queue_size cd [] = 0" "queue_size cd (xs @ ys) = queue_size cd xs + queue_size cd ys"
  "queue_size cd [Data b] = cd_getsizeof cd b" "queue_size cd [Completed e] = 0" "queue_size cd [Stop] = 0"
  by (simp_all add: queue_size_def)

definition content_inv :: "'r codec \<Rightarrow> 'r journal \<Rightarrow> bool" where
  "content_inv cd j \<longleftrightarrow>
     jn_count j = length (jn_accepted j) \<and> jn_size j = length (lines cd (jn_accepted j)) \<and>
     prefix (jn_output j) (lines cd (jn_accepted j)) \<and>
     (\<forall>e \<in> set (jn_events j). \<exists>out. flushed_at cd j e out \<and> prefix out (jn_output j)) \<and>
     keys (jn_flushes j) = [0..<length (jn_flushes j)] \<and>
     (jn_error j = None \<longrightarrow> jn_output j @ data_of (waiting j) = lines cd (jn_accepted j) \<and> flush_marks_ok cd j (jn_output j) (waiting j))"

definition control_inv :: "'r journal \<Rightarrow> bool" where
  "control_inv j \<longleftrightarrow>
     (jn_error j = None \<longrightarrow> (if jn_closed j \<and> \<not> jn_finished j then stop_last (waiting j) else Stop \<notin> set (waiting j))) \<and>
     (jn_error j \<noteq> None \<longrightarrow> jn_finished j) \<and> jn_batch j \<noteq> Some [] \<and>
     (jn_finished j \<longrightarrow> jn_batch j = None \<and> (jn_error j = None \<longrightarrow> jn_closed j \<and> jn_queue j = []))"

definition journal_inv :: "'r codec \<Rightarrow> 'r journal \<Rightarrow> bool" where
  "journal_inv cd j \<longleftrightarrow> buffer_inv cd j \<and> content_inv cd j \<and> control_inv j"

lemma marks_ok_append: "flush_marks_ok cd j out (xs @ ys) \<longleftrightarrow> flush_marks_ok cd j out xs \<and> flush_marks_ok cd j (out @ data_of xs) ys"
  by (induction xs arbitrary: out) auto

lemma lines_append [simp]: "lines cd (rs @ rs') = lines cd rs @ lines cd rs'" "lines cd [] = []" "lines cd (r # rs) = encode cd r @ lines cd rs"
  by (simp_all add: lines_def)

text \<open>Accepting records and beginning flushes keeps what was said about earlier flushes.\<close>

lemma flushed_at_mono:
  assumes "flushed_at cd j e out" and "jn_accepted j' = jn_accepted j @ rs" and "jn_flushes j' = jn_flushes j @ fs"
  shows "flushed_at cd j' e out"
  using assms by (auto simp: flushed_at_def map_add_Some_iff)

lemma marks_ok_mono:
  "flush_marks_ok cd j out xs \<Longrightarrow> (\<And>e o'. flushed_at cd j e o' \<Longrightarrow> flushed_at cd j' e o') \<Longrightarrow> flush_marks_ok cd j' out xs"
  by (induction xs arbitrary: out) (auto split: journal_item.splits)

lemma check_open_ok: "check_open j = Inr () \<longleftrightarrow> jn_error j = None \<and> \<not> jn_closed j"
  by (auto simp: check_open_def raise_if_def split: option.splits)

lemma and_then_InrE: "and_then m f = Inr y \<Longrightarrow> (\<And>x. m = Inr x \<Longrightarrow> f x = Inr y \<Longrightarrow> P) \<Longrightarrow> P"
  by (auto simp: and_then_def split: sum.splits)

lemma append_recordE:
  assumes "append_record cd r j = Inr j'"
  obtains "cd_validate cd r = Inr ()" "jn_error j = None" "\<not> jn_closed j"
    "j' = j\<lparr>jn_queue := jn_queue j @ [Data (encode cd r)],
        jn_queued_bytes := jn_queued_bytes j + cd_getsizeof cd (encode cd r),
        jn_count := Suc (jn_count j), jn_size := jn_size j + length (encode cd r), jn_accepted := jn_accepted j @ [r]\<rparr>"
  using assms by (auto simp: append_record_def Let_def check_open_ok split: sum.splits elim!: and_then_InrE)

lemma flush_beginE:
  assumes "flush_begin j = Inr (e, limit, j')"
  obtains "jn_error j = None" "\<not> jn_closed j" "e = length (jn_flushes j)" "limit = jn_size j"
    "j' = j\<lparr>jn_queue := jn_queue j @ [Completed e], jn_flushes := jn_flushes j @ [(e, length (jn_accepted j))]\<rparr>"
  using assms by (auto simp: flush_begin_def Let_def check_open_ok elim!: and_then_InrE)

lemma content_marks:
  assumes "content_inv cd j" and "jn_error j = None" and "\<And>e out. flushed_at cd j e out \<Longrightarrow> flushed_at cd j' e out"
    and "flush_marks_ok cd j' (lines cd (jn_accepted j)) xs"
  shows "flush_marks_ok cd j' (jn_output j) (waiting j @ xs)"
  using assms marks_ok_mono[of cd j "jn_output j" "waiting j" j'] by (simp add: content_inv_def marks_ok_append)

lemma content_events:
  assumes "content_inv cd j" and "\<And>e out. flushed_at cd j e out \<Longrightarrow> flushed_at cd j' e out"
  shows "\<forall>e \<in> set (jn_events j). \<exists>out. flushed_at cd j' e out \<and> prefix out (jn_output j)"
  using assms unfolding content_inv_def by blast

lemma journal_inv_append:
  assumes "journal_inv cd j" and "can_append cd r j" and "append_record cd r j = Inr j'"
  shows "journal_inv cd j'"
  using assms(3)
proof (cases rule: append_recordE)
  case 1
  have mono: "flushed_at cd j e out \<Longrightarrow> flushed_at cd j' e out" for e out
    by (erule flushed_at_mono[where rs = "[r]" and fs = "[]"]) (simp_all add: 1)
  have w: "waiting j' = waiting j @ [Data (encode cd r)]" by (simp add: 1 waiting_def)
  have j: "content_inv cd j" "buffer_inv cd j" "control_inv j" using assms(1) by (simp_all add: journal_inv_def)
  have "flush_marks_ok cd j' (jn_output j) (waiting j')"
    unfolding w by (rule content_marks[OF j(1) 1(2) mono]) simp_all
  with content_events[OF j(1) mono] j(1) have "content_inv cd j'"
    unfolding content_inv_def w using 1 by simp
  moreover have "buffer_inv cd j'" using j(2) assms(2) by (auto simp: buffer_inv_def can_append_def 1)
  moreover have "control_inv j'" using j(3) by (auto simp: control_inv_def 1 waiting_def)
  ultimately show ?thesis by (simp add: journal_inv_def)
qed

lemma journal_inv_flush:
  assumes "journal_inv cd j" and "flush_begin j = Inr (e, limit, j')"
  shows "journal_inv cd j'"
  using assms(2)
proof (cases rule: flush_beginE)
  case 1
  have mono: "flushed_at cd j e' out \<Longrightarrow> flushed_at cd j' e' out" for e' out
    by (erule flushed_at_mono[where rs = "[]" and fs = "[(e, length (jn_accepted j))]"]) (simp_all add: 1)
  have w: "waiting j' = waiting j @ [Completed e]" by (simp add: 1 waiting_def)
  have j: "content_inv cd j" "buffer_inv cd j" "control_inv j" using assms(1) by (simp_all add: journal_inv_def)
  then have fresh: "map_of (jn_flushes j) e = None" by (simp add: content_inv_def map_of_None_keys 1)
  have "flushed_at cd j' e (lines cd (jn_accepted j))"
    using fresh by (simp add: flushed_at_def 1 map_add_def)
  then have "flush_marks_ok cd j' (jn_output j) (waiting j')"
    unfolding w by (intro content_marks[OF j(1) 1(1) mono]) simp_all
  with content_events[OF j(1) mono] j(1) have "content_inv cd j'"
    unfolding content_inv_def w using 1 by simp
  moreover have "buffer_inv cd j'" using j(2) by (auto simp: buffer_inv_def 1)
  moreover have "control_inv j'" using j(3) by (auto simp: control_inv_def 1 waiting_def)
  ultimately show ?thesis by (simp add: journal_inv_def)
qed

lemma journal_inv_close:
  assumes "journal_inv cd j"
  shows "journal_inv cd (close_begin j)"
proof (cases "jn_closed j")
  case False
  have w: "waiting (close_begin j) = waiting j @ [Stop]" using False by (simp add: close_begin_def waiting_def)
  have mono: "flushed_at cd j e out \<Longrightarrow> flushed_at cd (close_begin j) e out" for e out
    by (simp add: flushed_at_def close_begin_def)
  have j: "content_inv cd j" "buffer_inv cd j" "control_inv j" using assms by (simp_all add: journal_inv_def)
  have "jn_error j = None \<Longrightarrow> flush_marks_ok cd (close_begin j) (jn_output j) (waiting (close_begin j))"
    unfolding w by (intro content_marks[OF j(1) _ mono]) simp_all
  with content_events[OF j(1) mono] j(1) False have "content_inv cd (close_begin j)"
    unfolding content_inv_def w by (simp add: close_begin_def)
  moreover have "buffer_inv cd (close_begin j)" using j(2) by (auto simp: buffer_inv_def close_begin_def)
  moreover have "control_inv (close_begin j)"
    using j(3) False by (auto simp: control_inv_def w stop_last_def) (auto simp: close_begin_def)
  ultimately show ?thesis by (simp add: journal_inv_def)
qed (use assms in \<open>simp add: close_begin_def\<close>)

lemma journal_inv_take:
  assumes "journal_inv cd j" and "\<not> jn_finished j" and "jn_batch j = None" and "jn_queue j \<noteq> []"
  shows "journal_inv cd (take_batch j)"
proof -
  have w: "waiting (take_batch j) = waiting j" using assms(3) by (simp add: take_batch_def waiting_def)
  have f: "flushed_at cd (take_batch j) e out = flushed_at cd j e out" for e out by (simp add: flushed_at_def take_batch_def)
  have "flush_marks_ok cd (take_batch j) out xs = flush_marks_ok cd j out xs" for out xs
    by (induction xs arbitrary: out) (auto simp: f split: journal_item.splits)
  then have "content_inv cd (take_batch j)" using assms(1)
    unfolding journal_inv_def content_inv_def w f by (simp add: take_batch_def)
  moreover have "control_inv (take_batch j)"
    using assms unfolding journal_inv_def control_inv_def w by (simp add: take_batch_def)
  ultimately show ?thesis by (simp add: journal_inv_def buffer_inv_def take_batch_def)
qed

lemma marks_events:
  "flush_marks_ok cd j out xs \<Longrightarrow> e \<in> set (events_of xs) \<Longrightarrow> \<exists>out'. flushed_at cd j e out' \<and> prefix out' (out @ data_of xs)"
proof (induction xs arbitrary: out)
  case (Cons x xs)
  show ?case
  proof (cases "x = Completed e")
    case True
    with Cons.prems show ?thesis by auto
  next
    case False
    then have "e \<in> set (events_of xs)" using Cons.prems(2) by (auto split: journal_item.splits)
    with Cons.IH[of "out @ data_of [x]"] Cons.prems(1) show ?thesis by simp
  qed
qed simp

lemma flushed_at_cong:
  "jn_accepted j' = jn_accepted j \<Longrightarrow> jn_flushes j' = jn_flushes j \<Longrightarrow> flushed_at cd j' = flushed_at cd j"
  by (simp add: flushed_at_def fun_eq_iff)

lemma inv_batch_done:
  assumes "journal_inv cd j" and b: "jn_batch j = Some b"
  shows "journal_inv cd (batch_done b (j\<lparr>jn_output := jn_output j @ data_of b\<rparr>))" (is "journal_inv cd ?j")
proof -
  have j: "content_inv cd j" "buffer_inv cd j" "control_inv j" using assms(1) by (simp_all add: journal_inv_def)
  have ok: "jn_error j = None" "\<not> jn_finished j" "b \<noteq> []" using j(3) b by (auto simp: control_inv_def)
  have w: "waiting j = b @ jn_queue j" "waiting ?j = jn_queue j" by (simp_all add: waiting_def b batch_done_def)
  have f: "flushed_at cd ?j = flushed_at cd j" by (rule flushed_at_cong) (simp_all add: batch_done_def)
  have marks: "flush_marks_ok cd j (jn_output j) b" "flush_marks_ok cd j (jn_output j @ data_of b) (jn_queue j)"
    using j(1) ok by (simp_all add: content_inv_def w marks_ok_append)
  have "flush_marks_ok cd ?j (jn_output j @ data_of b) (jn_queue j)" by (rule marks_ok_mono[OF marks(2)]) (simp add: f)
  moreover have "\<forall>e \<in> set (jn_events j @ events_of b). \<exists>out. flushed_at cd j e out \<and> prefix out (jn_output j @ data_of b)"
    using content_events[OF j(1), of j] marks_events[OF marks(1)] by (metis Un_iff set_append prefix_prefix)
  moreover have "jn_output j @ data_of b @ data_of (jn_queue j) = lines cd (jn_accepted j)"
    using j(1) ok by (simp add: content_inv_def w)
  then have "prefix (jn_output j @ data_of b) (lines cd (jn_accepted j))" by (metis append_assoc prefixI)
  ultimately have "content_inv cd ?j"
    using j(1) ok unfolding content_inv_def f w by (simp add: batch_done_def)
  moreover have stop: "Stop \<notin> set b \<Longrightarrow> last b \<noteq> Stop" using ok(3) by (metis last_in_set)
  have "control_inv ?j"
    using j(3) ok stop unfolding control_inv_def w stop_last_def
    by (cases "jn_queue j = []") (auto simp: batch_done_def butlast_append split: if_splits)
  moreover have "buffer_inv cd ?j" using j(2) by (simp add: buffer_inv_def batch_done_def)
  ultimately show ?thesis by (simp add: journal_inv_def)
qed

lemma inv_writer_failed:
  assumes "journal_inv cd j" and b: "jn_batch j = Some b"
  shows "journal_inv cd (writer_failed e (j\<lparr>jn_output := jn_output j @ take n (data_of b)\<rparr>))" (is "journal_inv cd ?j")
proof -
  have j: "content_inv cd j" "buffer_inv cd j" "control_inv j" using assms(1) by (simp_all add: journal_inv_def)
  have "jn_error j = None" using j(3) b by (auto simp: control_inv_def)
  then have "jn_output j @ data_of b @ data_of (jn_queue j) = lines cd (jn_accepted j)"
    using j(1) by (simp add: content_inv_def waiting_def b)
  then have "prefix (jn_output j @ take n (data_of b)) (lines cd (jn_accepted j))"
    by (metis append_take_drop_id append_assoc prefixI)
  moreover have "flushed_at cd ?j = flushed_at cd j" by (rule flushed_at_cong) (simp_all add: writer_failed_def)
  moreover have "\<forall>e \<in> set (jn_events j). \<exists>out. flushed_at cd j e out \<and> prefix out (jn_output j @ take n (data_of b))"
    using content_events[OF j(1), of j] by (auto intro: prefix_prefix)
  ultimately have "content_inv cd ?j" using j(1) unfolding content_inv_def by (simp add: writer_failed_def)
  then show ?thesis using j(2) by (simp add: journal_inv_def buffer_inv_def control_inv_def writer_failed_def)
qed

lemma journal_inv_write:
  assumes "journal_inv cd j" and "jn_batch j = Some b"
  shows "journal_inv cd (write_batch outcome b j)"
  using inv_batch_done[OF assms] inv_writer_failed[OF assms]
  by (auto simp: write_batch_def Let_def split: write_outcome.splits)

lemma journal_inv_step: "journal_step cd j j' \<Longrightarrow> journal_inv cd j \<Longrightarrow> journal_inv cd j'"
  by (induction rule: journal_step.induct) (auto intro: journal_inv_append journal_inv_flush journal_inv_close journal_inv_take journal_inv_write)

lemma journal_inv_new: "journal_inv cd new_journal"
  by (simp add: journal_inv_def buffer_inv_def content_inv_def control_inv_def new_journal_def waiting_def)

lemma journal_inv_reachable: "(journal_step cd)\<^sup>*\<^sup>* j j' \<Longrightarrow> journal_inv cd j \<Longrightarrow> journal_inv cd j'"
  by (induction rule: rtranclp_induct) (auto intro: journal_inv_step)

section \<open>What survives steps\<close>

lemma step_grows:
  assumes "journal_step cd j j'"
  shows "\<exists>rs fs out. jn_accepted j' = jn_accepted j @ rs \<and> jn_flushes j' = jn_flushes j @ fs \<and> jn_output j' = jn_output j @ out \<and>
    list_all (\<lambda>r. cd_validate cd r = Inr ()) rs"
  using assms
proof cases
  case (append r)
  from append(2) show ?thesis by (cases rule: append_recordE) auto
next
  case (flush e limit)
  from flush show ?thesis by (cases rule: flush_beginE) auto
qed (auto simp: close_begin_def take_batch_def write_batch_def batch_done_def writer_failed_def Let_def split: write_outcome.splits)

lemma reachable_grows:
  assumes "(journal_step cd)\<^sup>*\<^sup>* j j'"
  shows "\<exists>rs fs out. jn_accepted j' = jn_accepted j @ rs \<and> jn_flushes j' = jn_flushes j @ fs \<and> jn_output j' = jn_output j @ out \<and>
    list_all (\<lambda>r. cd_validate cd r = Inr ()) rs"
  using assms
proof (induction rule: rtranclp_induct)
  case (step j' j'')
  from step.IH step_grows[OF step.hyps(2)] show ?case by force
qed simp

section \<open>Reading back\<close>

text \<open>
  What the JSON library promises of a record that passed validation: its text has no line_feed, and
  the text with a line_feed after it is parsed to the record.
\<close>

definition lossless :: "'r codec \<Rightarrow> bool" where
  "lossless cd \<longleftrightarrow> (\<forall>r. cd_validate cd r = Inr () \<longrightarrow> line_feed \<notin> set (cd_dumps cd r) \<and> cd_parse cd (encode cd r) = Inr r)"

lemma readline_line: "line_feed \<notin> set s \<Longrightarrow> length s < n \<Longrightarrow> readline (s @ line_feed # rest) n = s @ [line_feed]"
proof (induction s arbitrary: n)
  case Nil
  then show ?case by (cases n) auto
next
  case (Cons c s)
  then show ?case by (cases n) auto
qed

lemma readline_encode:
  assumes "lossless cd" and "cd_validate cd r = Inr ()" and "length (encode cd r) \<le> n"
  shows "readline (encode cd r @ rest) n = encode cd r"
  using assms readline_line[of "cd_dumps cd r" n rest] by (simp add: lossless_def encode_def)

lemma records_step:
  assumes "lossless cd" and "cd_validate cd r = Inr ()" and "drop consumed source = encode cd r @ rest"
    and "consumed + length (encode cd r) \<le> (case limit of None \<Rightarrow> length source + consumed | Some l \<Rightarrow> l)"
  shows "records cd source limit consumed =
    and_then (records cd source limit (consumed + length (encode cd r))) (\<lambda>rs. Inr (r # rs))"
proof -
  have "Suc 0 \<le> length (encode cd r)" by (simp add: encode_def)
  then have "\<not> (case limit of None \<Rightarrow> False | Some l \<Rightarrow> l \<le> consumed)" using assms(4)
    by (cases limit) (simp_all add: not_le less_le_trans[of consumed "consumed + length (encode cd r)"])
  moreover have "readline (drop consumed source) (case limit of None \<Rightarrow> length source | Some l \<Rightarrow> l - consumed) = encode cd r"
    unfolding assms(3) using assms(4) by (intro readline_encode[OF assms(1,2)]) (auto split: option.splits)
  moreover have "cd_parse cd (encode cd r) = Inr r" using assms(1,2) by (simp add: lossless_def)
  ultimately show ?thesis
    by (subst records.simps) (simp add: Let_def and_then_def encode_def)
qed

lemma records_lines:
  assumes "lossless cd" and "list_all (\<lambda>r. cd_validate cd r = Inr ()) rs" and "drop consumed source = lines cd rs @ rest"
    and "limit = Some (consumed + length (lines cd rs)) \<or> limit = None \<and> rest = []"
  shows "records cd source limit consumed = Inr rs"
  using assms(2-4)
proof (induction rs arbitrary: consumed)
  case Nil
  then show ?case by (subst records.simps) auto
next
  case (Cons r rs)
  have d: "drop consumed source = encode cd r @ (lines cd rs @ rest)" using Cons.prems(2) by simp
  then have "drop (consumed + length (encode cd r)) source = lines cd rs @ rest"
    by (metis add.commute append_eq_conv_conj drop_drop)
  then have "records cd source limit (consumed + length (encode cd r)) = Inr rs"
    using Cons.prems by (intro Cons.IH) auto
  moreover have "length (encode cd r) \<le> length source - consumed" using arg_cong[OF d, of length] by simp
  ultimately show ?case
    using records_step[OF assms(1) _ d, of limit] Cons.prems by (auto simp: and_then_def)
qed

lemma flushed_at_flush:
  assumes "journal_inv cd j" and "flush_begin j = Inr (e, limit, j1)" and "(journal_step cd)\<^sup>*\<^sup>* j1 j'" and "flushed_at cd j' e out"
  shows "out = lines cd (jn_accepted j) \<and> limit = length out"
  using assms(2)
proof (cases rule: flush_beginE)
  case 1
  from reachable_grows[OF assms(3)] obtain rs fs where
    g: "jn_accepted j' = jn_accepted j @ rs" "jn_flushes j' = (jn_flushes j @ [(e, length (jn_accepted j))]) @ fs" by (auto simp: 1)
  have "map_of (jn_flushes j) e = None" "limit = length (lines cd (jn_accepted j))"
    using assms(1) 1 by (simp_all add: journal_inv_def content_inv_def map_of_None_keys)
  with assms(4) show ?thesis by (auto simp: flushed_at_def g map_add_def)
qed

lemma accepted_valid: "(journal_step cd)\<^sup>*\<^sup>* new_journal j \<Longrightarrow> list_all (\<lambda>r. cd_validate cd r = Inr ()) (jn_accepted j)"
  using reachable_grows[of cd new_journal j] by (auto simp: new_journal_def)

lemma full_write:
  "write_batch (Wrote (length (data_of b))) b j = batch_done b (j\<lparr>jn_output := jn_output j @ data_of b\<rparr>)"
  by (cases "data_of b = []") (simp_all add: write_batch_def Let_def)

lemma drain_queue:
  assumes "journal_inv cd j" and "jn_closed j" and "\<not> jn_finished j" and "jn_batch j = None"
  shows "\<exists>j'. (journal_step cd)\<^sup>*\<^sup>* j j' \<and> jn_finished j' \<and> jn_accepted j' = jn_accepted j"
proof -
  have q: "jn_queue j \<noteq> []" "last (jn_queue j) = Stop"
    using assms by (auto simp: journal_inv_def control_inv_def waiting_def stop_last_def)
  let ?j = "write_batch (Wrote (length (data_of (jn_queue j)))) (jn_queue j) (take_batch j)"
  have "journal_step cd j (take_batch j)" by (rule journal_step.take[OF assms(3,4) q(1)])
  moreover have "journal_step cd (take_batch j) ?j" by (rule journal_step.written) (simp add: take_batch_def)
  moreover have "jn_finished ?j" "jn_accepted ?j = jn_accepted j" using q(2) by (simp_all add: full_write batch_done_def take_batch_def)
  ultimately show ?thesis by (meson converse_rtranclp_into_rtranclp rtranclp.rtrancl_refl)
qed

lemma drain:
  assumes "journal_inv cd j" and "jn_closed j"
  shows "\<exists>j'. (journal_step cd)\<^sup>*\<^sup>* j j' \<and> jn_finished j' \<and> jn_accepted j' = jn_accepted j"
proof (cases "jn_batch j")
  case (Some b)
  let ?j = "write_batch (Wrote (length (data_of b))) b j"
  have step: "journal_step cd j ?j" by (rule journal_step.written[OF Some])
  have j: "jn_closed ?j" "jn_batch ?j = None" "jn_accepted ?j = jn_accepted j" using assms(2) by (simp_all add: full_write batch_done_def)
  show ?thesis
  proof (cases "jn_finished ?j")
    case True
    with step j show ?thesis by blast
  next
    case False
    from drain_queue[OF journal_inv_step[OF step assms(1)] j(1) this j(2)] step j(3) show ?thesis
      by (metis converse_rtranclp_into_rtranclp)
  qed
qed (use drain_queue[OF assms] in \<open>cases "jn_finished j"; auto\<close>)

section \<open>A journal\<close>

definition demo_codec :: "nat codec" where
  "demo_codec = \<lparr>cd_validate = (\<lambda>_. Inr ()), cd_dumps = (\<lambda>n. replicate n (CHR ''x'')), cd_getsizeof = length,
     cd_parse = (\<lambda>s. Inr (length s - 1))\<rparr>"

definition demo_journal :: "nat journal" where
  "demo_journal = projr (append_record demo_codec 2 (projr (append_record demo_codec 1 new_journal)))"

definition demo_flushed :: "nat journal" where
  "demo_flushed = write_batch (Wrote 5) [Data ''x\<newline>'', Data ''xx\<newline>'', Completed 0]
     (take_batch (snd (snd (projr (flush_begin demo_journal)))))"

lemma demo_lossless: "lossless demo_codec"
  by (simp add: lossless_def demo_codec_def encode_def line_feed_def)

lemmas demo_journal_defs = demo_journal_def demo_flushed_def append_record_def flush_begin_def check_open_def new_journal_def
  demo_codec_def take_batch_def write_batch_def batch_done_def encode_def line_feed_def and_then_def raise_if_def buffer_bytes_def can_append_def

lemma demo_reachable: "(journal_step demo_codec)\<^sup>*\<^sup>* new_journal demo_journal"
proof -
  let ?j = "projr (append_record demo_codec 1 new_journal)"
  have "journal_step demo_codec new_journal ?j"
    by (rule journal_step.append[of _ 1]) (simp_all add: demo_journal_defs Let_def)
  moreover have "journal_step demo_codec ?j demo_journal"
    by (rule journal_step.append[of _ 2]) (simp_all add: demo_journal_defs Let_def)
  ultimately show ?thesis by (meson converse_rtranclp_into_rtranclp rtranclp.rtrancl_refl)
qed

lemma demo_flush: "flush_begin demo_journal = Inr (0, 5, snd (snd (projr (flush_begin demo_journal))))"
  by (simp add: demo_journal_defs Let_def)

lemma demo_flushed_reachable: "(journal_step demo_codec)\<^sup>*\<^sup>* (snd (snd (projr (flush_begin demo_journal)))) demo_flushed"
proof -
  let ?j = "snd (snd (projr (flush_begin demo_journal)))"
  have "journal_step demo_codec ?j (take_batch ?j)"
    by (rule journal_step.take) (simp_all add: demo_journal_defs Let_def)
  moreover have "journal_step demo_codec (take_batch ?j) demo_flushed"
    unfolding demo_flushed_def by (rule journal_step.written) (simp add: demo_journal_defs Let_def numeral_2_eq_2)
  ultimately show ?thesis by (meson converse_rtranclp_into_rtranclp rtranclp.rtrancl_refl)
qed

section \<open>Properties\<close>

text \<open>
  C19. The journal keeps the order and loses nothing: in every reachable state the file is a prefix
  of the lines of the accepted records, followed, while the writer works, by exactly what waits in
  its batch and in the queue; the counters are the number and the size of the accepted records. The
  counter of queued bytes is the memory size of the records in the queue, and the queue holds at
  most its buffer of bytes, or as much as one of its records that is larger by itself.
\<close>

theorem journal_consistent:
  assumes "(journal_step cd)\<^sup>*\<^sup>* new_journal j"
  shows "jn_count j = length (jn_accepted j) \<and> jn_size j = length (concat (map (encode cd) (jn_accepted j))) \<and>
    prefix (jn_output j) (concat (map (encode cd) (jn_accepted j))) \<and>
    (jn_error j = None \<longrightarrow> jn_output j @ data_of (waiting j) = concat (map (encode cd) (jn_accepted j))) \<and>
    jn_queued_bytes j = queue_size cd (jn_queue j) \<and>
    (queue_size cd (jn_queue j) \<le> buffer_bytes \<or>
     (\<exists>b. Data b \<in> set (jn_queue j) \<and> queue_size cd (jn_queue j) = cd_getsizeof cd b))"
  using journal_inv_reachable[OF assms journal_inv_new] by (auto simp: journal_inv_def content_inv_def buffer_inv_def lines_def)

theorem journal_consistent_witness:
  "jn_count demo_journal = 2 \<and> jn_size demo_journal = 5 \<and> prefix (jn_output demo_journal) (concat (map (encode demo_codec) [1, 2])) \<and>
   jn_queued_bytes demo_journal = queue_size demo_codec (jn_queue demo_journal)"
proof -
  have "jn_accepted demo_journal = [1, 2]" by (simp add: demo_journal_defs Let_def)
  with journal_consistent[OF demo_reachable] show ?thesis by (simp add: demo_codec_def encode_def)
qed

text \<open>
  C20. When \<open>flush\<close> returns a limit, reading the file up to that limit gives exactly the records that
  were accepted before the flush began, in order, however many records other threads append
  meanwhile and afterwards.
\<close>

theorem journal_flush_roundtrip:
  assumes "lossless cd" and "(journal_step cd)\<^sup>*\<^sup>* new_journal j" and "flush_begin j = Inr (completed, limit, j1)"
    and "(journal_step cd)\<^sup>*\<^sup>* j1 j'" and "flush_end completed limit j' = Some (Inr n)"
  shows "n = jn_size j \<and> records cd (jn_output j') (Some n) 0 = Inr (jn_accepted j)"
proof -
  have inv: "journal_inv cd j" by (rule journal_inv_reachable[OF assms(2) journal_inv_new])
  have "journal_inv cd j'" by (rule journal_inv_reachable[OF assms(4) journal_inv_flush[OF inv assms(3)]])
  moreover have "n = limit" "completed \<in> set (jn_events j')"
    using assms(5) by (auto simp: flush_end_def split: option.splits if_splits)
  ultimately obtain out where "flushed_at cd j' completed out" "prefix out (jn_output j')"
    by (auto simp: journal_inv_def content_inv_def)
  moreover from flushed_at_flush[OF inv assms(3,4) this(1)] have "out = lines cd (jn_accepted j)" "limit = length out" by simp_all
  moreover have "limit = jn_size j" using assms(3) by (rule flush_beginE)
  ultimately show ?thesis
    using records_lines[OF assms(1) accepted_valid[OF assms(2)], of 0 "jn_output j'" _ "Some n"] \<open>n = limit\<close>
    by (auto simp: prefix_def)
qed

theorem journal_flush_roundtrip_witness:
  "flush_end 0 5 demo_flushed = Some (Inr 5) \<and> records demo_codec (jn_output demo_flushed) (Some 5) 0 = Inr [1, 2]"
proof -
  have e: "flush_end 0 5 demo_flushed = Some (Inr 5)" by (simp add: flush_end_def demo_journal_defs Let_def)
  have "jn_accepted demo_journal = [1, 2]" by (simp add: demo_journal_defs Let_def)
  with journal_flush_roundtrip[OF demo_lossless demo_reachable demo_flush demo_flushed_reachable e] e show ?thesis by simp
qed

text \<open>
  C21. \<open>close\<close> comes to an end: from every reachable state in which the journal is closed the writer
  can finish, and when it has finished without an error the whole file reads back as the accepted
  records.
\<close>

theorem journal_close_complete:
  assumes "lossless cd" and "(journal_step cd)\<^sup>*\<^sup>* new_journal j" and "jn_closed j"
  shows "(\<exists>j'. (journal_step cd)\<^sup>*\<^sup>* j j' \<and> close_end j' \<noteq> None \<and> jn_accepted j' = jn_accepted j) \<and>
    (close_end j = Some (Inr ()) \<longrightarrow> records cd (jn_output j) None 0 = Inr (jn_accepted j))"
proof -
  have inv: "journal_inv cd j" by (rule journal_inv_reachable[OF assms(2) journal_inv_new])
  have "jn_output j = lines cd (jn_accepted j)" if "close_end j = Some (Inr ())"
    using that inv by (auto simp: close_end_def journal_inv_def content_inv_def control_inv_def waiting_def split: option.splits if_splits)
  then have "records cd (jn_output j) None 0 = Inr (jn_accepted j)" if "close_end j = Some (Inr ())"
    using that by (intro records_lines[OF assms(1) accepted_valid[OF assms(2)], where rest = "[]"]) simp_all
  with drain[OF inv assms(3)] show ?thesis by (auto simp: close_end_def)
qed

theorem journal_close_complete_witness:
  "\<exists>j'. (journal_step demo_codec)\<^sup>*\<^sup>* (close_begin demo_journal) j' \<and> close_end j' \<noteq> None \<and> jn_accepted j' = [1, 2]"
proof -
  have "(journal_step demo_codec)\<^sup>*\<^sup>* new_journal (close_begin demo_journal)"
    using demo_reachable journal_step.close by (rule rtranclp.rtrancl_into_rtrancl)
  moreover have "jn_closed (close_begin demo_journal)" "jn_accepted (close_begin demo_journal) = [1, 2]"
    by (simp_all add: close_begin_def demo_journal_defs Let_def)
  ultimately show ?thesis using journal_close_complete[OF demo_lossless] by metis
qed

end
