(* ===== verification/Union_Find.thy ===== *)
theory Union_Find
  imports Prelude
begin

text \<open>
  Disjoint sets. The locale \<open>merge_sets\<close> states what a client of a disjoint-set structure may rely on,
  and derives the effect of a whole list of unions; the deduplication of findings is such a client.
  \<open>_UnionFind\<close> of \<open>engine/nodes/finding_dedup/core.py\<close>, a dictionary of parents with path compression,
  is modelled and proved to be an instance.

  An operation that would raise is \<open>None\<close>: \<open>find\<close> of an unknown item is a \<open>KeyError\<close>, and on a
  cyclic parent dictionary the recursion would not end.
\<close>

section \<open>The contract\<close>

fun fold_opt :: "('s \<Rightarrow> 'a \<Rightarrow> 's option) \<Rightarrow> 's \<Rightarrow> 'a list \<Rightarrow> 's option" where
  "fold_opt f s [] = Some s"
| "fold_opt f s (x # xs) = Option.bind (f s x) (\<lambda>s'. fold_opt f s' xs)"

lemma fold_opt_append: "fold_opt f s (xs @ ys) = Option.bind (fold_opt f s xs) (\<lambda>s'. fold_opt f s' ys)"
  by (induction xs arbitrary: s) (auto simp: bind_assoc split: bind_splits)

text \<open>The equivalence on \<open>A\<close> generated by a relation.\<close>

definition equiv_closure :: "'i set \<Rightarrow> ('i \<times> 'i) set \<Rightarrow> ('i \<times> 'i) set" where
  "equiv_closure A r = (r \<union> r\<inverse>)\<^sup>* \<inter> A \<times> A"

lemma equiv_closure_insert:
  assumes "r \<subseteq> A \<times> A" and "p \<in> A \<times> A"
  shows "equiv_closure A (insert p (equiv_closure A r)) = equiv_closure A (insert p r)"
proof -
  let ?R = "insert p r \<union> (insert p r)\<inverse>" and ?Q = "insert p (equiv_closure A r) \<union> (insert p (equiv_closure A r))\<inverse>"
  have "sym ((r \<union> r\<inverse>)\<^sup>*)" by (intro sym_rtrancl) (auto simp: sym_def)
  then have "?Q \<subseteq> (r \<union> r\<inverse>)\<^sup>* \<union> {p} \<union> {p}\<inverse>" by (auto simp: equiv_closure_def sym_def)
  also have "\<dots> \<subseteq> ?R\<^sup>*" using rtrancl_mono[of "r \<union> r\<inverse>" ?R] by (cases p) auto
  finally have "?Q\<^sup>* \<subseteq> ?R\<^sup>*" by (metis rtrancl_mono rtrancl_idemp)
  moreover have "r \<subseteq> equiv_closure A r" using assms(1) by (auto simp: equiv_closure_def)
  then have "?R\<^sup>* \<subseteq> ?Q\<^sup>*" by (intro rtrancl_mono) auto
  ultimately show ?thesis by (auto simp: equiv_closure_def)
qed

lemma equiv_closure_empty: "equiv_closure A {} = Id_on A"
  by (auto simp: equiv_closure_def)

locale merge_sets =
  fixes create :: "'i list \<Rightarrow> 's"
    and union :: "'s \<Rightarrow> 'i \<Rightarrow> 'i \<Rightarrow> 's option"
    and groups :: "'s \<Rightarrow> 'i list list option"
    and valid :: "'s \<Rightarrow> bool"
    and carrier :: "'s \<Rightarrow> 'i set"
    and same :: "'s \<Rightarrow> ('i \<times> 'i) set"
  assumes create_valid: "distinct xs \<Longrightarrow> valid (create xs) \<and> carrier (create xs) = set xs"
    and create_same: "distinct xs \<Longrightarrow> same (create xs) = Id_on (set xs)"
    and union_total: "valid s \<Longrightarrow> x \<in> carrier s \<Longrightarrow> y \<in> carrier s \<Longrightarrow>
      \<exists>s'. union s x y = Some s' \<and> valid s' \<and> carrier s' = carrier s"
    and union_same: "valid s \<Longrightarrow> x \<in> carrier s \<Longrightarrow> y \<in> carrier s \<Longrightarrow> union s x y = Some s' \<Longrightarrow>
      same s' = same s \<union> {(a, b). (a, x) \<in> same s \<and> (y, b) \<in> same s} \<union> {(a, b). (a, y) \<in> same s \<and> (x, b) \<in> same s}"
    and same_equiv: "valid s \<Longrightarrow> equiv (carrier s) (same s)"
    and groups_classes: "valid s \<Longrightarrow> \<exists>gs. groups s = Some gs \<and> set ` set gs = carrier s // same s \<and>
      distinct (map set gs) \<and> (\<forall>g \<in> set gs. distinct g)"
begin

definition unions :: "'s \<Rightarrow> ('i \<times> 'i) list \<Rightarrow> 's option" where
  "unions s pairs = fold_opt (\<lambda>s (x, y). union s x y) s pairs"

lemma unions_total:
  "valid s \<Longrightarrow> set pairs \<subseteq> carrier s \<times> carrier s \<Longrightarrow>
     \<exists>s'. unions s pairs = Some s' \<and> valid s' \<and> carrier s' = carrier s"
proof (induction pairs arbitrary: s)
  case Nil
  then show ?case by (simp add: unions_def)
next
  case (Cons p pairs)
  obtain x y where p: "p = (x, y)" by (cases p)
  with Cons.prems obtain s1 where "union s x y = Some s1" "valid s1" "carrier s1 = carrier s"
    using union_total[of s x y] by auto
  with Cons.IH[of s1] Cons.prems p show ?case by (simp add: unions_def)
qed

lemma union_least:
  assumes "valid s" and "x \<in> carrier s" "y \<in> carrier s" and "union s x y = Some s'"
  shows "same s' = equiv_closure (carrier s) (insert (x, y) (same s))"
proof
  let ?r = "insert (x, y) (same s)"
  have eq: "equiv (carrier s) (same s)" using same_equiv[OF assms(1)] .
  have sub: "same s \<subseteq> carrier s \<times> carrier s" using equiv_type[OF eq] .
  have new: "same s' = same s \<union> {(a, b). (a, x) \<in> same s \<and> (y, b) \<in> same s} \<union> {(a, b). (a, y) \<in> same s \<and> (x, b) \<in> same s}"
    using union_same[OF assms] .
  have old: "(c, d) \<in> (?r \<union> ?r\<inverse>)\<^sup>*" if "(c, d) \<in> same s" for c d using that by auto
  have edges: "(x, y) \<in> (?r \<union> ?r\<inverse>)\<^sup>*" "(y, x) \<in> (?r \<union> ?r\<inverse>)\<^sup>*" by auto
  have "(a, b) \<in> (?r \<union> ?r\<inverse>)\<^sup>*" if "(a, b) \<in> same s'" for a b
    using that unfolding new by (blast intro: old edges rtrancl_trans)
  moreover have "same s' \<subseteq> carrier s \<times> carrier s" using sub unfolding new by blast
  ultimately show "same s' \<subseteq> equiv_closure (carrier s) ?r" by (auto simp: equiv_closure_def)
  from union_total[OF assms(1-3)] assms(4) have v: "valid s'" "carrier s' = carrier s" by auto
  have eq': "equiv (carrier s) (same s')" using same_equiv[OF v(1)] v(2) by simp
  have xx: "(x, x) \<in> same s" "(y, y) \<in> same s" using assms(2,3) eq by (auto simp: equiv_def refl_on_def)
  have flip: "(b, a) \<in> same s" if "(a, b) \<in> same s" for a b using eq that by (meson equivE symD)
  have "?r \<union> ?r\<inverse> \<subseteq> same s'" using xx flip unfolding new by auto
  then have sub': "(b, c) \<in> same s'" if "(b, c) \<in> ?r \<union> ?r\<inverse>" for b c using that by blast
  have "(a, b) \<in> same s'" if "(a, b) \<in> (?r \<union> ?r\<inverse>)\<^sup>*" "a \<in> carrier s" for a b
    using that(1)
  proof (induction rule: rtrancl_induct)
    case base
    show ?case using eq' that(2) by (auto simp: equiv_def refl_on_def)
  next
    case (step b c)
    show ?case using eq' sub'[OF step.hyps(2)] step.IH by (meson equivE transD)
  qed
  then show "equiv_closure (carrier s) ?r \<subseteq> same s'" by (auto simp: equiv_closure_def)
qed

text \<open>A list of unions from scratch yields the equivalence the pairs generate.\<close>

lemma unions_same:
  assumes "valid s" and "set pairs \<subseteq> carrier s \<times> carrier s" and "r \<subseteq> carrier s \<times> carrier s"
    and "same s = equiv_closure (carrier s) r" and "unions s pairs = Some s'"
  shows "same s' = equiv_closure (carrier s) (r \<union> set pairs)"
  using assms
proof (induction pairs arbitrary: s r)
  case Nil
  then show ?case by (simp add: unions_def)
next
  case (Cons p pairs)
  obtain x y where p: "p = (x, y)" by (cases p)
  have xy: "x \<in> carrier s" "y \<in> carrier s" using Cons.prems(2) p by auto
  obtain s1 where s1: "union s x y = Some s1" "valid s1" "carrier s1 = carrier s"
    using union_total[OF Cons.prems(1) xy] by auto
  have "same s1 = equiv_closure (carrier s) (insert p r)"
    using union_least[OF Cons.prems(1) xy s1(1)] equiv_closure_insert[OF Cons.prems(3), of p] Cons.prems(4) xy p by simp
  then have "same s' = equiv_closure (carrier s1) (insert p r \<union> set pairs)"
    using Cons.IH[of s1 "insert p r"] Cons.prems s1 xy p by (simp add: unions_def)
  then show ?case using s1(3) by simp
qed

theorem merged_groups:
  assumes "distinct xs" and "set pairs \<subseteq> set xs \<times> set xs"
  shows "\<exists>s gs. unions (create xs) pairs = Some s \<and> groups s = Some gs \<and>
    set ` set gs = set xs // equiv_closure (set xs) (set pairs) \<and> distinct (map set gs) \<and> (\<forall>g \<in> set gs. distinct g)"
proof -
  have c: "valid (create xs)" "carrier (create xs) = set xs" "same (create xs) = equiv_closure (set xs) {}"
    using create_valid[OF assms(1)] create_same[OF assms(1)] by (simp_all add: equiv_closure_empty)
  obtain s where s: "unions (create xs) pairs = Some s" "valid s" "carrier s = set xs"
    using unions_total[OF c(1), of pairs] assms(2) c(2) by auto
  have "same s = equiv_closure (set xs) (set pairs)"
    using unions_same[OF c(1) _ _ _ s(1), of "{}"] c assms(2) by simp
  with groups_classes[OF s(2)] s show ?thesis by auto
qed

end

section \<open>Parents with path compression\<close>

type_synonym 'i parents = "('i, 'i) dict"

definition uf_create :: "'i list \<Rightarrow> 'i parents" where
  "uf_create indexes = map (\<lambda>i. (i, i)) indexes"

partial_function (option) uf_find :: "'i parents \<Rightarrow> 'i \<Rightarrow> ('i parents \<times> 'i) option" where
  "uf_find par item =
     (case map_of par item of
        None \<Rightarrow> None
      | Some parent \<Rightarrow>
          if parent \<noteq> item
          then Option.bind (uf_find par parent) (\<lambda>(par', root). Some (AList.update item root par', root))
          else Some (par, parent))"

declare uf_find.simps [code]

definition uf_union :: "'i parents \<Rightarrow> 'i \<Rightarrow> 'i \<Rightarrow> 'i parents option" where
  "uf_union par left right =
     Option.bind (uf_find par left) (\<lambda>(par1, left_root).
     Option.bind (uf_find par1 right) (\<lambda>(par2, right_root).
       Some (if left_root \<noteq> right_root then AList.update right_root left_root par2 else par2)))"

definition group_index :: "'i parents \<times> ('i, 'i list) dict \<Rightarrow> 'i \<Rightarrow> ('i parents \<times> ('i, 'i list) dict) option" where
  "group_index st index =
     Option.bind (uf_find (fst st) index) (\<lambda>(par', root).
       Some (par', AList.update root ((case map_of (snd st) root of None \<Rightarrow> [] | Some l \<Rightarrow> l) @ [index]) (snd st)))"

definition uf_groups :: "'i parents \<Rightarrow> 'i list list option" where
  "uf_groups par = map_option (vals \<circ> snd) (fold_opt group_index (par, []) (keys par))"

subsection \<open>Roots\<close>

inductive root_of :: "'i parents \<Rightarrow> 'i \<Rightarrow> 'i \<Rightarrow> bool" for par where
  root_here: "map_of par x = Some x \<Longrightarrow> root_of par x x"
| root_up: "map_of par x = Some p \<Longrightarrow> p \<noteq> x \<Longrightarrow> root_of par p r \<Longrightarrow> root_of par x r"

inductive_cases root_ofE: "root_of par x r"

lemma root_of_unique: "root_of par x r \<Longrightarrow> root_of par x r' \<Longrightarrow> r' = r"
proof (induction arbitrary: r' rule: root_of.induct)
  case (root_here x)
  from root_here.prems root_here.hyps show ?case by (cases rule: root_of.cases) simp_all
next
  case (root_up x p r)
  from root_up.prems show ?case
  proof (cases rule: root_of.cases)
    case root_here
    with root_up.hyps show ?thesis by simp
  next
    case (root_up p')
    with \<open>map_of par x = Some p\<close> have "p' = p" by simp
    with root_up root_up.IH show ?thesis by blast
  qed
qed

lemma root_of_root: "root_of par x r \<Longrightarrow> map_of par r = Some r"
  by (induction rule: root_of.induct)

lemma root_of_key: "root_of par x r \<Longrightarrow> x \<in> set (keys par)"
  by (cases rule: root_of.cases) (auto dest: map_of_Some_keys)

definition uf_valid :: "'i parents \<Rightarrow> bool" where
  "uf_valid par \<longleftrightarrow> wf_dict par \<and> (\<forall>x \<in> set (keys par). \<exists>r. root_of par x r)"

definition uf_same :: "'i parents \<Rightarrow> ('i \<times> 'i) set" where
  "uf_same par = {(x, y). \<exists>r. root_of par x r \<and> root_of par y r}"

text \<open>Path compression and linking, as changes of the root relation.\<close>

lemma compress_roots:
  assumes x: "root_of par x r" and "r \<noteq> x"
  shows "root_of (AList.update x r par) y s \<longleftrightarrow> root_of par y s"
proof
  let ?par = "AList.update x r par"
  have rr: "root_of ?par r r" using root_of_root[OF x] assms(2) by (intro root_here) simp
  show "root_of ?par y s" if "root_of par y s"
    using that
  proof (induction rule: root_of.induct)
    case (root_here y)
    have "y \<noteq> x"
    proof
      assume "y = x"
      then have "root_of par x x" using root_of.root_here root_here by simp
      then have "x = r" by (rule root_of_unique[OF x])
      with assms(2) show False by simp
    qed
    then show ?case using root_here by (intro root_of.root_here) simp
  next
    case (root_up y p s)
    show ?case
    proof (cases "y = x")
      case True
      have "root_of par y s" using root_of.root_up[OF root_up(1,2,3)] .
      then have "s = r" using root_of_unique[OF x, of s] True by blast
      with True rr assms(2) root_of.root_up[of ?par x r r] show ?thesis by simp
    next
      case False
      with root_up root_of.root_up[of ?par y p s] show ?thesis by simp
    qed
  qed
  show "root_of par y s" if "root_of ?par y s"
    using that
  proof (induction rule: root_of.induct)
    case (root_here y)
    then show ?case using assms(2) by (auto intro: root_of.root_here split: if_splits)
  next
    case (root_up y p s)
    show ?case
    proof (cases "y = x")
      case True
      with root_up have "p = r" by simp
      then have "s = r"
        using root_up(4) root_of_unique[OF root_of.root_here[OF root_of_root[OF x]], of s] by blast
      with True x show ?thesis by simp
    next
      case False
      with root_up root_of.root_up[of par y p s] show ?thesis by simp
    qed
  qed
qed

lemma link_roots:
  assumes l: "map_of par l = Some l" and r: "map_of par r = Some r" and "l \<noteq> r"
  shows "root_of (AList.update r l par) y s \<longleftrightarrow> (\<exists>t. root_of par y t \<and> s = (if t = r then l else t))"
proof
  let ?par = "AList.update r l par"
  have ll: "root_of ?par l l" using l assms(3) by (intro root_here) simp
  have rl: "root_of ?par r l" using ll assms(3) root_up[of ?par r l l] by simp
  show "\<exists>t. root_of par y t \<and> s = (if t = r then l else t)" if "root_of ?par y s"
    using that
  proof (induction rule: root_of.induct)
    case (root_here y)
    then have "y \<noteq> r" "map_of par y = Some y" using assms(3) by (auto split: if_splits)
    then show ?case using root_of.root_here[of par y] by (intro exI[of _ y]) simp
  next
    case (root_up y p s)
    then obtain t where t: "root_of par p t" "s = (if t = r then l else t)" by blast
    show ?case
    proof (cases "y = r")
      case True
      then have "p = l" using root_up by simp
      then have "t = l" using t(1) root_of_unique[OF root_of.root_here[OF l], of t] by blast
      then have "s = l" using t(2) assms(3) by simp
      with True root_of.root_here[OF r] show ?thesis by (intro exI[of _ r]) simp
    next
      case False
      then have "map_of par y = Some p" using root_up(1) by simp
      then have "root_of par y t" using root_of.root_up[OF _ root_up(2) t(1)] by simp
      with t(2) show ?thesis by blast
    qed
  qed
  show "root_of ?par y s" if "\<exists>t. root_of par y t \<and> s = (if t = r then l else t)"
  proof -
    from that obtain t where "root_of par y t" and s: "s = (if t = r then l else t)" by blast
    from this(1) have "root_of ?par y (if t = r then l else t)"
    proof (induction rule: root_of.induct)
      case (root_here y)
      show ?case
      proof (cases "y = r")
        case True
        with rl show ?thesis by simp
      next
        case False
        then show ?thesis using root_here by (simp add: root_of.root_here)
      qed
    next
      case (root_up y p t)
      have "y \<noteq> r" using root_up(1,2) r by auto
      then have "map_of ?par y = Some p" using root_up(1) by simp
      from root_of.root_up[OF this root_up(2,4)] show ?case .
    qed
    with s show ?thesis by simp
  qed
qed

text \<open>\<open>find\<close> returns the root, keeps every root and the keys.\<close>

lemma uf_find_spec:
  assumes "root_of par x r"
  shows "\<exists>par'. uf_find par x = Some (par', r) \<and> keys par' = keys par \<and> (\<forall>y s. root_of par' y s \<longleftrightarrow> root_of par y s)"
  using assms
proof (induction rule: root_of.induct)
  case (root_here x)
  then show ?case by (subst uf_find.simps) simp
next
  case (root_up x p r)
  then obtain par' where par': "uf_find par p = Some (par', r)" "keys par' = keys par"
    "\<forall>y s. root_of par' y s \<longleftrightarrow> root_of par y s" by blast
  have xr: "root_of par x r" using root_of.root_up[OF root_up(1,2,3)] .
  have "r \<noteq> x" using root_of_root[OF xr] root_up(1,2) by auto
  have "uf_find par x = Some (AList.update x r par', r)"
    using root_up(1,2) par'(1) by (subst uf_find.simps) simp
  moreover have "keys (AList.update x r par') = keys par"
    using par'(2) root_of_key[OF xr] by (simp add: keys_update_old)
  moreover have "root_of (AList.update x r par') y s \<longleftrightarrow> root_of par y s" for y s
    using compress_roots[of par' x r y s] par'(3) xr \<open>r \<noteq> x\<close> by simp
  ultimately show ?case by blast
qed

lemma uf_union_spec:
  assumes l: "root_of par x l" and r: "root_of par y r"
  shows "\<exists>par'. uf_union par x y = Some par' \<and> keys par' = keys par \<and>
    (\<forall>z s. root_of par' z s \<longleftrightarrow> (\<exists>t. root_of par z t \<and> s = (if t = r then l else t)))"
proof -
  from uf_find_spec[OF l] obtain par1 where p1: "uf_find par x = Some (par1, l)" "keys par1 = keys par"
    "\<forall>y s. root_of par1 y s \<longleftrightarrow> root_of par y s" by blast
  with r have "root_of par1 y r" by blast
  from uf_find_spec[OF this] obtain par2 where p2: "uf_find par1 y = Some (par2, r)" "keys par2 = keys par"
    "\<forall>y s. root_of par2 y s \<longleftrightarrow> root_of par y s" using p1 by auto
  show ?thesis
  proof (cases "l = r")
    case True
    with p1 p2 show ?thesis by (auto simp: uf_union_def)
  next
    case False
    have lr: "map_of par2 l = Some l" "map_of par2 r = Some r"
      using l r p2(3) root_of_root by metis+
    have "r \<in> set (keys par)" using lr(2) p2(2) map_of_Some_keys by metis
    then have "keys (AList.update r l par2) = keys par" using p2(2) by (simp add: keys_update_old)
    with link_roots[OF lr False] False p1 p2 show ?thesis by (auto simp: uf_union_def)
  qed
qed

subsection \<open>Groups\<close>

definition group_inv :: "'i parents \<Rightarrow> 'i list \<Rightarrow> 'i parents \<times> ('i, 'i list) dict \<Rightarrow> bool" where
  "group_inv par xs st \<longleftrightarrow>
     wf_dict (snd st) \<and> (\<forall>y s. root_of (fst st) y s \<longleftrightarrow> root_of par y s) \<and>
     (\<forall>r. map_of (snd st) r = (if \<exists>x \<in> set xs. root_of par x r then Some (filter (\<lambda>x. root_of par x r) xs) else None))"

lemma filter_none: "\<not> (\<exists>x \<in> set xs. P x) \<Longrightarrow> filter P xs = []"
  by (simp add: filter_empty_conv)

lemma group_index_step:
  assumes inv: "group_inv par xs st" and x: "root_of par x r"
  shows "\<exists>st'. group_index st x = Some st' \<and> group_inv par (xs @ [x]) st'"
proof -
  obtain par1 g where st: "st = (par1, g)" by (cases st)
  have same: "root_of par1 y s \<longleftrightarrow> root_of par y s" for y s using inv st by (simp add: group_inv_def)
  obtain par2 where par2: "uf_find par1 x = Some (par2, r)" "\<forall>y s. root_of par2 y s \<longleftrightarrow> root_of par y s"
    using uf_find_spec[of par1 x r] x same by auto
  let ?old = "case map_of g r of None \<Rightarrow> [] | Some l \<Rightarrow> l"
  have old: "?old = filter (\<lambda>x. root_of par x r) xs"
    using inv st by (auto simp: group_inv_def filter_none)
  have other: "root_of par x s \<longleftrightarrow> s = r" for s using root_of_unique[OF x, of s] x by auto
  let ?st' = "(par2, AList.update r (?old @ [x]) g)"
  have "group_index st x = Some ?st'" using par2(1) st by (simp add: group_index_def)
  moreover have "group_inv par (xs @ [x]) ?st'"
    unfolding group_inv_def
  proof (intro conjI allI)
    show "wf_dict (snd ?st')" using inv st by (simp add: group_inv_def)
    show "root_of (fst ?st') y s \<longleftrightarrow> root_of par y s" for y s using par2(2) by simp
    show "map_of (snd ?st') s = (if \<exists>x \<in> set (xs @ [x]). root_of par x s
        then Some (filter (\<lambda>x. root_of par x s) (xs @ [x])) else None)" for s
      using inv st old other by (cases "s = r") (simp_all add: group_inv_def)
  qed
  ultimately show ?thesis by blast
qed

lemma group_all:
  assumes "group_inv par xs st" and "\<forall>y \<in> set ys. \<exists>r. root_of par y r"
  shows "\<exists>st'. fold_opt group_index st ys = Some st' \<and> group_inv par (xs @ ys) st'"
  using assms
proof (induction ys arbitrary: xs st)
  case Nil
  then show ?case by simp
next
  case (Cons y ys)
  then obtain r where "root_of par y r" by auto
  from group_index_step[OF Cons.prems(1) this] obtain st1 where
    st1: "group_index st y = Some st1" "group_inv par (xs @ [y]) st1" by blast
  from Cons.IH[OF st1(2)] Cons.prems(2) st1(1) show ?case by simp
qed

lemma uf_groups_spec:
  assumes "uf_valid par"
  shows "\<exists>gs. uf_groups par = Some gs \<and> set ` set gs = set (keys par) // uf_same par \<and>
    distinct (map set gs) \<and> (\<forall>g \<in> set gs. distinct g)"
proof -
  have "group_inv par [] (par, [])" by (simp add: group_inv_def)
  from group_all[OF this, of "keys par"] assms obtain par' g where
    g: "fold_opt group_index (par, []) (keys par) = Some (par', g)" and inv: "group_inv par (keys par) (par', g)"
    by (auto simp: uf_valid_def)
  let ?cl = "\<lambda>r. filter (\<lambda>x. root_of par x r) (keys par)"
  have wf: "wf_dict g" using inv by (simp add: group_inv_def)
  have entry: "(r, l) \<in> set g \<longleftrightarrow> (\<exists>x. root_of par x r) \<and> l = ?cl r" for r l
  proof -
    have "(r, l) \<in> set g \<longleftrightarrow> map_of g r = Some l" using map_of_wf_iff[OF wf] by simp
    also have "\<dots> \<longleftrightarrow> (\<exists>x \<in> set (keys par). root_of par x r) \<and> l = ?cl r" using inv by (auto simp: group_inv_def)
    finally show ?thesis using root_of_key[of par _ r] by blast
  qed
  have cls: "set (?cl r) = uf_same par `` {x}" if "root_of par x r" for x r
  proof (rule set_eqI)
    fix y
    have "y \<in> set (?cl r) \<longleftrightarrow> root_of par y r" using root_of_key[of par y r] by auto
    also have "\<dots> \<longleftrightarrow> y \<in> uf_same par `` {x}"
      using that root_of_unique[OF that] unfolding uf_same_def by blast
    finally show "y \<in> set (?cl r) \<longleftrightarrow> y \<in> uf_same par `` {x}" .
  qed
  have "set ` set (vals g) = set (keys par) // uf_same par"
  proof
    show "set ` set (vals g) \<subseteq> set (keys par) // uf_same par"
    proof
      fix X
      assume "X \<in> set ` set (vals g)"
      then obtain r l where "(r, l) \<in> set g" and X: "X = set l" by (auto simp: vals_def)
      then obtain x where x: "root_of par x r" and l: "l = ?cl r" using entry by blast
      show "X \<in> set (keys par) // uf_same par"
        unfolding X l cls[OF x] by (rule quotientI) (rule root_of_key[OF x])
    qed
    show "set (keys par) // uf_same par \<subseteq> set ` set (vals g)"
    proof
      fix X
      assume "X \<in> set (keys par) // uf_same par"
      then obtain x where x: "x \<in> set (keys par)" "X = uf_same par `` {x}" by (auto elim: quotientE)
      with assms obtain r where r: "root_of par x r" by (auto simp: uf_valid_def)
      then have "(r, ?cl r) \<in> set g" using entry by blast
      then have "?cl r \<in> set (vals g)" by (force simp: vals_def)
      with cls[OF r] x(2) show "X \<in> set ` set (vals g)" by (metis imageI)
    qed
  qed
  moreover have "distinct (map set (vals g))"
  proof -
    have "inj_on (\<lambda>p. set (snd p)) (set g)"
    proof (rule inj_onI)
      fix p q
      assume pq: "p \<in> set g" "q \<in> set g" "set (snd p) = set (snd q)"
      obtain r l where p: "p = (r, l)" by (cases p)
      obtain r' l' where q: "q = (r', l')" by (cases q)
      from pq p q entry obtain x where "root_of par x r" "l = ?cl r" "l' = ?cl r'" by blast
      then have "x \<in> set (?cl r)" using root_of_key by fastforce
      moreover have "set (?cl r) = set (?cl r')"
        using pq(3) p q \<open>l = ?cl r\<close> \<open>l' = ?cl r'\<close> by (simp only: snd_conv)
      ultimately have "x \<in> set (?cl r')" by (simp only:)
      then have "root_of par x r'" by simp
      then have "r' = r" by (rule root_of_unique[OF \<open>root_of par x r\<close>])
      with \<open>l = ?cl r\<close> \<open>l' = ?cl r'\<close> p q show "p = q" by simp
    qed
    moreover have "distinct g" using wf by (simp add: wf_dict_def distinct_map)
    ultimately show ?thesis by (simp add: vals_def distinct_map comp_def)
  qed
  moreover have "\<forall>l \<in> set (vals g). distinct l"
    using entry assms by (auto simp: vals_def uf_valid_def wf_dict_keys)
  ultimately show ?thesis using g by (auto simp: uf_groups_def)
qed

subsection \<open>The parent dictionary fulfils the contract\<close>

lemma uf_create_root: "root_of (uf_create xs) x r \<longleftrightarrow> x \<in> set xs \<and> r = x"
proof -
  have look: "map_of (uf_create xs) x = (if x \<in> set xs then Some x else None)" for x
    by (induction xs) (auto simp: uf_create_def)
  show ?thesis
    by (auto simp: look elim: root_ofE intro: root_here split: if_splits)
qed

lemma uf_same_equiv:
  assumes "uf_valid par"
  shows "equiv (set (keys par)) (uf_same par)"
proof (rule equivI)
  show "uf_same par \<subseteq> set (keys par) \<times> set (keys par)" by (auto simp: uf_same_def dest: root_of_key)
  show "refl_on (set (keys par)) (uf_same par)"
    using assms by (auto simp: refl_on_def uf_same_def uf_valid_def)
  show "sym (uf_same par)" by (auto simp: sym_def uf_same_def)
  show "trans (uf_same par)"
  proof (rule transI)
    fix x y z
    assume "(x, y) \<in> uf_same par" "(y, z) \<in> uf_same par"
    then obtain r s where "root_of par x r" "root_of par y r" "root_of par y s" "root_of par z s" by (auto simp: uf_same_def)
    then show "(x, z) \<in> uf_same par" using root_of_unique[of par y r s] by (auto simp: uf_same_def)
  qed
qed

interpretation uf: merge_sets uf_create uf_union uf_groups uf_valid "\<lambda>par. set (keys par)" uf_same
proof
  fix xs :: "'a list"
  assume d: "distinct xs"
  have "keys (uf_create xs) = xs" by (simp add: uf_create_def keys_def comp_def)
  with d show "uf_valid (uf_create xs) \<and> set (keys (uf_create xs)) = set xs"
    by (simp add: uf_valid_def uf_create_root wf_dict_keys)
  show "uf_same (uf_create xs) = Id_on (set xs)" by (auto simp: uf_same_def uf_create_root)
next
  fix par :: "'a parents" and x y
  assume v: "uf_valid par" and "x \<in> set (keys par)" "y \<in> set (keys par)"
  then obtain l r where lr: "root_of par x l" "root_of par y r" unfolding uf_valid_def by blast
  from uf_union_spec[OF lr] obtain par' where par': "uf_union par x y = Some par'" "keys par' = keys par"
    "\<And>z s. root_of par' z s \<longleftrightarrow> (\<exists>t. root_of par z t \<and> s = (if t = r then l else t))" by auto
  have "uf_valid par'" using v par' by (auto simp: uf_valid_def wf_dict_keys)
  with par' show "\<exists>s'. uf_union par x y = Some s' \<and> uf_valid s' \<and> set (keys s') = set (keys par)" by auto
  fix s'
  assume "uf_union par x y = Some s'"
  with par' have s': "s' = par'" by simp
  have rx: "(a, x) \<in> uf_same par \<longleftrightarrow> root_of par a l" "(x, a) \<in> uf_same par \<longleftrightarrow> root_of par a l"
    "(a, y) \<in> uf_same par \<longleftrightarrow> root_of par a r" "(y, a) \<in> uf_same par \<longleftrightarrow> root_of par a r" for a
    using lr root_of_unique[OF lr(1)] root_of_unique[OF lr(2)] unfolding uf_same_def by blast+
  have link: "(if t = r then l else t) = (if u = r then l else u) \<longleftrightarrow> t = u \<or> (t = r \<and> u = l) \<or> (t = l \<and> u = r)" for t u
    by auto
  have "(a, b) \<in> uf_same par' \<longleftrightarrow> (a, b) \<in> uf_same par \<or> (root_of par a l \<and> root_of par b r) \<or> (root_of par a r \<and> root_of par b l)" for a b
  proof -
    have "(a, b) \<in> uf_same par' \<longleftrightarrow>
        (\<exists>t u. root_of par a t \<and> root_of par b u \<and> (if t = r then l else t) = (if u = r then l else u))"
      unfolding uf_same_def par'(3) by blast
    then show ?thesis unfolding link uf_same_def by blast
  qed
  then show "uf_same s' = uf_same par \<union> {(a, b). (a, x) \<in> uf_same par \<and> (y, b) \<in> uf_same par} \<union>
      {(a, b). (a, y) \<in> uf_same par \<and> (x, b) \<in> uf_same par}"
    unfolding s' rx by auto
next
  fix par :: "'a parents"
  assume v: "uf_valid par"
  show "equiv (set (keys par)) (uf_same par)" by (rule uf_same_equiv[OF v])
  show "\<exists>gs. uf_groups par = Some gs \<and> set ` set gs = set (keys par) // uf_same par \<and>
      distinct (map set gs) \<and> (\<forall>g \<in> set gs. distinct g)" by (rule uf_groups_spec[OF v])
qed

end
