(* ===== verification/External_Sort.thy ===== *)
theory External_Sort
  imports Prelude
begin

text \<open>
  \<open>sorted_json_records\<close> of \<open>json_io.py\<close>: an external merge sort. Records are cut into chunks bounded in
  size and count, each chunk is sorted, and the sorted runs are merged by \<open>heapq.merge\<close>, at most 32 at
  a time, in as many passes as needed. The result is the stable sort of the records by the key,
  whatever the sizes: this is the contract the other components use.

  A run file holds one record per line and is read back as it was written, so a run is the list of
  its records. \<open>cost\<close> is the length of a record's JSON text. A record that is no JSON tree, and a
  cancellation, abort the sort before it returns anything and are not part of the model.
\<close>

section \<open>Definitions\<close>

definition chunk_bytes :: nat where
  "chunk_bytes = 8 * 1024 * 1024"

definition chunk_records :: nat where
  "chunk_records = 4096"

definition max_open_runs :: nat where
  "max_open_runs = 32"

fun sorted_runs :: "('a \<Rightarrow> 'k::linorder) \<Rightarrow> ('a \<Rightarrow> nat) \<Rightarrow> 'a list \<Rightarrow> nat \<Rightarrow> 'a list \<Rightarrow> 'a list list" where
  "sorted_runs key cost chunk bytes [] = (if chunk = [] then [] else [sort_key key chunk])"
| "sorted_runs key cost chunk bytes (r # rs) =
     (let chunk' = chunk @ [r]; bytes' = bytes + cost r in
      if bytes' \<ge> chunk_bytes \<or> length chunk' \<ge> chunk_records
      then sort_key key chunk' # sorted_runs key cost [] 0 rs
      else sorted_runs key cost chunk' bytes' rs)"

text \<open>\<open>heapq.merge\<close> with a key: the least head, of the first source that has it, comes next.\<close>

definition live_sources :: "'a list list \<Rightarrow> nat list" where
  "live_sources sources = filter (\<lambda>i. sources ! i \<noteq> []) [0..<length sources]"

definition least_source :: "('a \<Rightarrow> 'k::linorder) \<Rightarrow> 'a list list \<Rightarrow> nat" where
  "least_source key sources = arg_min_list (\<lambda>i. key (hd (sources ! i))) (live_sources sources)"

lemma least_source_live:
  assumes "live_sources sources \<noteq> []"
  shows "least_source key sources < length sources" and "sources ! least_source key sources \<noteq> []"
  using arg_min_list_in[OF assms, of "\<lambda>i. key (hd (sources ! i))"]
  unfolding least_source_def live_sources_def by auto

function (sequential) heap_merge :: "('a \<Rightarrow> 'k::linorder) \<Rightarrow> 'a list list \<Rightarrow> 'a list" where
  "heap_merge key sources =
     (if live_sources sources = [] then []
      else let i = least_source key sources
        in hd (sources ! i) # heap_merge key (sources[i := tl (sources ! i)]))"
  by pat_completeness auto
termination
proof (relation "measure (\<lambda>(_, sources). sum_list (map length sources))")
  fix key :: "'a \<Rightarrow> 'k::linorder" and sources :: "'a list list" and i
  assume live: "live_sources sources \<noteq> []" and i: "i = least_source key sources"
  note l = least_source_live[OF live, of key, folded i]
  have "map length (sources[i := tl (sources ! i)]) = (map length sources)[i := length (sources ! i) - 1]"
    by (simp add: map_update)
  then have "sum_list (map length (sources[i := tl (sources ! i)])) = sum_list (map length sources) + (length (sources ! i) - 1) - length (sources ! i)"
    using l(1) by (simp add: sum_list_update)
  moreover have "0 < length (sources ! i)" using l(2) by simp
  moreover have "length (sources ! i) \<le> sum_list (map length sources)"
    using l(1) elem_le_sum_list[of i "map length sources"] by simp
  ultimately have "sum_list (map length (sources[i := tl (sources ! i)])) < sum_list (map length sources)" by linarith
  then show "((key, sources[i := tl (sources ! i)]), key, sources) \<in> measure (\<lambda>(_, sources). sum_list (map length sources))"
    by simp
qed simp

declare heap_merge.simps [simp del]

function (sequential) slices :: "nat \<Rightarrow> 'a list \<Rightarrow> 'a list list" where
  "slices n xs = (if xs = [] \<or> n = 0 then [] else take n xs # slices n (drop n xs))"
  by pat_completeness auto
termination by (relation "measure (\<lambda>(_, xs). length xs)") auto

declare slices.simps [simp del]

lemma concat_slices: "0 < n \<Longrightarrow> concat (slices n xs) = xs"
proof (induction n xs rule: slices.induct)
  case (1 n xs)
  then show ?case by (subst slices.simps) auto
qed

lemma length_slices: "0 < n \<Longrightarrow> length (slices n xs) * n < length xs + n"
proof (induction n xs rule: slices.induct)
  case (1 n xs)
  show ?case
  proof (cases "xs = []")
    case True
    with 1 show ?thesis by (simp add: slices.simps)
  next
    case False
    with 1 have "length (slices n (drop n xs)) * n < length xs - n + n" by simp
    moreover have "length (slices n (drop n xs)) = 0" if "length xs \<le> n"
      using that by (simp add: slices.simps)
    ultimately show ?thesis
      using False 1(2) by (subst slices.simps) (cases "length xs \<le> n"; simp)
  qed
qed

lemma fewer_slices:
  assumes "max_open_runs < length xs"
  shows "length (slices max_open_runs xs) < length xs"
  using length_slices[of max_open_runs xs] assms by (simp add: max_open_runs_def)

text \<open>Merging runs: the records, and the number of run files that are open together meanwhile.\<close>

definition merge_runs :: "('a \<Rightarrow> 'k::linorder) \<Rightarrow> 'a list list \<Rightarrow> 'a list \<times> nat" where
  "merge_runs key paths = (heap_merge key paths, length paths)"

text \<open>The passes, with the log of how many files each merge opened.\<close>

function (sequential) merge_passes :: "('a \<Rightarrow> 'k::linorder) \<Rightarrow> 'a list list \<Rightarrow> nat list \<Rightarrow> 'a list list \<times> nat list" where
  "merge_passes key runs opened =
     (if max_open_runs < length runs
      then let merged = map (merge_runs key) (slices max_open_runs runs)
        in merge_passes key (map fst merged) (opened @ map snd merged)
      else (runs, opened))"
  by pat_completeness auto
termination by (relation "measure (\<lambda>(_, runs, _). length runs)") (auto simp: fewer_slices)

declare merge_passes.simps [simp del]

definition external_sort :: "('a \<Rightarrow> 'k::linorder) \<Rightarrow> ('a \<Rightarrow> nat) \<Rightarrow> 'a list \<Rightarrow> 'a list \<times> nat list" where
  "external_sort key cost records =
     (let (runs, opened) = merge_passes key (sorted_runs key cost [] 0 records) [];
          (merged, sources) = merge_runs key runs
      in (merged, opened @ [sources]))"

definition sorted_json_records :: "('a \<Rightarrow> 'k::linorder) \<Rightarrow> ('a \<Rightarrow> nat) \<Rightarrow> 'a list \<Rightarrow> 'a list" where
  "sorted_json_records key cost records = fst (external_sort key cost records)"

section \<open>The merge is a stable sort\<close>

lemma arg_min_list_first:
  assumes "sorted xs" and "j \<in> set xs" and "(j::nat) < arg_min_list f xs"
  shows "f (arg_min_list f xs) < f j"
  using assms
proof (induction f xs rule: arg_min_list.induct)
  case (2 f x y zs)
  let ?m = "arg_min_list f (y # zs)"
  have m: "?m \<in> set (y # zs)" by (rule arg_min_list_in) simp
  show ?case
  proof (cases "f x \<le> f ?m")
    case True
    then have "arg_min_list f (x # y # zs) = x" by (simp add: Let_def)
    moreover have "x \<le> j" using 2(2,3) by auto
    ultimately show ?thesis using 2(4) by simp
  next
    case False
    then have eq: "arg_min_list f (x # y # zs) = ?m" by (simp add: Let_def)
    then show ?thesis using False 2 by (cases "j = x") auto
  qed
qed auto

lemma least_source_le:
  assumes "j < length sources" and "sources ! j \<noteq> []"
  shows "key (hd (sources ! least_source key sources)) \<le> key (hd (sources ! j))"
    and "j < least_source key sources \<Longrightarrow>
      key (hd (sources ! least_source key sources)) < key (hd (sources ! j))"
proof -
  have j: "j \<in> set (live_sources sources)" using assms by (simp add: live_sources_def)
  show "key (hd (sources ! least_source key sources)) \<le> key (hd (sources ! j))"
    using arg_min_list_le[OF j, of "\<lambda>i. key (hd (sources ! i))"] by (simp add: least_source_def)
  have "sorted (live_sources sources)" by (simp add: live_sources_def sorted_wrt_filter)
  then show "key (hd (sources ! least_source key sources)) < key (hd (sources ! j))"
    if "j < least_source key sources"
    using arg_min_list_first[of "live_sources sources" j "\<lambda>i. key (hd (sources ! i))"] j that
    unfolding least_source_def by auto
qed

lemma sorted_hd_le: "sorted (map key xs) \<Longrightarrow> y \<in> set xs \<Longrightarrow> key (hd xs) \<le> key y"
  by (cases xs) auto

lemma sort_key_eqI:
  assumes "mset ys = mset xs" and "sorted (map key ys)"
    and "\<And>k. filter (\<lambda>y. key y = k) ys = filter (\<lambda>y. key y = k) xs"
  shows "ys = sort_key key xs"
proof -
  have "filter (\<lambda>x. key k = key x) ys = filter (\<lambda>x. key k = key x) xs" for k
    using assms(3)[of "key k"] by (simp add: eq_commute)
  with properties_for_sort_key[OF assms(1) _ assms(2)] show ?thesis by simp
qed

text \<open>Taking the least head first is the first step of the stable sort.\<close>

lemma sort_key_least:
  assumes sorted: "\<forall>xs \<in> set sources. sorted (map key xs)" and live: "live_sources sources \<noteq> []"
    and i: "i = least_source key sources"
  shows "hd (sources ! i) # sort_key key (concat (sources[i := tl (sources ! i)])) = sort_key key (concat sources)"
proof -
  note l = least_source_live[OF live, of key, folded i]
  obtain x xs where x: "sources ! i = x # xs" using l(2) by (cases "sources ! i") auto
  let ?before = "concat (take i sources)" and ?after = "concat (drop (Suc i) sources)"
  have S: "concat sources = ?before @ (x # xs) @ ?after"
    using id_take_nth_drop[OF l(1)] x by (metis concat.simps(2) concat_append)
  have S': "concat (sources[i := tl (sources ! i)]) = ?before @ xs @ ?after"
    using x l(1) by (simp add: upd_conv_take_nth_drop)
  have mem: "\<exists>j < length sources. sources ! j \<noteq> [] \<and> y \<in> set (sources ! j)" if "y \<in> set (concat sources)" for y
    using that by (force simp: in_set_conv_nth)
  have le: "key x \<le> key y" if y: "y \<in> set (concat sources)" for y
  proof -
    obtain j where j: "j < length sources" "sources ! j \<noteq> []" "y \<in> set (sources ! j)" using mem[OF y] by blast
    have "key x \<le> key (hd (sources ! j))" using least_source_le(1)[OF j(1,2), of key] x i by simp
    also have "\<dots> \<le> key y" using sorted j by (intro sorted_hd_le) auto
    finally show ?thesis .
  qed
  have less: "key x < key y" if y: "y \<in> set ?before" for y
  proof -
    obtain j where j: "j < i" "y \<in> set (sources ! j)" "j < length sources"
      using y by (fastforce simp: in_set_conv_nth)
    then have ne: "sources ! j \<noteq> []" by auto
    have "key x < key (hd (sources ! j))" using least_source_le(2)[OF j(3) ne, of key] j(1) x i by simp
    also have "\<dots> \<le> key y" using sorted j by (intro sorted_hd_le) auto
    finally show ?thesis .
  qed
  show ?thesis
  proof (rule sort_key_eqI)
    show "mset (hd (sources ! i) # sort_key key (concat (sources[i := tl (sources ! i)]))) = mset (concat sources)"
      unfolding S S' using x by simp
    show "sorted (map key (hd (sources ! i) # sort_key key (concat (sources[i := tl (sources ! i)]))))"
      using le x unfolding S S' by auto
    fix k
    have "filter (\<lambda>y. key y = k) ?before = []" if "k = key x"
      using less that by (fastforce simp: filter_empty_conv)
    then show "filter (\<lambda>y. key y = k) (hd (sources ! i) # sort_key key (concat (sources[i := tl (sources ! i)])))
        = filter (\<lambda>y. key y = k) (concat sources)"
      unfolding S S' using x by (auto simp: sort_key_stable)
  qed
qed

lemma heap_merge_sorts:
  "\<forall>xs \<in> set sources. sorted (map key xs) \<Longrightarrow> heap_merge key sources = sort_key key (concat sources)"
proof (induction key sources rule: heap_merge.induct)
  case (1 key sources)
  show ?case
  proof (cases "live_sources sources = []")
    case True
    then have nil: "concat sources = []"
      by (auto simp: live_sources_def filter_empty_conv in_set_conv_nth)
    show ?thesis using True unfolding heap_merge.simps[of key sources] nil by simp
  next
    case False
    define i where "i = least_source key sources"
    note l = least_source_live[OF False, of key, folded i_def]
    have "\<forall>xs \<in> set (sources[i := tl (sources ! i)]). sorted (map key xs)"
    proof
      fix xs
      assume "xs \<in> set (sources[i := tl (sources ! i)])"
      then have "xs \<in> set sources \<or> xs = tl (sources ! i)" using set_update_subset_insert by fastforce
      then show "sorted (map key xs)" using 1(2) l(1) by (auto simp: map_tl intro!: sorted_tl)
    qed
    then have "heap_merge key (sources[i := tl (sources ! i)]) = sort_key key (concat (sources[i := tl (sources ! i)]))"
      using 1(1)[OF False i_def] by blast
    then show ?thesis
      using sort_key_least[OF 1(2) False i_def] False
      by (simp only: heap_merge.simps[of key sources] if_False Let_def i_def[symmetric])
  qed
qed

lemma sort_key_concat_sorted: "sort_key key (concat (map (sort_key key) xss)) = sort_key key (concat xss)"
proof (rule sort_key_eqI)
  show "mset (sort_key key (concat (map (sort_key key) xss))) = mset (concat xss)"
    by (induction xss) auto
  fix k
  have "filter (\<lambda>y. key y = k) (concat (map (sort_key key) xss)) = filter (\<lambda>y. key y = k) (concat xss)"
    by (induction xss) (auto simp: sort_key_stable)
  then show "filter (\<lambda>y. key y = k) (sort_key key (concat (map (sort_key key) xss)))
      = filter (\<lambda>y. key y = k) (concat xss)" by (simp add: sort_key_stable)
qed simp

lemma concat_map_concat: "concat (map concat xss) = concat (concat xss)"
  by (induction xss) auto

lemma slices_short: "g \<in> set (slices n xs) \<Longrightarrow> length g \<le> n"
proof (induction n xs rule: slices.induct)
  case (1 n xs)
  then show ?case by (subst (asm) (2) slices.simps) (auto split: if_splits)
qed

lemma merge_pass_groups:
  assumes "\<forall>xs \<in> set runs. sorted (map key xs)"
  shows "map fst (map (merge_runs key) (slices max_open_runs runs)) = map (sort_key key) (map concat (slices max_open_runs runs))"
    and "concat (map concat (slices max_open_runs runs)) = concat runs"
proof -
  let ?g = "slices max_open_runs runs"
  have all: "concat ?g = runs" by (rule concat_slices) (simp add: max_open_runs_def)
  have "\<forall>xs \<in> set g. sorted (map key xs)" if "g \<in> set ?g" for g
    using assms that arg_cong[OF all, of set] by auto
  then show "map fst (map (merge_runs key) ?g) = map (sort_key key) (map concat ?g)"
    by (auto simp: merge_runs_def heap_merge_sorts)
  show "concat (map concat ?g) = concat runs" using all by (metis concat_map_concat)
qed

lemma merge_passes_sorts:
  assumes "\<forall>xs \<in> set runs. sorted (map key xs)" and "\<forall>n \<in> set opened. n \<le> max_open_runs"
  obtains runs' opened' where "merge_passes key runs opened = (runs', opened')" and "\<forall>xs \<in> set runs'. sorted (map key xs)"
    and "length runs' \<le> max_open_runs" and "\<forall>n \<in> set opened'. n \<le> max_open_runs"
    and "sort_key key (concat runs') = sort_key key (concat runs)"
  using assms
proof (induction key runs opened arbitrary: thesis rule: merge_passes.induct)
  case (1 key runs opened)
  show ?case
  proof (cases "max_open_runs < length runs")
    case True
    let ?m = "map (merge_runs key) (slices max_open_runs runs)"
    note merged = merge_pass_groups[OF 1(3)]
    have "\<forall>xs \<in> set (map fst ?m). sorted (map key xs)" unfolding merged(1) by auto
    moreover have "\<forall>n \<in> set (opened @ map snd ?m). n \<le> max_open_runs"
      using 1(4) slices_short by (auto simp: merge_runs_def)
    moreover have "sort_key key (concat (map fst ?m)) = sort_key key (concat runs)"
      unfolding merged(1) sort_key_concat_sorted merged(2) ..
    moreover have "merge_passes key runs opened = merge_passes key (map fst ?m) (opened @ map snd ?m)"
      using True by (simp add: merge_passes.simps[of key runs] Let_def)
    ultimately show ?thesis using 1(1)[OF True refl] 1(2) by metis
  next
    case False
    then show ?thesis using 1(2)[of runs opened] 1(3,4) by (simp add: merge_passes.simps[of key runs])
  qed
qed

text \<open>The chunks: all records in order, bounded in number, and in size up to the last record.\<close>

definition bounded_chunk :: "('a \<Rightarrow> nat) \<Rightarrow> 'a list \<Rightarrow> bool" where
  "bounded_chunk cost chunk \<longleftrightarrow> length chunk \<le> chunk_records \<and> sum_list (map cost (butlast chunk)) < chunk_bytes"

lemma sorted_runs_chunks:
  assumes "length chunk < chunk_records" and "bytes = sum_list (map cost chunk)" and "bytes < chunk_bytes"
  shows "\<exists>chunks. sorted_runs key cost chunk bytes records = map (sort_key key) chunks \<and> concat chunks = chunk @ records \<and>
    (\<forall>c \<in> set chunks. bounded_chunk cost c)"
  using assms
proof (induction key cost chunk bytes records rule: sorted_runs.induct)
  case (1 key cost chunk bytes)
  have "sum_list (map cost (butlast chunk)) \<le> sum_list (map cost chunk)"
    by (cases chunk rule: rev_cases) auto
  with 1 have "bounded_chunk cost chunk" by (simp add: bounded_chunk_def)
  then show ?case by (cases "chunk = []") (auto intro: exI[of _ "[]"] exI[of _ "[chunk]"])
next
  case (2 key cost chunk bytes r rs)
  let ?cut = "bytes + cost r \<ge> chunk_bytes \<or> length (chunk @ [r]) \<ge> chunk_records"
  have b: "bounded_chunk cost (chunk @ [r])" using 2(3-5) by (simp add: bounded_chunk_def)
  show ?case
  proof (cases ?cut)
    case True
    with 2(1)[OF refl refl] obtain chunks where "sorted_runs key cost [] 0 rs = map (sort_key key) chunks"
      "concat chunks = rs" "\<forall>c \<in> set chunks. bounded_chunk cost c" by (auto simp: chunk_records_def chunk_bytes_def)
    with True b show ?thesis by (intro exI[of _ "(chunk @ [r]) # chunks"]) (simp add: Let_def)
  next
    case False
    with 2(2)[OF refl refl] 2(3-5) show ?thesis by (simp add: Let_def)
  qed
qed

lemma sorted_runs_start:
  obtains chunks where "sorted_runs key cost [] 0 records = map (sort_key key) chunks" and "concat chunks = records"
    and "\<forall>c \<in> set chunks. bounded_chunk cost c"
  using sorted_runs_chunks[of "[]" 0 cost key records] by (auto simp: chunk_records_def chunk_bytes_def)

lemma external_sort_spec:
  obtains opened where "external_sort key cost records = (sort_key key records, opened)" and "\<forall>n \<in> set opened. n \<le> max_open_runs"
proof -
  obtain chunks where runs: "sorted_runs key cost [] 0 records = map (sort_key key) chunks" and all: "concat chunks = records"
    by (rule sorted_runs_start)
  have "\<forall>xs \<in> set (map (sort_key key) chunks). sorted (map key xs)" by auto
  then obtain runs' opened' where passes: "merge_passes key (map (sort_key key) chunks) [] = (runs', opened')"
    and "\<forall>xs \<in> set runs'. sorted (map key xs)" and opened: "length runs' \<le> max_open_runs" "\<forall>n \<in> set opened'. n \<le> max_open_runs"
    and "sort_key key (concat runs') = sort_key key (concat (map (sort_key key) chunks))"
    by (rule merge_passes_sorts) auto
  then have "merge_runs key runs' = (sort_key key records, length runs')"
    by (simp add: merge_runs_def heap_merge_sorts sort_key_concat_sorted all)
  with that[of "opened' @ [length runs']"] opened show thesis by (auto simp: external_sort_def runs passes)
qed

text \<open>The contract of the external sort.\<close>

lemma sorted_json_records_sorts: "sorted_json_records key cost records = sort_key key records"
  by (rule external_sort_spec[of key cost records]) (simp add: sorted_json_records_def)

text \<open>
  C23. The external merge sort returns the stable sort of the records by the key, for every key and
  however the records are cut into chunks. Its work is bounded as promised: every merge, of a pass
  and the last one, opens at most 32 run files; a chunk that is held and sorted in memory has at
  most 4096 records, and without its last record less than 8 MiB of JSON text; and the chunks
  are all the records in their order.
\<close>

theorem external_sort_is_stable_sort:
  "sorted_json_records key cost records = sort_key key records \<and>
   (\<exists>opened. external_sort key cost records = (sort_key key records, opened) \<and> list_all (\<lambda>n. n \<le> 32) opened) \<and>
   (\<exists>chunks. sorted_runs key cost [] 0 records = map (sort_key key) chunks \<and> concat chunks = records \<and>
      list_all (\<lambda>c. length c \<le> 4096 \<and> sum_list (map cost (butlast c)) < 8388608) chunks)"
proof -
  obtain opened where "external_sort key cost records = (sort_key key records, opened)" "\<forall>n \<in> set opened. n \<le> max_open_runs"
    by (rule external_sort_spec)
  moreover obtain chunks where "sorted_runs key cost [] 0 records = map (sort_key key) chunks" "concat chunks = records"
    "\<forall>c \<in> set chunks. bounded_chunk cost c" by (rule sorted_runs_start)
  ultimately show ?thesis
    by (auto simp: list_all_iff max_open_runs_def bounded_chunk_def chunk_records_def chunk_bytes_def sorted_json_records_def)
qed

end
