(* ===== verification/Finding_Dedup.thy ===== *)
theory Finding_Dedup
  imports Union_Find External_Sort "HOL-Library.Sublist"
begin

text \<open>
  Deduplication of review findings (\<open>engine/nodes/finding_dedup/core.py\<close>). Records with the same
  content are collapsed; the remaining candidates are handed in packets to an adjudicator (a
  language model), whose groups of duplicates are merged with the disjoint sets of \<open>Union_Find\<close>,
  one representative per class; a second phase repeats this per file.

  Arguments of the model: \<open>dumps\<close>, the JSON text of a pair of objects with sorted keys; \<open>cost\<close>, the size of a
  record's text; \<open>adjudicator\<close> and \<open>packet_fits\<close>, what the caller passes in; \<open>order\<close>, the order in which
  \<open>jobs.run\<close> returns the results of a window, a permutation by the scheduler's contract;
  \<open>int_of\<close>, Python's \<open>int\<close> on text. The journal files hold the records that were appended, in order.
  An operation that would raise is \<open>None\<close>.
\<close>

section \<open>Records and what the adjudicator sees\<close>

text \<open>JSON values as the code looks at them: truth value and \<open>str\<close> are all it asks of floats and containers.\<close>

datatype fval = FNull | FBool bool | FInt int | FStr string | FFloat bool string "int option" | FContainer bool string

definition truthy :: "fval \<Rightarrow> bool" where
  "truthy v = (case v of FNull \<Rightarrow> False | FBool b \<Rightarrow> b | FInt n \<Rightarrow> n \<noteq> 0 | FStr s \<Rightarrow> s \<noteq> []
     | FFloat b _ _ \<Rightarrow> b | FContainer b _ \<Rightarrow> b)"

definition py_str :: "fval \<Rightarrow> string" where
  "py_str v = (case v of FNull \<Rightarrow> ''None'' | FBool b \<Rightarrow> if b then ''True'' else ''False''
     | FInt n \<Rightarrow> show_int n
     | FStr s \<Rightarrow> s | FFloat _ t _ \<Rightarrow> t | FContainer _ t \<Rightarrow> t)"

definition fget :: "(string, fval) dict \<Rightarrow> string \<Rightarrow> fval" where
  "fget d k = (case map_of d k of None \<Rightarrow> FNull | Some v \<Rightarrow> v)"

text \<open>\<open>a or b\<close>.\<close>

definition py_or :: "fval \<Rightarrow> fval \<Rightarrow> fval" where
  "py_or a b = (if truthy a then a else b)"

definition safe_int :: "(string \<Rightarrow> int option) \<Rightarrow> fval \<Rightarrow> int \<Rightarrow> int" where
  "safe_int int_of v dflt =
     (case v of FBool b \<Rightarrow> if b then 1 else 0 | FInt n \<Rightarrow> n
      | FStr s \<Rightarrow> (case int_of s of None \<Rightarrow> dflt | Some n \<Rightarrow> n)
      | FFloat _ _ i \<Rightarrow> (case i of None \<Rightarrow> dflt | Some n \<Rightarrow> n)
      | _ \<Rightarrow> dflt)"

record review_record =
  rr_group :: "(string, fval) dict"
  rr_finding :: "(string, fval) dict"
  rr_position :: "int list"
  rr_index :: int

record payload =
  pl_index :: int
  pl_description :: string
  pl_root_cause :: string
  pl_evidence :: string
  pl_primary_file :: string
  pl_primary_function :: string
  pl_primary_line :: int
  pl_analysis_type :: string
  pl_canonical_key :: string

definition adjudication_payload :: "(string \<Rightarrow> int option) \<Rightarrow> review_record \<Rightarrow> payload" where
  "adjudication_payload int_of r =
     (let f = fget (rr_finding r); g = fget (rr_group r); text = (\<lambda>v. py_str (py_or v (FStr ''''))) in
      \<lparr>pl_index = rr_index r,
       pl_description = text (f ''issue''),
       pl_root_cause = text (f ''root_cause''),
       pl_evidence = text (py_or (f ''reasoning'') (f ''evidence'')),
       pl_primary_file = text (py_or (py_or (f ''primary_file'') (g ''file'')) (g ''file_path'')),
       pl_primary_function = text (f ''primary_function''),
       pl_primary_line = safe_int int_of (py_or (f ''primary_line'') (f ''line_number'')) 0,
       pl_analysis_type = text (f ''analysis_type''),
       pl_canonical_key = text (f ''canonical_key'')\<rparr>)"

datatype scope = FunctionScope | FileScope

definition payload_scope_key :: "payload \<Rightarrow> scope \<Rightarrow> string list" where
  "payload_scope_key p sc = (case sc of FileScope \<Rightarrow> [pl_primary_file p]
     | FunctionScope \<Rightarrow> [pl_primary_file p, pl_primary_function p])"

definition payload_sort_key :: "payload \<Rightarrow> string \<times> string \<times> int" where
  "payload_sort_key p = (pl_primary_file p, pl_primary_function p, pl_index p)"

section \<open>Exact duplicates\<close>

fun first_of_runs :: "('a \<Rightarrow> 'k) \<Rightarrow> 'k option \<Rightarrow> 'a list \<Rightarrow> 'a list" where
  "first_of_runs key previous [] = []"
| "first_of_runs key previous (x # xs) =
     (if previous = Some (key x) then first_of_runs key previous xs
      else x # first_of_runs key (Some (key x)) xs)"

type_synonym dumps = "(string, fval) dict \<Rightarrow> (string, fval) dict \<Rightarrow> string"

definition record_identity :: "dumps \<Rightarrow> review_record \<Rightarrow> string" where
  "record_identity dumps r = dumps (rr_group r) (filter (\<lambda>(k, _). k \<noteq> ''id'') (rr_finding r))"

definition unique_records :: "dumps \<Rightarrow> (review_record \<Rightarrow> nat) \<Rightarrow> review_record list \<Rightarrow> review_record list" where
  "unique_records dumps cost records =
     first_of_runs (record_identity dumps) None
       (sorted_json_records (\<lambda>r. (record_identity dumps r, rr_position r)) cost records)"

definition candidate_records :: "dumps \<Rightarrow> (review_record \<Rightarrow> nat) \<Rightarrow> review_record list \<Rightarrow> review_record list" where
  "candidate_records dumps cost records =
     map (\<lambda>(i, r). r\<lparr>rr_index := int i\<rparr>)
       (enumerate 0 (sorted_json_records rr_position cost (unique_records dumps cost records)))"

section \<open>Merging what the adjudicator groups\<close>

record duplicate_group =
  dg_members :: "int list"
  dg_representative :: int

type_synonym decision = "duplicate_group list"

definition acceptable :: "int set \<Rightarrow> duplicate_group \<Rightarrow> bool" where
  "acceptable batch_indexes g \<longleftrightarrow>
     (let members = fromkeys (dg_members g) in
      \<not> (length members < 2 \<or> (\<exists>m \<in> set members. m \<notin> batch_indexes) \<or> dg_representative g \<notin> set members))"

definition merge_group :: "int set \<Rightarrow> int parents \<times> int list \<Rightarrow> duplicate_group \<Rightarrow> (int parents \<times> int list) option" where
  "merge_group batch_indexes st g =
     (if acceptable batch_indexes g
      then map_option (\<lambda>par. (par, snd st @ [dg_representative g]))
        (fold_opt (\<lambda>par m. uf_union par (dg_representative g) m) (fst st) (fromkeys (dg_members g)))
      else Some st)"

definition merge_decision_groups :: "int parents \<Rightarrow> decision option \<Rightarrow> int set \<Rightarrow> (int parents \<times> int list) option" where
  "merge_decision_groups par decision batch_indexes =
     (case decision of None \<Rightarrow> Some (par, [])
      | Some groups \<Rightarrow> fold_opt (merge_group batch_indexes) (par, []) groups)"

definition preferred_representative :: "int list \<Rightarrow> int list \<Rightarrow> int" where
  "preferred_representative members preferences =
     (case find (\<lambda>p. p \<in> set members) (rev preferences) of Some p \<Rightarrow> p | None \<Rightarrow> Min (set members))"

definition representative_indexes :: "int parents \<Rightarrow> int list \<Rightarrow> int list option" where
  "representative_indexes par preferences =
     map_option (\<lambda>gs. sort (map (\<lambda>g. preferred_representative g preferences) gs)) (uf_groups par)"

definition decide :: "(review_record \<Rightarrow> 'p) \<Rightarrow> ('p list \<Rightarrow> decision option) \<Rightarrow> ('p list \<Rightarrow> bool)
    \<Rightarrow> review_record list \<Rightarrow> review_record list option" where
  "decide payload adjudicator packet_fits batch =
     (if length batch < 2 then Some batch
      else let descriptions = map payload batch in
        if \<not> packet_fits descriptions then Some batch
        else let indexes = fromkeys (map rr_index batch) in
          Option.bind (merge_decision_groups (uf_create indexes) (adjudicator descriptions) (set indexes))
          (\<lambda>(par, preferences). map_option (\<lambda>representatives.
             filter (\<lambda>r. rr_index r \<in> set representatives) batch) (representative_indexes par preferences)))"

section \<open>Packets and phases\<close>

text \<open>\<open>keep\<close>: windows of as many batches as there are workers; the survivors of a window come in the
  order in which its jobs complete.\<close>

definition keep :: "(review_record list list \<Rightarrow> review_record list list) \<Rightarrow> nat
    \<Rightarrow> (review_record list \<Rightarrow> review_record list option) \<Rightarrow> review_record list list \<Rightarrow> review_record list option" where
  "keep order workers decide_batch batches =
     map_option (concat \<circ> concat) (map_opt (\<lambda>window. map_opt decide_batch (order window)) (slices workers batches))"

text \<open>\<open>whole_packet\<close>: the records so far are checked whenever their number reaches the next power of two, and at the end.\<close>

fun whole_packet_from :: "(review_record \<Rightarrow> 'p) \<Rightarrow> ('p list \<Rightarrow> bool) \<Rightarrow> review_record list \<Rightarrow> nat
    \<Rightarrow> review_record list \<Rightarrow> review_record list option" where
  "whole_packet_from payload fits batch next_check [] =
     (if batch \<noteq> [] \<and> \<not> fits (map payload batch) then None else Some batch)"
| "whole_packet_from payload fits batch next_check (r # rs) =
     (let batch' = batch @ [r] in
      if length batch' = next_check
      then (if fits (map payload batch') then whole_packet_from payload fits batch' (2 * next_check) rs else None)
      else whole_packet_from payload fits batch' next_check rs)"

definition whole_packet :: "(review_record \<Rightarrow> 'p) \<Rightarrow> ('p list \<Rightarrow> bool) \<Rightarrow> review_record list \<Rightarrow> review_record list option" where
  "whole_packet payload fits entries = whole_packet_from payload fits [] 1 entries"

fun groupby_from :: "('a \<Rightarrow> 'k) \<Rightarrow> 'a list \<Rightarrow> 'a list \<Rightarrow> 'a list list" where
  "groupby_from key current [] = (if current = [] then [] else [current])"
| "groupby_from key current (x # xs) =
     (if current = [] \<or> key (hd current) = key x then groupby_from key (current @ [x]) xs
      else current # groupby_from key [x] xs)"

fun pack :: "(review_record \<Rightarrow> 'p) \<Rightarrow> ('p list \<Rightarrow> bool) \<Rightarrow> review_record list \<Rightarrow> review_record list
    \<Rightarrow> review_record list list" where
  "pack payload fits batch [] = (if batch = [] then [] else [batch])"
| "pack payload fits batch (r # rs) =
     (if batch \<noteq> [] \<and> \<not> fits (map payload batch @ [payload r])
      then batch # pack payload fits [r] rs
      else pack payload fits (batch @ [r]) rs)"

definition batches :: "(string \<Rightarrow> int option) \<Rightarrow> (payload list \<Rightarrow> bool) \<Rightarrow> scope \<Rightarrow> review_record list
    \<Rightarrow> review_record list list" where
  "batches int_of fits sc ordered =
     concat (map (pack (adjudication_payload int_of) fits [])
       (groupby_from (\<lambda>r. payload_scope_key (adjudication_payload int_of r) sc) [] ordered))"

record dedup_env =
  de_dumps :: dumps
  de_cost :: "review_record \<Rightarrow> nat"
  de_int_of :: "string \<Rightarrow> int option"
  de_order :: "review_record list list \<Rightarrow> review_record list list"
  de_workers :: nat

definition dedup_phase :: "dedup_env \<Rightarrow> (payload list \<Rightarrow> decision option) \<Rightarrow> (payload list \<Rightarrow> bool) \<Rightarrow> scope
    \<Rightarrow> review_record list \<Rightarrow> (bool \<times> review_record list) option" where
  "dedup_phase env adjudicator fits sc current =
     (let pl = adjudication_payload (de_int_of env);
          run = keep (de_order env) (de_workers env) (decide pl adjudicator fits);
          entries = (case sc of FunctionScope \<Rightarrow> current
            | FileScope \<Rightarrow> sorted_json_records rr_index (de_cost env) current)
      in case whole_packet pl fits entries of
           Some batch \<Rightarrow> map_option (Pair True) (run [batch])
         | None \<Rightarrow> map_option (Pair False) (run (batches (de_int_of env) fits sc
             (sorted_json_records (payload_sort_key \<circ> pl) (de_cost env) current))))"

text \<open>An absent adjudicator or packet test (\<open>None\<close>) leaves the candidates as they are.\<close>

definition consolidate_records :: "dedup_env \<Rightarrow> (payload list \<Rightarrow> decision option) option
    \<Rightarrow> (payload list \<Rightarrow> bool) option \<Rightarrow> review_record list \<Rightarrow> review_record list option" where
  "consolidate_records env adjudicator packet_fits records =
     (let current = candidate_records (de_dumps env) (de_cost env) records in
      case (adjudicator, packet_fits) of
        (Some adj, Some fits) \<Rightarrow>
          if length current < 2 then Some current
          else Option.bind (dedup_phase env adj fits FunctionScope current) (\<lambda>(final, out).
            if final then Some out
            else map_option snd (dedup_phase env adj fits FileScope out))
      | _ \<Rightarrow> Some current)"

section \<open>Exact duplicates are collapsed\<close>

lemma first_of_runs_subset: "set (first_of_runs key previous xs) \<subseteq> set xs"
  by (induction key previous xs rule: first_of_runs.induct) auto

lemma first_of_runs_spec:
  assumes "sorted (map (\<lambda>x. (key x, pos x)) xs)" and "\<forall>x \<in> set xs. \<forall>k. previous = Some k \<longrightarrow> k \<le> key x"
  shows "distinct (map key (first_of_runs key previous xs)) \<and>
    (\<forall>y \<in> set (first_of_runs key previous xs). previous \<noteq> Some (key y)) \<and>
    (\<forall>x \<in> set xs. previous \<noteq> Some (key x) \<longrightarrow>
      (\<exists>y \<in> set (first_of_runs key previous xs). key y = key x \<and> pos y \<le> pos x))"
  using assms
proof (induction xs arbitrary: previous)
  case Nil
  then show ?case by simp
next
  case (Cons x xs)
  have tail: "sorted (map (\<lambda>x. (key x, pos x)) xs)" using Cons.prems(1) by simp
  have le: "key x \<le> key y" "key y = key x \<Longrightarrow> pos x \<le> pos y" if "y \<in> set xs" for y
    using Cons.prems(1) that by auto
  show ?case
  proof (cases "previous = Some (key x)")
    case True
    have "\<forall>y \<in> set xs. \<forall>k. previous = Some k \<longrightarrow> k \<le> key y" using Cons.prems(2) by simp
    from Cons.IH[OF tail this] True show ?thesis by simp
  next
    case False
    have "\<forall>y \<in> set xs. \<forall>k. Some (key x) = Some k \<longrightarrow> k \<le> key y" using le(1) by simp
    note IH = Cons.IH[OF tail this]
    let ?ys = "first_of_runs key (Some (key x)) xs"
    have "previous \<noteq> Some (key y)" if "y \<in> set ?ys" for y
    proof
      assume p: "previous = Some (key y)"
      have "y \<in> set xs" using that first_of_runs_subset[of key "Some (key x)" xs] by blast
      then have "key x \<le> key y" using le(1) by blast
      moreover have "key y \<le> key x" using Cons.prems(2) p by simp
      ultimately show False using p False by simp
    qed
    moreover have "\<exists>y \<in> set (x # ?ys). key y = key z \<and> pos y \<le> pos z" if "z \<in> set (x # xs)" for z
    proof (cases "key z = key x")
      case True
      with that le(2)[of z] show ?thesis by (intro bexI[of _ x]) auto
    next
      case ne: False
      with that IH show ?thesis by auto
    qed
    ultimately show ?thesis using False IH by auto
  qed
qed

lemma unique_records_spec:
  fixes dumps cost records
  defines "us \<equiv> unique_records dumps cost records"
  shows "set us \<subseteq> set records" and "distinct (map (record_identity dumps) us)"
    and "\<And>r. r \<in> set records \<Longrightarrow>
      \<exists>u \<in> set us. record_identity dumps u = record_identity dumps r \<and> rr_position u \<le> rr_position r"
proof -
  let ?sorted = "sort_key (\<lambda>r. (record_identity dumps r, rr_position r)) records"
  have us: "us = first_of_runs (record_identity dumps) None ?sorted"
    by (simp add: us_def unique_records_def sorted_json_records_sorts)
  note spec = first_of_runs_spec[of "record_identity dumps" rr_position ?sorted None]
  show "set us \<subseteq> set records" using first_of_runs_subset[of "record_identity dumps" None ?sorted] us by simp
  show "distinct (map (record_identity dumps) us)" using spec us by simp
  show "\<exists>u \<in> set us. record_identity dumps u = record_identity dumps r \<and> rr_position u \<le> rr_position r"
    if "r \<in> set records" for r
    using spec us that by simp
qed

lemma map_enumerate: "map (\<lambda>(i, r). f i r) (enumerate n xs) = map (\<lambda>i. f (n + i) (xs ! i)) [0..<length xs]"
  by (rule nth_equalityI) (simp_all add: nth_enumerate_eq)

lemma candidate_records_eq:
  fixes dumps cost records
  defines "us \<equiv> sort_key rr_position (unique_records dumps cost records)"
  shows "candidate_records dumps cost records = map (\<lambda>i. (us ! i)\<lparr>rr_index := int i\<rparr>) [0..<length us]"
  by (simp add: candidate_records_def sorted_json_records_sorts us_def map_enumerate)

lemma candidate_indexes: "map rr_index (candidate_records dumps cost records) = map int [0..<length (candidate_records dumps cost records)]"
  by (simp add: candidate_records_eq)

lemma candidate_indexes_distinct: "distinct (map rr_index (candidate_records dumps cost records))"
  by (simp add: candidate_indexes distinct_map)

lemma identity_index [simp]: "record_identity dumps (r\<lparr>rr_index := i\<rparr>) = record_identity dumps r"
  by (simp add: record_identity_def)

section \<open>One representative per class\<close>

definition accepted_pairs :: "int set \<Rightarrow> decision option \<Rightarrow> (int \<times> int) list" where
  "accepted_pairs B decision =
     (case decision of None \<Rightarrow> []
      | Some gs \<Rightarrow> concat (map (\<lambda>g. map (Pair (dg_representative g)) (fromkeys (dg_members g))) (filter (acceptable B) gs)))"

lemma accepted_pairs_subset: "set (accepted_pairs B decision) \<subseteq> B \<times> B"
  by (auto simp: accepted_pairs_def acceptable_def Let_def split: option.splits)

lemma fold_opt_map: "fold_opt f s (map g xs) = fold_opt (\<lambda>s x. f s (g x)) s xs"
  by (induction xs arbitrary: s) auto

lemma merge_groups_unions:
  "fold_opt (merge_group B) (par, prefs) gs =
     map_option (\<lambda>par'. (par', prefs @ map dg_representative (filter (acceptable B) gs)))
       (uf.unions par (accepted_pairs B (Some gs)))"
proof (induction gs arbitrary: par prefs)
  case Nil
  then show ?case by (simp add: accepted_pairs_def uf.unions_def)
next
  case (Cons g gs)
  show ?case
  proof (cases "acceptable B g")
    case False
    with Cons.IH show ?thesis by (simp add: merge_group_def accepted_pairs_def)
  next
    case True
    let ?one = "fold_opt (\<lambda>par m. uf_union par (dg_representative g) m) par (fromkeys (dg_members g))"
    have one: "uf.unions par (map (Pair (dg_representative g)) (fromkeys (dg_members g))) = ?one"
      by (simp add: uf.unions_def fold_opt_map)
    have "uf.unions par (accepted_pairs B (Some (g # gs))) = Option.bind ?one (\<lambda>par'. uf.unions par' (accepted_pairs B (Some gs)))"
      using True one by (simp add: accepted_pairs_def uf.unions_def fold_opt_append)
    with True Cons.IH show ?thesis by (cases ?one) (simp_all add: merge_group_def)
  qed
qed

lemma merge_decision_unions:
  "\<exists>prefs. merge_decision_groups par decision B = map_option (\<lambda>par'. (par', prefs)) (uf.unions par (accepted_pairs B decision))"
proof (cases decision)
  case None
  then show ?thesis by (simp add: merge_decision_groups_def accepted_pairs_def uf.unions_def)
next
  case (Some gs)
  with merge_groups_unions[of B par "[]" gs] show ?thesis by (auto simp: merge_decision_groups_def)
qed

lemma preferred_member: "members \<noteq> [] \<Longrightarrow> preferred_representative members preferences \<in> set members"
  by (auto simp: preferred_representative_def find_Some_iff split: option.splits)

text \<open>What a batch decides: the equivalence generated by the accepted groups.\<close>

definition batch_equiv :: "(review_record \<Rightarrow> 'p) \<Rightarrow> ('p list \<Rightarrow> decision option) \<Rightarrow> ('p list \<Rightarrow> bool)
    \<Rightarrow> review_record list \<Rightarrow> (int \<times> int) set" where
  "batch_equiv payload adjudicator fits batch =
     (let B = set (map rr_index batch) in
      equiv_closure B (if length batch < 2 \<or> \<not> fits (map payload batch) then {}
        else set (accepted_pairs B (adjudicator (map payload batch)))))"

lemma decide_trivial:
  assumes "length batch < 2 \<or> \<not> fits (map payload batch)"
  shows "decide payload adjudicator fits batch = Some batch"
    and "batch_equiv payload adjudicator fits batch = Id_on (set (map rr_index batch))"
  using assms by (auto simp: decide_def Let_def batch_equiv_def equiv_closure_empty)

lemma decide_groups:
  assumes dist: "distinct (map rr_index batch)" and go: "\<not> (length batch < 2 \<or> \<not> fits (map payload batch))"
  obtains gs prefs where
    "decide payload adjudicator fits batch = Some (filter (\<lambda>r. rr_index r \<in> (\<lambda>g. preferred_representative g prefs) ` set gs) batch)"
    and "set ` set gs = set (map rr_index batch) // batch_equiv payload adjudicator fits batch" and "distinct (map set gs)"
proof -
  let ?B = "set (map rr_index batch)"
  let ?pairs = "accepted_pairs ?B (adjudicator (map payload batch))"
  from uf.merged_groups[OF dist, of ?pairs] accepted_pairs_subset obtain par gs where
    par: "uf.unions (uf_create (map rr_index batch)) ?pairs = Some par" and gs: "uf_groups par = Some gs"
    and cls: "set ` set gs = ?B // equiv_closure ?B (set ?pairs)" and d: "distinct (map set gs)" by blast
  obtain prefs where prefs: "merge_decision_groups (uf_create (map rr_index batch)) (adjudicator (map payload batch)) ?B = Some (par, prefs)"
    using merge_decision_unions[of "uf_create (map rr_index batch)" "adjudicator (map payload batch)" ?B] par by auto
  have "decide payload adjudicator fits batch = Some (filter (\<lambda>r. rr_index r \<in> (\<lambda>g. preferred_representative g prefs) ` set gs) batch)"
    using go prefs gs by (simp add: decide_def Let_def fromkeys_id[OF dist] representative_indexes_def)
  moreover have "batch_equiv payload adjudicator fits batch = equiv_closure ?B (set ?pairs)"
    using go by (auto simp: batch_equiv_def Let_def)
  ultimately show thesis using that cls d by simp
qed

lemma equiv_closure_equiv: "r \<subseteq> A \<times> A \<Longrightarrow> equiv A (equiv_closure A r)"
proof (rule equivI)
  show "equiv_closure A r \<subseteq> A \<times> A" by (auto simp: equiv_closure_def)
  show "refl_on A (equiv_closure A r)" by (auto simp: refl_on_def equiv_closure_def)
  have "sym ((r \<union> r\<inverse>)\<^sup>*)" by (intro sym_rtrancl) (auto simp: sym_def)
  then show "sym (equiv_closure A r)" by (auto simp: sym_def equiv_closure_def)
  show "trans (equiv_closure A r)" by (auto simp: trans_def equiv_closure_def)
qed

lemma batch_equiv_equiv: "equiv (set (map rr_index batch)) (batch_equiv payload adjudicator fits batch)"
  unfolding batch_equiv_def Let_def
  by (rule equiv_closure_equiv) (use accepted_pairs_subset in auto)

lemma index_unique:
  "distinct (map rr_index batch) \<Longrightarrow> r \<in> set batch \<Longrightarrow> s \<in> set batch \<Longrightarrow> rr_index r = rr_index s \<Longrightarrow> r = s"
  by (simp add: distinct_map inj_on_def)

lemma one_representative:
  assumes dist: "distinct (map rr_index batch)" and eq: "equiv (set (map rr_index batch)) E"
    and cls: "set ` set gs = set (map rr_index batch) // E" and d: "distinct (map set gs)"
    and mem: "\<And>g. g \<noteq> [] \<Longrightarrow> pick g \<in> set g" and r: "r \<in> set batch"
  shows "\<exists>!s. s \<in> set (filter (\<lambda>r. rr_index r \<in> pick ` set gs) batch) \<and> (rr_index r, rr_index s) \<in> E"
proof -
  let ?B = "set (map rr_index batch)"
  have sub: "E \<subseteq> ?B \<times> ?B" using equiv_type[OF eq] .
  have rfl: "(x, x) \<in> E" if "x \<in> ?B" for x using eq that by (meson equivE refl_onD)
  have sm: "(y, x) \<in> E" if "(x, y) \<in> E" for x y using eq that by (meson equivE symD)
  have tr: "(x, z) \<in> E" if "(x, y) \<in> E" "(y, z) \<in> E" for x y z using eq that by (meson equivE transD)
  have "E `` {rr_index r} \<in> ?B // E" using r by (intro quotientI) simp
  then have "E `` {rr_index r} \<in> set ` set gs" unfolding cls .
  then obtain g where g: "g \<in> set gs" "set g = E `` {rr_index r}" by auto
  have "rr_index r \<in> set g" using g(2) rfl[of "rr_index r"] r by simp
  then have ne: "g \<noteq> []" by auto
  then have p: "(rr_index r, pick g) \<in> E" using mem[of g] g(2) by auto
  then have "pick g \<in> ?B" using sub by blast
  then obtain s where s: "s \<in> set batch" "rr_index s = pick g" by auto
  have inj: "g' = g" if "g' \<in> set gs" "set g' = set g" for g'
    using d that g(1) by (auto simp: distinct_map inj_on_def)
  show ?thesis
  proof (rule ex1I[of _ s])
    show "s \<in> set (filter (\<lambda>r. rr_index r \<in> pick ` set gs) batch) \<and> (rr_index r, rr_index s) \<in> E"
      using s g(1) p by auto
    fix t
    assume t: "t \<in> set (filter (\<lambda>r. rr_index r \<in> pick ` set gs) batch) \<and> (rr_index r, rr_index t) \<in> E"
    then obtain g' where g': "g' \<in> set gs" "rr_index t = pick g'" by auto
    have "set g' \<in> ?B // E" unfolding cls[symmetric] using g'(1) by (rule imageI)
    then obtain x where x: "x \<in> ?B" "set g' = E `` {x}" by (rule quotientE)
    have "x \<in> set g'" using x rfl by simp
    then have "g' \<noteq> []" by auto
    then have "(x, rr_index t) \<in> E" using mem[of g'] g'(2) x(2) by auto
    then have "(x, rr_index r) \<in> E" using t sm tr by blast
    then have "set g' = set g" using x(2) g(2) equiv_class_eq[OF eq] by simp
    then have "rr_index t = rr_index s" using inj[OF g'(1)] g'(2) s(2) by simp
    then show "t = s" using index_unique[OF dist] t s(1) by auto
  qed
qed

lemma decide_spec:
  assumes dist: "distinct (map rr_index batch)"
  shows "\<exists>survivors. decide payload adjudicator fits batch = Some survivors \<and> subseq survivors batch \<and>
    (\<forall>r \<in> set batch. \<exists>!s. s \<in> set survivors \<and> (rr_index r, rr_index s) \<in> batch_equiv payload adjudicator fits batch)"
proof (cases "length batch < 2 \<or> \<not> fits (map payload batch)")
  case True
  have "\<exists>!s. s \<in> set batch \<and> (rr_index r, rr_index s) \<in> Id_on (set (map rr_index batch))" if "r \<in> set batch" for r
    using that index_unique[OF dist] by (intro ex1I[of _ r]) auto
  moreover note decide_trivial[where batch = batch and fits = fits and payload = payload and adjudicator = adjudicator, OF True]
  ultimately show ?thesis by simp
next
  case False
  from decide_groups[where fits = fits and payload = payload and adjudicator = adjudicator, OF dist False] obtain gs prefs where
    dec: "decide payload adjudicator fits batch = Some (filter (\<lambda>r. rr_index r \<in> (\<lambda>g. preferred_representative g prefs) ` set gs) batch)"
    and cls: "set ` set gs = set (map rr_index batch) // batch_equiv payload adjudicator fits batch" and d: "distinct (map set gs)" .
  from one_representative[OF dist batch_equiv_equiv cls d, of "\<lambda>g. preferred_representative g prefs"] dec
  show ?thesis by (auto simp: preferred_member)
qed

section \<open>Nothing is dropped without a reason\<close>

text \<open>Two records of one batch that the adjudicator put into one group.\<close>

definition judged :: "(review_record \<Rightarrow> 'p) \<Rightarrow> ('p list \<Rightarrow> decision option) \<Rightarrow> (review_record \<times> review_record) set" where
  "judged payload adjudicator = {(x, y). \<exists>batch d g. adjudicator (map payload batch) = Some d \<and> g \<in> set d \<and>
     x \<in> set batch \<and> y \<in> set batch \<and> rr_index x \<in> set (dg_members g) \<and> rr_index y \<in> set (dg_members g)}"

lemma accepted_pair_judged:
  assumes "(rr_index x, rr_index y) \<in> set (accepted_pairs B (adjudicator (map payload batch)))"
    and "x \<in> set batch" and "y \<in> set batch"
  shows "(x, y) \<in> judged payload adjudicator" and "(y, x) \<in> judged payload adjudicator"
proof -
  from assms(1) obtain d g where "adjudicator (map payload batch) = Some d" "g \<in> set d" "acceptable B g"
    "rr_index x = dg_representative g" "rr_index y \<in> set (dg_members g)"
    by (cases "adjudicator (map payload batch)") (auto simp: accepted_pairs_def)
  moreover from this have "rr_index x \<in> set (dg_members g)" by (simp add: acceptable_def Let_def)
  ultimately show "(x, y) \<in> judged payload adjudicator" "(y, x) \<in> judged payload adjudicator"
    using assms(2,3) unfolding judged_def by blast+
qed

lemma batch_equiv_judged:
  assumes dist: "distinct (map rr_index batch)" and xy: "x \<in> set batch" "y \<in> set batch"
    and "(rr_index x, rr_index y) \<in> batch_equiv payload adjudicator fits batch"
  shows "(x, y) \<in> (judged payload adjudicator)\<^sup>*"
proof -
  let ?B = "set (map rr_index batch)"
  let ?P = "if length batch < 2 \<or> \<not> fits (map payload batch) then {}
        else set (accepted_pairs ?B (adjudicator (map payload batch)))"
  have sub: "?P \<union> ?P\<inverse> \<subseteq> ?B \<times> ?B" using accepted_pairs_subset by auto
  from assms(4) have "(rr_index x, rr_index y) \<in> (?P \<union> ?P\<inverse>)\<^sup>*"
    unfolding batch_equiv_def Let_def equiv_closure_def by blast
  then have "\<forall>y \<in> set batch. rr_index y = j \<longrightarrow> (x, y) \<in> (judged payload adjudicator)\<^sup>*" if "j = rr_index y" for j
    unfolding that
  proof (induction rule: rtrancl_induct)
    case base
    show ?case
    proof (intro ballI impI)
      fix z
      assume "z \<in> set batch" "rr_index z = rr_index x"
      then have "x = z" by (intro index_unique[OF dist xy(1)]) simp_all
      then show "(x, z) \<in> (judged payload adjudicator)\<^sup>*" by simp
    qed
  next
    case (step b c)
    show ?case
    proof (intro ballI impI)
      fix z
      assume z: "z \<in> set batch" "rr_index z = c"
      have "b \<in> ?B" using step.hyps(2) sub by blast
      then obtain w where w: "w \<in> set batch" "rr_index w = b" by auto
      have "(rr_index w, rr_index z) \<in> ?P \<or> (rr_index z, rr_index w) \<in> ?P" using step.hyps(2) w z by auto
      then have "(w, z) \<in> judged payload adjudicator"
        using accepted_pair_judged[where payload = payload and adjudicator = adjudicator and batch = batch] w(1) z(1) by (auto split: if_splits)
      moreover have "(x, w) \<in> (judged payload adjudicator)\<^sup>*" using step.IH w by blast
      ultimately show "(x, z) \<in> (judged payload adjudicator)\<^sup>*" by (metis rtrancl.rtrancl_into_rtrancl)
    qed
  qed
  with xy(2) show ?thesis by blast
qed

text \<open>\<open>ys\<close> keeps \<open>xs\<close>: nothing new, and for every record a kept one it was judged equal to.\<close>

definition keeps :: "(review_record \<times> review_record) set \<Rightarrow> review_record list \<Rightarrow> review_record list \<Rightarrow> bool" where
  "keeps J xs ys \<longleftrightarrow> mset ys \<subseteq># mset xs \<and> (\<forall>x \<in> set xs. \<exists>y \<in> set ys. (x, y) \<in> J\<^sup>*)"

lemma keeps_perm: "mset xs = mset ys \<Longrightarrow> keeps J xs ys"
  unfolding keeps_def by (metis rtrancl.rtrancl_refl set_mset_mset subset_mset.order_refl)

lemma keeps_trans: "keeps J xs ys \<Longrightarrow> keeps J ys zs \<Longrightarrow> keeps J xs zs"
  unfolding keeps_def by (meson rtrancl_trans subset_mset.order_trans)

lemma keeps_append: "keeps J xs ys \<Longrightarrow> keeps J us vs \<Longrightarrow> keeps J (xs @ us) (ys @ vs)"
  by (auto simp: keeps_def intro: subset_mset.add_mono)

lemma keeps_concat: "list_all2 (keeps J) xss yss \<Longrightarrow> keeps J (concat xss) (concat yss)"
  by (induction rule: list_all2_induct) (auto simp: keeps_perm intro: keeps_append)

lemma keeps_distinct:
  assumes "keeps J xs ys" and "distinct (map rr_index xs)"
  shows "distinct (map rr_index ys)"
proof -
  have "mset (map rr_index ys) \<subseteq># mset (map rr_index xs)"
    using assms(1) by (simp add: keeps_def image_mset_subseteq_mono)
  then show ?thesis
    using assms(2) by (metis distinct_append mset_append mset_eq_imp_distinct_iff subset_mset.add_diff_inverse ex_mset)
qed

lemma subseq_mset: "subseq xs ys \<Longrightarrow> mset xs \<subseteq># mset ys"
proof (induction rule: list_emb.induct)
  case (list_emb_Cons xs ys y)
  then show ?case by (metis mset.simps(2) subset_mset.order_trans mset_subset_eq_add_mset_cancel add_mset_add_single mset_subset_eq_add_left)
qed simp_all

lemma decide_keeps:
  assumes "distinct (map rr_index batch)"
  shows "\<exists>survivors. decide payload adjudicator fits batch = Some survivors \<and> keeps (judged payload adjudicator) batch survivors"
proof -
  from decide_spec[OF assms, of payload adjudicator fits] obtain survivors where
    dec: "decide payload adjudicator fits batch = Some survivors" and sub: "subseq survivors batch"
    and rep: "\<forall>r \<in> set batch. \<exists>!s. s \<in> set survivors \<and> (rr_index r, rr_index s) \<in> batch_equiv payload adjudicator fits batch" by blast
  have "set survivors \<subseteq> set batch" using sub by (metis notin_set_nthsI subseq_conv_nths subsetI)
  then have "\<forall>r \<in> set batch. \<exists>s \<in> set survivors. (r, s) \<in> (judged payload adjudicator)\<^sup>*"
    using rep batch_equiv_judged[OF assms] by blast
  then have "keeps (judged payload adjudicator) batch survivors"
    using subseq_mset[OF sub] by (simp add: keeps_def)
  with dec show ?thesis by blast
qed
section \<open>Batches, phases, the whole pipeline\<close>

lemma concat_groupby: "concat (groupby_from key current xs) = current @ xs"
  by (induction key current xs rule: groupby_from.induct) auto

lemma concat_pack: "concat (pack payload fits batch rs) = batch @ rs"
  by (induction payload fits batch rs rule: pack.induct) auto

lemma concat_batches: "concat (batches int_of fits sc ordered) = ordered"
proof -
  let ?p = "pack (adjudication_payload int_of) fits []"
  have "concat (concat (map ?p gs)) = concat gs" for gs by (induction gs) (auto simp: concat_pack)
  then show ?thesis by (simp add: batches_def concat_groupby)
qed

lemma whole_packet_from_spec:
  "whole_packet_from payload fits batch n rs = Some b \<Longrightarrow> b = batch @ rs \<and> (b \<noteq> [] \<longrightarrow> fits (map payload b))"
  by (induction payload fits batch n rs rule: whole_packet_from.induct) (auto simp: Let_def split: if_splits)

lemma whole_packet_spec: "whole_packet payload fits entries = Some b \<Longrightarrow> b = entries \<and> (b \<noteq> [] \<longrightarrow> fits (map payload b))"
  using whole_packet_from_spec[of payload fits "[]" 1 entries b] by (auto simp: whole_packet_def)

lemma mset_concat_perm: "mset xss = mset yss \<Longrightarrow> mset (concat xss) = mset (concat yss)"
  by (metis mset_concat mset_map sum_mset_sum_list)

lemma sub_batch_distinct:
  "distinct (map rr_index (concat bs)) \<Longrightarrow> b \<in> set bs \<Longrightarrow> distinct (map rr_index b)"
  by (induction bs) auto

lemma keep_keeps:
  assumes perm: "\<And>w. mset (order w) = mset w" and "0 < workers"
    and dec: "\<And>b. distinct (map rr_index b) \<Longrightarrow> \<exists>ys. decide_batch b = Some ys \<and> keeps J b ys"
    and dist: "distinct (map rr_index (concat bs))"
  shows "\<exists>out. keep order workers decide_batch bs = Some out \<and> keeps J (concat bs) out"
proof -
  let ?ws = "slices workers bs"
  have ws: "concat ?ws = bs" by (rule concat_slices[OF assms(2)])
  have "\<exists>yss. map_opt decide_batch (order w) = Some yss \<and> keeps J (concat w) (concat yss)" if "w \<in> set ?ws" for w
  proof -
    have "set w \<subseteq> set bs" using that ws by (metis concat.simps(2) in_set_conv_decomp set_concat UN_I subsetI)
    then have "\<exists>ys. decide_batch b = Some ys \<and> keeps J b ys" if "b \<in> set (order w)" for b
      using that dec sub_batch_distinct[OF dist] perm[of w] by (metis set_mset_mset subsetD)
    from map_opt_total[where f = decide_batch and P = "keeps J" and xs = "order w", OF this]
    obtain yss where "map_opt decide_batch (order w) = Some yss" "list_all2 (keeps J) (order w) yss" by blast
    moreover from this(2) have "keeps J (concat (order w)) (concat yss)" by (rule keeps_concat)
    moreover have "keeps J (concat w) (concat (order w))"
      using perm[of w] by (intro keeps_perm mset_concat_perm) simp
    ultimately show ?thesis using keeps_trans by blast
  qed
  from map_opt_total[where f = "\<lambda>w. map_opt decide_batch (order w)"
      and P = "\<lambda>w yss. keeps J (concat w) (concat yss)" and xs = ?ws, OF this] obtain outs where
    outs: "map_opt (\<lambda>w. map_opt decide_batch (order w)) ?ws = Some outs"
    and "list_all2 (\<lambda>w yss. keeps J (concat w) (concat yss)) ?ws outs" by blast
  then have "list_all2 (keeps J) (map concat ?ws) (map concat outs)" by (simp add: list_all2_map1 list_all2_map2)
  from keeps_concat[OF this] have "keeps J (concat (map concat ?ws)) (concat (map concat outs))" .
  then have "keeps J (concat bs) (concat (concat outs))" by (simp add: concat_map_concat ws)
  with outs show ?thesis by (simp add: keep_def)
qed

lemma phase_keeps:
  assumes "\<And>w. mset (de_order env w) = mset w" and "0 < de_workers env" and dist: "distinct (map rr_index current)"
  shows "\<exists>final out. dedup_phase env adj fits sc current = Some (final, out) \<and>
    keeps (judged (adjudication_payload (de_int_of env)) adj) current out"
proof -
  let ?pl = "adjudication_payload (de_int_of env)"
  let ?J = "judged ?pl adj"
  let ?run = "keep (de_order env) (de_workers env) (decide ?pl adj fits)"
  have run: "\<exists>out. ?run bs = Some out \<and> keeps ?J current out" if "mset (concat bs) = mset current" for bs
  proof -
    have "distinct (map rr_index (concat bs))" using that dist by (metis mset_eq_imp_distinct_iff mset_map)
    from keep_keeps[where decide_batch = "decide ?pl adj fits" and J = ?J, OF assms(1,2) decide_keeps this] obtain out where
      "?run bs = Some out" "keeps ?J (concat bs) out" by blast
    moreover have "keeps ?J current (concat bs)" using that by (intro keeps_perm) simp
    ultimately show ?thesis using keeps_trans by blast
  qed
  let ?entries = "case sc of FunctionScope \<Rightarrow> current | FileScope \<Rightarrow> sorted_json_records rr_index (de_cost env) current"
  have entries: "mset ?entries = mset current" by (simp add: sorted_json_records_sorts split: scope.splits)
  show ?thesis
  proof (cases "whole_packet ?pl fits ?entries")
    case (Some b)
    with run[of "[b]"] entries whole_packet_spec[OF Some] show ?thesis by (auto simp: dedup_phase_def Let_def)
  next
    case None
    with run[of "batches (de_int_of env) fits sc (sorted_json_records (payload_sort_key \<circ> ?pl) (de_cost env) current)"]
    show ?thesis by (auto simp: dedup_phase_def Let_def concat_batches sorted_json_records_sorts)
  qed
qed

lemma consolidate_keeps:
  fixes env records
  defines "cand \<equiv> candidate_records (de_dumps env) (de_cost env) records"
  assumes order: "\<And>w. mset (de_order env w) = mset w" and workers: "0 < de_workers env"
  shows "\<exists>out. consolidate_records env (Some adj) (Some fits) records = Some out \<and>
    keeps (judged (adjudication_payload (de_int_of env)) adj) cand out"
proof (cases "length cand < 2")
  case True
  then show ?thesis by (simp add: consolidate_records_def Let_def cand_def keeps_perm)
next
  case False
  let ?J = "judged (adjudication_payload (de_int_of env)) adj"
  have dist: "distinct (map rr_index cand)" unfolding cand_def by (rule candidate_indexes_distinct)
  from phase_keeps[OF order workers dist, of adj fits FunctionScope] obtain final out where
    p1: "dedup_phase env adj fits FunctionScope cand = Some (final, out)" and k1: "keeps ?J cand out" by blast
  show ?thesis
  proof (cases final)
    case True
    with p1 k1 False show ?thesis by (simp add: consolidate_records_def Let_def cand_def)
  next
    case nf: False
    from phase_keeps[OF order workers keeps_distinct[OF k1 dist], of adj fits FileScope] obtain final' out' where
      p2: "dedup_phase env adj fits FileScope out = Some (final', out')" and "keeps ?J out out'" by blast
    with keeps_trans[OF k1] p1 nf False show ?thesis by (auto simp: consolidate_records_def Let_def cand_def)
  qed
qed

lemma map_via_nth: "map (\<lambda>i. f (xs ! i)) [0..<length xs] = map f xs"
  by (rule nth_equalityI) auto

section \<open>Properties of the deduplication\<close>

text \<open>For evaluation, the external sort is replaced by the sort it implements.\<close>

declare sorted_json_records_sorts [code]

definition demo_record :: "string \<Rightarrow> string \<Rightarrow> int \<Rightarrow> review_record" where
  "demo_record issue file n = \<lparr>rr_group = [(''file'', FStr file)],
     rr_finding = [(''id'', FInt n), (''issue'', FStr issue)], rr_position = [n], rr_index = n\<rparr>"

definition demo_records :: "review_record list" where
  "demo_records = [demo_record ''overflow'' ''a.c'' 0, demo_record ''leak'' ''a.c'' 1,
     demo_record ''overflow'' ''a.c'' 2, demo_record ''int overflow'' ''a.c'' 3]"

text \<open>An adjudicator that takes findings 0 and 2 for duplicates, preferring 2, and adds a group it must not.\<close>

definition demo_adjudicator :: "payload list \<Rightarrow> decision option" where
  "demo_adjudicator ps = Some [\<lparr>dg_members = [0, 2], dg_representative = 2\<rparr>, \<lparr>dg_members = [1, 7], dg_representative = 1\<rparr>]"

definition demo_dedup_env :: dedup_env where
  "demo_dedup_env = \<lparr>de_dumps = (\<lambda>g f. concat (map (py_str \<circ> snd) (g @ f))), de_cost = (\<lambda>_. 1),
     de_int_of = (\<lambda>_. None), de_order = rev, de_workers = 2\<rparr>"

text \<open>
  C24. Deciding a batch always succeeds, and it keeps, in their order, exactly one record of every
  class of the equivalence generated by the groups that the adjudicator returned and that are
  acceptable (two or more members, all of them in the batch, the representative among them).
\<close>

theorem decide_one_per_class:
  assumes "distinct (map rr_index batch)"
  shows "\<exists>survivors. decide payload adjudicator packet_fits batch = Some survivors \<and> subseq survivors batch \<and>
    (\<forall>r \<in> set batch. \<exists>!s. s \<in> set survivors \<and>
       (rr_index r, rr_index s) \<in> batch_equiv payload adjudicator packet_fits batch)"
  by (rule decide_spec[OF assms])

theorem decide_one_per_class_witness:
  "let batch = [demo_record ''overflow'' ''a.c'' 0, demo_record ''leak'' ''a.c'' 1, demo_record ''int overflow'' ''a.c'' 2] in
   \<exists>survivors. decide (adjudication_payload (\<lambda>_. None)) demo_adjudicator (\<lambda>_. True) batch = Some survivors \<and>
     map rr_index survivors = [1, 2] \<and> subseq survivors batch"
proof -
  let ?batch = "[demo_record ''overflow'' ''a.c'' 0, demo_record ''leak'' ''a.c'' 1, demo_record ''int overflow'' ''a.c'' 2]"
  have d: "distinct (map rr_index ?batch)" by (simp add: demo_record_def)
  have "map_option (map rr_index) (decide (adjudication_payload (\<lambda>_. None)) demo_adjudicator (\<lambda>_. True) ?batch) = Some [1, 2]"
    by code_simp
  moreover obtain survivors where
    "decide (adjudication_payload (\<lambda>_. None)) demo_adjudicator (\<lambda>_. True) ?batch = Some survivors" "subseq survivors ?batch"
    using decide_one_per_class[OF d, of "adjudication_payload (\<lambda>_. None)" demo_adjudicator "\<lambda>_. True"] by blast
  ultimately show ?thesis unfolding Let_def by (intro exI[of _ survivors]) (simp only: option.map option.inject simp_thms)
qed

text \<open>
  The candidates are the input records without exact duplicates: each is an input record with
  its index, no two have the same content, every input record has a candidate with its content and
  a position that is not later; they are in the order of their positions and numbered from zero.
\<close>

theorem candidates_are_exact:
  "(\<forall>c \<in> set (candidate_records dumps cost records). \<exists>r \<in> set records. c = r\<lparr>rr_index := rr_index c\<rparr>) \<and>
   distinct (map (record_identity dumps) (candidate_records dumps cost records)) \<and>
   (\<forall>r \<in> set records. \<exists>c \<in> set (candidate_records dumps cost records).
      record_identity dumps c = record_identity dumps r \<and> rr_position c \<le> rr_position r) \<and>
   sorted (map rr_position (candidate_records dumps cost records)) \<and>
   map rr_index (candidate_records dumps cost records) = map int [0..<length (candidate_records dumps cost records)]"
proof -
  let ?c = "candidate_records dumps cost records"
  define us where "us = sort_key rr_position (unique_records dumps cost records)"
  have c: "?c = map (\<lambda>i. (us ! i)\<lparr>rr_index := int i\<rparr>) [0..<length us]" unfolding us_def by (rule candidate_records_eq)
  note spec = unique_records_spec[where dumps = dumps and cost = cost and records = records]
  have set_us: "set us = set (unique_records dumps cost records)" by (simp add: us_def)
  have ids: "map (record_identity dumps) ?c = map (record_identity dumps) us"
    by (simp add: c map_via_nth comp_def)
  have pos: "map rr_position ?c = map rr_position us" by (simp add: c map_via_nth comp_def)
  have "\<exists>r \<in> set records. x = r\<lparr>rr_index := rr_index x\<rparr>" if x: "x \<in> set ?c" for x
  proof -
    from x obtain i where "i < length us" "x = (us ! i)\<lparr>rr_index := int i\<rparr>" by (auto simp: c)
    then show ?thesis using spec(1) set_us by (intro bexI[of _ "us ! i"]) auto
  qed
  moreover have "distinct (map (record_identity dumps) ?c)"
  proof -
    have "mset (map (record_identity dumps) us) = mset (map (record_identity dumps) (unique_records dumps cost records))"
      by (simp add: us_def)
    then show ?thesis unfolding ids using spec(2) by (metis mset_eq_imp_distinct_iff)
  qed
  moreover have "\<exists>x \<in> set ?c. record_identity dumps x = record_identity dumps r \<and> rr_position x \<le> rr_position r"
    if r: "r \<in> set records" for r
  proof -
    obtain u where u: "u \<in> set us" "record_identity dumps u = record_identity dumps r" "rr_position u \<le> rr_position r"
      using spec(3)[OF r] set_us by auto
    then obtain i where "i < length us" "u = us ! i" by (auto simp: in_set_conv_nth)
    with u show ?thesis by (intro bexI[of _ "u\<lparr>rr_index := int i\<rparr>"]) (auto simp: c)
  qed
  moreover have "sorted (map rr_position ?c)" unfolding pos by (simp add: us_def)
  ultimately show ?thesis using candidate_indexes by blast
qed

theorem candidates_are_exact_witness:
  "let cs = candidate_records (de_dumps demo_dedup_env) (de_cost demo_dedup_env) demo_records in
   length demo_records = 4 \<and> length cs = 3 \<and> map rr_position cs = [[0], [1], [3]] \<and>
   distinct (map (record_identity (de_dumps demo_dedup_env)) cs) \<and>
   (\<exists>c \<in> set cs. record_identity (de_dumps demo_dedup_env) c =
      record_identity (de_dumps demo_dedup_env) (demo_record ''overflow'' ''a.c'' 2) \<and> rr_position c \<le> [2])"
proof -
  have "length demo_records = 4" "demo_record ''overflow'' ''a.c'' 2 \<in> set demo_records"
    "rr_position (demo_record ''overflow'' ''a.c'' 2) = [2]" by (simp_all add: demo_records_def demo_record_def)
  moreover have "map rr_position (candidate_records (de_dumps demo_dedup_env) (de_cost demo_dedup_env) demo_records)
    = [[0], [1], [3]]" by code_simp
  moreover from this have "length (candidate_records (de_dumps demo_dedup_env) (de_cost demo_dedup_env) demo_records) = 3"
    by (metis length_map length_Cons list.size(3) numeral_3_eq_3)
  moreover note candidates_are_exact[where dumps = "de_dumps demo_dedup_env" and cost = "de_cost demo_dedup_env" and records = demo_records]
  ultimately show ?thesis unfolding Let_def by metis
qed

text \<open>
  C25. The whole pipeline keeps every finding that nobody judged to be a duplicate. Whatever the
  adjudicator answers, however the packets are cut and in whatever order the jobs of a window
  complete, consolidation ends; its result contains only candidates, none twice, and every candidate
  is linked to a kept one by a chain of records that the adjudicator put into one group.
\<close>

theorem consolidate_keeps_findings:
  assumes "\<And>w. mset (de_order env w) = mset w" and "0 < de_workers env"
  shows "\<exists>out. consolidate_records env (Some adjudicator) (Some packet_fits) records = Some out \<and>
    mset out \<subseteq># mset (candidate_records (de_dumps env) (de_cost env) records) \<and>
    distinct (map rr_index out) \<and>
    (\<forall>c \<in> set (candidate_records (de_dumps env) (de_cost env) records). \<exists>s \<in> set out.
       (c, s) \<in> (judged (adjudication_payload (de_int_of env)) adjudicator)\<^sup>*)"
proof -
  let ?c = "candidate_records (de_dumps env) (de_cost env) records"
  from consolidate_keeps[OF assms, of adjudicator packet_fits records] obtain out where
    out: "consolidate_records env (Some adjudicator) (Some packet_fits) records = Some out"
    and k: "keeps (judged (adjudication_payload (de_int_of env)) adjudicator) ?c out" by blast
  from keeps_distinct[OF k candidate_indexes_distinct] k out show ?thesis by (auto simp: keeps_def)
qed

theorem consolidate_keeps_findings_witness:
  "\<exists>out. consolidate_records demo_dedup_env (Some demo_adjudicator) (Some (\<lambda>ps. length ps < 4)) demo_records = Some out \<and>
     map rr_index out = [1, 2] \<and>
     (\<forall>c \<in> set (candidate_records (de_dumps demo_dedup_env) (de_cost demo_dedup_env) demo_records). \<exists>s \<in> set out.
       (c, s) \<in> (judged (adjudication_payload (de_int_of demo_dedup_env)) demo_adjudicator)\<^sup>*)"
proof -
  have order: "mset (de_order demo_dedup_env w) = mset w" for w by (simp add: demo_dedup_env_def)
  have workers: "0 < de_workers demo_dedup_env" by (simp add: demo_dedup_env_def)
  have "map_option (map rr_index) (consolidate_records demo_dedup_env (Some demo_adjudicator)
      (Some (\<lambda>ps. length ps < 4)) demo_records) = Some [1, 2]" by code_simp
  with consolidate_keeps_findings[OF order workers, of demo_adjudicator "\<lambda>ps. length ps < 4" demo_records]
  show ?thesis by auto
qed

text \<open>
  A silent adjudicator changes nothing: when it gives no decision for any packet, as after a
  failed request, the result is a permutation of the candidates.
\<close>

theorem consolidate_without_decisions:
  assumes "\<And>w. mset (de_order env w) = mset w" and "0 < de_workers env"
  shows "\<exists>out. consolidate_records env (Some (\<lambda>_. None)) (Some packet_fits) records = Some out \<and>
    mset out = mset (candidate_records (de_dumps env) (de_cost env) records)"
proof -
  let ?c = "candidate_records (de_dumps env) (de_cost env) records"
  from consolidate_keeps[OF assms, of "\<lambda>_. None" packet_fits records] obtain out where
    out: "consolidate_records env (Some (\<lambda>_. None)) (Some packet_fits) records = Some out"
    and k: "keeps (judged (adjudication_payload (de_int_of env)) (\<lambda>_. None)) ?c out" by blast
  have "judged (adjudication_payload (de_int_of env)) (\<lambda>_. None) = {}" by (auto simp: judged_def)
  with k have "set ?c \<subseteq> set out" and sub: "mset out \<subseteq># mset ?c" by (auto simp: keeps_def)
  moreover have "set out \<subseteq> set ?c" using sub by (metis mset_subset_eqD set_mset_mset subsetI)
  moreover have "distinct ?c" "distinct out"
    using candidate_indexes_distinct keeps_distinct[OF k candidate_indexes_distinct] distinct_map by blast+
  ultimately have "mset out = mset ?c" by (simp add: set_eq_iff_mset_eq_distinct)
  with out show ?thesis by blast
qed

theorem consolidate_without_decisions_witness:
  "\<exists>out. consolidate_records demo_dedup_env (Some (\<lambda>_. None)) (Some (\<lambda>_. True)) demo_records = Some out \<and> size (mset out) = 3"
proof -
  have order: "mset (de_order demo_dedup_env w) = mset w" for w by (simp add: demo_dedup_env_def)
  have workers: "0 < de_workers demo_dedup_env" by (simp add: demo_dedup_env_def)
  have "length (candidate_records (de_dumps demo_dedup_env) (de_cost demo_dedup_env) demo_records) = 3" by code_simp
  then have "size (mset (candidate_records (de_dumps demo_dedup_env) (de_cost demo_dedup_env) demo_records)) = 3"
    by (simp only: size_mset)
  with consolidate_without_decisions[OF order workers, of "\<lambda>_. True" demo_records] show ?thesis by metis
qed

end
