(* ===== verification/Posix_Path.thy ===== *)
theory Posix_Path
  imports Stage_Graph
begin

text \<open>
  The part of \<open>os.path\<close> that the sources use, on POSIX systems: \<open>isabs\<close>, \<open>join\<close>, \<open>normpath\<close>,
  \<open>abspath\<close> and \<open>relpath\<close>. The working directory is a parameter. A normalised path consists of
  clean components; normalisation is idempotent, and the absolute and the relative name of a file
  below a directory are the same path relative to the directory.
\<close>

section \<open>Definitions\<close>

abbreviation slash :: char where "slash \<equiv> CHR ''/''"

definition isabs :: "string \<Rightarrow> bool" where
  "isabs p \<longleftrightarrow> startswith p ''/''"

definition path_join :: "string \<Rightarrow> string \<Rightarrow> string" where
  "path_join a b =
     (if isabs b then b else if a = '''' \<or> endswith a ''/'' then a @ b else a @ ''/'' @ b)"

definition norm_step :: "bool \<Rightarrow> string list \<Rightarrow> string \<Rightarrow> string list" where
  "norm_step rooted comps part =
     (if part = '''' \<or> part = ''.'' then comps
      else if part \<noteq> ''..'' \<or> (\<not> rooted \<and> comps = []) \<or> (comps \<noteq> [] \<and> last comps = ''..'') then comps @ [part]
      else butlast comps)"

definition initial_slashes :: "string \<Rightarrow> nat" where
  "initial_slashes p =
     (if \<not> startswith p ''/'' then 0 else if startswith p ''//'' \<and> \<not> startswith p ''///'' then 2 else 1)"

definition norm_comps :: "string \<Rightarrow> string list" where
  "norm_comps p = foldl (norm_step (0 < initial_slashes p)) [] (split_on slash p)"

definition normpath :: "string \<Rightarrow> string" where
  "normpath p =
     (if p = '''' then ''.''
      else let r = replicate (initial_slashes p) slash @ join ''/'' (norm_comps p)
           in if r = '''' then ''.'' else r)"

definition abspath :: "string \<Rightarrow> string \<Rightarrow> string" where
  "abspath cwd p = normpath (if isabs p then p else path_join cwd p)"

fun common_length :: "'a list \<Rightarrow> 'a list \<Rightarrow> nat" where
  "common_length (x # xs) (y # ys) = (if x = y then Suc (common_length xs ys) else 0)"
| "common_length _ _ = 0"

definition relpath :: "string \<Rightarrow> string \<Rightarrow> string \<Rightarrow> string" where
  "relpath cwd path start =
     (let start_list = filter (\<lambda>x. x \<noteq> '''') (split_on slash (abspath cwd start));
          path_list = filter (\<lambda>x. x \<noteq> '''') (split_on slash (abspath cwd path));
          i = common_length start_list path_list;
          rel_list = replicate (length start_list - i) ''..'' @ drop i path_list
      in if rel_list = [] then ''.'' else join ''/'' rel_list)"

section \<open>Splitting and joining\<close>

lemma split_on_nonempty [simp]: "split_on c s \<noteq> []"
  by (induction s) (auto split: list.splits)

lemma split_on_no_sep: "p \<in> set (split_on c s) \<Longrightarrow> c \<notin> set p"
proof (induction s arbitrary: p)
  case (Cons x xs)
  then show ?case by (cases "split_on c xs") (auto split: if_splits)
qed simp

lemma split_on_plain: "c \<notin> set x \<Longrightarrow> split_on c x = [x]"
  by (induction x) auto

lemma split_on_sep: "c \<notin> set x \<Longrightarrow> split_on c (x @ c # s) = x # split_on c s"
  by (induction x) auto

lemma split_on_append_sep: "split_on c (a @ c # b) = split_on c a @ split_on c b"
proof (induction a)
  case (Cons x a)
  then show ?case by (cases "split_on c a") auto
qed simp

lemma split_on_join:
  "\<forall>x \<in> set xs. c \<notin> set x \<Longrightarrow> xs \<noteq> [] \<Longrightarrow> split_on c (join [c] xs) = xs"
  by (induction "[c]" xs rule: join.induct) (auto simp: split_on_plain split_on_sep)

lemma join_eq_Nil: "'''' \<notin> set xs \<Longrightarrow> join sep xs = '''' \<longleftrightarrow> xs = []"
  by (induction sep xs rule: join.induct) auto

section \<open>Normalised components\<close>

definition clean :: "string \<Rightarrow> bool" where
  "clean c \<longleftrightarrow> c \<noteq> '''' \<and> c \<noteq> ''.'' \<and> slash \<notin> set c"

text \<open>Only leading components are \<open>..\<close>, and none when the path is rooted.\<close>

definition normal :: "bool \<Rightarrow> string list \<Rightarrow> bool" where
  "normal rooted cs \<longleftrightarrow> list_all clean cs \<and> foldl (norm_step rooted) [] cs = cs"

lemma norm_step_clean: "list_all clean cs \<Longrightarrow> slash \<notin> set c \<Longrightarrow> list_all clean (norm_step rooted cs c)"
  by (auto simp: norm_step_def clean_def list_all_iff dest: in_set_butlastD)

lemma norm_fold_butlast:
  "list_all clean cs \<Longrightarrow> foldl (norm_step rooted) [] cs = cs \<Longrightarrow> foldl (norm_step rooted) [] (butlast cs) = butlast cs"
proof (induction cs rule: rev_induct)
  case (snoc c cs)
  let ?m = "foldl (norm_step rooted) [] cs"
  have le: "length (foldl (norm_step rooted) [] ds) \<le> length ds" for ds
    by (induction ds rule: rev_induct) (auto simp: norm_step_def)
  have "norm_step rooted ?m c = cs @ [c]" using snoc.prems by simp
  moreover have "length ?m \<le> length cs" by (rule le)
  ultimately have "?m = cs" by (auto simp: norm_step_def split: if_splits dest: arg_cong[where f = length])
  then show ?case by simp
qed simp

lemma normal_step: "normal rooted cs \<Longrightarrow> slash \<notin> set c \<Longrightarrow> normal rooted (norm_step rooted cs c)"
  using norm_step_clean[of cs c rooted] norm_fold_butlast[of cs rooted]
  by (auto simp: normal_def norm_step_def)

lemma normal_fold: "normal rooted cs \<Longrightarrow> \<forall>p \<in> set ps. slash \<notin> set p \<Longrightarrow> normal rooted (foldl (norm_step rooted) cs ps)"
  by (induction ps arbitrary: cs) (auto simp: normal_step)

lemma normal_norm_comps: "normal (0 < initial_slashes p) (norm_comps p)"
  unfolding norm_comps_def by (rule normal_fold) (auto simp: normal_def dest: split_on_no_sep)

lemma clean_plain: "list_all clean cs \<Longrightarrow> \<forall>c \<in> set cs. slash \<notin> set c" "list_all clean cs \<Longrightarrow> '''' \<notin> set cs"
  by (auto simp: list_all_iff clean_def)

lemma clean_split_join: "list_all clean cs \<Longrightarrow> cs \<noteq> [] \<Longrightarrow> split_on slash (join ''/'' cs) = cs"
  using split_on_join clean_plain(1) by auto

text \<open>The path written from normalised components, and how it is read again.\<close>

definition show_path :: "nat \<Rightarrow> string list \<Rightarrow> string" where
  "show_path n cs = (let r = replicate n slash @ join ''/'' cs in if r = '''' then ''.'' else r)"

lemma normpath_show: "p \<noteq> '''' \<Longrightarrow> normpath p = show_path (initial_slashes p) (norm_comps p)"
  by (simp add: normpath_def show_path_def)

lemma initial_slashes_le: "initial_slashes p \<le> 2"
  by (simp add: initial_slashes_def)

lemma join_clean_start:
  assumes "list_all clean cs"
  shows "\<not> startswith (join ''/'' cs) ''/''"
proof (cases cs)
  case (Cons c cs')
  with assms obtain x c' where "c = x # c'" "x \<noteq> slash" by (cases c) (auto simp: clean_def)
  with Cons show ?thesis by (cases cs') (simp_all add: startswith_def)
qed (simp add: startswith_def)

lemma show_path_initial:
  assumes "list_all clean cs" and "n \<le> 2"
  shows "initial_slashes (show_path n cs) = n"
proof -
  have *: "\<not> startswith (join ''/'' cs) ''/''" by (rule join_clean_start[OF assms(1)])
  consider "n = 0" | "n = 1" | "n = 2" using assms(2) by linarith
  then show ?thesis
    using * by cases (auto simp: show_path_def initial_slashes_def startswith_def numeral_2_eq_2 Let_def)
qed

lemma foldl_norm_skip: "foldl (norm_step r) cs (replicate n '''') = cs"
  by (induction n) (simp_all add: norm_step_def)

lemma split_on_replicate: "split_on c (replicate n c @ s) = replicate n [] @ split_on c s"
  by (induction n) auto

lemma show_path_comps:
  assumes "normal (0 < n) cs" and "n \<le> 2"
  shows "norm_comps (show_path n cs) = cs"
proof (cases "cs = []")
  case True
  show ?thesis
  proof (cases n)
    case 0
    with True show ?thesis by (simp add: show_path_def norm_comps_def initial_slashes_def startswith_def norm_step_def)
  next
    case (Suc m)
    have sp: "split_on slash (replicate n slash) = replicate n [] @ [[]]" using split_on_replicate[of slash n "[]"] by simp
    have "show_path n cs = replicate n slash" using Suc True by (simp add: show_path_def)
    moreover have "foldl (norm_step r) [] (replicate n [] @ [[]]) = []" for r
      by (simp add: foldl_norm_skip norm_step_def)
    ultimately show ?thesis using True by (simp add: norm_comps_def sp)
  qed
next
  case False
  have cl: "list_all clean cs" using assms(1) by (simp add: normal_def)
  have "join ''/'' cs \<noteq> ''''" using join_eq_Nil[OF clean_plain(2)[OF cl]] False by simp
  then have sh: "show_path n cs = replicate n slash @ join ''/'' cs" by (simp add: show_path_def)
  have "norm_comps (show_path n cs) = foldl (norm_step (0 < n)) [] (replicate n [] @ cs)"
    using show_path_initial[OF cl assms(2)]
    by (simp add: norm_comps_def sh split_on_replicate clean_split_join[OF cl False])
  then show ?thesis using assms(1) by (simp add: foldl_norm_skip normal_def)
qed

lemma show_path_nonempty: "show_path n cs \<noteq> ''''"
  by (simp add: show_path_def Let_def)

lemma normpath_show_path: "normal (0 < n) cs \<Longrightarrow> n \<le> 2 \<Longrightarrow> normpath (show_path n cs) = show_path n cs"
  by (simp add: normpath_show show_path_nonempty show_path_initial show_path_comps normal_def)

lemma normpath_idempotent: "normpath (normpath p) = normpath p"
proof (cases "p = ''''")
  case True
  then show ?thesis by (simp add: normpath_def initial_slashes_def norm_comps_def norm_step_def startswith_def)
next
  case False
  show ?thesis
    using normpath_show_path[OF normal_norm_comps initial_slashes_le] by (simp add: normpath_show[OF False])
qed

section \<open>Names relative to a directory\<close>

lemma dotdot_stuck: "cs \<noteq> [] \<Longrightarrow> hd cs = ''..'' \<Longrightarrow> foldl (norm_step False) cs ps \<noteq> [] \<and> hd (foldl (norm_step False) cs ps) = ''..''"
proof (induction ps arbitrary: cs)
  case (Cons p ps)
  have "norm_step False cs p \<noteq> [] \<and> hd (norm_step False cs p) = ''..''"
    using Cons.prems by (cases cs) (auto simp: norm_step_def)
  then show ?case using Cons.IH by simp
qed simp

lemma norm_fold_below:
  assumes "''..'' \<notin> set (foldl (norm_step False) cs ps)" and "''..'' \<notin> set cs" and "''..'' \<notin> set bs"
  shows "foldl (norm_step True) (bs @ cs) ps = bs @ foldl (norm_step False) cs ps"
  using assms
proof (induction ps arbitrary: cs)
  case (Cons p ps)
  let ?c = "norm_step False cs p"
  show ?case
  proof (cases "p = ''..'' \<and> cs = []")
    case True
    then have "?c = [''..'']" by (simp add: norm_step_def)
    with dotdot_stuck[of ?c ps] Cons.prems(1) hd_in_set[of "foldl (norm_step False) ?c ps"] show ?thesis by auto
  next
    case False
    have "norm_step True (bs @ cs) p = bs @ ?c" and "''..'' \<notin> set ?c"
      using False Cons.prems(2,3) by (auto simp: norm_step_def butlast_append dest: in_set_butlastD) (metis last_in_set)+
    with Cons show ?thesis by simp
  qed
qed simp

lemma rooted_no_dotdot: "''..'' \<notin> set cs \<Longrightarrow> ''..'' \<notin> set (foldl (norm_step True) cs ps)"
proof (induction ps arbitrary: cs)
  case (Cons p ps)
  have "''..'' \<notin> set (norm_step True cs p)"
    using Cons.prems by (auto simp: norm_step_def dest: in_set_butlastD) (metis last_in_set)
  then show ?case using Cons.IH by simp
qed simp

lemma isabs_initial: "0 < initial_slashes p \<longleftrightarrow> isabs p"
  by (simp add: initial_slashes_def isabs_def)

lemma rooted_comps: "isabs p \<Longrightarrow> norm_comps p = foldl (norm_step True) [] (split_on slash p)"
  by (simp add: norm_comps_def isabs_initial)

lemma unrooted_comps: "\<not> isabs p \<Longrightarrow> norm_comps p = foldl (norm_step False) [] (split_on slash p)"
  by (simp add: norm_comps_def isabs_initial)

lemma isabs_Cons: "isabs p \<longleftrightarrow> (\<exists>q. p = slash # q)"
  by (cases p) (auto simp: isabs_def startswith_def)

lemma isabs_join: "isabs root \<Longrightarrow> isabs (path_join root p)"
  by (auto simp: isabs_Cons path_join_def)

lemma norm_comps_join:
  assumes "isabs root" and "\<not> isabs rel" and "''..'' \<notin> set (norm_comps rel)"
  shows "norm_comps (path_join root rel) = norm_comps root @ norm_comps rel"
proof -
  have below: "foldl (norm_step True) (norm_comps root) (split_on slash rel) = norm_comps root @ norm_comps rel"
    using norm_fold_below[of "[]" "split_on slash rel" "norm_comps root"] assms
      rooted_no_dotdot[of "[]" "split_on slash root"]
    by (simp add: unrooted_comps rooted_comps)
  have root: "root \<noteq> ''''" using assms(1) by (auto simp: isabs_Cons)
  show ?thesis
  proof (cases "endswith root ''/''")
    case True
    then have e: "root = butlast root @ [slash]"
      using root by (cases root rule: rev_cases) (auto simp: endswith_def)
    have "path_join root rel = root @ rel" using True assms(2) by (simp add: path_join_def)
    also have "\<dots> = butlast root @ slash # rel" using e by (metis append.assoc append_Cons append_Nil)
    finally have "path_join root rel = butlast root @ slash # rel" .
    moreover have "norm_comps root = foldl (norm_step True) [] (split_on slash (butlast root))"
    proof -
      have "split_on slash root = split_on slash (butlast root) @ [[]]"
        using split_on_append_sep[of slash "butlast root" "[]"] e by simp
      then show ?thesis by (simp add: rooted_comps[OF assms(1)] norm_step_def)
    qed
    ultimately show ?thesis
      using below rooted_comps[OF isabs_join[OF assms(1)], of rel] by (simp add: split_on_append_sep)
  next
    case False
    then have "path_join root rel = root @ slash # rel" using assms(2) root by (simp add: path_join_def)
    then show ?thesis
      using below rooted_comps[OF isabs_join[OF assms(1)], of rel] by (simp add: rooted_comps[OF assms(1)] split_on_append_sep)
  qed
qed

lemma filter_split_show:
  assumes "list_all clean cs"
  shows "filter (\<lambda>x. x \<noteq> '''') (split_on slash (show_path (Suc n) cs)) = cs"
proof (cases "cs = []")
  case True
  have "split_on slash (replicate (Suc n) slash @ []) = replicate (Suc n) [] @ [[]]" by (simp only: split_on_replicate split_on.simps)
  then show ?thesis using True by (simp add: show_path_def)
next
  case False
  have "filter (\<lambda>x. x \<noteq> '''') cs = cs" using assms by (auto simp: list_all_iff clean_def intro: filter_True)
  moreover have "split_on slash (show_path (Suc n) cs) = replicate (Suc n) [] @ cs"
    using split_on_replicate[of slash "Suc n" "join ''/'' cs"] clean_split_join[OF assms False]
    by (simp add: show_path_def)
  ultimately show ?thesis by simp
qed

lemma abspath_comps:
  assumes "isabs p"
  shows "filter (\<lambda>x. x \<noteq> '''') (split_on slash (abspath cwd p)) = norm_comps p"
proof -
  have "p \<noteq> ''''" using assms by (auto simp: isabs_Cons)
  moreover obtain n where "initial_slashes p = Suc n" using isabs_initial[of p] assms gr0_implies_Suc by blast
  moreover have "list_all clean (norm_comps p)" using normal_norm_comps[of p] by (simp add: normal_def)
  ultimately show ?thesis using filter_split_show assms by (simp add: abspath_def normpath_show)
qed

lemma common_length_append [simp]: "common_length xs (xs @ ys) = length xs"
  by (induction xs) simp_all

text \<open>The name of a file relative to a directory that contains it.\<close>

lemma relpath_below:
  assumes "isabs root" and "\<not> isabs rel" and "rel \<noteq> ''''" and "''..'' \<notin> set (norm_comps rel)"
  shows "relpath cwd (path_join root rel) root = normpath rel"
proof -
  have "initial_slashes rel = 0" using assms(2) isabs_initial[of rel] by simp
  then have "normpath rel = show_path 0 (norm_comps rel)" by (simp add: normpath_show[OF assms(3)])
  moreover have "'''' \<notin> set (norm_comps rel)"
    using normal_norm_comps[of rel] clean_plain(2) by (simp add: normal_def)
  ultimately show ?thesis
    by (simp add: relpath_def abspath_comps isabs_join assms(1) norm_comps_join[OF assms(1,2,4)] show_path_def
        join_eq_Nil)
qed

end
