(* ===== verification/Code_Graph.thy ===== *)
theory Code_Graph
  imports Posix_Path
begin

text \<open>
  The code graph (\<open>engine/codegraph/models.py\<close>, \<open>engine/codegraph/queries.py\<close>): the syntax facts
  that the language plugins record for every function, with the checks of their constructors, the
  graph with its index of names, and the queries on it.

  A frozen data class is a record; its \<open>__post_init__\<close> is a function that returns the exception
  it raises. The graph is passed explicitly. A field that the annotations type as a list, a string
  or a number has that type, so the \<open>isinstance\<close> tests of \<open>validate_for_files\<close> always succeed and
  do not appear.
\<close>

section \<open>Syntax facts and their constructors\<close>

record code_expression =
  ce_text :: string
  ce_line :: int
  ce_start_byte :: int
  ce_end_byte :: int
  ce_identifiers :: "string list"
  ce_field_paths :: "string list"
  ce_direct_identifier :: string
  ce_direct_field_path :: string

record function_parameter =
  fp_name :: string
  fp_type_spelling :: string

record null_fact =
  nf_value :: code_expression
  nf_is_null :: bool

record null_condition =
  nc_when_true :: "null_fact list"
  nc_when_false :: "null_fact list"

record control_condition =
  cc_expression :: code_expression
  cc_truth :: bool
  cc_null_condition :: "null_condition option"

record return_site =
  rs_value :: "code_expression option"
  rs_line :: int
  rs_start_byte :: int
  rs_end_byte :: int
  rs_conditions :: "control_condition list"
  rs_returns_null :: bool

record value_assignment =
  va_target :: code_expression
  va_value :: code_expression
  va_operator :: string
  va_line :: int
  va_start_byte :: int
  va_end_byte :: int
  va_conditions :: "control_condition list"

record loop_structure =
  ls_condition :: "code_expression option"
  ls_line :: int
  ls_start_byte :: int
  ls_end_byte :: int
  ls_written_identifiers :: "string list"
  ls_addressed_identifiers :: "string list"

record call_site =
  cs_symbol :: string
  cs_line :: int
  cs_argument_count :: int
  cs_kind :: string
  cs_start_byte :: int
  cs_end_byte :: int
  cs_qualified_name :: string
  cs_generic_qualified_name :: string
  cs_receiver :: string
  cs_target_ids :: "string list"
  cs_targets_complete :: bool
  cs_arguments :: "code_expression list"
  cs_conditions :: "control_condition list"
  cs_must_conditions :: "control_condition list"
  cs_result :: "code_expression option"

record symbol_reference =
  sr_symbol :: string
  sr_line :: int
  sr_start_byte :: int
  sr_end_byte :: int
  sr_target_ids :: "string list"

datatype lock_operation = Acquire | Release

record lock_event =
  le_operation :: lock_operation
  le_lock :: string
  le_line :: int

record tag =
  tag_value :: string
  tag_reason :: string

datatype syntax_error =
    EmptyText | BadLine | BadSpan | BadIdentifiers | BadFieldPaths | BadDirectIdentifier
  | BadDirectFieldPath | NoBranchFact | NullReturnWithoutValue | EmptyOperator | DuplicateWritten
  | DuplicateAddressed | EmptySymbol | UnsupportedKind string | NegativeArgumentCount
  | DuplicateTargets | EmptyTarget

definition code_expression_post_init :: "code_expression \<Rightarrow> syntax_error + unit" where
  "code_expression_post_init e =
     (and_then (raise_if (ce_text e = '''') EmptyText) (\<lambda>_.
      and_then (raise_if (ce_line e < 1) BadLine) (\<lambda>_.
      and_then (raise_if (ce_start_byte e < 0 \<or> ce_end_byte e \<le> ce_start_byte e) BadSpan) (\<lambda>_.
      and_then (raise_if (\<not> distinct (ce_identifiers e) \<or> '''' \<in> set (ce_identifiers e)) BadIdentifiers) (\<lambda>_.
      and_then (raise_if (\<not> distinct (ce_field_paths e) \<or> '''' \<in> set (ce_field_paths e)) BadFieldPaths) (\<lambda>_.
      and_then (raise_if (ce_direct_identifier e \<noteq> '''' \<and> ce_direct_identifier e \<notin> set (ce_identifiers e))
         BadDirectIdentifier) (\<lambda>_.
      raise_if (ce_direct_field_path e \<noteq> '''' \<and> ce_direct_field_path e \<notin> set (ce_field_paths e))
         BadDirectFieldPath)))))))"

definition null_condition_post_init :: "null_condition \<Rightarrow> syntax_error + unit" where
  "null_condition_post_init c = raise_if (nc_when_true c = [] \<and> nc_when_false c = []) NoBranchFact"

definition return_site_post_init :: "return_site \<Rightarrow> syntax_error + unit" where
  "return_site_post_init r =
     (and_then (raise_if (rs_line r < 1) BadLine) (\<lambda>_.
      and_then (raise_if (rs_start_byte r < 0 \<or> rs_end_byte r \<le> rs_start_byte r) BadSpan) (\<lambda>_.
      raise_if (rs_returns_null r \<and> rs_value r = None) NullReturnWithoutValue)))"

definition value_assignment_post_init :: "value_assignment \<Rightarrow> syntax_error + unit" where
  "value_assignment_post_init a =
     (and_then (raise_if (va_operator a = '''') EmptyOperator) (\<lambda>_.
      and_then (raise_if (va_line a < 1) BadLine) (\<lambda>_.
      raise_if (va_start_byte a < 0 \<or> va_end_byte a \<le> va_start_byte a) BadSpan)))"

definition loop_structure_post_init :: "loop_structure \<Rightarrow> syntax_error + unit" where
  "loop_structure_post_init l =
     (and_then (raise_if (ls_line l < 1) BadLine) (\<lambda>_.
      and_then (raise_if (ls_start_byte l < 0 \<or> ls_end_byte l \<le> ls_start_byte l) BadSpan) (\<lambda>_.
      and_then (raise_if (\<not> distinct (ls_written_identifiers l)) DuplicateWritten) (\<lambda>_.
      raise_if (\<not> distinct (ls_addressed_identifiers l)) DuplicateAddressed))))"

definition call_kinds :: "string list" where
  "call_kinds = [''direct'', ''member'', ''constructor'', ''indirect'']"

definition call_site_post_init :: "call_site \<Rightarrow> syntax_error + unit" where
  "call_site_post_init c =
     (and_then (raise_if (cs_symbol c = '''') EmptySymbol) (\<lambda>_.
      and_then (raise_if (cs_kind c \<notin> set call_kinds) (UnsupportedKind (cs_kind c))) (\<lambda>_.
      and_then (raise_if (cs_line c < 1) BadLine) (\<lambda>_.
      and_then (raise_if (cs_argument_count c < 0) NegativeArgumentCount) (\<lambda>_.
      and_then (raise_if (cs_start_byte c < 0 \<or> cs_end_byte c < cs_start_byte c) BadSpan) (\<lambda>_.
      and_then (raise_if (\<not> distinct (cs_target_ids c)) DuplicateTargets) (\<lambda>_.
      raise_if ('''' \<in> set (cs_target_ids c)) EmptyTarget)))))))"

datatype call_resolution = Resolved | Ambiguous | Unresolved

definition call_site_resolution :: "call_site \<Rightarrow> call_resolution" where
  "call_site_resolution c =
     (if length (cs_target_ids c) = 1 then Resolved
      else if cs_target_ids c \<noteq> [] then Ambiguous else Unresolved)"

definition symbol_reference_post_init :: "symbol_reference \<Rightarrow> syntax_error + unit" where
  "symbol_reference_post_init r =
     (and_then (raise_if (sr_symbol r = '''') EmptySymbol) (\<lambda>_.
      and_then (raise_if (sr_line r < 1) BadLine) (\<lambda>_.
      and_then (raise_if (sr_start_byte r < 0 \<or> sr_end_byte r < sr_start_byte r) BadSpan) (\<lambda>_.
      and_then (raise_if (\<not> distinct (sr_target_ids r)) DuplicateTargets) (\<lambda>_.
      raise_if ('''' \<in> set (sr_target_ids r)) EmptyTarget)))))"

text \<open>\<open>dataclasses.replace\<close> constructs a new object, so it runs the checks again.\<close>

definition with_targets :: "string list \<Rightarrow> symbol_reference \<Rightarrow> syntax_error + symbol_reference" where
  "with_targets targets r =
     (let r' = r\<lparr>sr_target_ids := targets\<rparr>
      in and_then (symbol_reference_post_init r') (\<lambda>_. Inr r'))"

section \<open>Functions, globals and the graph\<close>

record function_node =
  fn_unique_name :: string
  fn_file_path :: string
  fn_name :: string
  fn_line_number :: int
  fn_language :: string
  fn_calls :: "string list"
  fn_resolved_calls :: "string list"
  fn_end_line :: int
  fn_start_byte :: int
  fn_end_byte :: int
  fn_is_public_entrypoint :: bool
  fn_entrypoint_reason :: string
  fn_has_internal_linkage :: bool
  fn_is_source :: bool
  fn_source_reason :: string
  fn_is_sink :: bool
  fn_sink_type :: string
  fn_sink_reason :: string
  fn_lock_events :: "lock_event list"
  fn_tags :: "(string, tag) dict"
  fn_call_sites :: "call_site list"
  fn_references :: "symbol_reference list"
  fn_parameter_count :: "int option"
  fn_parameters :: "function_parameter list"
  fn_assignments :: "value_assignment list"
  fn_loops :: "loop_structure list"
  fn_returns :: "return_site list"

record global_construct =
  gc_unique_name :: string
  gc_file_path :: string
  gc_name :: string
  gc_line_number :: int
  gc_initializer :: string
  gc_referenced_functions :: "string list"
  gc_references :: "symbol_reference list"

record code_graph =
  cg_nodes :: "(string, function_node) dict"
  cg_name_index :: "(string, string list) dict"
  cg_globals :: "(string, global_construct) dict"
  cg_public_declarations :: "(string, string list) dict"

datatype graph_error =
    InvalidTagKey string
  | DuplicateNode string
  | DuplicateGlobal string
  | MissingNode string
  | NodeIndexCorrupt string
  | InvalidSourceAnnotation string
  | InvalidSinkAnnotation string
  | InvalidParameterCount string
  | UnrequestedFile string string
  | InvalidTargets string "string list"
  | NameIndexCorrupt
  | GlobalIndexCorrupt string
  | InvalidGlobalTargets string "string list"
  | UnrequestedGlobalFile string string
  | SyntaxFactError syntax_error

definition set_tag :: "string \<Rightarrow> string \<Rightarrow> string \<Rightarrow> function_node \<Rightarrow> graph_error + function_node" where
  "set_tag key val reason node =
     (if key = '''' \<or> \<not> isidentifier (replace_char (CHR ''.'') (CHR ''_'') key) then Inl (InvalidTagKey key)
      else Inr (node\<lparr>fn_tags := AList.update key \<lparr>tag_value = val, tag_reason = reason\<rparr> (fn_tags node)\<rparr>))"

definition has_tag :: "string \<Rightarrow> function_node \<Rightarrow> bool" where
  "has_tag key node \<longleftrightarrow> key \<in> set (keys (fn_tags node))"

definition new_graph :: code_graph where
  "new_graph = \<lparr>cg_nodes = [], cg_name_index = [], cg_globals = [], cg_public_declarations = []\<rparr>"

text \<open>\<open>d.get(key, [])\<close> and \<open>d.setdefault(key, []).append(x)\<close>.\<close>

definition get_list :: "('k, 'v list) dict \<Rightarrow> 'k \<Rightarrow> 'v list" where
  "get_list d k = (case map_of d k of None \<Rightarrow> [] | Some xs \<Rightarrow> xs)"

definition setdefault_append :: "('k, 'v list) dict \<Rightarrow> 'k \<Rightarrow> 'v \<Rightarrow> ('k, 'v list) dict" where
  "setdefault_append d k x = AList.update k (get_list d k @ [x]) d"

definition add_node :: "code_graph \<Rightarrow> function_node \<Rightarrow> graph_error + code_graph" where
  "add_node g node =
     (if fn_unique_name node \<in> set (keys (cg_nodes g)) then Inl (DuplicateNode (fn_unique_name node))
      else Inr (g\<lparr>cg_nodes := AList.update (fn_unique_name node) node (cg_nodes g),
                  cg_name_index := setdefault_append (cg_name_index g) (fn_name node) (fn_unique_name node)\<rparr>))"

definition add_global :: "code_graph \<Rightarrow> global_construct \<Rightarrow> graph_error + code_graph" where
  "add_global g c =
     (if gc_unique_name c \<in> set (keys (cg_globals g)) then Inl (DuplicateGlobal (gc_unique_name c))
      else Inr (g\<lparr>cg_globals := AList.update (gc_unique_name c) c (cg_globals g)\<rparr>))"

text \<open>
  Adding the locations of one declaration. With more than one location the code keeps a set
  \<open>seen\<close> of the existing ones beside the list; otherwise it looks into the list itself.
\<close>

fun add_locations :: "string list \<Rightarrow> string set option \<Rightarrow> string list \<Rightarrow> string list" where
  "add_locations existing seen [] = existing"
| "add_locations existing seen (l # ls) =
     (let location = strip l
      in if location \<noteq> '''' \<and> location \<notin> (case seen of None \<Rightarrow> set existing | Some s \<Rightarrow> s)
         then add_locations (existing @ [location]) (map_option (insert location) seen) ls
         else add_locations existing seen ls)"

definition add_declaration :: "(string, string list) dict \<Rightarrow> string \<times> string list \<Rightarrow> (string, string list) dict" where
  "add_declaration decls = (\<lambda>(n, locations).
     let name = strip n
     in if name = '''' then decls
        else let existing = get_list decls name;
                 seen = (if 1 < length locations then Some (set existing) else None)
             in AList.update name (add_locations existing seen locations) decls)"

definition add_public_declarations :: "code_graph \<Rightarrow> (string, string list) dict \<Rightarrow> code_graph" where
  "add_public_declarations g declarations =
     g\<lparr>cg_public_declarations := foldl add_declaration (cg_public_declarations g) declarations\<rparr>"

definition get_node :: "code_graph \<Rightarrow> string \<Rightarrow> function_node option" where
  "get_node g name = map_of (cg_nodes g) name"

text \<open>\<open>self.nodes[target]\<close> raises \<open>KeyError\<close> on an unknown name.\<close>

definition node_at :: "code_graph \<Rightarrow> string \<Rightarrow> graph_error + function_node" where
  "node_at g name = (case map_of (cg_nodes g) name of None \<Rightarrow> Inl (MissingNode name) | Some n \<Rightarrow> Inr n)"

definition resolve_call :: "code_graph \<Rightarrow> function_node \<Rightarrow> string \<Rightarrow> graph_error + string list" where
  "resolve_call g node call_name =
     (let targets = get_list (cg_name_index g) call_name
      in if length targets = 1 then Inr targets
         else if 1 < length targets then
           and_then (map_res (node_at g) targets) (\<lambda>nodes.
             let same = map fst (filter (\<lambda>(_, n). fn_file_path n = fn_file_path node) (zip targets nodes))
             in Inr (if same \<noteq> [] then same else targets))
         else Inr [])"

definition resolve_node :: "code_graph \<Rightarrow> function_node \<Rightarrow> graph_error + function_node" where
  "resolve_node g node =
     and_then (map_res (resolve_call g node) (fn_calls node)) (\<lambda>resolved.
       Inr (node\<lparr>fn_resolved_calls := fromkeys (concat resolved)\<rparr>))"

text \<open>A new \<open>resolved_calls\<close> does not change what the later nodes read (names and files).\<close>

definition resolve_all_calls :: "code_graph \<Rightarrow> graph_error + code_graph" where
  "resolve_all_calls g =
     fold_res (\<lambda>g' name. and_then (node_at g' name) (\<lambda>node. and_then (resolve_node g' node) (\<lambda>node'.
        Inr (g'\<lparr>cg_nodes := AList.update name node' (cg_nodes g')\<rparr>)))) g (keys (cg_nodes g))"

definition entrypoint_reasons :: "code_graph \<Rightarrow> function_node \<Rightarrow> string list" where
  "entrypoint_reasons g node =
     (let declarations = (if fn_has_internal_linkage node then []
                          else get_list (cg_public_declarations g) (fn_name node))
      in (if fn_entrypoint_reason node \<noteq> '''' then [fn_entrypoint_reason node] else []) @
         (if declarations \<noteq> [] then [''declared in public header: '' @ join '', '' (take 4 declarations)] else []))"

definition annotate_node :: "code_graph \<Rightarrow> function_node \<Rightarrow> nat \<times> function_node" where
  "annotate_node g node =
     (let reasons = entrypoint_reasons g node
      in if reasons = [] then (0, node)
         else (if fn_is_public_entrypoint node then 0 else 1,
               node\<lparr>fn_is_public_entrypoint := True, fn_entrypoint_reason := join ''; '' (fromkeys reasons)\<rparr>))"

definition annotate_public_entrypoints :: "code_graph \<Rightarrow> nat \<times> code_graph" where
  "annotate_public_entrypoints g =
     (let annotated = map (\<lambda>(k, n). (k, annotate_node g n)) (cg_nodes g)
      in (sum_list (map (fst \<circ> snd) annotated), g\<lparr>cg_nodes := map (\<lambda>(k, a). (k, snd a)) annotated\<rparr>))"

definition unresolved_calls_for :: "code_graph \<Rightarrow> function_node \<Rightarrow> string list" where
  "unresolved_calls_for g node =
     (let resolved_names = map fn_name (List.map_filter (get_node g) (fn_resolved_calls node))
      in filter (\<lambda>call. call \<noteq> '''' \<and> call \<notin> set resolved_names) (fn_calls node))"

definition get_globals :: "code_graph \<Rightarrow> global_construct list" where
  "get_globals g = vals (cg_globals g)"

definition get_sources :: "code_graph \<Rightarrow> function_node list" where
  "get_sources g = filter fn_is_source (vals (cg_nodes g))"

definition node_count :: "code_graph \<Rightarrow> nat" where
  "node_count g = length (cg_nodes g)"

definition edge_count :: "code_graph \<Rightarrow> nat" where
  "edge_count g = sum_list (map (length \<circ> fn_resolved_calls) (vals (cg_nodes g)))"

definition get_file_nodes :: "code_graph \<Rightarrow> string \<Rightarrow> function_node list" where
  "get_file_nodes g file_path = filter (\<lambda>n. fn_file_path n = file_path) (vals (cg_nodes g))"

definition add_nodes :: "code_graph \<Rightarrow> function_node list \<Rightarrow> graph_error + code_graph" where
  "add_nodes = fold_res add_node"

definition add_globals :: "code_graph \<Rightarrow> global_construct list \<Rightarrow> graph_error + code_graph" where
  "add_globals = fold_res add_global"

definition merge_graph :: "code_graph \<Rightarrow> code_graph \<Rightarrow> graph_error + code_graph" where
  "merge_graph g h =
     (let duplicate_nodes = filter (\<lambda>k. k \<in> set (keys (cg_nodes h))) (keys (cg_nodes g));
          duplicate_globals = filter (\<lambda>k. k \<in> set (keys (cg_globals h))) (keys (cg_globals g))
      in if duplicate_nodes \<noteq> [] then Inl (DuplicateNode (Min (set duplicate_nodes)))
         else if duplicate_globals \<noteq> [] then Inl (DuplicateGlobal (Min (set duplicate_globals)))
         else and_then (add_nodes g (vals (cg_nodes h))) (\<lambda>g1.
              and_then (add_globals g1 (vals (cg_globals h))) (\<lambda>g2.
              Inr (add_public_declarations g2 (cg_public_declarations h)))))"

text \<open>\<open>copy\<close> gives every node and global new lists with the same elements.\<close>

definition copy_graph :: "code_graph \<Rightarrow> graph_error + code_graph" where
  "copy_graph g =
     and_then (add_nodes new_graph (vals (cg_nodes g))) (\<lambda>g1.
     and_then (add_globals g1 (vals (cg_globals g))) (\<lambda>g2.
     Inr (add_public_declarations g2 (cg_public_declarations g))))"

section \<open>Validation\<close>

definition normalized_file_path :: "string \<Rightarrow> string \<Rightarrow> string \<Rightarrow> string" where
  "normalized_file_path cwd codebase_path path =
     replace_char (CHR 0x5C) slash
       (normpath (if isabs path then relpath cwd path (abspath cwd codebase_path) else path))"

definition node_targets :: "function_node \<Rightarrow> string list" where
  "node_targets node =
     fn_resolved_calls node @ concat (map cs_target_ids (fn_call_sites node)) @
     concat (map sr_target_ids (fn_references node))"

definition global_targets :: "global_construct \<Rightarrow> string list" where
  "global_targets c = concat (map sr_target_ids (gc_references c))"

definition validate_node ::
  "code_graph \<Rightarrow> (string \<Rightarrow> string) \<Rightarrow> string set \<Rightarrow> (string, string list) dict \<Rightarrow> string \<times> function_node \<Rightarrow>
   graph_error + (string, string list) dict" where
  "validate_node g norm allowed_paths expected = (\<lambda>(node_id, node).
     and_then (raise_if (fn_unique_name node \<noteq> node_id) (NodeIndexCorrupt node_id)) (\<lambda>_.
     and_then (raise_if (fn_is_source node \<noteq> (fn_source_reason node \<noteq> '''')) (InvalidSourceAnnotation node_id)) (\<lambda>_.
     and_then (raise_if (fn_is_sink node \<noteq> (fn_sink_type node \<noteq> '''' \<and> fn_sink_reason node \<noteq> ''''))
       (InvalidSinkAnnotation node_id)) (\<lambda>_.
     and_then (raise_if (case fn_parameter_count node of None \<Rightarrow> False | Some n \<Rightarrow> n < 0)
       (InvalidParameterCount node_id)) (\<lambda>_.
     and_then (raise_if (norm (fn_file_path node) \<notin> allowed_paths)
       (UnrequestedFile node_id (fn_file_path node))) (\<lambda>_.
     let invalid_targets = filter (\<lambda>t. t \<notin> set (keys (cg_nodes g))) (node_targets node)
     in and_then (raise_if (invalid_targets \<noteq> []) (InvalidTargets node_id invalid_targets)) (\<lambda>_.
        Inr (setdefault_append expected (fn_name node) node_id))))))))"

definition validate_global ::
  "code_graph \<Rightarrow> (string \<Rightarrow> string) \<Rightarrow> string set \<Rightarrow> string \<times> global_construct \<Rightarrow> graph_error + unit" where
  "validate_global g norm allowed_paths = (\<lambda>(global_id, construct).
     and_then (raise_if (gc_unique_name construct \<noteq> global_id) (GlobalIndexCorrupt global_id)) (\<lambda>_.
     let invalid_targets = filter (\<lambda>t. t \<notin> set (keys (cg_nodes g))) (global_targets construct)
     in and_then (raise_if (invalid_targets \<noteq> []) (InvalidGlobalTargets global_id invalid_targets)) (\<lambda>_.
        raise_if (norm (gc_file_path construct) \<notin> allowed_paths)
          (UnrequestedGlobalFile global_id (gc_file_path construct)))))"

text \<open>Dictionaries are equal when they have the same items, in whatever order.\<close>

definition dict_eq :: "('k, 'v) dict \<Rightarrow> ('k, 'v) dict \<Rightarrow> bool" where
  "dict_eq d e \<longleftrightarrow> length d = length e \<and> list_all (\<lambda>(k, v). map_of e k = Some v) d"

definition validate_for_files :: "string \<Rightarrow> code_graph \<Rightarrow> string list \<Rightarrow> string \<Rightarrow> graph_error + unit" where
  "validate_for_files cwd g files codebase_path =
     (let norm = normalized_file_path cwd codebase_path;
          allowed_paths = set (map norm files)
      in and_then (fold_res (validate_node g norm allowed_paths) [] (cg_nodes g)) (\<lambda>expected_name_index.
         and_then (raise_if (\<not> dict_eq (cg_name_index g) expected_name_index) NameIndexCorrupt) (\<lambda>_.
         fold_res (\<lambda>_. validate_global g norm allowed_paths) () (cg_globals g))))"

section \<open>Queries\<close>

definition append_callers :: "(string, string list) dict \<Rightarrow> function_node \<Rightarrow> (string, string list) dict" where
  "append_callers rev_edges node =
     foldl (\<lambda>d callee. setdefault_append d callee (fn_unique_name node)) rev_edges (fn_resolved_calls node)"

definition build_reverse_edges :: "code_graph \<Rightarrow> (string \<Rightarrow> 'b::linorder) option \<Rightarrow> (string, string list) dict" where
  "build_reverse_edges g key =
     (let rev_edges = foldl append_callers [] (vals (cg_nodes g))
      in case key of None \<Rightarrow> rev_edges
         | Some f \<Rightarrow> map (\<lambda>(callee, callers). (callee, sort_key f callers)) rev_edges)"

text \<open>\<open>max\<close> with a key returns the first of the largest elements.\<close>

definition last_line :: "function_node \<Rightarrow> int" where
  "last_line node = (if fn_end_line node \<noteq> 0 then fn_end_line node else fn_line_number node)"

fun max_by_line :: "function_node \<Rightarrow> function_node list \<Rightarrow> function_node" where
  "max_by_line best [] = best"
| "max_by_line best (n # ns) = max_by_line (if fn_line_number best < fn_line_number n then n else best) ns"

definition names_symbol :: "string \<Rightarrow> function_node \<Rightarrow> bool" where
  "names_symbol symbol node \<longleftrightarrow>
     symbol = fn_unique_name node \<or> symbol = fn_name node \<or> endswith (fn_unique_name node) (''::'' @ symbol)"

definition function_for_location ::
  "code_graph \<Rightarrow> string \<Rightarrow> int \<Rightarrow> string \<Rightarrow> function_node list option \<Rightarrow> function_node option" where
  "function_for_location g file_path line symbol nodes =
     (let candidates = (case nodes of None \<Rightarrow> get_file_nodes g file_path | Some ns \<Rightarrow> ns);
          l = max 1 line;
          containing = filter (\<lambda>n. fn_line_number n \<le> l \<and> l \<le> last_line n) candidates;
          exact = (if symbol = '''' then [] else filter (names_symbol symbol) containing);
          chosen = (if exact \<noteq> [] then exact else containing)
      in case chosen of [] \<Rightarrow> None | n # ns \<Rightarrow> Some (max_by_line n ns))"

section \<open>The name index\<close>

lemma get_list_Nil [simp]: "get_list [] k = []"
  by (simp add: get_list_def)

lemma get_list_update [simp]: "get_list (AList.update k v d) x = (if x = k then v else get_list d x)"
  by (simp add: get_list_def)

lemma get_list_setdefault_append [simp]:
  "get_list (setdefault_append d k x) k' = (if k' = k then get_list d k @ [x] else get_list d k')"
  by (simp add: setdefault_append_def)

lemma map_of_setdefault_append:
  "map_of (setdefault_append d k x) k' =
     (if k' = k then Some (get_list d k @ [x]) else map_of d k')"
  by (simp add: setdefault_append_def)

lemma wf_setdefault_append [simp]: "wf_dict d \<Longrightarrow> wf_dict (setdefault_append d k x)"
  by (simp add: setdefault_append_def)

definition index_from :: "(string, string list) dict \<Rightarrow> (string, function_node) dict \<Rightarrow> (string, string list) dict" where
  "index_from = foldl (\<lambda>d (k, n). setdefault_append d (fn_name n) k)"

definition ids_named :: "(string, function_node) dict \<Rightarrow> string \<Rightarrow> string list" where
  "ids_named nodes nm = map fst (filter (\<lambda>(_, n). fn_name n = nm) nodes)"

lemma index_from_append [simp]: "index_from d (ns @ ms) = index_from (index_from d ns) ms"
  by (simp add: index_from_def)

lemma index_from_Cons [simp]: "index_from d ((k, n) # ns) = index_from (setdefault_append d (fn_name n) k) ns"
  by (simp add: index_from_def)

lemma index_from_Nil [simp]: "index_from d [] = d"
  by (simp add: index_from_def)

lemma wf_index_from: "wf_dict d \<Longrightarrow> wf_dict (index_from d ns)"
  by (induction ns arbitrary: d) auto

lemma index_lookup:
  "map_of (index_from [] nodes) nm = (if ids_named nodes nm = [] then None else Some (ids_named nodes nm))"
proof (induction nodes rule: rev_induct)
  case (snoc p nodes)
  then show ?case by (cases p) (auto simp: map_of_setdefault_append get_list_def ids_named_def)
qed (simp add: ids_named_def)

lemma index_lookup_default:
  "get_list (index_from [] nodes) nm = ids_named nodes nm"
  by (simp add: index_lookup get_list_def)

lemma index_from_map:
  "(\<And>k n. (k, n) \<in> set ns \<Longrightarrow> fn_name (f k n) = fn_name n) \<Longrightarrow>
   index_from d (map (\<lambda>(k, n). (k, f k n)) ns) = index_from d ns"
proof (induction ns arbitrary: d)
  case (Cons p ns)
  then show ?case by (cases p) auto
qed simp

section \<open>The graph invariant\<close>

definition decls_ok :: "(string, string list) dict \<Rightarrow> bool" where
  "decls_ok d \<longleftrightarrow> wf_dict d \<and> (\<forall>(n, ls) \<in> set d. n \<noteq> '''' \<and> strip n = n \<and> distinct ls \<and>
     (\<forall>l \<in> set ls. l \<noteq> '''' \<and> strip l = l))"

definition graph_inv :: "code_graph \<Rightarrow> bool" where
  "graph_inv g \<longleftrightarrow>
     wf_dict (cg_nodes g) \<and> (\<forall>(k, n) \<in> set (cg_nodes g). fn_unique_name n = k) \<and>
     cg_name_index g = index_from [] (cg_nodes g) \<and>
     wf_dict (cg_globals g) \<and> (\<forall>(k, c) \<in> set (cg_globals g). gc_unique_name c = k) \<and>
     decls_ok (cg_public_declarations g)"

lemma graph_invI:
  assumes "wf_dict (cg_nodes g)" and "\<And>k n. (k, n) \<in> set (cg_nodes g) \<Longrightarrow> fn_unique_name n = k"
    and "cg_name_index g = index_from [] (cg_nodes g)"
    and "wf_dict (cg_globals g)" and "\<And>k c. (k, c) \<in> set (cg_globals g) \<Longrightarrow> gc_unique_name c = k"
    and "decls_ok (cg_public_declarations g)"
  shows "graph_inv g"
  using assms by (auto simp: graph_inv_def)

lemma graph_invD:
  assumes "graph_inv g"
  shows graph_inv_nodes: "wf_dict (cg_nodes g)" and graph_inv_ids: "(k, n) \<in> set (cg_nodes g) \<Longrightarrow> fn_unique_name n = k"
    and graph_inv_index: "cg_name_index g = index_from [] (cg_nodes g)"
    and graph_inv_globals: "wf_dict (cg_globals g)"
    and graph_inv_gids: "(k, c) \<in> set (cg_globals g) \<Longrightarrow> gc_unique_name c = k"
    and graph_inv_decls: "decls_ok (cg_public_declarations g)"
  using assms by (auto simp: graph_inv_def)

lemma graph_inv_new: "graph_inv new_graph"
  by (simp add: graph_inv_def new_graph_def decls_ok_def)

lemma add_node_inv:
  assumes "graph_inv g" and "add_node g n = Inr h"
  shows "graph_inv h"
proof -
  from assms(2) have fresh: "fn_unique_name n \<notin> set (keys (cg_nodes g))"
    and h: "h = g\<lparr>cg_nodes := cg_nodes g @ [(fn_unique_name n, n)],
              cg_name_index := setdefault_append (cg_name_index g) (fn_name n) (fn_unique_name n)\<rparr>"
    by (auto simp: add_node_def update_fresh split: if_splits)
  then show ?thesis using graph_invD[OF assms(1)] by (intro graph_invI) (auto simp: wf_dict_keys)
qed

lemma add_global_inv:
  assumes "graph_inv g" and "add_global g c = Inr h"
  shows "graph_inv h"
proof -
  from assms(2) have fresh: "gc_unique_name c \<notin> set (keys (cg_globals g))"
    and h: "h = g\<lparr>cg_globals := cg_globals g @ [(gc_unique_name c, c)]\<rparr>"
    by (auto simp: add_global_def update_fresh split: if_splits)
  then show ?thesis using graph_invD[OF assms(1)] by (intro graph_invI) (auto simp: wf_dict_keys)
qed

subsection \<open>Public declarations\<close>

lemma dropWhile_idem: "dropWhile P (dropWhile P xs) = dropWhile P xs"
  by (induction xs) auto

lemma rstrip_head:
  assumes "xs = c # cs" and "\<not> is_space c"
  shows "\<exists>ds. rstrip xs = c # ds"
proof -
  have "dropWhile is_space (rev cs @ [c]) = dropWhile is_space (rev cs) @ [c]"
    using assms(2) by (cases "\<forall>x \<in> set (rev cs). is_space x") (auto simp: dropWhile_append)
  then show ?thesis using assms(1) by (simp add: rstrip_def)
qed

lemma lstrip_strip: "lstrip (strip s) = strip s"
proof (cases "lstrip s")
  case Nil
  then have "strip s = ''''" by (simp only: strip_def) (simp add: rstrip_def)
  then show ?thesis by (simp add: lstrip_def)
next
  case (Cons c cs)
  then have nc: "\<not> is_space c" using hd_dropWhile[of is_space s] by (auto simp: lstrip_def)
  from rstrip_head[OF Cons nc] obtain ds where "strip s = c # ds" by (auto simp: strip_def)
  with nc show ?thesis by (simp add: lstrip_def)
qed

lemma strip_idem: "strip (strip s) = strip s"
proof -
  have "strip (strip s) = rstrip (rstrip (lstrip s))" using lstrip_strip[of s] by (simp add: strip_def)
  also have "\<dots> = rstrip (lstrip s)" by (simp add: rstrip_def dropWhile_idem)
  finally show ?thesis by (simp add: strip_def)
qed

text \<open>The locations a declaration has after adding some, whichever way membership is tested.\<close>

definition given_locations :: "string list \<Rightarrow> string list" where
  "given_locations ls = filter (\<lambda>l. l \<noteq> '''') (map strip ls)"

lemma fromkeys_from_set: "set xs = set ys \<Longrightarrow> fromkeys_from xs ls = fromkeys_from ys ls"
proof (induction ls arbitrary: xs ys)
  case (Cons l ls)
  have "fromkeys_from (l # xs) ls = fromkeys_from (l # ys) ls" using Cons.prems by (intro Cons.IH) simp
  with Cons.IH[OF Cons.prems] Cons.prems show ?case by (simp only: fromkeys_from.simps)
qed simp

lemma add_locations_eq:
  "case seen of None \<Rightarrow> True | Some s \<Rightarrow> s = set existing \<Longrightarrow>
   add_locations existing seen ls = existing @ fromkeys_from existing (given_locations ls)"
proof (induction existing seen ls rule: add_locations.induct)
  case (2 existing seen l ls)
  have "fromkeys_from (strip l # existing) xs = fromkeys_from (existing @ [strip l]) xs" for xs
    by (rule fromkeys_from_set) simp
  then show ?case using 2 by (auto simp: given_locations_def Let_def split: option.splits)
qed (simp add: given_locations_def)

lemma add_declaration_eq:
  "add_declaration d (n, ls) =
     (if strip n = '''' then d
      else let existing = get_list d (strip n)
           in AList.update (strip n) (existing @ fromkeys_from existing (given_locations ls)) d)"
  by (simp add: add_declaration_def add_locations_eq Let_def)

lemma given_locations_ok: "l \<in> set (given_locations ls) \<Longrightarrow> l \<noteq> '''' \<and> strip l = l"
  by (auto simp: given_locations_def strip_idem)

lemma decls_ok_update:
  assumes "decls_ok d" and "n \<noteq> ''''" and "strip n = n" and "distinct ls" and "\<forall>l \<in> set ls. l \<noteq> '''' \<and> strip l = l"
  shows "decls_ok (AList.update n ls d)"
proof -
  have wf: "wf_dict d" "wf_dict (AList.update n ls d)" using assms(1) by (simp_all add: decls_ok_def)
  have "m \<noteq> '''' \<and> strip m = m \<and> distinct ks \<and> (\<forall>l \<in> set ks. l \<noteq> '''' \<and> strip l = l)"
    if "(m, ks) \<in> set (AList.update n ls d)" for m ks
  proof (cases "m = n")
    case True
    then have "ks = ls" using that map_of_wf_iff[OF wf(2), of m ks] by simp
    with True assms(2-5) show ?thesis by blast
  next
    case False
    then have "(m, ks) \<in> set d" using that map_of_wf_iff[OF wf(2), of m ks] map_of_wf_iff[OF wf(1), of m ks] by simp
    with assms(1) show ?thesis by (auto simp: decls_ok_def)
  qed
  then show ?thesis using wf(2) by (auto simp: decls_ok_def)
qed

lemma decls_lookup_ok:
  assumes "decls_ok d" and "existing = get_list d n"
  shows "distinct existing \<and> (\<forall>l \<in> set existing. l \<noteq> '''' \<and> strip l = l)"
  using assms by (auto simp: decls_ok_def get_list_def dest!: map_of_SomeD split: option.splits)

lemma add_declaration_ok:
  assumes "decls_ok d"
  shows "decls_ok (add_declaration d p)"
proof (cases p)
  case (Pair n ls)
  define existing where "existing = get_list d (strip n)"
  note ex = decls_lookup_ok[OF assms existing_def]
  have "distinct (existing @ fromkeys_from existing (given_locations ls))"
    using ex by (auto simp: distinct_fromkeys_from set_fromkeys_from)
  moreover have "\<forall>l \<in> set (existing @ fromkeys_from existing (given_locations ls)). l \<noteq> '''' \<and> strip l = l"
    using ex given_locations_ok by (auto simp: set_fromkeys_from)
  ultimately show ?thesis
    using decls_ok_update[OF assms, of "strip n"] assms
    by (simp add: Pair add_declaration_eq strip_idem existing_def[symmetric])
qed

lemma add_public_declarations_inv: "graph_inv g \<Longrightarrow> graph_inv (add_public_declarations g d)"
  unfolding graph_inv_def add_public_declarations_def by (simp add: foldl_inv add_declaration_ok)

subsection \<open>Replacing the nodes\<close>

lemma map_values_inv:
  assumes inv: "graph_inv g" and ids: "\<And>k n. (k, n) \<in> set (cg_nodes g) \<Longrightarrow> fn_unique_name (f k n) = fn_unique_name n"
    and names: "\<And>k n. (k, n) \<in> set (cg_nodes g) \<Longrightarrow> fn_name (f k n) = fn_name n"
  shows "graph_inv (g\<lparr>cg_nodes := map (\<lambda>(k, n). (k, f k n)) (cg_nodes g)\<rparr>)"
proof -
  have "wf_dict (map (\<lambda>(k, n). (k, f k n)) (cg_nodes g))"
    using graph_inv_nodes[OF inv] by (simp add: wf_dict_keys keys_map_values)
  then show ?thesis
    using graph_invD[OF inv] ids names by (intro graph_invI) (auto simp: index_from_map)
qed

text \<open>Where a call by name leads: to the definitions in the same file, if any, else to all.\<close>

definition call_targets :: "code_graph \<Rightarrow> function_node \<Rightarrow> string \<Rightarrow> string list" where
  "call_targets g node nm =
     (let named = filter (\<lambda>(_, n). fn_name n = nm) (cg_nodes g);
          same = filter (\<lambda>(_, n). fn_file_path n = fn_file_path node) named
      in map fst (if same \<noteq> [] then same else named))"

lemma map_res_node_at:
  assumes "wf_dict (cg_nodes g)" and "set ps \<subseteq> set (cg_nodes g)"
  shows "map_res (node_at g) (map fst ps) = Inr (map snd ps)"
  using assms(2)
proof (induction ps)
  case (Cons p ps)
  then have "map_of (cg_nodes g) (fst p) = Some (snd p)" using map_of_wf_iff[OF assms(1)] by simp
  with Cons show ?case by (simp add: node_at_def)
qed simp

lemma resolve_call_eq:
  assumes "wf_dict (cg_nodes g)" and "cg_name_index g = index_from [] (cg_nodes g)"
  shows "resolve_call g node nm = Inr (call_targets g node nm)"
proof -
  define named where "named = filter (\<lambda>(_, n). fn_name n = nm) (cg_nodes g)"
  let ?same = "filter (\<lambda>(_, n). fn_file_path n = fn_file_path node) named"
  have targets: "get_list (cg_name_index g) nm = map fst named"
    using index_lookup_default by (simp add: assms(2) ids_named_def named_def)
  have mr: "map_res (node_at g) (map fst named) = Inr (map snd named)"
    by (rule map_res_node_at[OF assms(1)]) (auto simp: named_def)
  have ct: "call_targets g node nm = map fst (if ?same \<noteq> [] then ?same else named)"
    by (simp add: call_targets_def named_def Let_def)
  consider "named = []" | (single) p where "named = [p]" | (many) "1 < length named"
    by (cases named rule: remdups_adj.cases) auto
  then show ?thesis
  proof cases
    case (single p)
    then show ?thesis using ct by (cases p) (simp add: resolve_call_def targets)
  next
    case many
    then have "resolve_call g node nm = (let same = map fst ?same in Inr (if same \<noteq> [] then same else map fst named))"
      by (simp only: resolve_call_def targets Let_def mr zip_map_fst_snd and_then_Inr length_map) simp
    then show ?thesis by (simp add: ct)
  qed (simp add: resolve_call_def targets ct)
qed

definition resolved_of :: "code_graph \<Rightarrow> function_node \<Rightarrow> string list" where
  "resolved_of g node = fromkeys (concat (map (call_targets g node) (fn_calls node)))"

lemma resolve_node_eq:
  assumes "wf_dict (cg_nodes g)" and "cg_name_index g = index_from [] (cg_nodes g)"
  shows "resolve_node g node = Inr (node\<lparr>fn_resolved_calls := resolved_of g node\<rparr>)"
proof -
  have "map_res (resolve_call g node) xs = Inr (map (call_targets g node) xs)" for xs
    by (induction xs) (simp_all add: resolve_call_eq[OF assms])
  then show ?thesis by (simp add: resolve_node_def resolved_of_def)
qed

lemma call_targets_cong:
  assumes "map (\<lambda>(k, n). (k, fn_name n, fn_file_path n)) (cg_nodes g) = map (\<lambda>(k, n). (k, fn_name n, fn_file_path n)) (cg_nodes h)"
  shows "call_targets g node = call_targets h node"
proof (rule ext)
  fix nm
  have key: "map fst (filter (\<lambda>(_, n). P (fn_name n) (fn_file_path n)) ns) = map fst (filter (\<lambda>(_, a, b). P a b) (map (\<lambda>(k, n). (k, fn_name n, fn_file_path n)) ns))"
    for P ns by (induction ns) auto
  let ?same = "\<lambda>g. map fst (filter (\<lambda>(_, n). fn_name n = nm \<and> fn_file_path n = fn_file_path node) (cg_nodes g))"
  let ?named = "\<lambda>g. map fst (filter (\<lambda>(_, n). fn_name n = nm) (cg_nodes g))"
  have eq: "call_targets g node nm = (if ?same g \<noteq> [] then ?same g else ?named g)" for g
    by (simp add: call_targets_def Let_def split_def conj_commute)
  show "call_targets g node nm = call_targets h node nm"
    unfolding eq by (simp only: key[of "\<lambda>a b. a = nm \<and> b = fn_file_path node"] key[of "\<lambda>a b. a = nm"] assms)
qed

lemma resolve_all_calls_eq:
  assumes inv: "graph_inv g"
  shows "resolve_all_calls g =
    Inr (g\<lparr>cg_nodes := map (\<lambda>(k, n). (k, n\<lparr>fn_resolved_calls := resolved_of g n\<rparr>)) (cg_nodes g)\<rparr>)"
proof -
  let ?F = "\<lambda>(k, n). (k, n\<lparr>fn_resolved_calls := resolved_of g n\<rparr>)"
  let ?step = "\<lambda>g' name. and_then (node_at g' name) (\<lambda>node. and_then (resolve_node g' node) (\<lambda>node'.
        Inr (g'\<lparr>cg_nodes := AList.update name node' (cg_nodes g')\<rparr>)))"
  have "fold_res ?step (g\<lparr>cg_nodes := map ?F done @ rest\<rparr>) (keys rest) = Inr (g\<lparr>cg_nodes := map ?F (done @ rest)\<rparr>)"
    if "cg_nodes g = done @ rest" for "done" rest
    using that
  proof (induction rest arbitrary: "done")
    case (Cons p rest)
    obtain k n where p: "p = (k, n)" by (cases p)
    let ?g = "g\<lparr>cg_nodes := map ?F done @ p # rest\<rparr>"
    have k: "k \<notin> set (keys (map ?F done))"
      using graph_inv_nodes[OF inv] Cons.prems p by (auto simp: wf_dict_keys keys_map_values)
    have node: "node_at ?g k = Inr n" using k p by (auto simp: node_at_def map_add_def map_of_None_keys split: option.splits dest: map_of_Some_keys)
    have wf: "wf_dict (cg_nodes ?g)" "cg_name_index ?g = index_from [] (cg_nodes ?g)"
      using graph_invD(1,3)[OF inv] Cons.prems by (auto simp: wf_dict_keys keys_map_values index_from_map)
    have "resolved_of ?g n = resolved_of g n"
      unfolding resolved_of_def[of ?g] resolved_of_def[of g n]
      by (subst call_targets_cong[of ?g g]) (simp_all add: Cons.prems split_def)
    with resolve_node_eq[OF wf] have "resolve_node ?g n = Inr (n\<lparr>fn_resolved_calls := resolved_of g n\<rparr>)" by simp
    moreover have "AList.update k m (ds @ (k, n) # rest) = ds @ (k, m) # rest" if "k \<notin> set (keys ds)" for m ds
      using that by (induction ds) auto
    ultimately have "?step ?g k = Inr (g\<lparr>cg_nodes := map ?F (done @ [p]) @ rest\<rparr>)"
      using node k p by simp
    then show ?case using Cons.IH[of "done @ [p]"] Cons.prems p by simp
  qed simp
  from this[of "[]" "cg_nodes g"] show ?thesis by (simp add: resolve_all_calls_def)
qed

lemma resolve_all_calls_inv: "graph_inv g \<Longrightarrow> resolve_all_calls g = Inr h \<Longrightarrow> graph_inv h"
  by (auto simp: resolve_all_calls_eq intro!: map_values_inv)

lemma annotate_eq:
  "snd (annotate_public_entrypoints g) = g\<lparr>cg_nodes := map (\<lambda>(k, n). (k, snd (annotate_node g n))) (cg_nodes g)\<rparr>"
  by (simp add: annotate_public_entrypoints_def Let_def case_prod_beta comp_def)

lemma annotate_inv: "graph_inv g \<Longrightarrow> graph_inv (snd (annotate_public_entrypoints g))"
  unfolding annotate_eq by (rule map_values_inv) (simp_all add: annotate_node_def Let_def)

subsection \<open>Adding many nodes; merging and copying\<close>

lemma fold_res_inv_step:
  assumes "fold_res f s xs = Inr t" and "P s" and "\<And>s x s'. P s \<Longrightarrow> f s x = Inr s' \<Longrightarrow> P s'"
  shows "P t"
  using fold_res_invariant[OF assms(1), of P] assms(2,3) by blast

lemma add_nodes_inv: "graph_inv g \<Longrightarrow> add_nodes g ns = Inr h \<Longrightarrow> graph_inv h"
  using fold_res_inv_step[of add_node g ns h graph_inv] add_node_inv by (simp add: add_nodes_def)

lemma add_globals_inv: "graph_inv g \<Longrightarrow> add_globals g cs = Inr h \<Longrightarrow> graph_inv h"
  using fold_res_inv_step[of add_global g cs h graph_inv] add_global_inv by (simp add: add_globals_def)

lemma add_nodes_fresh:
  assumes "wf_dict (cg_nodes g @ ns)" and "\<And>k n. (k, n) \<in> set ns \<Longrightarrow> fn_unique_name n = k"
  shows "add_nodes g (vals ns) =
    Inr (g\<lparr>cg_nodes := cg_nodes g @ ns, cg_name_index := index_from (cg_name_index g) ns\<rparr>)"
  using assms
proof (induction ns arbitrary: g)
  case (Cons p ns)
  obtain k n where p: "p = (k, n)" by (cases p)
  have u: "fn_unique_name n = k" using Cons.prems(2) p by simp
  have k: "k \<notin> set (keys (cg_nodes g))" using Cons.prems(1) p by (auto simp: wf_dict_keys)
  let ?g = "g\<lparr>cg_nodes := cg_nodes g @ [p], cg_name_index := setdefault_append (cg_name_index g) (fn_name n) k\<rparr>"
  have "add_node g n = Inr ?g" using k u p by (simp add: add_node_def update_fresh)
  moreover have "add_nodes ?g (vals ns) =
      Inr (?g\<lparr>cg_nodes := cg_nodes ?g @ ns, cg_name_index := index_from (cg_name_index ?g) ns\<rparr>)"
    using Cons.prems by (intro Cons.IH) auto
  ultimately show ?case using p by (simp add: add_nodes_def)
qed (simp add: add_nodes_def)

lemma add_globals_fresh:
  assumes "wf_dict (cg_globals g @ cs)" and "\<And>k c. (k, c) \<in> set cs \<Longrightarrow> gc_unique_name c = k"
  shows "add_globals g (vals cs) = Inr (g\<lparr>cg_globals := cg_globals g @ cs\<rparr>)"
  using assms
proof (induction cs arbitrary: g)
  case (Cons p cs)
  obtain k c where p: "p = (k, c)" by (cases p)
  have u: "gc_unique_name c = k" using Cons.prems(2) p by simp
  have k: "k \<notin> set (keys (cg_globals g))" using Cons.prems(1) p by (auto simp: wf_dict_keys)
  let ?g = "g\<lparr>cg_globals := cg_globals g @ [p]\<rparr>"
  have "add_global g c = Inr ?g" using k u p by (simp add: add_global_def update_fresh)
  moreover have "add_globals ?g (vals cs) = Inr (?g\<lparr>cg_globals := cg_globals ?g @ cs\<rparr>)"
    using Cons.prems by (intro Cons.IH) auto
  ultimately show ?case using p by (simp add: add_globals_def)
qed (simp add: add_globals_def)

lemma decls_ok_copy: "decls_ok (acc @ d) \<Longrightarrow> foldl add_declaration acc d = acc @ d"
proof (induction d arbitrary: acc)
  case (Cons p d)
  obtain n ls where p: "p = (n, ls)" by (cases p)
  have n: "n \<noteq> ''''" "strip n = n" and ls: "distinct ls" "\<forall>l \<in> set ls. l \<noteq> '''' \<and> strip l = l"
    using Cons.prems p by (auto simp: decls_ok_def)
  have fresh: "n \<notin> set (keys acc)" using Cons.prems p by (auto simp: decls_ok_def wf_dict_keys)
  have "given_locations ls = ls" using ls(2) by (induction ls) (auto simp: given_locations_def)
  then have "add_declaration acc p = acc @ [p]"
    using n ls(1) fresh p
    by (simp add: add_declaration_eq update_fresh fromkeys_from_distinct get_list_def map_of_None_keys[symmetric])
  then show ?case using Cons by simp
qed simp

lemma copy_graph_eq:
  assumes "graph_inv g"
  shows "copy_graph g = Inr g"
proof -
  note inv = graph_invD[OF assms]
  let ?g1 = "new_graph\<lparr>cg_nodes := cg_nodes g, cg_name_index := index_from [] (cg_nodes g)\<rparr>"
  have "add_nodes new_graph (vals (cg_nodes g)) = Inr ?g1"
    using add_nodes_fresh[of new_graph "cg_nodes g"] inv(1,2) by (simp add: new_graph_def)
  moreover have "add_globals ?g1 (vals (cg_globals g)) = Inr (?g1\<lparr>cg_globals := cg_globals g\<rparr>)"
    using add_globals_fresh[of ?g1 "cg_globals g"] inv(4,5) by (simp add: new_graph_def)
  ultimately show ?thesis
    using decls_ok_copy[of "[]" "cg_public_declarations g"] inv(3,6)
    by (simp add: copy_graph_def add_public_declarations_def new_graph_def)
qed

lemma merge_graph_eq:
  assumes "graph_inv g" and "graph_inv h"
  shows "merge_graph g h =
    (let dn = set (keys (cg_nodes g)) \<inter> set (keys (cg_nodes h)); dg = set (keys (cg_globals g)) \<inter> set (keys (cg_globals h))
     in if dn \<noteq> {} then Inl (DuplicateNode (Min dn)) else if dg \<noteq> {} then Inl (DuplicateGlobal (Min dg))
        else Inr \<lparr>cg_nodes = cg_nodes g @ cg_nodes h, cg_name_index = index_from [] (cg_nodes g @ cg_nodes h),
               cg_globals = cg_globals g @ cg_globals h,
               cg_public_declarations = foldl add_declaration (cg_public_declarations g) (cg_public_declarations h)\<rparr>)"
proof -
  note inv = graph_invD[OF assms(1)] and inv' = graph_invD[OF assms(2)]
  let ?dn = "set (keys (cg_nodes g)) \<inter> set (keys (cg_nodes h))"
  let ?dg = "set (keys (cg_globals g)) \<inter> set (keys (cg_globals h))"
  have f: "set (filter (\<lambda>k. k \<in> set ys) xs) = set xs \<inter> set ys" "filter (\<lambda>k. k \<in> set ys) xs = [] \<longleftrightarrow> set xs \<inter> set ys = {}" for xs ys :: "string list"
    by (auto simp: filter_empty_conv)
  show ?thesis
  proof (cases "?dn = {} \<and> ?dg = {}")
    case True
    let ?g1 = "g\<lparr>cg_nodes := cg_nodes g @ cg_nodes h, cg_name_index := index_from (cg_name_index g) (cg_nodes h)\<rparr>"
    have "add_nodes g (vals (cg_nodes h)) = Inr ?g1"
      using True inv(1) inv'(1,2) by (intro add_nodes_fresh) (auto simp: wf_dict_keys)
    moreover have "add_globals ?g1 (vals (cg_globals h)) = Inr (?g1\<lparr>cg_globals := cg_globals ?g1 @ cg_globals h\<rparr>)"
      using True inv(4) inv'(4,5) by (intro add_globals_fresh) (auto simp: wf_dict_keys)
    ultimately show ?thesis
      using True inv(3) by (simp add: merge_graph_def f add_public_declarations_def)
  next
    case False
    then show ?thesis by (simp add: merge_graph_def f Let_def del: set_filter)
  qed
qed

lemma merge_graph_inv: "graph_inv g \<Longrightarrow> merge_graph g h = Inr k \<Longrightarrow> graph_inv k"
  by (auto simp: merge_graph_def Let_def res_simps split: if_splits
      intro!: add_public_declarations_inv dest: add_nodes_inv add_globals_inv)

text \<open>The locations declared for a name.\<close>

definition declared :: "(string, string list) dict \<Rightarrow> string \<Rightarrow> string set" where
  "declared d n = (case map_of d n of None \<Rightarrow> {} | Some ls \<Rightarrow> set ls)"

definition given :: "(string, string list) dict \<Rightarrow> string \<Rightarrow> string set" where
  "given ds n = {strip l | m ls l. (m, ls) \<in> set ds \<and> l \<in> set ls \<and> strip m = n \<and> n \<noteq> '''' \<and> strip l \<noteq> ''''}"

lemma declared_add_declaration: "declared (add_declaration d p) n = declared d n \<union> given [p] n"
proof (cases p)
  case (Pair m ls)
  have "given [p] n = (if strip m = n \<and> n \<noteq> '''' then set (given_locations ls) else {})"
    by (auto simp: given_def given_locations_def Pair)
  then show ?thesis
    by (auto simp: Pair add_declaration_eq declared_def get_list_def set_fromkeys_from Let_def split: option.splits)
qed

lemma declared_add_all: "declared (foldl add_declaration d ds) n = declared d n \<union> given ds n"
proof (induction ds arbitrary: d)
  case (Cons p ds)
  have "given (p # ds) n = given [p] n \<union> given ds n" by (auto simp: given_def)
  with Cons show ?case by (simp add: declared_add_declaration Un_assoc)
qed (simp add: given_def)

lemma given_declared: "decls_ok d \<Longrightarrow> given d n = declared d n"
proof -
  assume ok: "decls_ok d"
  have "decls_ok ([] @ d)" using ok by simp
  from decls_ok_copy[OF this] declared_add_all[of "[]" d n] show ?thesis by (simp add: declared_def)
qed

section \<open>Graphs built by the operations\<close>

inductive constructed :: "code_graph \<Rightarrow> bool" where
  New: "constructed new_graph"
| Add_node: "constructed g \<Longrightarrow> add_node g n = Inr h \<Longrightarrow> constructed h"
| Add_global: "constructed g \<Longrightarrow> add_global g c = Inr h \<Longrightarrow> constructed h"
| Declare: "constructed g \<Longrightarrow> constructed (add_public_declarations g ds)"
| Tag: "constructed g \<Longrightarrow> get_node g k = Some n \<Longrightarrow> set_tag key v r n = Inr n' \<Longrightarrow>
    constructed (g\<lparr>cg_nodes := AList.update k n' (cg_nodes g)\<rparr>)"
| Resolve: "constructed g \<Longrightarrow> resolve_all_calls g = Inr h \<Longrightarrow> constructed h"
| Annotate: "constructed g \<Longrightarrow> constructed (snd (annotate_public_entrypoints g))"
| Merge: "constructed g \<Longrightarrow> constructed h \<Longrightarrow> merge_graph g h = Inr k \<Longrightarrow> constructed k"
| Copy: "constructed g \<Longrightarrow> copy_graph g = Inr h \<Longrightarrow> constructed h"

lemma set_tag_keeps:
  assumes "set_tag key v r n = Inr n'"
  shows "fn_unique_name n' = fn_unique_name n" "fn_name n' = fn_name n"
  using assms by (auto simp: set_tag_def split: if_splits)

lemma update_map_values:
  "wf_dict d \<Longrightarrow> map_of d k = Some v \<Longrightarrow> AList.update k v' d = map (\<lambda>(x, y). (x, if x = k then v' else y)) d"
proof (induction d)
  case (Cons p d)
  have "map (\<lambda>(x, y). (x, if x = k then v' else y)) d = d" if "k \<notin> set (keys d)"
    using that by (induction d) auto
  with Cons show ?case by (cases p) (auto simp: wf_dict_def keys_def)
qed simp

lemma tag_inv:
  assumes "graph_inv g" and "get_node g k = Some n" and "set_tag key v r n = Inr n'"
  shows "graph_inv (g\<lparr>cg_nodes := AList.update k n' (cg_nodes g)\<rparr>)"
proof -
  note wf = graph_inv_nodes[OF assms(1)]
  have k: "map_of (cg_nodes g) k = Some n" using assms(2) by (simp add: get_node_def)
  have "m = n" if "(k, m) \<in> set (cg_nodes g)" for m using that k map_of_wf_iff[OF wf, of k m] by simp
  with set_tag_keeps[OF assms(3)] show ?thesis
    unfolding update_map_values[OF wf k] by (intro map_values_inv[OF assms(1)]) auto
qed

lemma constructed_inv: "constructed g \<Longrightarrow> graph_inv g"
proof (induction rule: constructed.induct)
  case (Copy g h)
  then show ?case by (simp add: copy_graph_eq)
qed (auto intro: graph_inv_new add_node_inv add_global_inv add_public_declarations_inv tag_inv
    resolve_all_calls_inv annotate_inv merge_graph_inv)

section \<open>What validation accepts\<close>

definition node_ok :: "code_graph \<Rightarrow> (string \<Rightarrow> string) \<Rightarrow> string set \<Rightarrow> function_node \<Rightarrow> bool" where
  "node_ok g norm allowed n \<longleftrightarrow>
     (fn_is_source n \<longleftrightarrow> fn_source_reason n \<noteq> '''') \<and>
     (fn_is_sink n \<longleftrightarrow> fn_sink_type n \<noteq> '''' \<and> fn_sink_reason n \<noteq> '''') \<and>
     (case fn_parameter_count n of None \<Rightarrow> True | Some c \<Rightarrow> 0 \<le> c) \<and>
     norm (fn_file_path n) \<in> allowed \<and> set (node_targets n) \<subseteq> set (keys (cg_nodes g))"

definition global_ok :: "code_graph \<Rightarrow> (string \<Rightarrow> string) \<Rightarrow> string set \<Rightarrow> global_construct \<Rightarrow> bool" where
  "global_ok g norm allowed c \<longleftrightarrow>
     set (global_targets c) \<subseteq> set (keys (cg_nodes g)) \<and> norm (gc_file_path c) \<in> allowed"

lemma validate_node_iff:
  "validate_node g norm allowed e (k, n) = Inr e' \<longleftrightarrow>
     fn_unique_name n = k \<and> node_ok g norm allowed n \<and> e' = setdefault_append e (fn_name n) k"
  by (auto simp: validate_node_def node_ok_def Let_def res_simps filter_empty_conv split: option.splits)

lemma validate_nodes_iff:
  "fold_res (validate_node g norm allowed) e ns = Inr e' \<longleftrightarrow>
     (\<forall>(k, n) \<in> set ns. fn_unique_name n = k \<and> node_ok g norm allowed n) \<and> e' = index_from e ns"
proof (induction ns arbitrary: e)
  case (Cons p ns)
  obtain k n where p: "p = (k, n)" by (cases p)
  show ?case
  proof (cases "validate_node g norm allowed e (k, n)")
    case (Inl err)
    then have "\<not> (fn_unique_name n = k \<and> node_ok g norm allowed n)"
      using validate_node_iff[of g norm allowed e k n] by (metis Inl_Inr_False)
    with Inl p show ?thesis by auto
  next
    case (Inr e1)
    with Cons.IH[of e1] validate_node_iff[of g norm allowed e k n e1] p show ?thesis by simp
  qed
qed auto

lemma validate_global_iff:
  "validate_global g norm allowed (k, c) = Inr u \<longleftrightarrow> gc_unique_name c = k \<and> global_ok g norm allowed c"
  by (auto simp: validate_global_def global_ok_def Let_def res_simps filter_empty_conv)

lemma validate_globals_iff:
  "fold_res (\<lambda>_. validate_global g norm allowed) () cs = Inr () \<longleftrightarrow>
     (\<forall>(k, c) \<in> set cs. gc_unique_name c = k \<and> global_ok g norm allowed c)"
proof (induction cs)
  case (Cons p cs)
  obtain k c where p: "p = (k, c)" by (cases p)
  show ?case
    using Cons validate_global_iff[of g norm allowed k c] p
    by (cases "validate_global g norm allowed (k, c)") (auto simp: Inl_Inr_False)
qed simp

lemma dict_eq_refl: "wf_dict d \<Longrightarrow> dict_eq d d"
  by (auto simp: dict_eq_def list_all_iff wf_dict_def)

lemma ball_items_vals:
  assumes "\<And>k v. (k, v) \<in> set d \<Longrightarrow> P k v \<longleftrightarrow> Q v"
  shows "(\<forall>(k, v) \<in> set d. P k v) \<longleftrightarrow> (\<forall>v \<in> set (vals d). Q v)"
  using assms by (fastforce simp: vals_def)

lemma validate_for_files_iff:
  assumes "graph_inv g"
  shows "validate_for_files cwd g files root = Inr () \<longleftrightarrow>
    (\<forall>n \<in> set (vals (cg_nodes g)). node_ok g (normalized_file_path cwd root) (set (map (normalized_file_path cwd root) files)) n) \<and>
    (\<forall>c \<in> set (vals (cg_globals g)). global_ok g (normalized_file_path cwd root) (set (map (normalized_file_path cwd root) files)) c)"
proof -
  note inv = graph_invD[OF assms]
  define norm where "norm = normalized_file_path cwd root"
  define allowed where "allowed = set (map norm files)"
  have "dict_eq (cg_name_index g) (index_from [] (cg_nodes g))"
    using dict_eq_refl wf_index_from[of "[]" "cg_nodes g"] by (simp add: inv(3))
  then have "validate_for_files cwd g files root = Inr () \<longleftrightarrow>
    (\<forall>(k, n) \<in> set (cg_nodes g). fn_unique_name n = k \<and> node_ok g norm allowed n) \<and>
    (\<forall>(k, c) \<in> set (cg_globals g). gc_unique_name c = k \<and> global_ok g norm allowed c)"
    by (simp only: validate_for_files_def Let_def and_then_eq_Inr raise_if_eq_Inr validate_nodes_iff validate_globals_iff
        norm_def[symmetric] allowed_def[symmetric]) blast
  moreover have "(\<forall>(k, n) \<in> set (cg_nodes g). fn_unique_name n = k \<and> node_ok g norm allowed n) \<longleftrightarrow>
      (\<forall>n \<in> set (vals (cg_nodes g)). node_ok g norm allowed n)"
    using inv(2) by (intro ball_items_vals) blast
  moreover have "(\<forall>(k, c) \<in> set (cg_globals g). gc_unique_name c = k \<and> global_ok g norm allowed c) \<longleftrightarrow>
      (\<forall>c \<in> set (vals (cg_globals g)). global_ok g norm allowed c)"
    using inv(5) by (intro ball_items_vals) blast
  ultimately show ?thesis by (simp only: norm_def allowed_def)
qed

section \<open>Queries\<close>

lemma append_callers_lookup:
  "m \<in> set (get_list (append_callers d n) k) \<longleftrightarrow>
     m \<in> set (get_list d k) \<or> m = fn_unique_name n \<and> k \<in> set (fn_resolved_calls n)"
proof -
  have "m \<in> set (get_list (foldl (\<lambda>d c. setdefault_append d c u) d cs) k) \<longleftrightarrow>
     m \<in> set (get_list d k) \<or> m = u \<and> k \<in> set cs" for cs u
    by (induction cs arbitrary: d) auto
  then show ?thesis by (simp add: append_callers_def)
qed

lemma get_list_sorted: "get_list (map (\<lambda>(k, xs). (k, sort_key f xs)) d) k = sort_key f (get_list d k)"
  by (induction d) (auto simp: get_list_def)

lemma build_reverse_edges_lookup:
  "m \<in> set (get_list (build_reverse_edges g key) k) \<longleftrightarrow>
     (\<exists>n \<in> set (vals (cg_nodes g)). fn_unique_name n = m \<and> k \<in> set (fn_resolved_calls n))"
proof -
  have "m \<in> set (get_list (foldl append_callers d ns) k) \<longleftrightarrow>
     m \<in> set (get_list d k) \<or> (\<exists>n \<in> set ns. fn_unique_name n = m \<and> k \<in> set (fn_resolved_calls n))" for ns d
    by (induction ns arbitrary: d) (auto simp: append_callers_lookup)
  from this[of "[]" "vals (cg_nodes g)"] show ?thesis
    by (cases key) (simp_all add: build_reverse_edges_def get_list_sorted)
qed

lemma max_by_line_spec:
  "max_by_line b ns \<in> insert b (set ns) \<and> (\<forall>m \<in> insert b (set ns). fn_line_number m \<le> fn_line_number (max_by_line b ns))"
proof (induction ns arbitrary: b)
  case (Cons n ns)
  show ?case using Cons.IH[of n] Cons.IH[of b] by (auto split: if_splits)
qed simp

section \<open>Properties of the code graph\<close>

definition demo_function :: "string \<Rightarrow> string \<Rightarrow> string \<Rightarrow> string list \<Rightarrow> int \<Rightarrow> function_node" where
  "demo_function uid file nm calls line =
     \<lparr>fn_unique_name = uid, fn_file_path = file, fn_name = nm, fn_line_number = line, fn_language = ''c'',
      fn_calls = calls, fn_resolved_calls = [], fn_end_line = line + 9, fn_start_byte = 0, fn_end_byte = 1,
      fn_is_public_entrypoint = False, fn_entrypoint_reason = '''', fn_has_internal_linkage = False,
      fn_is_source = False, fn_source_reason = '''', fn_is_sink = False, fn_sink_type = '''', fn_sink_reason = '''',
      fn_lock_events = [], fn_tags = [], fn_call_sites = [], fn_references = [], fn_parameter_count = Some 0,
      fn_parameters = [], fn_assignments = [], fn_loops = [], fn_returns = []\<rparr>"

definition demo_functions :: "function_node list" where
  "demo_functions = [demo_function ''a.c::main'' ''a.c'' ''main'' [''log'', ''run''] 1,
     demo_function ''a.c::log'' ''a.c'' ''log'' [] 20, demo_function ''b.c::log'' ''b.c'' ''log'' [] 1,
     demo_function ''b.c::run'' ''b.c'' ''run'' [''main''] 20]"

definition graph_of :: "function_node list \<Rightarrow> code_graph" where
  "graph_of ns = (case add_nodes new_graph ns of Inr g \<Rightarrow> g | Inl _ \<Rightarrow> new_graph)"

lemma graph_of_constructed: "constructed (graph_of ns)"
proof -
  have "fold_res add_node g ns = Inr h \<Longrightarrow> constructed g \<Longrightarrow> constructed h" for g h
    by (erule fold_res_inv_step) (auto intro: constructed.Add_node)
  then show ?thesis by (auto simp: graph_of_def add_nodes_def constructed.New split: sum.split)
qed

definition demo_graph :: code_graph where
  "demo_graph = graph_of demo_functions"

lemma demo_graph_constructed: "constructed demo_graph"
  unfolding demo_graph_def by (rule graph_of_constructed)

text \<open>
  C26. Whatever sequence of operations built a graph, its name index is exact: a name leads to the
  identifiers of the functions with that name, in the order in which they were added, and to
  nothing else; identifiers are unique and are the keys under which the functions are stored.
\<close>

theorem code_graph_index:
  assumes "constructed g"
  shows "distinct (keys (cg_nodes g)) \<and>
    (\<forall>k n. get_node g k = Some n \<longrightarrow> fn_unique_name n = k) \<and>
    (\<forall>nm. map_of (cg_name_index g) nm =
      (let ids = map fn_unique_name (filter (\<lambda>n. fn_name n = nm) (vals (cg_nodes g))) in if ids = [] then None else Some ids)) \<and>
    distinct (keys (cg_globals g)) \<and> (\<forall>k c. map_of (cg_globals g) k = Some c \<longrightarrow> gc_unique_name c = k)"
proof -
  note inv = graph_invD[OF constructed_inv[OF assms]]
  have "map fn_unique_name (filter (\<lambda>n. fn_name n = nm) (vals ns)) = ids_named ns nm"
    if "\<And>k n. (k, n) \<in> set ns \<Longrightarrow> fn_unique_name n = k" for ns nm
    using that by (induction ns) (auto simp: ids_named_def)
  with inv(2) have "map fn_unique_name (filter (\<lambda>n. fn_name n = nm) (vals (cg_nodes g))) = ids_named (cg_nodes g) nm" for nm
    by blast
  then show ?thesis
    using inv(1,2,4,5) by (auto simp: inv(3) index_lookup wf_dict_keys get_node_def dest: map_of_SomeD)
qed

theorem code_graph_index_witness:
  "map_of (cg_name_index demo_graph) ''log'' = Some [''a.c::log'', ''b.c::log''] \<and> distinct (keys (cg_nodes demo_graph))"
proof -
  have "map fn_unique_name (filter (\<lambda>n. fn_name n = ''log'') (vals (cg_nodes demo_graph))) = [''a.c::log'', ''b.c::log'']"
    by code_simp
  with code_graph_index[OF demo_graph_constructed] show ?thesis by (simp only: Let_def list.distinct if_False)
qed

lemma resolve_all_calls_node:
  assumes "constructed g" and "resolve_all_calls g = Inr h" and "get_node g k = Some n"
  shows "get_node h k = Some (n\<lparr>fn_resolved_calls := resolved_of g n\<rparr>)"
  using assms(2,3) resolve_all_calls_eq[OF constructed_inv[OF assms(1)]]
  by (auto simp: get_node_def map_of_map_values)

text \<open>
  C27. Resolving the calls of a graph built by the operations never fails. Each function keeps
  everything but its resolved calls; these are, without repetition, the functions that have the
  name of one of its calls and lie in its own file, or for a name without such a function, all
  functions with that name. In particular every resolved call is a function of the graph.
\<close>

theorem resolve_all_calls_correct:
  assumes "constructed g"
  shows "\<exists>h. resolve_all_calls g = Inr h \<and> keys (cg_nodes h) = keys (cg_nodes g) \<and>
    (\<forall>k n. get_node g k = Some n \<longrightarrow> (\<exists>r. get_node h k = Some (n\<lparr>fn_resolved_calls := r\<rparr>) \<and> distinct r \<and>
       set r = {t. \<exists>m nm. nm \<in> set (fn_calls n) \<and> get_node g t = Some m \<and> fn_name m = nm \<and>
         (fn_file_path m = fn_file_path n \<or>
          \<not> (\<exists>t' m'. get_node g t' = Some m' \<and> fn_name m' = nm \<and> fn_file_path m' = fn_file_path n))}))"
proof -
  note inv = graph_invD[OF constructed_inv[OF assms]]
  have targets: "t \<in> set (call_targets g n nm) \<longleftrightarrow> (\<exists>m. get_node g t = Some m \<and> fn_name m = nm \<and>
      (fn_file_path m = fn_file_path n \<or>
       \<not> (\<exists>t' m'. get_node g t' = Some m' \<and> fn_name m' = nm \<and> fn_file_path m' = fn_file_path n)))" for n nm t
    unfolding get_node_def map_of_wf_iff[OF inv(1)] call_targets_def Let_def
    by (auto simp: filter_empty_conv image_iff split: if_splits)
  let ?h = "g\<lparr>cg_nodes := map (\<lambda>(k, n). (k, n\<lparr>fn_resolved_calls := resolved_of g n\<rparr>)) (cg_nodes g)\<rparr>"
  have "get_node ?h k = Some (n\<lparr>fn_resolved_calls := resolved_of g n\<rparr>)" if "get_node g k = Some n" for k n
    using that by (simp add: get_node_def map_of_map_values)
  moreover have "distinct (resolved_of g n)" "set (resolved_of g n) = {t. \<exists>nm \<in> set (fn_calls n). t \<in> set (call_targets g n nm)}" for n
    by (auto simp: resolved_of_def)
  ultimately show ?thesis
    by (intro exI[of _ ?h] conjI allI impI resolve_all_calls_eq[OF constructed_inv[OF assms]] exI[of _ "resolved_of g _"])
       (simp_all add: keys_map_values targets, blast)
qed

theorem resolve_all_calls_correct_witness:
  "\<exists>h n. resolve_all_calls demo_graph = Inr h \<and> get_node h ''a.c::main'' = Some n \<and>
     fn_resolved_calls n = [''a.c::log'', ''b.c::run''] \<and> keys (cg_nodes h) = keys (cg_nodes demo_graph)"
proof -
  let ?n = "demo_function ''a.c::main'' ''a.c'' ''main'' [''log'', ''run''] 1"
  obtain h where h: "resolve_all_calls demo_graph = Inr h" and ks: "keys (cg_nodes h) = keys (cg_nodes demo_graph)"
    using resolve_all_calls_correct[OF demo_graph_constructed] by metis
  have "get_node demo_graph ''a.c::main'' = Some ?n" by code_simp
  from resolve_all_calls_node[OF demo_graph_constructed h this]
  have n: "get_node h ''a.c::main'' = Some (?n\<lparr>fn_resolved_calls := resolved_of demo_graph ?n\<rparr>)" .
  have "resolved_of demo_graph ?n = [''a.c::log'', ''b.c::run'']" by code_simp
  then show ?thesis using h ks n by (intro exI[of _ h] exI conjI) (assumption | simp)+
qed

text \<open>
  For a graph built by the operations, validation accepts exactly when every function and
  every global lies in a requested file, source and sink marks agree with their reasons, parameter
  counts are not negative, and all targets are functions of the graph. The checks of the indexes
  never fail.
\<close>

theorem validate_for_files_exact:
  assumes "constructed g"
  shows "validate_for_files cwd g files root = Inr () \<longleftrightarrow>
    (\<forall>n \<in> set (vals (cg_nodes g)).
       (fn_is_source n \<longleftrightarrow> fn_source_reason n \<noteq> '''') \<and>
       (fn_is_sink n \<longleftrightarrow> fn_sink_type n \<noteq> '''' \<and> fn_sink_reason n \<noteq> '''') \<and>
       (case fn_parameter_count n of None \<Rightarrow> True | Some c \<Rightarrow> 0 \<le> c) \<and>
       (\<exists>f \<in> set files. normalized_file_path cwd root (fn_file_path n) = normalized_file_path cwd root f) \<and>
       set (node_targets n) \<subseteq> set (keys (cg_nodes g))) \<and>
    (\<forall>c \<in> set (vals (cg_globals g)).
       set (global_targets c) \<subseteq> set (keys (cg_nodes g)) \<and>
       (\<exists>f \<in> set files. normalized_file_path cwd root (gc_file_path c) = normalized_file_path cwd root f))"
  unfolding validate_for_files_iff[OF constructed_inv[OF assms]] node_ok_def global_ok_def set_map image_iff ..

theorem validate_for_files_exact_witness:
  "validate_for_files ''/'' demo_graph [''/repo/./a.c'', ''b.c''] ''/repo'' = Inr ()"
proof -
  have "(\<forall>n \<in> set (vals (cg_nodes demo_graph)).
       (fn_is_source n \<longleftrightarrow> fn_source_reason n \<noteq> '''') \<and>
       (fn_is_sink n \<longleftrightarrow> fn_sink_type n \<noteq> '''' \<and> fn_sink_reason n \<noteq> '''') \<and>
       (case fn_parameter_count n of None \<Rightarrow> True | Some c \<Rightarrow> 0 \<le> c) \<and>
       (\<exists>f \<in> set [''/repo/./a.c'', ''b.c'']. normalized_file_path ''/'' ''/repo'' (fn_file_path n) = normalized_file_path ''/'' ''/repo'' f) \<and>
       set (node_targets n) \<subseteq> set (keys (cg_nodes demo_graph)))" by code_simp
  moreover have "vals (cg_globals demo_graph) = []" by code_simp
  ultimately show ?thesis
    using validate_for_files_exact[OF demo_graph_constructed, of "''/''" "[''/repo/./a.c'', ''b.c'']" "''/repo''"] by simp
qed

text \<open>
  C28. Merging two graphs fails exactly when they share the identifier of a function or of a
  global, and then names the least shared one. Otherwise the result is again a built graph, has
  the functions and globals of both, each unchanged, and for every name the declared locations of both.
\<close>

theorem merge_graph_exact:
  assumes "constructed g" and "constructed h"
  defines "shared \<equiv> set (keys (cg_nodes g)) \<inter> set (keys (cg_nodes h))"
  defines "shared_globals \<equiv> set (keys (cg_globals g)) \<inter> set (keys (cg_globals h))"
  shows "(case merge_graph g h of
      Inl (DuplicateNode k) \<Rightarrow> shared \<noteq> {} \<and> k = Min shared
    | Inl (DuplicateGlobal k) \<Rightarrow> shared = {} \<and> shared_globals \<noteq> {} \<and> k = Min shared_globals
    | Inl _ \<Rightarrow> False
    | Inr m \<Rightarrow> shared = {} \<and> shared_globals = {} \<and> constructed m \<and>
        cg_nodes m = cg_nodes g @ cg_nodes h \<and> cg_globals m = cg_globals g @ cg_globals h \<and>
        (\<forall>nm. declared (cg_public_declarations m) nm =
           declared (cg_public_declarations g) nm \<union> declared (cg_public_declarations h) nm))"
proof -
  have eq: "merge_graph g h =
    (if shared \<noteq> {} then Inl (DuplicateNode (Min shared)) else if shared_globals \<noteq> {} then Inl (DuplicateGlobal (Min shared_globals))
        else Inr \<lparr>cg_nodes = cg_nodes g @ cg_nodes h, cg_name_index = index_from [] (cg_nodes g @ cg_nodes h),
               cg_globals = cg_globals g @ cg_globals h,
               cg_public_declarations = foldl add_declaration (cg_public_declarations g) (cg_public_declarations h)\<rparr>)"
    using merge_graph_eq[OF constructed_inv[OF assms(1)] constructed_inv[OF assms(2)]]
    by (simp only: Let_def shared_def shared_globals_def)
  have decl: "declared (foldl add_declaration (cg_public_declarations g) (cg_public_declarations h)) nm =
      declared (cg_public_declarations g) nm \<union> declared (cg_public_declarations h) nm" for nm
    using declared_add_all given_declared[OF graph_inv_decls[OF constructed_inv[OF assms(2)]]] by simp
  consider "shared \<noteq> {}" | "shared = {}" "shared_globals \<noteq> {}" | (ok) "shared = {}" "shared_globals = {}" by blast
  then show ?thesis
  proof cases
    case ok
    have "constructed m" if "merge_graph g h = Inr m" for m using constructed.Merge[OF assms(1,2) that] .
    with ok eq decl show ?thesis by simp
  qed (simp_all add: eq)
qed

theorem merge_graph_exact_witness:
  "merge_graph demo_graph demo_graph = Inl (DuplicateNode ''a.c::log'')"
proof -
  let ?shared = "set (keys (cg_nodes demo_graph)) \<inter> set (keys (cg_nodes demo_graph))"
  have "Min ?shared = ''a.c::log''" "?shared \<noteq> {}" by code_simp+
  with merge_graph_exact[OF demo_graph_constructed demo_graph_constructed] show ?thesis
    by (auto split: sum.splits graph_error.splits)
qed

text \<open>Copying a graph built by the operations succeeds and gives an equal graph.\<close>

theorem copy_graph_identity:
  assumes "constructed g"
  shows "copy_graph g = Inr g"
  by (rule copy_graph_eq[OF constructed_inv[OF assms]])

theorem copy_graph_identity_witness: "copy_graph demo_graph = Inr demo_graph \<and> length (cg_nodes demo_graph) = 4"
proof -
  have "length (cg_nodes demo_graph) = 4" by code_simp
  with copy_graph_identity[OF demo_graph_constructed] show ?thesis by simp
qed

text \<open>
  A file has one normalised name: normalising is idempotent for relative names, and for a
  relative name that does not leave the code base, the absolute name of the file in the code base
  has the same normalised form.
\<close>

theorem normalized_file_path_same_file:
  assumes "isabs root" and "\<not> isabs rel" and "rel \<noteq> ''''" and "''..'' \<notin> set (norm_comps rel)"
  shows "normalized_file_path cwd root (path_join (normpath root) rel) = normalized_file_path cwd root rel \<and>
    normalized_file_path cwd root (normpath rel) = normalized_file_path cwd root rel"
proof -
  have abs: "abspath cwd root = normpath root" using assms(1) by (simp add: abspath_def)
  have "root \<noteq> ''''" using assms(1) by (auto simp: isabs_Cons)
  then have root: "isabs (normpath root)"
    using normpath_show[of root] show_path_initial[OF _ initial_slashes_le, of "norm_comps root" root]
      normal_norm_comps[of root] assms(1) isabs_initial by (metis normal_def)
  have rel: "\<not> isabs (normpath rel)"
    using normpath_show[OF assms(3)] show_path_initial[OF _ initial_slashes_le, of "norm_comps rel" rel]
      normal_norm_comps[of rel] assms(2) isabs_initial by (metis normal_def)
  have "isabs (path_join (normpath root) rel)" by (rule isabs_join[OF root])
  moreover have "relpath cwd (path_join (normpath root) rel) (abspath cwd root) = normpath rel"
    unfolding abs by (rule relpath_below[OF root assms(2-4)])
  ultimately show ?thesis
    using assms(2) rel by (simp add: normalized_file_path_def normpath_idempotent)
qed

theorem normalized_file_path_same_file_witness:
  "normalized_file_path ''/tmp'' ''/repo/'' ''/repo/lib/./x/../a.c'' = ''lib/a.c''"
proof -
  have "isabs ''/repo/''" "\<not> isabs ''lib/./x/../a.c''" "''lib/./x/../a.c'' \<noteq> ''''" "''..'' \<notin> set (norm_comps ''lib/./x/../a.c'')"
    by code_simp+
  from normalized_file_path_same_file[OF this, of "''/tmp''"]
  have "normalized_file_path ''/tmp'' ''/repo/'' (path_join (normpath ''/repo/'') ''lib/./x/../a.c'') =
      normalized_file_path ''/tmp'' ''/repo/'' ''lib/./x/../a.c''" by blast
  moreover have "path_join (normpath ''/repo/'') ''lib/./x/../a.c'' = ''/repo/lib/./x/../a.c''" by code_simp
  moreover have "normalized_file_path ''/tmp'' ''/repo/'' ''lib/./x/../a.c'' = ''lib/a.c''" by code_simp
  ultimately show ?thesis by simp
qed

text \<open>
  The function for a location is a function of the file whose lines contain the location, one
  that matches the symbol whenever there is such a function; no other such function starts later.
  There is no result only if no function of the file contains the location.
\<close>

theorem function_for_location_innermost:
  defines "covering \<equiv> \<lambda>g file line. {n \<in> set (get_file_nodes g file). fn_line_number n \<le> max 1 line \<and> max 1 line \<le> last_line n}"
  shows "case function_for_location g file line symbol None of
      None \<Rightarrow> covering g file line = {}
    | Some n \<Rightarrow> n \<in> covering g file line \<and>
        (symbol \<noteq> '''' \<and> (\<exists>m \<in> covering g file line. names_symbol symbol m) \<longrightarrow> names_symbol symbol n) \<and>
        (\<forall>m \<in> covering g file line. (symbol \<noteq> '''' \<and> names_symbol symbol n \<longrightarrow> names_symbol symbol m) \<longrightarrow>
           fn_line_number m \<le> fn_line_number n)"
proof -
  define C where "C = filter (\<lambda>n. fn_line_number n \<le> max 1 line \<and> max 1 line \<le> last_line n) (get_file_nodes g file)"
  have cov: "covering g file line = set C" by (auto simp: covering_def C_def)
  define ex where "ex = (if symbol = '''' then [] else filter (names_symbol symbol) C)"
  define ch where "ch = (if ex \<noteq> [] then ex else C)"
  have f: "function_for_location g file line symbol None = (case ch of [] \<Rightarrow> None | n # ns \<Rightarrow> Some (max_by_line n ns))"
    by (simp add: function_for_location_def Let_def C_def ex_def ch_def)
  show ?thesis
  proof (cases ch)
    case Nil
    then show ?thesis by (simp add: f cov ch_def split: if_splits)
  next
    case (Cons n ns)
    let ?m = "max_by_line n ns"
    have m: "?m \<in> set ch" "\<And>x. x \<in> set ch \<Longrightarrow> fn_line_number x \<le> fn_line_number ?m"
      using max_by_line_spec[of n ns] Cons by auto
    have fm: "function_for_location g file line symbol None = Some ?m" by (simp add: f Cons)
    have ch: "if ex = [] then set ch = set C \<and> (symbol \<noteq> '''' \<longrightarrow> (\<forall>x \<in> set C. \<not> names_symbol symbol x))
        else set ch = {x \<in> set C. names_symbol symbol x} \<and> symbol \<noteq> ''''"
      by (auto simp: ch_def ex_def filter_empty_conv split: if_splits)
    have "?m \<in> set C" using m(1) ch by (simp split: if_splits)
    moreover have "symbol \<noteq> '''' \<and> (\<exists>x \<in> set C. names_symbol symbol x) \<longrightarrow> names_symbol symbol ?m"
      using m(1) ch by (auto split: if_splits)
    moreover have "fn_line_number x \<le> fn_line_number ?m"
      if "x \<in> set C" and "symbol \<noteq> '''' \<and> names_symbol symbol ?m \<longrightarrow> names_symbol symbol x" for x
      using m ch that by (simp split: if_splits)
    ultimately show ?thesis unfolding fm option.case cov by blast
  qed
qed

theorem function_for_location_innermost_witness:
  "map_option fn_unique_name (function_for_location demo_graph ''a.c'' 25 '''' None) = Some ''a.c::log''"
proof -
  have n: "map_option fn_unique_name (function_for_location demo_graph ''a.c'' 25 '''' None) = Some ''a.c::log''" by code_simp
  then obtain n where "function_for_location demo_graph ''a.c'' 25 '''' None = Some n" by blast
  with function_for_location_innermost[of demo_graph "''a.c''" 25 "''''"] n show ?thesis by simp
qed

end
