(* ===== verification/Graph_Search.thy ===== *)
theory Graph_Search
  imports Prelude
begin

text \<open>
  The two searches of the reachability analysis over the call graph, as the sources write them: the
  worklist closure of \<open>FileFocusBuilder.node_names_for_targets\<close> and the breadth-first search of
  \<open>FindingPathAnnotator._best_source_path_to\<close>. The functions take the names of the graph and the
  neighbours of a name; the locale \<open>call_edges\<close> states what they rely on (the callers of a name
  are the converse of its callees) and holds their correctness.
\<close>

section \<open>The worklist closure\<close>

fun visit :: "'a list \<Rightarrow> 'a set \<Rightarrow> 'a list \<Rightarrow> 'a set \<times> 'a list" where
  "visit known reached [] = (reached, [])"
| "visit known reached (y # ys) =
     (if y \<in> reached \<or> y \<notin> set known then visit known reached ys
      else let (reached', new) = visit known (insert y reached) ys in (reached', y # new))"

lemma visit_spec:
  assumes "visit known reached ys = (reached', new)"
  shows "reached' = reached \<union> set new" and "set new = {y \<in> set ys. y \<notin> reached \<and> y \<in> set known}"
    and "distinct new"
proof -
  have "reached' = reached \<union> set new \<and> set new = {y \<in> set ys. y \<notin> reached \<and> y \<in> set known} \<and> distinct new"
    using assms
  proof (induction ys arbitrary: reached reached' new)
    case (Cons y ys)
    show ?case
    proof (cases "y \<in> reached \<or> y \<notin> set known")
      case True
      then show ?thesis using Cons by auto
    next
      case False
      then obtain new' where "visit known (insert y reached) ys = (reached', new')" and new: "new = y # new'"
        using Cons.prems by (auto split: prod.splits)
      from Cons.IH[OF this(1)] False new show ?thesis by auto
    qed
  qed simp
  then show "reached' = reached \<union> set new" and "set new = {y \<in> set ys. y \<notin> reached \<and> y \<in> set known}" and "distinct new"
    by blast+
qed

lemma visit_measure:
  assumes "visit known reached ys = (reached', new)"
  shows "length new + card (set known - reached') = card (set known - reached)"
proof -
  note s = visit_spec[OF assms]
  have "set known - reached = set new \<union> (set known - reached')" and "set new \<inter> (set known - reached') = {}"
    using s(1,2) by auto
  then have "card (set known - reached) = card (set new) + card (set known - reached')"
    by (metis List.finite_set card_Un_disjoint finite_Diff)
  then show ?thesis using s(3) by (simp add: distinct_card)
qed

function reach_loop :: "'a list \<Rightarrow> ('a \<Rightarrow> 'a list) \<Rightarrow> 'a set \<Rightarrow> 'a list \<Rightarrow> 'a set" where
  "reach_loop known succ reached [] = reached"
| "reach_loop known succ reached (x # queue) =
     (if x \<notin> set known then reach_loop known succ reached queue
      else let (reached', new) = visit known reached (succ x)
           in reach_loop known succ reached' (queue @ new))"
  by pat_completeness auto
termination
proof (relation "measure (\<lambda>(known, succ, reached, queue). length queue + card (set known - reached))")
  fix known queue new :: "'a list" and succ :: "'a \<Rightarrow> 'a list" and reached reached' :: "'a set" and x :: 'a and p
  assume "p = visit known reached (succ x)" and "(reached', new) = p"
  then have "length new + card (set known - reached') = card (set known - reached)"
    using visit_measure by metis
  then show "((known, succ, reached', queue @ new), known, succ, reached, x # queue)
      \<in> measure (\<lambda>(known, succ, reached, queue). length queue + card (set known - reached))" by simp
qed auto

section \<open>Breadth-first search for a source\<close>

text \<open>Following the parents; \<open>None\<close> stands for a missing key or an endless chain.\<close>

partial_function (option) trace_path :: "('a, 'a option) dict \<Rightarrow> 'a list \<Rightarrow> 'a option \<Rightarrow> 'a list option" where
  "trace_path parents path parent =
     (case parent of None \<Rightarrow> Some path
      | Some p \<Rightarrow> (case map_of parents p of None \<Rightarrow> None | Some q \<Rightarrow> trace_path parents (path @ [p]) q))"

declare trace_path.simps [code]

text \<open>One pass over the callers of \<open>cur\<close>: \<open>Inl\<close> for the early return with a source.\<close>

fun visit_callers ::
  "'a list \<Rightarrow> ('a \<Rightarrow> bool) \<Rightarrow> 'a \<Rightarrow> int \<Rightarrow> 'a list \<Rightarrow> ('a, 'a option) dict \<Rightarrow> ('a, int) dict \<Rightarrow> 'a list \<Rightarrow>
   'a list option + ('a, 'a option) dict \<times> ('a, int) dict \<times> 'a list" where
  "visit_callers known is_source cur depth [] parents depths queue = Inr (parents, depths, queue)"
| "visit_callers known is_source cur depth (c # cs) parents depths queue =
     (if c \<in> set (keys parents) \<or> c \<notin> set known
      then visit_callers known is_source cur depth cs parents depths queue
      else let parents' = AList.update c (Some cur) parents; depths' = AList.update c (depth + 1) depths
           in if is_source c then Inl (trace_path parents' [c] (Some cur))
              else visit_callers known is_source cur depth cs parents' depths' (queue @ [c]))"

lemma visit_callers_measure:
  "visit_callers known is_source cur depth cs parents depths queue = Inr (parents', depths', queue') \<Longrightarrow>
   length queue' + card (set known - set (keys parents')) = length queue + card (set known - set (keys parents))"
proof (induction known is_source cur depth cs parents depths queue rule: visit_callers.induct)
  case (2 known is_source cur depth c cs parents depths queue)
  show ?case
  proof (cases "c \<in> set (keys parents) \<or> c \<notin> set known")
    case True
    then show ?thesis using 2 by simp
  next
    case False
    let ?p = "AList.update c (Some cur) parents"
    have "set known - set (keys parents) = insert c (set known - set (keys ?p))" using False by auto
    moreover have "c \<notin> set known - set (keys ?p)" by simp
    ultimately have "card (set known - set (keys parents)) = Suc (card (set known - set (keys ?p)))"
      by (metis List.finite_set card_insert_disjoint finite_Diff)
    then show ?thesis using 2 False by (simp add: Let_def split: if_splits)
  qed
qed simp

function path_loop ::
  "'a list \<Rightarrow> ('a \<Rightarrow> 'a list) \<Rightarrow> ('a \<Rightarrow> bool) \<Rightarrow> int \<Rightarrow> 'a list \<Rightarrow> ('a, 'a option) dict \<Rightarrow> ('a, int) dict \<Rightarrow> 'a list option" where
  "path_loop known callers is_source limit [] parents depths = Some []"
| "path_loop known callers is_source limit (cur # queue) parents depths =
     (case map_of depths cur of
        None \<Rightarrow> None
      | Some depth \<Rightarrow>
          if limit \<le> depth then path_loop known callers is_source limit queue parents depths
          else (case visit_callers known is_source cur depth (callers cur) parents depths queue of
                  Inl found \<Rightarrow> found
                | Inr (parents', depths', queue') \<Rightarrow> path_loop known callers is_source limit queue' parents' depths'))"
  by pat_completeness auto
termination
proof (relation "measure (\<lambda>(known, callers, is_source, limit, queue, parents, depths).
    length queue + card (set known - set (keys parents)))")
  fix known queue queue' :: "'a list" and callers :: "'a \<Rightarrow> 'a list" and is_source :: "'a \<Rightarrow> bool" and limit depth :: int
    and cur :: 'a and parents parents' :: "('a, 'a option) dict" and depths depths' :: "('a, int) dict" and r x
  assume "visit_callers known is_source cur depth (callers cur) parents depths queue = Inr r"
    and "(parents', x) = r" and "(depths', queue') = x"
  then have "visit_callers known is_source cur depth (callers cur) parents depths queue = Inr (parents', depths', queue')"
    by simp
  from visit_callers_measure[OF this]
  show "((known, callers, is_source, limit, queue', parents', depths'), known, callers, is_source, limit, cur # queue, parents, depths)
      \<in> measure (\<lambda>(known, callers, is_source, limit, queue, parents, depths). length queue + card (set known - set (keys parents)))"
    by simp
qed auto

definition search_path :: "'a list \<Rightarrow> ('a \<Rightarrow> 'a list) \<Rightarrow> ('a \<Rightarrow> bool) \<Rightarrow> int \<Rightarrow> 'a \<Rightarrow> 'a list option" where
  "search_path known callers is_source limit target =
     path_loop known callers is_source limit [target] [(target, None)] [(target, 1)]"

section \<open>Paths in the call graph\<close>

text \<open>The list of names from a caller to a callee, each calling the next.\<close>

fun call_chain :: "'a set \<Rightarrow> ('a \<Rightarrow> 'a list) \<Rightarrow> 'a list \<Rightarrow> bool" where
  "call_chain known callees [] \<longleftrightarrow> False"
| "call_chain known callees [x] \<longleftrightarrow> x \<in> known"
| "call_chain known callees (x # y # p) \<longleftrightarrow> x \<in> known \<and> y \<in> set (callees x) \<and> call_chain known callees (y # p)"

lemma call_chain_known: "call_chain known callees p \<Longrightarrow> set p \<subseteq> known"
  by (induction known callees p rule: call_chain.induct) auto

lemma call_chain_nonempty: "call_chain known callees p \<Longrightarrow> p \<noteq> []"
  by auto

inductive traced :: "('a, 'a option) dict \<Rightarrow> 'a \<Rightarrow> 'a list \<Rightarrow> bool" for parents where
  root: "map_of parents v = Some None \<Longrightarrow> traced parents v [v]"
| step: "map_of parents v = Some (Some u) \<Longrightarrow> traced parents u p \<Longrightarrow> traced parents v (v # p)"

lemma traced_trace_path: "traced parents v p \<Longrightarrow> trace_path parents acc (Some v) = Some (acc @ p)"
proof (induction arbitrary: acc rule: traced.induct)
  case (root v)
  then show ?case by (subst trace_path.simps) (simp add: trace_path.simps[of _ _ None])
next
  case (step v u p)
  then show ?case by (subst trace_path.simps) simp
qed

lemma traced_update:
  assumes "traced parents v p" and "c \<notin> set (keys parents)"
  shows "traced (AList.update c w parents) v p"
  using assms
proof (induction rule: traced.induct)
  case (root v)
  then have "v \<noteq> c" by (auto dest: map_of_Some_keys)
  with root show ?case by (intro traced.root) simp
next
  case (step v u p)
  then have "v \<noteq> c" by (auto dest: map_of_Some_keys)
  with step show ?case by (intro traced.step[of _ v u]) simp_all
qed

section \<open>Correctness of the searches\<close>

definition known_edges :: "'a list \<Rightarrow> ('a \<Rightarrow> 'a list) \<Rightarrow> ('a \<times> 'a) set" where
  "known_edges known succ = {(x, y). x \<in> set known \<and> y \<in> set known \<and> y \<in> set (succ x)}"

lemma rtrancl_Image_mono: "A \<subseteq> E\<^sup>* `` B \<Longrightarrow> E\<^sup>* `` A \<subseteq> E\<^sup>* `` B"
  by (metis Image_mono relcomp_Image rtrancl_idemp_self_comp subset_refl)

lemma visit_closure:
  assumes "visit known reached (succ x) = (reached', new)" and "x \<in> reached" and "x \<in> set known"
  shows "(known_edges known succ)\<^sup>* `` reached' = (known_edges known succ)\<^sup>* `` reached"
proof -
  let ?E = "known_edges known succ"
  note s = visit_spec[OF assms(1)]
  have "set new \<subseteq> ?E `` reached" using s(2) assms(2,3) by (auto simp: known_edges_def)
  then have "reached' \<subseteq> ?E\<^sup>* `` reached" using s(1) by blast
  then have "?E\<^sup>* `` reached' \<subseteq> ?E\<^sup>* `` reached" by (rule rtrancl_Image_mono)
  then show ?thesis using s(1) by blast
qed

definition settled :: "'a list \<Rightarrow> ('a \<Rightarrow> 'a list) \<Rightarrow> 'a set \<Rightarrow> 'a list \<Rightarrow> bool" where
  "settled known succ reached queue \<longleftrightarrow> set queue \<subseteq> reached \<and>
     (\<forall>x \<in> reached - set queue. known_edges known succ `` {x} \<subseteq> reached)"

lemma settled_visit:
  assumes "settled known succ reached (x # queue)" and "visit known reached (succ x) = (reached', new)" and "x \<in> set known"
  shows "settled known succ reached' (queue @ new)"
proof -
  note s = visit_spec[OF assms(2)]
  have "known_edges known succ `` {y} \<subseteq> reached'" if "y \<in> reached' - set (queue @ new)" for y
  proof (cases "y = x")
    case True
    then show ?thesis using s(1,2) by (auto simp: known_edges_def)
  next
    case False
    then have "y \<in> reached - set (x # queue)" using that s(1) by auto
    then show ?thesis using assms(1) s(1) unfolding settled_def by blast
  qed
  moreover have "set (queue @ new) \<subseteq> reached'" using assms(1) s(1) by (auto simp: settled_def)
  ultimately show ?thesis by (simp add: settled_def)
qed

lemma reach_loop_closure:
  "settled known succ reached queue \<Longrightarrow> reach_loop known succ reached queue = (known_edges known succ)\<^sup>* `` reached"
proof (induction known succ reached queue rule: reach_loop.induct)
  case (1 known succ reached)
  then have "known_edges known succ `` reached \<subseteq> reached" by (auto simp: settled_def)
  then show ?case by (simp add: Image_closed_trancl)
next
  case (2 known succ reached x queue)
  show ?case
  proof (cases "x \<in> set known")
    case False
    then have "settled known succ reached queue" using "2.prems" by (auto simp: settled_def known_edges_def)
    then show ?thesis using "2.IH"(1)[OF False] False by simp
  next
    case True
    obtain reached' new where v: "visit known reached (succ x) = (reached', new)" by fastforce
    have "x \<in> reached" using "2.prems" by (simp add: settled_def)
    from visit_closure[where succ = succ, OF v this True] "2.IH"(2)[OF _ v[symmetric] refl settled_visit[where succ = succ, OF "2.prems" v True]] True v
    show ?thesis by simp
  qed
qed

locale call_edges =
  fixes known :: "'a list" and callees callers :: "'a \<Rightarrow> 'a list"
  assumes converse: "x \<in> set (callers y) \<longleftrightarrow> x \<in> set known \<and> y \<in> set (callees x)"
begin

abbreviation edges :: "('a \<times> 'a) set" where "edges \<equiv> known_edges known callees"

lemma callers_edges: "known_edges known callers = edges\<inverse>"
  by (auto simp: known_edges_def converse)

text \<open>The closure over the callees is what the targets reach, the one over the callers what reaches them.\<close>

lemma reach_callees: "reach_loop known callees (set ts) ts = edges\<^sup>* `` set ts"
  by (rule reach_loop_closure) (simp add: settled_def)

lemma reach_callers: "reach_loop known callers (set ts) ts = (edges\<inverse>)\<^sup>* `` set ts"
  unfolding callers_edges[symmetric] by (rule reach_loop_closure) (simp add: settled_def)

abbreviation chain :: "'a list \<Rightarrow> bool" where "chain \<equiv> call_chain (set known) callees"

definition chain_to :: "'a \<Rightarrow> 'a \<Rightarrow> 'a list \<Rightarrow> bool" where
  "chain_to target v p \<longleftrightarrow> chain p \<and> hd p = v \<and> last p = target"

lemma chain_to_Cons:
  "c \<in> set (callers v) \<Longrightarrow> chain_to target v p \<Longrightarrow> chain_to target c (c # p)"
  using call_chain_nonempty by (cases p) (auto simp: chain_to_def converse)

lemma chain_to_uncons:
  assumes "chain_to target v (v # u # p)"
  shows "chain_to target u (u # p)" and "v \<in> set (callers u)"
  using assms by (auto simp: chain_to_def converse)

end

section \<open>Correctness of the breadth-first search\<close>

context call_edges
begin

definition source_path :: "('a \<Rightarrow> bool) \<Rightarrow> 'a \<Rightarrow> 'a list \<Rightarrow> bool" where
  "source_path is_source target p \<longleftrightarrow> chain p \<and> last p = target \<and> is_source (hd p)"

text \<open>Every discovered name has its exact distance and a recorded path; none is a source.\<close>

definition nodes_inv :: "('a \<Rightarrow> bool) \<Rightarrow> int \<Rightarrow> 'a \<Rightarrow> ('a, 'a option) dict \<Rightarrow> ('a, int) dict \<Rightarrow> bool" where
  "nodes_inv is_source limit target parents depths \<longleftrightarrow>
     set (keys depths) = set (keys parents) \<and> target \<in> set (keys parents) \<and>
     (\<forall>v d. map_of depths v = Some d \<longrightarrow> d \<le> limit \<and> \<not> is_source v \<and>
        (\<exists>p. traced parents v p \<and> chain_to target v p \<and> int (length p) = d) \<and>
        (\<forall>p. chain_to target v p \<longrightarrow> d \<le> int (length p)))"

lemma nodes_invD:
  assumes "nodes_inv is_source limit target parents depths"
  shows "set (keys depths) = set (keys parents)" and "target \<in> set (keys parents)"
    and "map_of depths v = Some d \<Longrightarrow> d \<le> limit" and "map_of depths v = Some d \<Longrightarrow> \<not> is_source v"
    and "map_of depths v = Some d \<Longrightarrow> \<exists>p. traced parents v p \<and> chain_to target v p \<and> int (length p) = d"
    and "map_of depths v = Some d \<Longrightarrow> chain_to target v p \<Longrightarrow> d \<le> int (length p)"
  using assms unfolding nodes_inv_def by blast+

lemma nodes_invI:
  assumes "set (keys depths) = set (keys parents)" and "target \<in> set (keys parents)"
    and "\<And>v d. map_of depths v = Some d \<Longrightarrow> d \<le> limit" and "\<And>v d. map_of depths v = Some d \<Longrightarrow> \<not> is_source v"
    and "\<And>v d. map_of depths v = Some d \<Longrightarrow> \<exists>p. traced parents v p \<and> chain_to target v p \<and> int (length p) = d"
    and "\<And>v d p. map_of depths v = Some d \<Longrightarrow> chain_to target v p \<Longrightarrow> d \<le> int (length p)"
  shows "nodes_inv is_source limit target parents depths"
  using assms unfolding nodes_inv_def by blast

definition processed :: "int \<Rightarrow> 'a set \<Rightarrow> ('a, int) dict \<Rightarrow> bool" where
  "processed limit open_names depths \<longleftrightarrow>
     (\<forall>v d. map_of depths v = Some d \<longrightarrow> v \<notin> open_names \<longrightarrow> d < limit \<longrightarrow> set (callers v) \<subseteq> set (keys depths))"

lemma processedD:
  "processed limit open_names depths \<Longrightarrow> map_of depths v = Some d \<Longrightarrow> v \<notin> open_names \<Longrightarrow> d < limit \<Longrightarrow>
   c \<in> set (callers v) \<Longrightarrow> c \<in> set (keys depths)"
  by (auto simp: processed_def)

definition depth_of :: "('a, int) dict \<Rightarrow> 'a \<Rightarrow> int" where
  "depth_of depths v = the (map_of depths v)"

definition frontier_known :: "'a \<Rightarrow> int \<Rightarrow> ('a, int) dict \<Rightarrow> bool" where
  "frontier_known target d depths \<longleftrightarrow> (\<forall>v p. chain_to target v p \<longrightarrow> int (length p) \<le> d \<longrightarrow> v \<in> set (keys depths))"

lemma frontier_knownI:
  assumes N: "nodes_inv is_source limit target parents depths" and P: "processed limit (set queue) depths"
    and Q: "\<And>x. x \<in> set queue \<Longrightarrow> d \<le> depth_of depths x" and "d \<le> limit"
  shows "frontier_known target d depths"
proof -
  have "v \<in> set (keys depths)" if "chain_to target v p" "int (length p) \<le> d" for v p
    using that
  proof (induction p arbitrary: v)
    case Nil
    then show ?case by (simp add: chain_to_def)
  next
    case (Cons x p)
    then have x: "x = v" by (simp add: chain_to_def)
    show ?case
    proof (cases p)
      case Nil
      with Cons.prems nodes_invD(1,2)[OF N] show ?thesis by (auto simp: chain_to_def)
    next
      case (Cons u q)
      from chain_to_uncons[of target v u q] Cons.prems(1) x Cons
      have u: "chain_to target u p" "v \<in> set (callers u)" by auto
      from Cons.IH[OF u(1)] Cons.prems(2) have "u \<in> set (keys depths)" by simp
      then obtain du where du: "map_of depths u = Some du" by (rule map_of_keysE)
      have "du \<le> int (length p)" by (rule nodes_invD(6)[OF N du u(1)])
      with Cons.prems(2) have "du < d" by simp
      moreover from this have "u \<notin> set queue" using Q[of u] du by (auto simp: depth_of_def)
      ultimately show ?thesis using processedD[OF P du _ _ u(2)] assms(4) by simp
    qed
  qed
  then show ?thesis by (simp add: frontier_known_def)
qed

definition ordered_queue :: "int \<Rightarrow> 'a list \<Rightarrow> ('a, int) dict \<Rightarrow> bool" where
  "ordered_queue d queue depths \<longleftrightarrow> set queue \<subseteq> set (keys depths) \<and> sorted (map (depth_of depths) queue) \<and>
     (\<forall>x \<in> set queue. d \<le> depth_of depths x \<and> depth_of depths x \<le> d + 1)"

definition visit_inv ::
  "('a \<Rightarrow> bool) \<Rightarrow> int \<Rightarrow> 'a \<Rightarrow> 'a \<Rightarrow> int \<Rightarrow> ('a, 'a option) dict \<Rightarrow> ('a, int) dict \<Rightarrow> 'a list \<Rightarrow> bool" where
  "visit_inv is_source limit target cur d parents depths queue \<longleftrightarrow>
     nodes_inv is_source limit target parents depths \<and> map_of depths cur = Some d \<and> d < limit \<and>
     frontier_known target d depths \<and> ordered_queue d queue depths \<and> processed limit (insert cur (set queue)) depths"

lemma depth_of_update [simp]: "depth_of (AList.update c d depths) v = (if v = c then d else depth_of depths v)"
  by (simp add: depth_of_def)

lemma discovered_path:
  assumes "nodes_inv is_source limit target parents depths" and "map_of depths cur = Some d" and "c \<in> set (callers cur)"
  obtains p where "traced parents cur p" "chain_to target c (c # p)" "int (length p) = d"
proof -
  from nodes_invD(5)[OF assms(1,2)] obtain p where "traced parents cur p" "chain_to target cur p" "int (length p) = d" by blast
  with chain_to_Cons[OF assms(3)] that show ?thesis by blast
qed

lemma discover_nodes_inv:
  assumes N: "nodes_inv is_source limit target parents depths" and cur: "map_of depths cur = Some d" "d < limit"
    and F: "frontier_known target d depths" and c: "c \<in> set (callers cur)" "c \<notin> set (keys parents)" "\<not> is_source c"
  shows "nodes_inv is_source limit target (AList.update c (Some cur) parents) (AList.update c (d + 1) depths)"
proof -
  note ks = nodes_invD(1)[OF N]
  from discovered_path[OF N cur(1) c(1)] obtain p where
    p: "traced parents cur p" "chain_to target c (c # p)" "int (length p) = d" by blast
  let ?p = "AList.update c (Some cur) parents"
  have tc: "traced ?p c (c # p)"
    using traced_update[OF p(1) c(2)] by (intro traced.step[of _ c cur]) simp_all
  have exact: "d + 1 \<le> int (length q)" if "chain_to target c q" for q
    using F that c(2) ks unfolding frontier_known_def by force
  have old: "\<exists>q. traced ?p v q \<and> chain_to target v q \<and> int (length q) = dv" if "map_of depths v = Some dv" for v dv
    using nodes_invD(5)[OF N that] traced_update[OF _ c(2)] by blast
  have new: "\<exists>q. traced ?p c q \<and> chain_to target c q \<and> int (length q) = d + 1"
    using tc p(2,3) by (intro exI[of _ "c # p"]) simp
  show ?thesis
  proof (rule nodes_invI)
    fix v dv assume v: "map_of (AList.update c (d + 1) depths) v = Some dv"
    show "dv \<le> limit" using v nodes_invD(3)[OF N, of v dv] cur(2) by (simp split: if_splits)
    show "\<not> is_source v" using v nodes_invD(4)[OF N, of v dv] c(3) by (simp split: if_splits)
    show "\<exists>q. traced ?p v q \<and> chain_to target v q \<and> int (length q) = dv"
    proof (cases "v = c")
      case True
      then have "dv = d + 1" using v by simp
      with True new show ?thesis by blast
    next
      case False
      with v old show ?thesis by simp
    qed
    show "dv \<le> int (length q)" if "chain_to target v q" for q
      using v that nodes_invD(6)[OF N, of v dv q] exact[of q] by (simp split: if_splits)
  qed (use ks nodes_invD(2)[OF N] in simp_all)
qed

lemma discover_processed:
  assumes "processed limit (insert cur (set queue)) depths"
  shows "processed limit (insert cur (set (queue @ [c]))) (AList.update c e depths)"
  unfolding processed_def
proof (intro allI impI)
  fix v dv assume "map_of (AList.update c e depths) v = Some dv" "v \<notin> insert cur (set (queue @ [c]))" "dv < limit"
  then show "set (callers v) \<subseteq> set (keys (AList.update c e depths))"
    using processedD[OF assms, of v dv] by auto
qed

lemma discover_ordered:
  assumes "ordered_queue d queue depths" and "c \<notin> set (keys depths)"
  shows "ordered_queue d (queue @ [c]) (AList.update c (d + 1) depths)"
proof -
  have "c \<notin> set queue" using assms by (auto simp: ordered_queue_def)
  then have eq: "map (depth_of (AList.update c (d + 1) depths)) queue = map (depth_of depths) queue"
    by (intro map_cong) auto
  have "sorted (map (depth_of (AList.update c (d + 1) depths)) (queue @ [c]))"
    using assms(1) by (auto simp: ordered_queue_def sorted_append eq simp del: map_eq_conv)
  with assms show ?thesis by (auto simp: ordered_queue_def)
qed

lemma discover:
  assumes "visit_inv is_source limit target cur d parents depths queue"
    and c: "c \<in> set (callers cur)" "c \<notin> set (keys parents)" "\<not> is_source c"
  shows "visit_inv is_source limit target cur d (AList.update c (Some cur) parents) (AList.update c (d + 1) depths) (queue @ [c])"
proof -
  from assms(1) have N: "nodes_inv is_source limit target parents depths" and cur: "map_of depths cur = Some d" "d < limit"
    and F: "frontier_known target d depths" and Q: "ordered_queue d queue depths"
    and P: "processed limit (insert cur (set queue)) depths"
    by (simp_all add: visit_inv_def)
  have c': "c \<notin> set (keys depths)" using nodes_invD(1)[OF N] c(2) by simp
  have cc: "c \<noteq> cur" using cur(1) c' by (auto dest: map_of_Some_keys)
  have "frontier_known target d (AList.update c (d + 1) depths)" using F by (auto simp: frontier_known_def)
  with discover_nodes_inv[OF N cur F c] discover_processed[OF P, of c "d + 1"] discover_ordered[OF Q c'] cur cc
  show ?thesis by (simp add: visit_inv_def)
qed

lemma visit_callers_correct:
  assumes "visit_inv is_source limit target cur d parents depths queue" and "set cs \<subseteq> set (callers cur)"
  shows "case visit_callers known is_source cur d cs parents depths queue of
      Inl found \<Rightarrow> \<exists>p. found = Some p \<and> source_path is_source target p \<and> int (length p) = d + 1
    | Inr (parents', depths', queue') \<Rightarrow>
        visit_inv is_source limit target cur d parents' depths' queue' \<and> set cs \<union> set (keys depths) \<subseteq> set (keys depths')"
  using assms
proof (induction cs arbitrary: parents depths queue)
  case (Cons c cs)
  have ks: "set (keys depths) = set (keys parents)" using Cons.prems(1) by (simp add: visit_inv_def nodes_inv_def)
  have ck: "c \<in> set known" using Cons.prems(2) converse by auto
  show ?case
  proof (cases "c \<in> set (keys parents)")
    case True
    with Cons.IH[OF Cons.prems(1)] Cons.prems(2) ks show ?thesis by (auto split: sum.splits)
  next
    case False
    let ?p = "AList.update c (Some cur) parents" and ?d = "AList.update c (d + 1) depths"
    have cc: "c \<in> set (callers cur)" using Cons.prems(2) by simp
    have N: "nodes_inv is_source limit target parents depths" "map_of depths cur = Some d"
      using Cons.prems(1) by (simp_all add: visit_inv_def)
    show ?thesis
    proof (cases "is_source c")
      case True
      from discovered_path[OF N cc] obtain p where
        p: "traced parents cur p" "chain_to target c (c # p)" "int (length p) = d" by blast
      have "trace_path ?p [c] (Some cur) = Some (c # p)"
        using traced_trace_path[OF traced_update[OF p(1) False]] by simp
      with True False ck p(2,3) show ?thesis by (auto simp: source_path_def chain_to_def)
    next
      case src: False
      from Cons.IH[OF discover[OF Cons.prems(1) cc False src]] Cons.prems(2)
      have "case visit_callers known is_source cur d cs ?p ?d (queue @ [c]) of
          Inl found \<Rightarrow> \<exists>p. found = Some p \<and> source_path is_source target p \<and> int (length p) = d + 1
        | Inr (parents', depths', queue') \<Rightarrow>
            visit_inv is_source limit target cur d parents' depths' queue' \<and> set cs \<union> set (keys ?d) \<subseteq> set (keys depths')" by simp
      with src False ck show ?thesis by (auto simp: Let_def split: sum.splits)
    qed
  qed
qed simp

end

context call_edges
begin

definition loop_inv ::
  "('a \<Rightarrow> bool) \<Rightarrow> int \<Rightarrow> 'a \<Rightarrow> 'a list \<Rightarrow> ('a, 'a option) dict \<Rightarrow> ('a, int) dict \<Rightarrow> bool" where
  "loop_inv is_source limit target queue parents depths \<longleftrightarrow>
     nodes_inv is_source limit target parents depths \<and> processed limit (set queue) depths \<and>
     set queue \<subseteq> set (keys depths) \<and> sorted (map (depth_of depths) queue) \<and>
     (queue \<noteq> [] \<longrightarrow> (\<forall>x \<in> set queue. depth_of depths x \<le> depth_of depths (hd queue) + 1))"

lemma loop_inv_visit:
  assumes inv: "loop_inv is_source limit target (cur # queue) parents depths" and "map_of depths cur = Some d" and "d < limit"
  shows "visit_inv is_source limit target cur d parents depths queue"
proof -
  have N: "nodes_inv is_source limit target parents depths" and P: "processed limit (set (cur # queue)) depths"
    and q: "set (cur # queue) \<subseteq> set (keys depths)" "sorted (map (depth_of depths) (cur # queue))"
    and le: "\<And>x. x \<in> set queue \<Longrightarrow> depth_of depths x \<le> depth_of depths cur + 1"
    using inv by (auto simp: loop_inv_def)
  have d: "depth_of depths cur = d" using assms(2) by (simp add: depth_of_def)
  have "frontier_known target d depths"
    using q(2) d assms(3) by (intro frontier_knownI[OF N P]) auto
  moreover have "ordered_queue d queue depths" using q le d by (auto simp: ordered_queue_def)
  ultimately show ?thesis using N P assms(2,3) by (simp add: visit_inv_def)
qed

lemma visit_inv_loop:
  assumes inv: "visit_inv is_source limit target cur d parents depths queue" and "set (callers cur) \<subseteq> set (keys depths)"
  shows "loop_inv is_source limit target queue parents depths"
proof -
  have P: "processed limit (insert cur (set queue)) depths" and q: "ordered_queue d queue depths"
    using inv by (simp_all add: visit_inv_def)
  have "processed limit (set queue) depths"
    unfolding processed_def
  proof (intro allI impI)
    fix v dv assume v: "map_of depths v = Some dv" "v \<notin> set queue" "dv < limit"
    show "set (callers v) \<subseteq> set (keys depths)"
      using processedD[OF P v(1) _ v(3)] v(2) assms(2) by (cases "v = cur") auto
  qed
  moreover have "depth_of depths x \<le> depth_of depths (hd queue) + 1" if "x \<in> set queue" for x
  proof -
    have "hd queue \<in> set queue" using that by (cases queue) auto
    with q that have "depth_of depths x \<le> d + 1" "d \<le> depth_of depths (hd queue)" by (auto simp: ordered_queue_def)
    then show ?thesis by simp
  qed
  ultimately show ?thesis using inv q by (simp add: loop_inv_def visit_inv_def ordered_queue_def)
qed

lemma loop_inv_skip:
  assumes inv: "loop_inv is_source limit target (cur # queue) parents depths" and "map_of depths cur = Some d" and "limit \<le> d"
  shows "loop_inv is_source limit target queue parents depths"
proof -
  have N: "nodes_inv is_source limit target parents depths" and P: "processed limit (set (cur # queue)) depths"
    and q: "set (cur # queue) \<subseteq> set (keys depths)" "sorted (map (depth_of depths) (cur # queue))"
    and le: "\<And>x. x \<in> set queue \<Longrightarrow> depth_of depths x \<le> depth_of depths cur + 1"
    using inv by (auto simp: loop_inv_def)
  have "processed limit (set queue) depths"
    unfolding processed_def
  proof (intro allI impI)
    fix v dv assume v: "map_of depths v = Some dv" "v \<notin> set queue" "dv < limit"
    then have "v \<noteq> cur" using assms(2,3) by auto
    then show "set (callers v) \<subseteq> set (keys depths)" using processedD[OF P v(1) _ v(3)] v(2) by auto
  qed
  moreover have "depth_of depths x \<le> depth_of depths (hd queue) + 1" if "x \<in> set queue" for x
    using le[OF that] q(2) that hd_in_set[of queue] by fastforce
  ultimately show ?thesis using N q by (simp add: loop_inv_def)
qed

text \<open>A source within the frontier would have been discovered, and no discovered name is a source.\<close>

lemma no_close_source:
  assumes "nodes_inv is_source limit target parents depths" and "frontier_known target d depths"
    and "source_path is_source target p"
  shows "d < int (length p)"
proof (rule ccontr)
  assume "\<not> d < int (length p)"
  then have "hd p \<in> set (keys depths)"
    using assms(2,3) by (auto simp: frontier_known_def chain_to_def source_path_def)
  then obtain e where "map_of depths (hd p) = Some e" by (rule map_of_keysE)
  from nodes_invD(4)[OF assms(1) this] assms(3) show False by (simp add: source_path_def)
qed

lemma path_loop_correct:
  assumes "loop_inv is_source limit target queue parents depths"
  shows "\<exists>r. path_loop known callers is_source limit queue parents depths = Some r \<and>
    (if r = [] then \<forall>p. source_path is_source target p \<longrightarrow> limit < int (length p)
     else source_path is_source target r \<and> int (length r) \<le> limit \<and>
       (\<forall>p. source_path is_source target p \<longrightarrow> length r \<le> length p))"
  using assms
proof (induction "length queue + card (set known - set (keys parents))" arbitrary: queue parents depths rule: less_induct)
  case less
  show ?case
  proof (cases queue)
    case Nil
    have N: "nodes_inv is_source limit target parents depths" and P: "processed limit (set []) depths"
      using less.prems Nil by (simp_all add: loop_inv_def)
    have "frontier_known target limit depths" by (rule frontier_knownI[OF N P]) simp_all
    from no_close_source[OF N this] Nil show ?thesis by simp
  next
    case (Cons cur queue')
    have inv: "loop_inv is_source limit target (cur # queue') parents depths" using less.prems Cons by simp
    then have "cur \<in> set (keys depths)" by (simp add: loop_inv_def)
    then obtain d where d: "map_of depths cur = Some d" by (rule map_of_keysE)
    show ?thesis
    proof (cases "limit \<le> d")
      case True
      from less.hyps[OF _ loop_inv_skip[OF inv d True]] Cons d True show ?thesis by simp
    next
      case False
      then have vi: "visit_inv is_source limit target cur d parents depths queue'" using loop_inv_visit[OF inv d] by simp
      note step = visit_callers_correct[OF vi, of "callers cur"]
      show ?thesis
      proof (cases "visit_callers known is_source cur d (callers cur) parents depths queue'")
        case (Inl found)
        with step obtain p where p: "found = Some p" "source_path is_source target p" "int (length p) = d + 1" by auto
        have "d < int (length q)" if "source_path is_source target q" for q
          using no_close_source[OF _ _ that] vi by (auto simp: visit_inv_def)
        then have min: "length p \<le> length q" if "source_path is_source target q" for q using that p(3) by force
        have "p \<noteq> []" using p(2) by (auto simp: source_path_def)
        with Inl Cons d False p min show ?thesis by simp
      next
        case (Inr r)
        obtain parents' depths' queue'' where r: "r = (parents', depths', queue'')" by (cases r)
        from step Inr r have vi': "visit_inv is_source limit target cur d parents' depths' queue''"
          and cs: "set (callers cur) \<subseteq> set (keys depths')" by auto
        from visit_callers_measure[of known is_source cur d "callers cur" parents depths queue' parents' depths' queue''] Inr r Cons
        have "length queue'' + card (set known - set (keys parents')) < length queue + card (set known - set (keys parents))" by simp
        from less.hyps[OF this visit_inv_loop[OF vi' cs]] Inr r Cons d False show ?thesis by simp
      qed
    qed
  qed
qed

lemma search_path_correct:
  assumes "target \<in> set known" and "\<not> is_source target" and "1 \<le> limit"
  shows "\<exists>r. search_path known callers is_source limit target = Some r \<and>
    (if r = [] then \<forall>p. source_path is_source target p \<longrightarrow> limit < int (length p)
     else source_path is_source target r \<and> int (length r) \<le> limit \<and>
       (\<forall>p. source_path is_source target p \<longrightarrow> length r \<le> length p))"
  unfolding search_path_def
proof (rule path_loop_correct)
  have "chain_to target target [target]" using assms(1) by (simp add: chain_to_def)
  moreover have "traced [(target, None)] target [target]" by (rule traced.root) simp
  moreover have "1 \<le> int (length p)" if "chain_to target target p" for p
    using that by (cases p) (auto simp: chain_to_def)
  ultimately have "nodes_inv is_source limit target [(target, None)] [(target, 1)]"
    using assms(2,3) by (intro nodes_invI) (auto split: if_splits)
  then show "loop_inv is_source limit target [target] [(target, None)] [(target, 1)]"
    by (auto simp: loop_inv_def processed_def split: if_splits)
qed

end

end
