(* ===== verification/Reachability.thy ===== *)
theory Reachability
  imports Code_Graph Graph_Search
begin

text \<open>
  The parts of the reachability analysis that work on the call graph without a model: the file
  focus (\<open>file_focus.py\<close>), the path from a source to a finding (\<open>finding_paths.py\<close>), the
  preparation of findings (\<open>finding_preparer.py\<close>) and the copy of a part of the graph
  (\<open>graph_utils.py\<close>), all under \<open>engine/nodes/reachability\<close>.
\<close>

section \<open>Shared helpers\<close>

definition normalize_file_ref :: "string \<Rightarrow> string" where
  "normalize_file_ref v = replace_char (CHR 0x5C) slash v"

definition same_file :: "string \<Rightarrow> string \<Rightarrow> bool" where
  "same_file a b \<longleftrightarrow> normalize_file_ref a = normalize_file_ref b"

text \<open>
  The sort key is a tuple of four components for a node and of three for an unknown name; a
  shorter tuple that is a prefix comes first, so the fourth component is a list of at most one.
\<close>

type_synonym node_key = "string \<times> int \<times> string \<times> string list"

definition node_key_of :: "function_node \<Rightarrow> node_key" where
  "node_key_of n = (normalize_file_ref (fn_file_path n), fn_line_number n, fn_name n, [fn_unique_name n])"

definition node_sort_key :: "code_graph \<Rightarrow> string \<Rightarrow> node_key" where
  "node_sort_key g name =
     (case get_node g name of None \<Rightarrow> ('''', 0, name, []) | Some n \<Rightarrow> node_key_of n)"

definition restrict_call :: "string list \<Rightarrow> call_site \<Rightarrow> graph_error + call_site" where
  "restrict_call selected call =
     (let call' = call\<lparr>cs_target_ids := filter (\<lambda>t. t \<in> set selected) (cs_target_ids call),
                       cs_targets_complete := cs_targets_complete call \<and> list_all (\<lambda>t. t \<in> set selected) (cs_target_ids call)\<rparr>
      in case call_site_post_init call' of Inl e \<Rightarrow> Inl (SyntaxFactError e) | Inr _ \<Rightarrow> Inr call')"

definition restrict_reference :: "string list \<Rightarrow> symbol_reference \<Rightarrow> graph_error + symbol_reference" where
  "restrict_reference selected r =
     (case with_targets (filter (\<lambda>t. t \<in> set selected) (sr_target_ids r)) r of
        Inl e \<Rightarrow> Inl (SyntaxFactError e) | Inr r' \<Rightarrow> Inr r')"

definition restrict_node :: "string list \<Rightarrow> function_node \<Rightarrow> graph_error + function_node" where
  "restrict_node selected n =
     and_then (map_res (restrict_call selected) (fn_call_sites n)) (\<lambda>calls.
     and_then (map_res (restrict_reference selected) (fn_references n)) (\<lambda>refs.
     Inr (n\<lparr>fn_resolved_calls := filter (\<lambda>t. t \<in> set selected) (fn_resolved_calls n),
            fn_call_sites := calls, fn_references := refs\<rparr>)))"

definition restrict_global :: "string list \<Rightarrow> global_construct \<Rightarrow> graph_error + global_construct" where
  "restrict_global selected c =
     and_then (map_res (restrict_reference selected) (gc_references c)) (\<lambda>refs.
     Inr (c\<lparr>gc_references := refs\<rparr>))"

definition copy_selected :: "string list \<Rightarrow> code_graph \<Rightarrow> code_graph \<Rightarrow> string \<Rightarrow> graph_error + code_graph" where
  "copy_selected selected g focus name =
     (case get_node g name of None \<Rightarrow> Inr focus
      | Some n \<Rightarrow> and_then (restrict_node selected n) (add_node focus))"

definition copy_graph_nodes :: "code_graph \<Rightarrow> string list \<Rightarrow> graph_error + code_graph" where
  "copy_graph_nodes g node_names =
     (let selected = sort (remdups (filter (\<lambda>n. n \<in> set (keys (cg_nodes g))) node_names))
      in and_then (fold_res (copy_selected selected g) new_graph selected) (\<lambda>focus.
         let needed_files = map fn_file_path (vals (cg_nodes focus))
         in fold_res (\<lambda>h c. and_then (restrict_global selected c) (add_global h)) focus
              (filter (\<lambda>c. gc_file_path c \<in> set needed_files) (get_globals g))))"

section \<open>The focus of a file\<close>

record file_focus =
  ff_target_file :: string
  ff_target_nodes :: "string list"
  ff_node_names :: "string set"

definition callees_of_node :: "code_graph \<Rightarrow> string \<Rightarrow> string list" where
  "callees_of_node g name = (case get_node g name of None \<Rightarrow> [] | Some n \<Rightarrow> fn_resolved_calls n)"

definition plain_reverse_edges :: "code_graph \<Rightarrow> (string, string list) dict" where
  "plain_reverse_edges g = build_reverse_edges g (None :: (string \<Rightarrow> int) option)"

definition node_names_for_targets :: "code_graph \<Rightarrow> string list \<Rightarrow> string set" where
  "node_names_for_targets g targets =
     (let rev_edges = plain_reverse_edges g;
          up = reach_loop (keys (cg_nodes g)) (get_list rev_edges) (set targets) targets;
          down = reach_loop (keys (cg_nodes g)) (callees_of_node g) (set targets) targets
      in up \<union> down \<union> \<Union> (set (map (\<lambda>t. set (callees_of_node g t) \<union> set (get_list rev_edges t)) targets)))"

definition build_focus :: "code_graph \<Rightarrow> string \<Rightarrow> file_focus" where
  "build_focus g target_file =
     (let target_nodes = map fn_unique_name
            (sort_key (\<lambda>n. (fn_line_number n, fn_name n, fn_unique_name n)) (get_file_nodes g target_file))
      in \<lparr>ff_target_file = target_file, ff_target_nodes = target_nodes,
          ff_node_names = (if target_nodes = [] then {} else node_names_for_targets g target_nodes)\<rparr>)"

section \<open>Findings and their source paths\<close>

text \<open>
  A finding; the type of the confidence is left open. Of the anchor, a dictionary, only numeric
  entries are read.
\<close>

record 'c vulnerability_finding =
  vf_id :: string
  vf_vulnerability_type :: string
  vf_severity :: string
  vf_confidence :: 'c
  vf_source_function :: string
  vf_source_file :: string
  vf_source_line :: int
  vf_sink_function :: string
  vf_sink_file :: string
  vf_sink_line :: int
  vf_path :: "string list"
  vf_description :: string
  vf_root_cause :: string
  vf_evidence :: string
  vf_mitigation :: string
  vf_cwe :: string
  vf_analysis_type :: string
  vf_primary_file :: string
  vf_primary_function :: string
  vf_primary_line :: int
  vf_canonical_key :: string
  vf_primary_anchor :: "(string, int) dict option"

definition str_or :: "string \<Rightarrow> string \<Rightarrow> string" where
  "str_or a b = (if a \<noteq> '''' then a else b)"

definition int_or :: "int \<Rightarrow> int \<Rightarrow> int" where
  "int_or a b = (if a \<noteq> 0 then a else b)"

definition anchor_int :: "(string, int) dict option \<Rightarrow> string \<Rightarrow> int" where
  "anchor_int anchor key = (case anchor of None \<Rightarrow> 0 | Some d \<Rightarrow> (case map_of d key of None \<Rightarrow> 0 | Some n \<Rightarrow> n))"

definition vulnerability_finding_post_init :: "'c vulnerability_finding \<Rightarrow> 'c vulnerability_finding" where
  "vulnerability_finding_post_init f =
     (let f1 = f\<lparr>vf_primary_file := str_or (vf_primary_file f) (str_or (vf_sink_file f) (vf_source_file f))\<rparr>;
          f2 = f1\<lparr>vf_primary_function := str_or (vf_primary_function f1) (str_or (vf_sink_function f1) (vf_source_function f1))\<rparr>;
          f3 = (if vf_primary_anchor f2 \<notin> {None, Some []} \<and> vf_primary_line f2 = 0
                then f2\<lparr>vf_primary_line := anchor_int (vf_primary_anchor f2) ''end_line''\<rparr> else f2)
      in f3\<lparr>vf_primary_line := int_or (vf_primary_line f3) (int_or (vf_sink_line f3) (vf_source_line f3))\<rparr>)"

record path_annotator =
  pa_graph :: code_graph
  pa_target_file :: string
  pa_max_path_length :: int
  pa_reverse_edges :: "(string, string list) dict"

definition new_path_annotator :: "code_graph \<Rightarrow> string \<Rightarrow> (string, string list) dict \<Rightarrow> int \<Rightarrow> path_annotator" where
  "new_path_annotator g target_file rev_edges max_path_length =
     \<lparr>pa_graph = g, pa_target_file = normalize_file_ref target_file,
      pa_max_path_length = max 1 (int_or max_path_length 1), pa_reverse_edges = rev_edges\<rparr>"

definition sorted_reverse_edges :: "code_graph \<Rightarrow> (string, string list) dict" where
  "sorted_reverse_edges g = build_reverse_edges g (Some (node_sort_key g))"

text \<open>\<open>name.split("::")[-1]\<close>.\<close>

fun after_colons :: "string \<Rightarrow> string \<Rightarrow> string" where
  "after_colons part (a # b # s) =
     (if a = CHR '':'' \<and> b = CHR '':'' then after_colons [] s else after_colons (part @ [a]) (b # s))"
| "after_colons part s = part @ s"

definition lookup_node :: "path_annotator \<Rightarrow> string \<Rightarrow> string \<Rightarrow> function_node option" where
  "lookup_node pa name wanted_file =
     (if name = '''' then None
      else case get_node (pa_graph pa) name of
        Some n \<Rightarrow> Some n
      | None \<Rightarrow>
          let matches = List.map_filter (get_node (pa_graph pa)) (get_list (cg_name_index (pa_graph pa)) (after_colons [] name));
              same = (if wanted_file = '''' then []
                      else filter (\<lambda>n. normalize_file_ref (fn_file_path n) = wanted_file) matches);
              chosen = (if same \<noteq> [] then same else matches)
          in if chosen = [] then None else Some (arg_min_list node_key_of chosen))"

fun first_in_file :: "path_annotator \<Rightarrow> string \<Rightarrow> string list \<Rightarrow> function_node option" where
  "first_in_file pa wanted_file [] = None"
| "first_in_file pa wanted_file (c # cs) =
     (case lookup_node pa c wanted_file of
        Some n \<Rightarrow> if normalize_file_ref (fn_file_path n) = pa_target_file pa then Some n else first_in_file pa wanted_file cs
      | None \<Rightarrow> first_in_file pa wanted_file cs)"

definition finding_node :: "path_annotator \<Rightarrow> 'c vulnerability_finding \<Rightarrow> function_node option" where
  "finding_node pa f =
     (let candidates = [vf_primary_function f, vf_sink_function f, vf_source_function f] @ rev (vf_path f);
          wanted_file = str_or (normalize_file_ref (vf_primary_file f)) (pa_target_file pa)
      in if wanted_file \<noteq> '''' \<and> wanted_file \<noteq> pa_target_file pa then None
         else first_in_file pa wanted_file candidates)"

definition is_source_name :: "code_graph \<Rightarrow> string \<Rightarrow> bool" where
  "is_source_name g name = (case get_node g name of None \<Rightarrow> False | Some n \<Rightarrow> fn_is_source n)"

definition best_source_path_to :: "path_annotator \<Rightarrow> string \<Rightarrow> string list option" where
  "best_source_path_to pa target_name =
     (case get_node (pa_graph pa) target_name of
        None \<Rightarrow> Some []
      | Some target \<Rightarrow>
          if fn_is_source target then Some [target_name]
          else search_path (keys (cg_nodes (pa_graph pa))) (get_list (pa_reverse_edges pa))
                 (is_source_name (pa_graph pa)) (pa_max_path_length pa) target_name)"

definition annotate_one :: "path_annotator \<Rightarrow> 'c vulnerability_finding \<Rightarrow> 'c vulnerability_finding option" where
  "annotate_one pa f =
     (case finding_node pa f of
        None \<Rightarrow> Some f
      | Some target \<Rightarrow>
          (case best_source_path_to pa (fn_unique_name target) of
             None \<Rightarrow> None
           | Some path \<Rightarrow>
               if path = [] \<or> length path \<le> length (vf_path f) then Some f
               else let source = get_node (pa_graph pa) (hd path)
                    in Some (vulnerability_finding_post_init
                      (f\<lparr>vf_source_function := (case source of None \<Rightarrow> vf_source_function f | Some s \<Rightarrow> fn_unique_name s),
                         vf_source_file := (case source of None \<Rightarrow> vf_source_file f | Some s \<Rightarrow> fn_file_path s),
                         vf_source_line := (case source of None \<Rightarrow> vf_source_line f | Some s \<Rightarrow> fn_line_number s),
                         vf_sink_function := fn_unique_name target, vf_sink_file := fn_file_path target,
                         vf_sink_line := fn_line_number target, vf_path := path\<rparr>))))"

section \<open>Preparing findings\<close>

definition lower_char :: "char \<Rightarrow> char" where
  "lower_char c = (let n = (of_char c :: nat) in if 65 \<le> n \<and> n \<le> 90 then char_of (n + 32) else c)"

definition lower :: "string \<Rightarrow> string" where
  "lower s = map lower_char s"

text \<open>
  \<open>normalize_sink_type\<close>: after lowering, every run of characters outside \<open>[a-z0-9_]\<close> and every run
  of underscores becomes one underscore; underscores at the ends go.
\<close>

definition sink_char :: "char \<Rightarrow> bool" where
  "sink_char c \<longleftrightarrow> (let n = (of_char c :: nat) in (97 \<le> n \<and> n \<le> 122) \<or> is_digit c \<or> c = CHR ''_'')"

function squeeze :: "(char \<Rightarrow> bool) \<Rightarrow> string \<Rightarrow> string" where
  "squeeze P [] = []"
| "squeeze P (c # cs) = (if P c then CHR ''_'' # squeeze P (dropWhile P cs) else c # squeeze P cs)"
  by pat_completeness auto
termination by (relation "measure (\<lambda>(P, s). length s)") (auto simp: less_Suc_eq_le length_dropWhile_le)

definition strip_underscores :: "string \<Rightarrow> string" where
  "strip_underscores s = rev (dropWhile (\<lambda>c. c = CHR ''_'') (rev (dropWhile (\<lambda>c. c = CHR ''_'') s)))"

definition normalize_sink_type :: "string \<Rightarrow> string" where
  "normalize_sink_type v =
     (let s = replace_char (CHR '' '') (CHR ''_'') (replace_char (CHR ''-'') (CHR ''_'') (lower (strip (str_or v ''other''))));
          t = squeeze (\<lambda>c. \<not> sink_char c) s
      in str_or (strip_underscores (squeeze (\<lambda>c. c = CHR ''_'') t)) ''other'')"

definition participates_in_file :: "'c vulnerability_finding \<Rightarrow> string \<Rightarrow> code_graph option \<Rightarrow> bool" where
  "participates_in_file f target_file graph \<longleftrightarrow>
     list_ex (\<lambda>file. same_file file target_file) [vf_primary_file f, vf_source_file f, vf_sink_file f] \<or>
     list_ex (\<lambda>name. (case graph of None \<Rightarrow> False
                       | Some g \<Rightarrow> (case get_node g name of None \<Rightarrow> False | Some n \<Rightarrow> same_file (fn_file_path n) target_file)) \<or>
                      startswith name (target_file @ ''::''))
       (vf_path f @ [vf_primary_function f, vf_source_function f, vf_sink_function f])"

text \<open>
  The annotators are created once per target file and kept in a dictionary, the reverse edges
  when the first annotator is created.
\<close>

record annotator_cache =
  ac_annotators :: "(string, path_annotator) dict"
  ac_reverse_edges :: "(string, string list) dict option"

definition cached_annotator :: "code_graph \<Rightarrow> int \<Rightarrow> annotator_cache \<Rightarrow> string \<Rightarrow> annotator_cache \<times> path_annotator" where
  "cached_annotator g max_path_length cache target_file =
     (case map_of (ac_annotators cache) target_file of
        Some pa \<Rightarrow> (cache, pa)
      | None \<Rightarrow>
          let rev_edges = (case ac_reverse_edges cache of None \<Rightarrow> sorted_reverse_edges g | Some r \<Rightarrow> r);
              pa = new_path_annotator g target_file rev_edges max_path_length
          in (\<lparr>ac_annotators = AList.update target_file pa (ac_annotators cache), ac_reverse_edges = Some rev_edges\<rparr>, pa))"

fun annotate_all ::
  "code_graph \<Rightarrow> int \<Rightarrow> annotator_cache \<Rightarrow> 'c vulnerability_finding list \<Rightarrow> 'c vulnerability_finding list option" where
  "annotate_all g max_path_length cache [] = Some []"
| "annotate_all g max_path_length cache (f # fs) =
     (let target_file = str_or (vf_primary_file f) (str_or (vf_sink_file f) (vf_source_file f))
      in if target_file = '''' then map_option ((#) f) (annotate_all g max_path_length cache fs)
         else let (cache', pa) = cached_annotator g max_path_length cache target_file
              in (case annotate_one pa f of None \<Rightarrow> None
                  | Some f' \<Rightarrow> map_option ((#) f') (annotate_all g max_path_length cache' fs)))"

definition annotate_findings_with_source_paths ::
  "code_graph \<Rightarrow> int \<Rightarrow> 'c vulnerability_finding list \<Rightarrow> 'c vulnerability_finding list option" where
  "annotate_findings_with_source_paths g max_path_length findings =
     annotate_all g max_path_length \<lparr>ac_annotators = [], ac_reverse_edges = None\<rparr> findings"

definition prepare_findings ::
  "code_graph \<Rightarrow> int \<Rightarrow> string \<Rightarrow> 'c vulnerability_finding list \<Rightarrow> 'c vulnerability_finding list option" where
  "prepare_findings g max_path_length target_file findings =
     map_option (map (\<lambda>f. f\<lparr>vf_vulnerability_type := normalize_sink_type (vf_vulnerability_type f)\<rparr>))
       (if target_file \<noteq> '''' \<and> findings \<noteq> []
        then map_opt (annotate_one (new_path_annotator g target_file (sorted_reverse_edges g) max_path_length)) findings
        else annotate_findings_with_source_paths g max_path_length findings)"

section \<open>The edges of a graph\<close>

definition function_ids :: "code_graph \<Rightarrow> string list" where
  "function_ids g = map fn_unique_name (vals (cg_nodes g))"

definition node_callees :: "code_graph \<Rightarrow> string \<Rightarrow> string list" where
  "node_callees g x = concat (map fn_resolved_calls (filter (\<lambda>n. fn_unique_name n = x) (vals (cg_nodes g))))"

lemma reverse_edges_converse:
  "x \<in> set (get_list (build_reverse_edges g key) y) \<longleftrightarrow> x \<in> set (function_ids g) \<and> y \<in> set (node_callees g x)"
  unfolding build_reverse_edges_lookup by (auto simp: function_ids_def node_callees_def)

interpretation plain_calls: call_edges "function_ids g" "node_callees g" "get_list (plain_reverse_edges g)" for g
  by unfold_locales (simp add: plain_reverse_edges_def reverse_edges_converse)

interpretation sorted_calls: call_edges "function_ids g" "node_callees g" "get_list (sorted_reverse_edges g)" for g
  by unfold_locales (simp add: sorted_reverse_edges_def reverse_edges_converse)

lemma function_ids_keys: "graph_inv g \<Longrightarrow> function_ids g = keys (cg_nodes g)"
  using graph_inv_ids[of g] by (simp add: function_ids_def keys_def vals_def)

lemma unique_node_filter:
  assumes "wf_dict d" and "\<And>k n. (k, n) \<in> set d \<Longrightarrow> fn_unique_name n = k"
  shows "filter (\<lambda>n. fn_unique_name n = x) (vals d) = (case map_of d x of None \<Rightarrow> [] | Some n \<Rightarrow> [n])"
  using assms
proof (induction d)
  case (Cons p d)
  obtain k n where p: "p = (k, n)" by (cases p)
  have u: "fn_unique_name n = k" using Cons.prems(2) p by simp
  have IH: "filter (\<lambda>n. fn_unique_name n = x) (vals d) = (case map_of d x of None \<Rightarrow> [] | Some n \<Rightarrow> [n])"
    using Cons.prems by (intro Cons.IH) (auto simp: wf_dict_def)
  have "map_of d k = None" using Cons.prems(1) p by (simp add: wf_dict_def map_of_eq_None_iff)
  then show ?case using IH u p by auto
qed simp

lemma node_callees_eq: "graph_inv g \<Longrightarrow> node_callees g = callees_of_node g"
  using unique_node_filter[OF graph_inv_nodes graph_inv_ids]
  by (intro ext) (simp add: node_callees_def callees_of_node_def get_node_def split: option.split)

text \<open>The edges between functions of the graph.\<close>

definition call_graph :: "code_graph \<Rightarrow> (string \<times> string) set" where
  "call_graph g = {(a, b). b \<in> set (callees_of_node g a) \<and> get_node g b \<noteq> None}"

lemma callees_known: "b \<in> set (callees_of_node g a) \<Longrightarrow> a \<in> set (keys (cg_nodes g))"
  by (cases "get_node g a") (auto simp: callees_of_node_def get_node_def dest: map_of_Some_keys)

lemma known_edges_call_graph: "known_edges (keys (cg_nodes g)) (callees_of_node g) = call_graph g"
  using callees_known by (auto simp: known_edges_def call_graph_def get_node_def map_of_None_keys)

lemma callers_lookup:
  assumes "graph_inv g"
  shows "a \<in> set (get_list (plain_reverse_edges g) t) \<longleftrightarrow> t \<in> set (callees_of_node g a)"
  using plain_calls.converse[of a g t] node_callees_eq[OF assms] function_ids_keys[OF assms] callees_known by auto

definition source_path_to :: "code_graph \<Rightarrow> string \<Rightarrow> string list \<Rightarrow> bool" where
  "source_path_to g target p \<longleftrightarrow>
     call_chain (set (keys (cg_nodes g))) (callees_of_node g) p \<and> last p = target \<and> is_source_name g (hd p)"

lemma best_source_path_exact:
  fixes g :: code_graph and m :: int and tf :: string
  assumes inv: "graph_inv g" and "target \<in> set (keys (cg_nodes g))"
  defines "pa \<equiv> new_path_annotator g tf (sorted_reverse_edges g) m"
  shows "\<exists>r. best_source_path_to pa target = Some r \<and>
    (if r = [] then \<forall>p. source_path_to g target p \<longrightarrow> max 1 m < int (length p)
     else source_path_to g target r \<and> int (length r) \<le> max 1 m \<and>
       (\<forall>p. source_path_to g target p \<longrightarrow> length r \<le> length p))"
proof -
  have limit: "pa_max_path_length pa = max 1 m" and g: "pa_graph pa = g" "pa_reverse_edges pa = sorted_reverse_edges g"
    by (auto simp: pa_def new_path_annotator_def int_or_def)
  have sp: "sorted_calls.source_path g (is_source_name g) target p \<longleftrightarrow> source_path_to g target p" for p
    by (simp only: sorted_calls.source_path_def)
       (simp only: source_path_to_def function_ids_keys[OF inv] node_callees_eq[OF inv])
  from assms(2) obtain n where n: "get_node g target = Some n" by (auto simp: get_node_def elim: map_of_keysE)
  show ?thesis
  proof (cases "fn_is_source n")
    case True
    have "1 \<le> length p" if "source_path_to g target p" for p
      using that by (cases p) (auto simp: source_path_to_def)
    then show ?thesis
      using True n assms(2) by (simp add: best_source_path_to_def g source_path_to_def is_source_name_def)
  next
    case False
    then have "\<not> is_source_name g target" using n by (simp add: is_source_name_def)
    with sorted_calls.search_path_correct[where g = g and is_source = "is_source_name g" and target = target and limit = "max 1 m",
        unfolded sp, unfolded function_ids_keys[OF inv]] assms(2)
    show ?thesis using False n by (simp add: best_source_path_to_def g limit)
  qed
qed

section \<open>Annotating findings\<close>

text \<open>
  The function a name stands for: the one with that identifier; otherwise, of the functions with the
  short name, in the wanted file if there are any there, the least by file, line, name and identifier.
\<close>

definition least_node :: "function_node set \<Rightarrow> function_node \<Rightarrow> bool" where
  "least_node ns n \<longleftrightarrow> n \<in> ns \<and> (\<forall>n' \<in> ns. node_key_of n \<le> node_key_of n')"

definition short_named :: "code_graph \<Rightarrow> string \<Rightarrow> function_node set" where
  "short_named g name = {n. get_node g (fn_unique_name n) = Some n \<and> fn_name n = after_colons [] name}"

definition named_in_file :: "code_graph \<Rightarrow> string \<Rightarrow> string \<Rightarrow> function_node set" where
  "named_in_file g file name = {n \<in> short_named g name. file \<noteq> '''' \<and> normalize_file_ref (fn_file_path n) = file}"

definition function_named :: "code_graph \<Rightarrow> string \<Rightarrow> string \<Rightarrow> function_node \<Rightarrow> bool" where
  "function_named g file name n \<longleftrightarrow> name \<noteq> '''' \<and>
     (case get_node g name of
        Some n' \<Rightarrow> n = n'
      | None \<Rightarrow> least_node (if named_in_file g file name \<noteq> {} then named_in_file g file name else short_named g name) n)"

text \<open>
  The function of a finding about a file: the finding names no other file as its primary one, and the
  function is the one that the first name leads to, of the primary, the sink and the source
  function and the path from its end, that leads to a function in the file.
\<close>

definition function_of_finding :: "code_graph \<Rightarrow> string \<Rightarrow> 'c vulnerability_finding \<Rightarrow> function_node \<Rightarrow> bool" where
  "function_of_finding g file f n \<longleftrightarrow>
     normalize_file_ref (vf_primary_file f) \<in> {'''', file} \<and>
     (\<exists>before name after. [vf_primary_function f, vf_sink_function f, vf_source_function f] @ rev (vf_path f) = before @ name # after \<and>
        function_named g file name n \<and> normalize_file_ref (fn_file_path n) = file \<and>
        (\<forall>other \<in> set before. \<forall>n'. function_named g file other n' \<longrightarrow> normalize_file_ref (fn_file_path n') \<noteq> file))"

lemma get_node_id: "graph_inv g \<Longrightarrow> get_node g x = Some n \<Longrightarrow> fn_unique_name n = x"
  by (auto simp: get_node_def dest: map_of_SomeD graph_inv_ids)

lemma short_matches:
  assumes inv: "graph_inv g"
  shows "set (List.map_filter (get_node g) (get_list (cg_name_index g) (after_colons [] name))) = short_named g name"
proof -
  have "k \<in> set (ids_named (cg_nodes g) nm) \<longleftrightarrow> (\<exists>n. get_node g k = Some n \<and> fn_name n = nm)" for k nm
    using graph_inv_nodes[OF inv] by (force simp: ids_named_def get_node_def wf_dict_def keys_def)
  then have "n \<in> short_named g name \<longleftrightarrow> (\<exists>k. k \<in> set (ids_named (cg_nodes g) (after_colons [] name)) \<and> get_node g k = Some n)" for n
    using get_node_id[OF inv] by (auto simp: short_named_def)
  then show ?thesis
    by (force simp: graph_inv_index[OF inv] List.map_filter_def index_lookup_default)
qed

lemma least_node_unique:
  assumes "graph_inv g" and "ns \<subseteq> short_named g name" and "least_node ns n" and "least_node ns n'"
  shows "n = n'"
proof -
  have mem: "n \<in> ns" "n' \<in> ns" using assms(3,4) unfolding least_node_def by blast+
  have "node_key_of n \<le> node_key_of n'" "node_key_of n' \<le> node_key_of n" using assms(3,4) mem unfolding least_node_def by blast+
  then have "node_key_of n = node_key_of n'" by (rule order_antisym)
  then have "fn_unique_name n = fn_unique_name n'" unfolding node_key_of_def prod.inject by simp
  moreover have "get_node g (fn_unique_name n) = Some n" "get_node g (fn_unique_name n') = Some n'"
    using subsetD[OF assms(2) mem(1)] subsetD[OF assms(2) mem(2)] unfolding short_named_def mem_Collect_eq by blast+
  ultimately show ?thesis by (metis option.inject)
qed

lemma lookup_node_iff:
  assumes inv: "graph_inv (pa_graph pa)"
  shows "lookup_node pa name file = Some n \<longleftrightarrow> function_named (pa_graph pa) file name n"
proof (cases "name = '''' \<or> get_node (pa_graph pa) name \<noteq> None")
  case True
  then show ?thesis by (auto simp: lookup_node_def function_named_def)
next
  case False
  let ?g = "pa_graph pa"
  define matches where "matches = List.map_filter (get_node ?g) (get_list (cg_name_index ?g) (after_colons [] name))"
  define same where "same = (if file = '''' then [] else filter (\<lambda>n. normalize_file_ref (fn_file_path n) = file) matches)"
  define chosen where "chosen = (if same \<noteq> [] then same else matches)"
  have m: "set matches = short_named ?g name" unfolding matches_def by (rule short_matches[OF inv])
  then have sm: "set same = named_in_file ?g file name" by (auto simp: same_def named_in_file_def)
  then have c: "set chosen = (if named_in_file ?g file name \<noteq> {} then named_in_file ?g file name else short_named ?g name)"
    using m by (auto simp: chosen_def)
  have sub: "set chosen \<subseteq> short_named ?g name" unfolding c by (auto simp: named_in_file_def)
  have "lookup_node pa name file = (if chosen = [] then None else Some (arg_min_list node_key_of chosen))"
    using False by (simp add: lookup_node_def Let_def matches_def[symmetric] same_def[symmetric] chosen_def)
  moreover have "least_node (set chosen) (arg_min_list node_key_of chosen)" if "chosen \<noteq> []"
    using arg_min_list_in[OF that] arg_min_list_le by (auto simp: least_node_def)
  moreover have "\<not> least_node (set []) n" by (simp add: least_node_def)
  ultimately have "lookup_node pa name file = Some n \<longleftrightarrow> least_node (set chosen) n"
    using least_node_unique[OF inv sub, of n] by (cases "chosen = []") auto
  with False show ?thesis by (auto simp: function_named_def c)
qed

lemma first_in_file_iff:
  "first_in_file pa file cs = Some n \<longleftrightarrow>
   (\<exists>before name after. cs = before @ name # after \<and> lookup_node pa name file = Some n \<and> normalize_file_ref (fn_file_path n) = pa_target_file pa \<and>
     (\<forall>other \<in> set before. \<forall>n'. lookup_node pa other file = Some n' \<longrightarrow> normalize_file_ref (fn_file_path n') \<noteq> pa_target_file pa))"
  (is "_ \<longleftrightarrow> ?P cs")
proof (induction cs)
  case (Cons c cs)
  let ?hit = "\<exists>n'. lookup_node pa c file = Some n' \<and> normalize_file_ref (fn_file_path n') = pa_target_file pa"
  show ?case
  proof (cases ?hit)
    case True
    then have "?P (c # cs) \<longleftrightarrow> lookup_node pa c file = Some n"
      by (auto simp: Cons_eq_append_conv intro: exI[of _ "[]"])
    with True show ?thesis by auto
  next
    case False
    then have "?P (c # cs) \<longleftrightarrow> ?P cs"
      by (auto simp: Cons_eq_append_conv) (metis append_Cons list.set_intros(2) set_ConsD)+
    with False Cons.IH show ?thesis by (auto split: option.splits)
  qed
qed simp

lemma finding_node_iff:
  assumes "graph_inv (pa_graph pa)"
  shows "finding_node pa f = Some n \<longleftrightarrow> function_of_finding (pa_graph pa) (pa_target_file pa) f n"
proof -
  let ?primary = "normalize_file_ref (vf_primary_file f)" and ?file = "pa_target_file pa"
  let ?wanted = "str_or ?primary ?file"
  show ?thesis
  proof (cases "?primary \<in> {'''', ?file}")
    case True
    then have "?wanted = ?file" by (auto simp: str_or_def)
    then show ?thesis
      using True unfolding finding_node_def function_of_finding_def Let_def by (simp only: simp_thms if_False first_in_file_iff lookup_node_iff[OF assms])
  next
    case False
    then have "?wanted \<noteq> ''''" "?wanted \<noteq> ?file" by (auto simp: str_or_def)
    with False show ?thesis by (simp add: finding_node_def function_of_finding_def Let_def)
  qed
qed

lemma function_named_known: "graph_inv g \<Longrightarrow> function_named g file name n \<Longrightarrow> get_node g (fn_unique_name n) = Some n"
  by (auto simp: function_named_def least_node_def short_named_def named_in_file_def get_node_id split: option.splits if_splits)

text \<open>
  What annotation does to a finding about a file. A path improves on the finding when it is a
  shortest one from a source to the function of the finding, is within the limit and longer than
  the path of the finding. If there is one, the finding gets such a path, with its first function
  as the source and its last as the sink; if there is none, the finding is unchanged.
\<close>

definition improving_path :: "code_graph \<Rightarrow> string \<Rightarrow> int \<Rightarrow> 'c vulnerability_finding \<Rightarrow> function_node \<Rightarrow> string list \<Rightarrow> bool" where
  "improving_path g file m f n p \<longleftrightarrow>
     function_of_finding g (normalize_file_ref file) f n \<and> source_path_to g (fn_unique_name n) p \<and>
     (\<forall>q. source_path_to g (fn_unique_name n) q \<longrightarrow> length p \<le> length q) \<and>
     length (vf_path f) < length p \<and> int (length p) \<le> max 1 m"

definition annotated_with :: "code_graph \<Rightarrow> string \<Rightarrow> int \<Rightarrow> 'c vulnerability_finding \<Rightarrow> 'c vulnerability_finding \<Rightarrow> bool" where
  "annotated_with g file m f f' \<longleftrightarrow>
     (if file \<noteq> '''' \<and> (\<exists>n p. improving_path g file m f n p)
      then \<exists>n p s. improving_path g file m f n p \<and> get_node g (hd p) = Some s \<and>
        f' = vulnerability_finding_post_init
          (f\<lparr>vf_source_function := hd p, vf_source_file := fn_file_path s, vf_source_line := fn_line_number s,
             vf_sink_function := fn_unique_name n, vf_sink_file := fn_file_path n, vf_sink_line := fn_line_number n, vf_path := p\<rparr>)
      else f' = f)"

lemma annotate_one_correct:
  assumes inv: "graph_inv g" and "file \<noteq> ''''"
  shows "\<exists>f'. annotate_one (new_path_annotator g file (sorted_reverse_edges g) m) f = Some f' \<and> annotated_with g file m f f'"
proof -
  define pa where "pa = new_path_annotator g file (sorted_reverse_edges g) m"
  have pg: "pa_graph pa = g" "pa_target_file pa = normalize_file_ref file" by (simp_all add: pa_def new_path_annotator_def)
  have iff: "finding_node pa f = Some n \<longleftrightarrow> function_of_finding g (normalize_file_ref file) f n" for n
    using finding_node_iff[of pa f n] inv by (simp add: pg)
  show ?thesis
  proof (cases "finding_node pa f")
    case None
    then have "\<not> improving_path g file m f n p" for n p using iff[of n] by (simp add: improving_path_def)
    with None show ?thesis by (simp add: annotate_one_def pa_def[symmetric] annotated_with_def)
  next
    case (Some n)
    then have fn: "function_of_finding g (normalize_file_ref file) f n' \<longleftrightarrow> n' = n" for n' using iff[of n'] by auto
    then have "function_of_finding g (normalize_file_ref file) f n" by simp
    then have n: "get_node g (fn_unique_name n) = Some n"
      unfolding function_of_finding_def using function_named_known[OF inv] by blast
    then have "fn_unique_name n \<in> set (keys (cg_nodes g))" by (auto simp: get_node_def dest: map_of_Some_keys)
    from best_source_path_exact[OF inv this, of "file" m] obtain r where r: "best_source_path_to pa (fn_unique_name n) = Some r"
      and ok: "if r = [] then \<forall>p. source_path_to g (fn_unique_name n) p \<longrightarrow> max 1 m < int (length p)
        else source_path_to g (fn_unique_name n) r \<and> int (length r) \<le> max 1 m \<and> (\<forall>p. source_path_to g (fn_unique_name n) p \<longrightarrow> length r \<le> length p)"
      by (auto simp: pa_def)
    show ?thesis
    proof (cases "r = [] \<or> length r \<le> length (vf_path f)")
      case True
      have "\<not> improving_path g file m f n' p" for n' p
        using True ok by (auto simp: improving_path_def fn split: if_splits)
      with Some r True show ?thesis by (simp add: annotate_one_def pa_def[symmetric] annotated_with_def)
    next
      case False
      with ok have imp: "improving_path g file m f n r" by (auto simp: improving_path_def fn)
      then obtain s where s: "get_node g (hd r) = Some s"
        by (auto simp: improving_path_def source_path_to_def is_source_name_def split: option.splits)
      let ?f = "vulnerability_finding_post_init
        (f\<lparr>vf_source_function := hd r, vf_source_file := fn_file_path s, vf_source_line := fn_line_number s,
           vf_sink_function := fn_unique_name n, vf_sink_file := fn_file_path n, vf_sink_line := fn_line_number n, vf_path := r\<rparr>)"
      have "annotate_one pa f = Some ?f" using False s Some r get_node_id[OF inv s] by (simp add: annotate_one_def pg)
      moreover have "annotated_with g file m f ?f" unfolding annotated_with_def using assms(2) imp s by auto
      ultimately show ?thesis unfolding pa_def by blast
    qed
  qed
qed

text \<open>The cache of annotators holds what would be created anew.\<close>

definition cache_ok :: "code_graph \<Rightarrow> int \<Rightarrow> annotator_cache \<Rightarrow> bool" where
  "cache_ok g m cache \<longleftrightarrow>
     (\<forall>file pa. map_of (ac_annotators cache) file = Some pa \<longrightarrow> pa = new_path_annotator g file (sorted_reverse_edges g) m) \<and>
     (\<forall>r. ac_reverse_edges cache = Some r \<longrightarrow> r = sorted_reverse_edges g)"

definition annotate_alone :: "code_graph \<Rightarrow> int \<Rightarrow> 'c vulnerability_finding \<Rightarrow> 'c vulnerability_finding option" where
  "annotate_alone g m f =
     (let file = str_or (vf_primary_file f) (str_or (vf_sink_file f) (vf_source_file f))
      in if file = '''' then Some f else annotate_one (new_path_annotator g file (sorted_reverse_edges g) m) f)"

lemma cached_annotator_ok:
  assumes "cache_ok g m cache"
  shows "\<exists>cache'. cached_annotator g m cache file = (cache', new_path_annotator g file (sorted_reverse_edges g) m) \<and> cache_ok g m cache'"
  using assms by (auto simp: cached_annotator_def cache_ok_def Let_def split: option.splits if_splits)

lemma annotate_all_alone: "cache_ok g m cache \<Longrightarrow> annotate_all g m cache fs = map_opt (annotate_alone g m) fs"
proof (induction fs arbitrary: cache)
  case (Cons f fs)
  define tf where "tf = str_or (vf_primary_file f) (str_or (vf_sink_file f) (vf_source_file f))"
  from cached_annotator_ok[OF Cons.prems, of tf] obtain cache' where
    c: "cached_annotator g m cache tf = (cache', new_path_annotator g tf (sorted_reverse_edges g) m)" "cache_ok g m cache'" by blast
  show ?case
    using Cons.IH[OF Cons.prems] Cons.IH[OF c(2)] c(1)
    by (simp add: annotate_alone_def tf_def[symmetric] Let_def split: option.split)
qed simp

lemma annotate_findings_alone: "annotate_findings_with_source_paths g m fs = map_opt (annotate_alone g m) fs"
  unfolding annotate_findings_with_source_paths_def by (rule annotate_all_alone) (simp add: cache_ok_def)

lemma annotate_alone_correct:
  assumes "graph_inv g"
  shows "\<exists>f'. annotate_alone g m f = Some f' \<and>
    annotated_with g (str_or (vf_primary_file f) (str_or (vf_sink_file f) (vf_source_file f))) m f f'"
proof (cases "str_or (vf_primary_file f) (str_or (vf_sink_file f) (vf_source_file f)) = ''''")
  case True
  then show ?thesis by (simp add: annotate_alone_def annotated_with_def)
next
  case False
  then show ?thesis using annotate_one_correct[OF assms, OF False] by (simp add: annotate_alone_def)
qed

text \<open>Findings are prepared one by one.\<close>

definition prepare_one :: "code_graph \<Rightarrow> int \<Rightarrow> string \<Rightarrow> 'c vulnerability_finding \<Rightarrow> 'c vulnerability_finding option" where
  "prepare_one g m target_file f =
     map_option (\<lambda>f. f\<lparr>vf_vulnerability_type := normalize_sink_type (vf_vulnerability_type f)\<rparr>)
       (if target_file \<noteq> '''' then annotate_one (new_path_annotator g target_file (sorted_reverse_edges g) m) f else annotate_alone g m f)"

lemma map_opt_map: "map_option (map h) (map_opt f xs) = map_opt (\<lambda>x. map_option h (f x)) xs"
proof (induction xs)
  case (Cons x xs)
  show ?case by (cases "f x") (simp_all add: Cons[symmetric] option.map_comp comp_def)
qed simp

lemma prepare_findings_each: "prepare_findings g m target_file fs = map_opt (prepare_one g m target_file) fs"
proof -
  have "prepare_findings g m target_file fs =
    map_option (map (\<lambda>f. f\<lparr>vf_vulnerability_type := normalize_sink_type (vf_vulnerability_type f)\<rparr>))
      (map_opt (if target_file \<noteq> '''' then annotate_one (new_path_annotator g target_file (sorted_reverse_edges g) m) else annotate_alone g m) fs)"
    unfolding prepare_findings_def annotate_findings_alone by (cases "fs = []") simp_all
  then show ?thesis unfolding map_opt_map prepare_one_def by (cases "target_file = ''''") simp_all
qed

section \<open>Copying a part of the graph\<close>

definition facts_valid :: "code_graph \<Rightarrow> bool" where
  "facts_valid g \<longleftrightarrow>
     list_all (\<lambda>n. list_all (\<lambda>c. is_ok (call_site_post_init c)) (fn_call_sites n) \<and>
                   list_all (\<lambda>r. is_ok (symbol_reference_post_init r)) (fn_references n)) (vals (cg_nodes g)) \<and>
     list_all (\<lambda>c. list_all (\<lambda>r. is_ok (symbol_reference_post_init r)) (gc_references c)) (vals (cg_globals g))"

lemma restrict_call_ok:
  assumes "is_ok (call_site_post_init c)"
  shows "\<exists>c'. restrict_call selected c = Inr c' \<and> set (cs_target_ids c') \<subseteq> set selected"
proof -
  define c' where "c' = c\<lparr>cs_target_ids := filter (\<lambda>t. t \<in> set selected) (cs_target_ids c),
    cs_targets_complete := cs_targets_complete c \<and> list_all (\<lambda>t. t \<in> set selected) (cs_target_ids c)\<rparr>"
  have "call_site_post_init c = Inr ()" using assms by (cases "call_site_post_init c") auto
  then have "call_site_post_init c' = Inr ()" by (auto simp: call_site_post_init_def res_simps c'_def)
  then show ?thesis by (auto simp: restrict_call_def Let_def c'_def[symmetric]) (auto simp: c'_def)
qed

lemma restrict_reference_ok:
  assumes "is_ok (symbol_reference_post_init r)"
  shows "\<exists>r'. restrict_reference selected r = Inr r' \<and> set (sr_target_ids r') \<subseteq> set selected"
proof -
  define r' where "r' = r\<lparr>sr_target_ids := filter (\<lambda>t. t \<in> set selected) (sr_target_ids r)\<rparr>"
  have "symbol_reference_post_init r = Inr ()" using assms by (cases "symbol_reference_post_init r") auto
  then have "symbol_reference_post_init r' = Inr ()" by (auto simp: symbol_reference_post_init_def res_simps r'_def)
  then show ?thesis by (auto simp: restrict_reference_def with_targets_def Let_def r'_def[symmetric]) (auto simp: r'_def)
qed

definition restricts :: "string list \<Rightarrow> function_node \<Rightarrow> function_node \<Rightarrow> bool" where
  "restricts selected n n' \<longleftrightarrow>
     fn_unique_name n' = fn_unique_name n \<and> fn_name n' = fn_name n \<and> fn_file_path n' = fn_file_path n \<and>
     fn_resolved_calls n' = filter (\<lambda>t. t \<in> set selected) (fn_resolved_calls n) \<and> set (node_targets n') \<subseteq> set selected"

lemma restrict_node_ok:
  assumes "\<forall>c \<in> set (fn_call_sites n). is_ok (call_site_post_init c)"
    and "\<forall>r \<in> set (fn_references n). is_ok (symbol_reference_post_init r)"
  shows "\<exists>n'. restrict_node selected n = Inr n' \<and> restricts selected n n'"
proof -
  from map_res_each[of "fn_call_sites n" "restrict_call selected" "\<lambda>c. set (cs_target_ids c) \<subseteq> set selected"] restrict_call_ok assms(1)
  obtain cs where cs: "map_res (restrict_call selected) (fn_call_sites n) = Inr cs" "\<forall>c \<in> set cs. set (cs_target_ids c) \<subseteq> set selected"
    by blast
  from map_res_each[of "fn_references n" "restrict_reference selected" "\<lambda>r. set (sr_target_ids r) \<subseteq> set selected"]
    restrict_reference_ok assms(2)
  obtain rs where rs: "map_res (restrict_reference selected) (fn_references n) = Inr rs" "\<forall>r \<in> set rs. set (sr_target_ids r) \<subseteq> set selected"
    by blast
  define n' where "n' = n\<lparr>fn_resolved_calls := filter (\<lambda>t. t \<in> set selected) (fn_resolved_calls n), fn_call_sites := cs, fn_references := rs\<rparr>"
  have "set (node_targets n') \<subseteq> set selected" using cs(2) rs(2) by (auto simp: n'_def node_targets_def)
  then have "restricts selected n n'" by (simp add: restricts_def n'_def)
  moreover have "restrict_node selected n = Inr n'" using cs(1) rs(1) by (simp add: restrict_node_def n'_def)
  ultimately show ?thesis by blast
qed

lemma restrict_global_ok:
  assumes "\<forall>r \<in> set (gc_references c). is_ok (symbol_reference_post_init r)"
  shows "\<exists>c'. restrict_global selected c = Inr c' \<and> gc_unique_name c' = gc_unique_name c \<and>
    gc_file_path c' = gc_file_path c \<and> set (global_targets c') \<subseteq> set selected"
proof -
  from map_res_each[of "gc_references c" "restrict_reference selected" "\<lambda>r. set (sr_target_ids r) \<subseteq> set selected"]
    restrict_reference_ok assms
  obtain rs where "map_res (restrict_reference selected) (gc_references c) = Inr rs" "\<forall>r \<in> set rs. set (sr_target_ids r) \<subseteq> set selected"
    by blast
  then show ?thesis by (auto simp: restrict_global_def global_targets_def)
qed

lemma copy_nodes_fold:
  assumes "graph_inv g" and "facts_valid g" and "set names \<subseteq> set (keys (cg_nodes g))" and "distinct names"
    and "set names \<inter> set (keys (cg_nodes f)) = {}" and "constructed f"
  shows "\<exists>h. fold_res (copy_selected selected g) f names = Inr h \<and> constructed h \<and> cg_globals h = cg_globals f \<and>
    keys (cg_nodes h) = keys (cg_nodes f) @ names \<and>
    (\<forall>k n'. get_node h k = Some n' \<longrightarrow> get_node f k = Some n' \<or> (\<exists>n. get_node g k = Some n \<and> restricts selected n n'))"
  using assms(3-6)
proof (induction names arbitrary: f)
  case (Cons name names)
  obtain n where n: "get_node g name = Some n" using Cons.prems(1) by (auto simp: get_node_def elim: map_of_keysE)
  then have "(name, n) \<in> set (cg_nodes g)" by (auto simp: get_node_def dest: map_of_SomeD)
  then have u: "fn_unique_name n = name" and nv: "n \<in> set (vals (cg_nodes g))"
    using graph_inv_ids[OF assms(1)] by (auto simp: vals_def intro: rev_image_eqI)
  from nv assms(2) have "\<forall>c \<in> set (fn_call_sites n). is_ok (call_site_post_init c)"
    "\<forall>r \<in> set (fn_references n). is_ok (symbol_reference_post_init r)"
    by (auto simp: facts_valid_def list_all_iff)
  from restrict_node_ok[OF this] obtain n' where n': "restrict_node selected n = Inr n'" "restricts selected n n'" by blast
  let ?f = "f\<lparr>cg_nodes := cg_nodes f @ [(name, n')], cg_name_index := setdefault_append (cg_name_index f) (fn_name n') name\<rparr>"
  have un: "fn_unique_name n' = name" using n'(2) u by (simp add: restricts_def)
  have add: "add_node f n' = Inr ?f" using Cons.prems(3) un by (simp add: add_node_def update_fresh)
  have "\<exists>h. fold_res (copy_selected selected g) ?f names = Inr h \<and> constructed h \<and> cg_globals h = cg_globals ?f \<and>
    keys (cg_nodes h) = keys (cg_nodes ?f) @ names \<and>
    (\<forall>k n'. get_node h k = Some n' \<longrightarrow> get_node ?f k = Some n' \<or> (\<exists>n. get_node g k = Some n \<and> restricts selected n n'))"
    by (rule Cons.IH[OF _ _ _ constructed.Add_node[OF Cons.prems(4) add]]) (use Cons.prems in auto)
  then obtain h where
    h: "fold_res (copy_selected selected g) ?f names = Inr h" "constructed h" "cg_globals h = cg_globals f"
      "keys (cg_nodes h) = keys (cg_nodes f) @ name # names"
      "\<And>k m. get_node h k = Some m \<Longrightarrow> get_node ?f k = Some m \<or> (\<exists>n. get_node g k = Some n \<and> restricts selected n m)"
    by auto
  have step: "copy_selected selected g f name = Inr ?f" using n n'(1) add by (simp add: copy_selected_def)
  have "get_node f k = Some m \<or> k = name \<and> m = n'" if "get_node ?f k = Some m" for k m
    using that Cons.prems(3) by (auto simp: get_node_def map_add_def split: option.splits if_splits)
  then have "get_node f k = Some m \<or> (\<exists>n. get_node g k = Some n \<and> restricts selected n m)" if "get_node h k = Some m" for k m
    using h(5)[OF that] n n'(2) by blast
  with h(1-4) step show ?case by (intro exI[of _ h]) simp
qed auto

lemma copy_globals_fold:
  assumes "\<And>c. c \<in> set cs \<Longrightarrow> \<forall>r \<in> set (gc_references c). is_ok (symbol_reference_post_init r)"
    and "distinct (map gc_unique_name cs)" and "set (map gc_unique_name cs) \<inter> set (keys (cg_globals f)) = {}" and "constructed f"
  shows "\<exists>h. fold_res (\<lambda>h c. and_then (restrict_global selected c) (add_global h)) f cs = Inr h \<and> constructed h \<and> cg_nodes h = cg_nodes f \<and>
    (\<forall>c \<in> set (vals (cg_globals h)). c \<in> set (vals (cg_globals f)) \<or>
       set (global_targets c) \<subseteq> set selected \<and> gc_file_path c \<in> gc_file_path ` set cs)"
  using assms
proof (induction cs arbitrary: f)
  case (Cons c cs)
  from restrict_global_ok[of c selected] Cons.prems(1) obtain c' where
    c': "restrict_global selected c = Inr c'" "gc_unique_name c' = gc_unique_name c" "gc_file_path c' = gc_file_path c"
      "set (global_targets c') \<subseteq> set selected" by auto
  let ?f = "f\<lparr>cg_globals := cg_globals f @ [(gc_unique_name c, c')]\<rparr>"
  have add: "add_global f c' = Inr ?f" using Cons.prems(3) c'(2) by (simp add: add_global_def update_fresh)
  have "\<exists>h. fold_res (\<lambda>h c. and_then (restrict_global selected c) (add_global h)) ?f cs = Inr h \<and> constructed h \<and> cg_nodes h = cg_nodes ?f \<and>
    (\<forall>d \<in> set (vals (cg_globals h)). d \<in> set (vals (cg_globals ?f)) \<or>
       set (global_targets d) \<subseteq> set selected \<and> gc_file_path d \<in> gc_file_path ` set cs)"
    by (rule Cons.IH[OF _ _ _ constructed.Add_global[OF Cons.prems(4) add]]) (use Cons.prems in auto)
  then obtain h where
    h: "fold_res (\<lambda>h c. and_then (restrict_global selected c) (add_global h)) ?f cs = Inr h" "constructed h" "cg_nodes h = cg_nodes f"
      "\<And>d. d \<in> set (vals (cg_globals h)) \<Longrightarrow> d \<in> set (vals (cg_globals ?f)) \<or> set (global_targets d) \<subseteq> set selected \<and> gc_file_path d \<in> gc_file_path ` set cs"
    by auto
  have "d \<in> set (vals (cg_globals f)) \<or> set (global_targets d) \<subseteq> set selected \<and> gc_file_path d \<in> gc_file_path ` set (c # cs)"
    if "d \<in> set (vals (cg_globals h))" for d
    using h(4)[OF that] c'(3,4) by (auto simp: vals_def)
  with h(1-3) add c'(1) show ?case by (intro exI[of _ h]) simp
qed auto

section \<open>Properties of the reachability searches\<close>

text \<open>A call chain \<open>main \<rightarrow> run \<rightarrow> log\<close> with a source and a function beside it.\<close>

definition demo_linked :: code_graph where
  "demo_linked = graph_of
     [(demo_function ''a.c::main'' ''a.c'' ''main'' [''run''] 1)\<lparr>fn_resolved_calls := [''a.c::run''], fn_is_source := True\<rparr>,
      (demo_function ''a.c::run'' ''a.c'' ''run'' [''log''] 20)\<lparr>fn_resolved_calls := [''b.c::log'']\<rparr>,
      demo_function ''b.c::log'' ''b.c'' ''log'' [] 1,
      (demo_function ''b.c::aux'' ''b.c'' ''aux'' [''log''] 20)\<lparr>fn_resolved_calls := [''b.c::log'']\<rparr>]"

lemma demo_linked_constructed: "constructed demo_linked"
  unfolding demo_linked_def by (rule graph_of_constructed)

definition demo_finding :: "unit vulnerability_finding" where
  "demo_finding = \<lparr>vf_id = ''f1'', vf_vulnerability_type = ''Buffer-Overflow'', vf_severity = ''high'', vf_confidence = (),
     vf_source_function = '''', vf_source_file = '''', vf_source_line = 0, vf_sink_function = ''lib::log'', vf_sink_file = ''b.c'',
     vf_sink_line = 1, vf_path = [], vf_description = '''', vf_root_cause = '''', vf_evidence = '''', vf_mitigation = '''',
     vf_cwe = '''', vf_analysis_type = ''reachability'', vf_primary_file = ''b.c'', vf_primary_function = ''lib::log'',
     vf_primary_line = 1, vf_canonical_key = '''', vf_primary_anchor = None\<rparr>"

text \<open>
  C29. The names in the focus of some target functions are exactly the functions from which a
  target can be reached by calls, the functions that a target reaches, the targets, and the direct
  neighbours of the targets.
\<close>

theorem focus_exact:
  assumes "constructed g"
  shows "node_names_for_targets g targets =
    {n. \<exists>t \<in> set targets. (n, t) \<in> (call_graph g)\<^sup>* \<or> (t, n) \<in> (call_graph g)\<^sup>* \<or>
       n \<in> set (callees_of_node g t) \<or> t \<in> set (callees_of_node g n)}"
proof -
  note inv = constructed_inv[OF assms]
  have edges: "known_edges (function_ids g) (node_callees g) = call_graph g"
    using known_edges_call_graph function_ids_keys[OF inv] node_callees_eq[OF inv] by simp
  have up: "reach_loop (keys (cg_nodes g)) (get_list (plain_reverse_edges g)) (set targets) targets = ((call_graph g)\<inverse>)\<^sup>* `` set targets"
    using plain_calls.reach_callers[of g targets, unfolded edges] by (simp only: function_ids_keys[OF inv])
  have down: "reach_loop (keys (cg_nodes g)) (callees_of_node g) (set targets) targets = (call_graph g)\<^sup>* `` set targets"
    using plain_calls.reach_callees[of g targets, unfolded edges] by (simp only: function_ids_keys[OF inv] node_callees_eq[OF inv])
  have "node_names_for_targets g targets = ((call_graph g)\<inverse>)\<^sup>* `` set targets \<union> (call_graph g)\<^sup>* `` set targets \<union>
      (\<Union>t \<in> set targets. set (callees_of_node g t) \<union> {a. t \<in> set (callees_of_node g a)})"
    unfolding node_names_for_targets_def Let_def up down
    using callers_lookup[OF inv] by (intro arg_cong2[where f = "(\<union>)"] refl) auto
  then show ?thesis by (auto simp: rtrancl_converse)
qed

theorem focus_exact_witness:
  "''a.c::main'' \<in> node_names_for_targets demo_linked [''a.c::run''] \<and> ''b.c::aux'' \<notin> node_names_for_targets demo_linked [''a.c::run'']"
proof -
  have "''a.c::run'' \<in> set (callees_of_node demo_linked ''a.c::main'')" by code_simp
  then have "''a.c::main'' \<in> node_names_for_targets demo_linked [''a.c::run'']"
    unfolding focus_exact[OF demo_linked_constructed] by auto
  moreover have "''b.c::aux'' \<notin> node_names_for_targets demo_linked [''a.c::run'']" by code_simp
  ultimately show ?thesis by blast
qed

text \<open>
  C30. The search for a source always ends. For a function of the graph it returns a shortest list
  of names in which each calls the next, that begins with a source and ends with the function; it
  is within the length limit. It returns nothing only if every such list is longer than the limit.
\<close>

theorem best_source_path_shortest:
  assumes "constructed g" and "get_node g target = Some n"
  shows "\<exists>r. best_source_path_to (new_path_annotator g target_file (sorted_reverse_edges g) m) target = Some r \<and>
    (if r = [] then \<forall>p. source_path_to g target p \<longrightarrow> max 1 m < int (length p)
     else source_path_to g target r \<and> int (length r) \<le> max 1 m \<and> (\<forall>p. source_path_to g target p \<longrightarrow> length r \<le> length p))"
proof -
  have "target \<in> set (keys (cg_nodes g))" using assms(2) by (auto simp: get_node_def dest: map_of_Some_keys)
  then show ?thesis by (rule best_source_path_exact[OF constructed_inv[OF assms(1)]])
qed

theorem best_source_path_shortest_witness:
  "best_source_path_to (new_path_annotator demo_linked ''b.c'' (sorted_reverse_edges demo_linked) 25) ''b.c::log''
     = Some [''a.c::main'', ''a.c::run'', ''b.c::log''] \<and>
   \<not> (\<exists>p. source_path_to demo_linked ''b.c::log'' p \<and> length p < 3)"
proof -
  have n: "get_node demo_linked ''b.c::log'' = Some (demo_function ''b.c::log'' ''b.c'' ''log'' [] 1)" by code_simp
  have r: "best_source_path_to (new_path_annotator demo_linked ''b.c'' (sorted_reverse_edges demo_linked) 25) ''b.c::log''
     = Some [''a.c::main'', ''a.c::run'', ''b.c::log'']" by code_simp
  let ?path = "[''a.c::main'', ''a.c::run'', ''b.c::log'']"
  have "if ?path = [] then \<forall>p. source_path_to demo_linked ''b.c::log'' p \<longrightarrow> max 1 25 < int (length p)
     else source_path_to demo_linked ''b.c::log'' ?path \<and> int (length ?path) \<le> max 1 25 \<and>
       (\<forall>p. source_path_to demo_linked ''b.c::log'' p \<longrightarrow> length ?path \<le> length p)"
    using best_source_path_shortest[OF demo_linked_constructed n, of "''b.c''" 25] unfolding r option.inject by metis
  with r show ?thesis by (auto simp: numeral_3_eq_3)
qed

text \<open>
  C33. Preparing findings always ends and keeps their number and order. Each becomes what it
  becomes when it is prepared alone, so the annotators that are kept from one finding to the next do
  not matter. Its file is the one that was asked for, or else its own. If a shortest path from a source
  to the function of the finding in that file is within the limit and longer than the path of the
  finding, the finding gets such a path, with its ends as the source and the sink and every other
  field as it was or filled in from them; otherwise it keeps everything but the spelling of its type.
\<close>

theorem prepare_findings_correct:
  assumes "constructed g"
  shows "\<exists>fs'. prepare_findings g m target_file fs = Some fs' \<and>
    list_all2 (\<lambda>f f'. prepare_findings g m target_file [f] = Some [f'] \<and>
      (\<exists>f1. f' = f1\<lparr>vf_vulnerability_type := normalize_sink_type (vf_vulnerability_type f1)\<rparr> \<and>
        annotated_with g (if target_file \<noteq> '''' then target_file
                          else str_or (vf_primary_file f) (str_or (vf_sink_file f) (vf_source_file f))) m f f1)) fs fs'"
proof -
  have "\<exists>f'. prepare_one g m target_file f = Some f' \<and> prepare_findings g m target_file [f] = Some [f'] \<and>
      (\<exists>f1. f' = f1\<lparr>vf_vulnerability_type := normalize_sink_type (vf_vulnerability_type f1)\<rparr> \<and>
        annotated_with g (if target_file \<noteq> '''' then target_file
                          else str_or (vf_primary_file f) (str_or (vf_sink_file f) (vf_source_file f))) m f f1)" for f
    using annotate_one_correct[OF constructed_inv[OF assms], of target_file m f] annotate_alone_correct[OF constructed_inv[OF assms], of m f]
    by (cases "target_file = ''''") (auto simp: prepare_findings_each prepare_one_def)
  then show ?thesis unfolding prepare_findings_each[of g m target_file fs] by (intro map_opt_total) blast
qed

theorem prepare_findings_correct_witness:
  "\<exists>f'. prepare_findings demo_linked 25 ''b.c'' [demo_finding] = Some [f'] \<and>
     vf_path f' = [''a.c::main'', ''a.c::run'', ''b.c::log''] \<and> vf_vulnerability_type f' = ''buffer_overflow''"
proof -
  have c: "map_option (map (\<lambda>f. (vf_path f, vf_vulnerability_type f))) (prepare_findings demo_linked 25 ''b.c'' [demo_finding])
      = Some [([''a.c::main'', ''a.c::run'', ''b.c::log''], ''buffer_overflow'')]" by code_simp
  obtain fs' where fs': "prepare_findings demo_linked 25 ''b.c'' [demo_finding] = Some fs'"
    and l: "length [demo_finding] = length fs'"
    using prepare_findings_correct[OF demo_linked_constructed, of 25 "''b.c''" "[demo_finding]"] list_all2_lengthD by blast
  from l obtain f' where "fs' = [f']" by (cases fs') auto
  with c[unfolded fs'] fs' show ?thesis by (intro exI[of _ f']) simp
qed

text \<open>
  Copying a part of a graph whose syntax facts are valid succeeds. The copy is again a built
  graph; it has the selected functions in the order of their names, keeps of every function the calls
  to selected functions, and all its targets, also those of its globals, are functions of the copy.
\<close>

theorem copy_graph_nodes_closed:
  fixes node_names :: "string list"
  assumes "constructed g" and "facts_valid g"
  defines "selected \<equiv> sort (remdups (filter (\<lambda>n. get_node g n \<noteq> None) node_names))"
  shows "\<exists>h. copy_graph_nodes g node_names = Inr h \<and> constructed h \<and> keys (cg_nodes h) = selected \<and>
    (\<forall>k n'. get_node h k = Some n' \<longrightarrow> set (node_targets n') \<subseteq> set selected \<and>
       (\<exists>n. get_node g k = Some n \<and> fn_resolved_calls n' = filter (\<lambda>t. t \<in> set selected) (fn_resolved_calls n))) \<and>
    (\<forall>c \<in> set (get_globals h). set (global_targets c) \<subseteq> set selected \<and> gc_file_path c \<in> fn_file_path ` set (vals (cg_nodes h)))"
proof -
  note inv = constructed_inv[OF assms(1)]
  have sel: "selected = sort (remdups (filter (\<lambda>n. n \<in> set (keys (cg_nodes g))) node_names))"
    by (simp add: selected_def get_node_def keys_map_of)
  have "set selected \<subseteq> set (keys (cg_nodes g))" "distinct selected" by (auto simp: sel)
  from copy_nodes_fold[OF inv assms(2) this _ constructed.New, of selected] obtain f where
    f: "fold_res (copy_selected selected g) new_graph selected = Inr f" "constructed f" "cg_globals f = []" "keys (cg_nodes f) = selected"
      "\<And>k n'. get_node f k = Some n' \<Longrightarrow> \<exists>n. get_node g k = Some n \<and> restricts selected n n'"
    by (auto simp: new_graph_def get_node_def)
  define cs where "cs = filter (\<lambda>c. gc_file_path c \<in> set (map fn_file_path (vals (cg_nodes f)))) (get_globals g)"
  have "map gc_unique_name (get_globals g) = keys (cg_globals g)"
    using graph_inv_gids[OF inv] by (auto simp: get_globals_def vals_def keys_def)
  then have "distinct (map gc_unique_name cs)"
    using graph_inv_globals[OF inv] by (metis cs_def distinct_map_filter wf_dict_keys)
  moreover have "\<forall>r \<in> set (gc_references c). is_ok (symbol_reference_post_init r)" if "c \<in> set cs" for c
    using that assms(2) by (auto simp: cs_def facts_valid_def get_globals_def list_all_iff)
  ultimately obtain h where
    h: "fold_res (\<lambda>h c. and_then (restrict_global selected c) (add_global h)) f cs = Inr h" "constructed h" "cg_nodes h = cg_nodes f"
      "\<And>c. c \<in> set (vals (cg_globals h)) \<Longrightarrow> set (global_targets c) \<subseteq> set selected \<and> gc_file_path c \<in> gc_file_path ` set cs"
    using copy_globals_fold[of cs f selected] f(2,3) by auto
  have "copy_graph_nodes g node_names = Inr h"
    using f(1) h(1) by (simp add: copy_graph_nodes_def sel[symmetric] cs_def)
  moreover have "get_node h k = get_node f k" for k using h(3) by (simp add: get_node_def)
  moreover have "gc_file_path ` set cs \<subseteq> fn_file_path ` set (vals (cg_nodes h))" by (auto simp: cs_def h(3))
  ultimately show ?thesis
    using h(2-4) f(4,5) by (intro exI[of _ h]) (auto simp: restricts_def get_globals_def, blast+)
qed

theorem copy_graph_nodes_closed_witness:
  "\<exists>h. copy_graph_nodes demo_linked [''a.c::run'', ''nowhere'', ''a.c::main''] = Inr h \<and> constructed h \<and>
     keys (cg_nodes h) = [''a.c::main'', ''a.c::run'']"
proof -
  have "facts_valid demo_linked" by code_simp
  moreover have "sort (remdups (filter (\<lambda>n. get_node demo_linked n \<noteq> None) [''a.c::run'', ''nowhere'', ''a.c::main'']))
    = [''a.c::main'', ''a.c::run'']" by code_simp
  ultimately show ?thesis
    using copy_graph_nodes_closed[OF demo_linked_constructed, of "[''a.c::run'', ''nowhere'', ''a.c::main'']"] by metis
qed

end
