(* ===== verification/Graph_Annotations.thy ===== *)
theory Graph_Annotations
  imports Reachability
begin

text \<open>
  Marking the sources and sinks of a code graph (\<open>engine/nodes/codegraph/annotations.py\<close>): functions
  that can be entered from outside, what the language semantics of a file say, and the functions the
  configuration names. The semantics providers (\<open>engine/nodes/codegraph/semantics.py\<close>) are found by
  name in a catalog; loading and analysing are code of the providers and hence parameters.
\<close>

section \<open>The catalog of semantics providers\<close>

datatype 'p loaded = LoadCancelled | LoadFailed string | NoAnalyzeNode | LoadedProvider 'p

record 'p semantics_catalog =
  sem_providers :: "(string, 'p) dict"
  sem_entry_points :: "(string, 'p loaded list) dict"

datatype semantics_error = SemanticsCancelled | SemanticsFailed string

definition add_semantics_entry ::
  "(string, 'p loaded list) dict \<Rightarrow> string \<times> 'p loaded \<Rightarrow> (string, 'p loaded list) dict" where
  "add_semantics_entry d = (\<lambda>(name, e). setdefault_append d name e)"

definition new_semantics_catalog :: "(string \<times> 'p loaded) list \<Rightarrow> (string, 'p) dict \<Rightarrow> 'p semantics_catalog" where
  "new_semantics_catalog entry_points providers =
     \<lparr>sem_providers = providers, sem_entry_points = foldl add_semantics_entry [] entry_points\<rparr>"

definition resolve_semantics :: "'p semantics_catalog \<Rightarrow> string \<Rightarrow> (semantics_error + 'p) \<times> 'p semantics_catalog" where
  "resolve_semantics cat name =
     (case map_of (sem_providers cat) name of
        Some p \<Rightarrow> (Inr p, cat)
      | None \<Rightarrow>
          (case get_list (sem_entry_points cat) name of
             [] \<Rightarrow> (Inl (SemanticsFailed (''Unknown CodeGraph semantics provider: '' @ repr_str name)), cat)
           | [e] \<Rightarrow>
               (case e of
                  LoadCancelled \<Rightarrow> (Inl SemanticsCancelled, cat)
                | LoadFailed msg \<Rightarrow>
                    (Inl (SemanticsFailed (''CodeGraph semantics provider '' @ repr_str name @ '' failed to load: '' @ msg)), cat)
                | NoAnalyzeNode \<Rightarrow>
                    (Inl (SemanticsFailed (''CodeGraph semantics provider '' @ repr_str name @ '' has no analyze_node'')), cat)
                | LoadedProvider p \<Rightarrow> (Inr p, cat\<lparr>sem_providers := AList.update name p (sem_providers cat)\<rparr>))
           | _ \<Rightarrow> (Inl (SemanticsFailed (''Multiple CodeGraph semantics packages register '' @ repr_str name)), cat)))"

definition contains_semantics :: "'p semantics_catalog \<Rightarrow> string option \<Rightarrow> bool" where
  "contains_semantics cat name =
     (case name of None \<Rightarrow> False
      | Some n \<Rightarrow> n \<noteq> '''' \<and> (n \<in> set (keys (sem_providers cat)) \<or> n \<in> set (keys (sem_entry_points cat))))"

section \<open>What a provider says about a function\<close>

record node_facts =
  cf_unique_name :: string
  cf_file_path :: string
  cf_name :: string
  cf_language :: string
  cf_calls :: "string list"
  cf_unresolved_calls :: "string list"
  cf_call_sites :: "call_site list"
  cf_references :: "symbol_reference list"

record graph_annotations =
  ga_is_source :: bool
  ga_source_reason :: string
  ga_is_sink :: bool
  ga_sink_type :: string
  ga_sink_reason :: string
  ga_tags :: "(string, tag) dict"

definition tag_key_ok :: "string \<Rightarrow> bool" where
  "tag_key_ok key \<longleftrightarrow> key \<noteq> '''' \<and> isidentifier (replace_char (CHR ''.'') (CHR ''_'') key)"

definition graph_annotations_post_init :: "graph_annotations \<Rightarrow> string + unit" where
  "graph_annotations_post_init a =
     (and_then (raise_if (ga_is_source a \<noteq> (ga_source_reason a \<noteq> ''''))
        ''CodeGraph source annotations require is_source and source_reason'') (\<lambda>_.
      and_then (raise_if (ga_is_sink a \<noteq> (ga_sink_type a \<noteq> '''' \<and> ga_sink_reason a \<noteq> ''''))
        ''CodeGraph sink annotations require is_sink, sink_type, and sink_reason'') (\<lambda>_.
      raise_if (\<not> list_all tag_key_ok (keys (ga_tags a)))
        ''CodeGraph annotation tags must map identifiers to Tag'')))"

text \<open>
  The outcome of \<open>analyze_node\<close>. It constructs its annotations, so an ill-formed value is an
  exception of the call.
\<close>

datatype analysis = AnalysisCancelled | AnalysisFailed string | NotAnnotations | Annotated graph_annotations

definition analysis_result :: "string \<Rightarrow> analysis \<Rightarrow> semantics_error + graph_annotations" where
  "analysis_result semantics_name r =
     (case r of
        AnalysisCancelled \<Rightarrow> Inl SemanticsCancelled
      | AnalysisFailed msg \<Rightarrow> Inl (SemanticsFailed msg)
      | NotAnnotations \<Rightarrow>
          Inl (SemanticsFailed (''CodeGraph semantics provider '' @ repr_str semantics_name @ '' returned invalid annotations''))
      | Annotated a \<Rightarrow> (case graph_annotations_post_init a of Inl msg \<Rightarrow> Inl (SemanticsFailed msg) | Inr _ \<Rightarrow> Inr a))"

section \<open>Annotating a graph\<close>

text \<open>An assignment to the fields of every function in turn.\<close>

definition update_nodes :: "(string \<Rightarrow> function_node \<Rightarrow> function_node) \<Rightarrow> code_graph \<Rightarrow> code_graph" where
  "update_nodes f g = g\<lparr>cg_nodes := map (\<lambda>(k, n). (k, f k n)) (cg_nodes g)\<rparr>"

definition reset_marks :: "function_node \<Rightarrow> function_node" where
  "reset_marks n = n\<lparr>fn_is_source := False, fn_source_reason := '''', fn_is_sink := False, fn_sink_type := '''', fn_sink_reason := ''''\<rparr>"

definition called_functions :: "code_graph \<Rightarrow> string set" where
  "called_functions g =
     set (concat (map (\<lambda>caller. filter (\<lambda>callee. callee \<in> set (keys (cg_nodes g)) \<and> callee \<noteq> fn_unique_name caller)
                                  (fn_resolved_calls caller)) (vals (cg_nodes g))))"

definition structured_global_entries :: "code_graph \<Rightarrow> string set" where
  "structured_global_entries g = set (concat (map global_targets (vals (cg_globals g))))"

definition automatic_source :: "code_graph \<Rightarrow> string \<Rightarrow> function_node \<Rightarrow> function_node" where
  "automatic_source g name n =
     (let global_entry = name \<in> structured_global_entries g;
          public_entry = fn_is_public_entrypoint n \<and> \<not> fn_has_internal_linkage n \<and>
            (fn_language n \<notin> {''c'', ''cpp''} \<or> fn_name n \<in> set (keys (cg_public_declarations g)))
      in if fn_is_source n \<or> (name \<in> called_functions g \<and> \<not> global_entry \<and> \<not> public_entry) then n
         else if fn_has_internal_linkage n \<and> \<not> global_entry then n
         else n\<lparr>fn_is_source := True,
                fn_source_reason :=
                  (if global_entry
                   then ''public_or_external_entrypoint: referenced by a global function table or initializer''
                   else if public_entry
                   then ''public_or_external_entrypoint: '' @ str_or (fn_entrypoint_reason n) ''public or external entrypoint''
                   else if fn_language n = ''c'' then ''no resolved internal callers in tree-sitter call graph''
                   else ''no resolved internal callers in CodeGraph'')\<rparr>)"

definition annotate_automatic_sources :: "code_graph \<Rightarrow> code_graph" where
  "annotate_automatic_sources g = update_nodes (automatic_source g) g"

record 'p semantics_state =
  ss_graph :: code_graph
  ss_catalog :: "'p semantics_catalog"
  ss_providers :: "(string, 'p) dict"
  ss_failed_files :: "string list"
  ss_diagnostics :: "(string \<times> string) list"

definition facts_of :: "code_graph \<Rightarrow> function_node \<Rightarrow> node_facts" where
  "facts_of g n =
     \<lparr>cf_unique_name = fn_unique_name n, cf_file_path = fn_file_path n, cf_name = fn_name n, cf_language = fn_language n,
      cf_calls = fn_calls n, cf_unresolved_calls = unresolved_calls_for g n, cf_call_sites = fn_call_sites n,
      cf_references = fn_references n\<rparr>"

definition cached_provider :: "'p semantics_state \<Rightarrow> string \<Rightarrow> (semantics_error + 'p) \<times> 'p semantics_state" where
  "cached_provider st name =
     (case map_of (ss_providers st) name of
        Some p \<Rightarrow> (Inr p, st)
      | None \<Rightarrow>
          (case resolve_semantics (ss_catalog st) name of
             (Inl e, cat) \<Rightarrow> (Inl e, st\<lparr>ss_catalog := cat\<rparr>)
           | (Inr p, cat) \<Rightarrow> (Inr p, st\<lparr>ss_catalog := cat, ss_providers := AList.update name p (ss_providers st)\<rparr>)))"

definition apply_annotations :: "graph_annotations \<Rightarrow> function_node \<Rightarrow> graph_error + function_node" where
  "apply_annotations a n =
     (let n1 = (if ga_is_source a then n\<lparr>fn_is_source := True, fn_source_reason := ga_source_reason a\<rparr> else n);
          n2 = (if ga_is_sink a
                then n1\<lparr>fn_is_sink := True, fn_sink_type := ga_sink_type a, fn_sink_reason := ga_sink_reason a\<rparr> else n1)
      in fold_res (\<lambda>m (key, t). set_tag key (tag_value t) (tag_reason t) m) n2 (ga_tags a))"

datatype annotate_error = AnnotateCancelled | AnnotateError graph_error

text \<open>What happens after the \<open>try\<close> block: a failure is recorded for the file, annotations are applied.\<close>

definition semantics_outcome ::
  "'p semantics_state \<Rightarrow> string \<Rightarrow> function_node \<Rightarrow> string \<Rightarrow> semantics_error + graph_annotations \<Rightarrow>
   annotate_error + 'p semantics_state" where
  "semantics_outcome st k n semantics_name result =
     (case result of
        Inl SemanticsCancelled \<Rightarrow> Inl AnnotateCancelled
      | Inl (SemanticsFailed msg) \<Rightarrow>
          Inr (st\<lparr>ss_failed_files := ss_failed_files st @ [fn_file_path n],
                  ss_diagnostics := ss_diagnostics st @
                    [(fn_file_path n, ''CodeGraph semantics '' @ repr_str semantics_name @ '' failed: '' @ msg)]\<rparr>)
      | Inr a \<Rightarrow>
          (case apply_annotations a n of
             Inl e \<Rightarrow> Inl (AnnotateError e)
           | Inr n' \<Rightarrow> Inr (st\<lparr>ss_graph := (ss_graph st)\<lparr>cg_nodes := AList.update k n' (cg_nodes (ss_graph st))\<rparr>\<rparr>)))"

definition annotate_semantics_node ::
  "('p \<Rightarrow> node_facts \<Rightarrow> analysis) \<Rightarrow> (string, string option) dict \<Rightarrow> 'p semantics_state \<Rightarrow> string \<Rightarrow>
   annotate_error + 'p semantics_state" where
  "annotate_semantics_node analyze_node semantics_for_path st k =
     (case get_node (ss_graph st) k of
        None \<Rightarrow> Inr st
      | Some n \<Rightarrow>
          if fn_file_path n \<in> set (ss_failed_files st) then Inr st
          else case Option.bind (map_of semantics_for_path (fn_file_path n)) (\<lambda>s. s) of
            None \<Rightarrow> Inr st
          | Some semantics_name \<Rightarrow>
              if semantics_name = '''' then Inr st
              else let (r, st1) = cached_provider st semantics_name;
                       result = and_then r (\<lambda>p. analysis_result semantics_name (analyze_node p (facts_of (ss_graph st) n)))
                   in semantics_outcome st1 k n semantics_name result)"

record source_function =
  sf_name :: string
  sf_reason :: "string option"

record security_function =
  sec_name :: string
  sec_sink_type :: "string option"
  sec_reason :: "string option"

record graph_configuration =
  gcf_source_functions :: "source_function list"
  gcf_security_functions :: "security_function list"

definition by_name :: "('a \<Rightarrow> string) \<Rightarrow> 'a list \<Rightarrow> (string, 'a) dict" where
  "by_name name_of entries = foldl (\<lambda>d e. AList.update (lower (name_of e)) e d) [] entries"

definition reason_or_default :: "string option \<Rightarrow> string" where
  "reason_or_default r = str_or (strip (case r of None \<Rightarrow> '''' | Some s \<Rightarrow> s)) ''configured in metis.yaml''"

definition configured_source :: "(string, source_function) dict \<Rightarrow> function_node \<Rightarrow> nat \<times> function_node" where
  "configured_source sources n =
     (case (case map_of sources (lower (fn_name n)) of Some s \<Rightarrow> Some s | None \<Rightarrow> map_of sources (lower (fn_unique_name n))) of
        None \<Rightarrow> (0, n)
      | Some s \<Rightarrow> (if fn_is_source n then 0 else 1,
                   n\<lparr>fn_is_source := True, fn_source_reason := ''configured source function: '' @ reason_or_default (sf_reason s)\<rparr>))"

definition configured_sink :: "(string, security_function) dict \<Rightarrow> function_node \<Rightarrow> nat \<times> function_node" where
  "configured_sink sinks n =
     (if sinks = [] \<or> fn_is_sink n then (0, n)
      else case filter (\<lambda>call. lower call \<in> set (keys sinks)) (fn_calls n) of
        [] \<Rightarrow> (0, n)
      | call # _ \<Rightarrow>
          (case map_of sinks (lower call) of
             None \<Rightarrow> (0, n)
           | Some s \<Rightarrow>
               (1, n\<lparr>fn_is_sink := True,
                     fn_sink_type := normalize_sink_type (case sec_sink_type s of None \<Rightarrow> '''' | Some t \<Rightarrow> t),
                     fn_sink_reason := ''calls configured security function '' @ call @ '': '' @ reason_or_default (sec_reason s)\<rparr>)))"

definition configured_node_marks ::
  "(string, source_function) dict \<Rightarrow> (string, security_function) dict \<Rightarrow> function_node \<Rightarrow> (nat \<times> nat) \<times> function_node" where
  "configured_node_marks sources sinks n =
     (let (a, n1) = configured_source sources n; (b, n2) = configured_sink sinks n1 in ((a, b), n2))"

definition annotate_configured_functions :: "graph_configuration \<Rightarrow> code_graph \<Rightarrow> (nat \<times> nat) \<times> code_graph" where
  "annotate_configured_functions settings g =
     (let sources = by_name sf_name (gcf_source_functions settings);
          sinks = by_name sec_name (gcf_security_functions settings)
      in if sources = [] \<and> sinks = [] then ((0, 0), g)
         else let marked = map (\<lambda>(k, n). (k, configured_node_marks sources sinks n)) (cg_nodes g)
              in ((sum_list (map (fst \<circ> fst \<circ> snd) marked), sum_list (map (snd \<circ> fst \<circ> snd) marked)),
                  g\<lparr>cg_nodes := map (\<lambda>(k, m). (k, snd m)) marked\<rparr>))"

text \<open>The result: the graph, the files whose semantics failed in sorted order, the diagnostics, and
  the numbers of configured sources and sinks that the progress callback is told.\<close>

definition annotate_graph ::
  "('p \<Rightarrow> node_facts \<Rightarrow> analysis) \<Rightarrow> 'p semantics_catalog \<Rightarrow> (string, string option) dict \<Rightarrow> graph_configuration \<Rightarrow> code_graph \<Rightarrow>
   annotate_error + code_graph \<times> string list \<times> (string \<times> string) list \<times> nat \<times> nat" where
  "annotate_graph analyze_node catalog semantics_for_path settings g =
     (let g1 = annotate_automatic_sources (update_nodes (\<lambda>_. reset_marks) g)
      in and_then (fold_res (annotate_semantics_node analyze_node semantics_for_path)
           \<lparr>ss_graph = g1, ss_catalog = catalog, ss_providers = [], ss_failed_files = [], ss_diagnostics = []\<rparr>
           (keys (cg_nodes g1))) (\<lambda>st.
         let (counts, g2) = annotate_configured_functions settings (ss_graph st)
         in Inr (g2, sort (remdups (ss_failed_files st)), ss_diagnostics st, counts)))"

section \<open>How annotation changes a graph\<close>

definition unmarked :: "function_node \<Rightarrow> function_node" where
  "unmarked n = (reset_marks n)\<lparr>fn_tags := []\<rparr>"

definition marks_ok :: "function_node \<Rightarrow> bool" where
  "marks_ok n \<longleftrightarrow> (fn_is_source n \<longleftrightarrow> fn_source_reason n \<noteq> '''') \<and>
     (fn_is_sink n \<longleftrightarrow> fn_sink_type n \<noteq> '''' \<and> fn_sink_reason n \<noteq> '''')"

text \<open>Only marks and tags change, a source stays a source, consistent marks stay consistent.\<close>

definition evolves :: "function_node \<Rightarrow> function_node \<Rightarrow> bool" where
  "evolves n n' \<longleftrightarrow> unmarked n' = unmarked n \<and> (fn_is_source n \<longrightarrow> fn_is_source n') \<and> (marks_ok n \<longrightarrow> marks_ok n')"

definition graph_evolves :: "code_graph \<Rightarrow> code_graph \<Rightarrow> bool" where
  "graph_evolves g h \<longleftrightarrow> (\<exists>f. h = update_nodes f g \<and> (\<forall>(k, n) \<in> set (cg_nodes g). evolves n (f k n)))"

lemma graph_evolvesE:
  assumes "graph_evolves g h"
  obtains f where "h = update_nodes f g" "\<And>k n. (k, n) \<in> set (cg_nodes g) \<Longrightarrow> evolves n (f k n)"
  using assms by (auto simp: graph_evolves_def)

lemma evolves_refl [simp]: "evolves n n"
  by (simp add: evolves_def)

lemma evolves_trans: "evolves a b \<Longrightarrow> evolves b c \<Longrightarrow> evolves a c"
  by (simp add: evolves_def)

lemma unmarked_names:
  assumes "unmarked n' = unmarked n"
  shows "fn_unique_name n' = fn_unique_name n" and "fn_name n' = fn_name n"
  using arg_cong[OF assms, of fn_unique_name] arg_cong[OF assms, of fn_name] by (simp_all add: unmarked_def reset_marks_def)

lemma update_nodes_comp: "update_nodes f' (update_nodes f g) = update_nodes (\<lambda>k n. f' k (f k n)) g"
  by (simp add: update_nodes_def case_prod_beta comp_def)

lemma update_nodes_id: "update_nodes (\<lambda>_ n. n) g = g"
  by (simp add: update_nodes_def)

lemma get_node_update_nodes: "get_node (update_nodes f g) k = map_option (f k) (get_node g k)"
  by (simp add: update_nodes_def get_node_def map_of_map_values)

lemma keys_update_nodes [simp]: "keys (cg_nodes (update_nodes f g)) = keys (cg_nodes g)"
  by (simp add: update_nodes_def keys_map_values)

lemma graph_evolves_refl [simp]: "graph_evolves g g"
  unfolding graph_evolves_def by (rule exI[of _ "\<lambda>_ n. n"]) (auto simp: update_nodes_id)

lemma graph_evolves_trans:
  assumes "graph_evolves g h" and "graph_evolves h i"
  shows "graph_evolves g i"
proof -
  obtain f f' where f: "h = update_nodes f g" "\<And>k n. (k, n) \<in> set (cg_nodes g) \<Longrightarrow> evolves n (f k n)"
    and f': "i = update_nodes f' h" "\<And>k n. (k, n) \<in> set (cg_nodes h) \<Longrightarrow> evolves n (f' k n)"
    using assms by (elim graph_evolvesE) blast
  have "evolves n (f' k (f k n))" if "(k, n) \<in> set (cg_nodes g)" for k n
    using f(2)[OF that] f'(2)[of k "f k n"] that evolves_trans by (force simp: f(1) update_nodes_def)
  then show ?thesis unfolding graph_evolves_def f'(1) f(1) update_nodes_comp by blast
qed

lemma graph_evolves_inv: "graph_inv g \<Longrightarrow> graph_evolves g h \<Longrightarrow> graph_inv h"
proof -
  assume inv: "graph_inv g" and "graph_evolves g h"
  then obtain f where h: "h = update_nodes f g" and f: "\<And>k n. (k, n) \<in> set (cg_nodes g) \<Longrightarrow> unmarked (f k n) = unmarked n"
    by (auto simp: graph_evolves_def evolves_def)
  show ?thesis
    unfolding h update_nodes_def using unmarked_names[OF f] by (intro map_values_inv[OF inv]) auto
qed

lemma graph_evolves_node:
  assumes "graph_evolves g h" and "get_node g k = Some n"
  shows "\<exists>n'. get_node h k = Some n' \<and> evolves n n'"
proof -
  from assms(1) obtain f where h: "h = update_nodes f g" and f: "\<And>k n. (k, n) \<in> set (cg_nodes g) \<Longrightarrow> evolves n (f k n)"
    by (auto simp: graph_evolves_def)
  from assms(2) have "(k, n) \<in> set (cg_nodes g)" by (auto simp: get_node_def dest: map_of_SomeD)
  with f assms(2) show ?thesis by (simp add: h get_node_update_nodes)
qed

lemma graph_evolves_keys: "graph_evolves g h \<Longrightarrow> keys (cg_nodes h) = keys (cg_nodes g)"
  by (auto simp: graph_evolves_def)

lemma replace_node_evolves:
  assumes "graph_inv g" and "get_node g k = Some n" and "evolves n n'"
  shows "graph_evolves g (g\<lparr>cg_nodes := AList.update k n' (cg_nodes g)\<rparr>)"
proof -
  have k: "map_of (cg_nodes g) k = Some n" using assms(2) by (simp add: get_node_def)
  note wf = graph_inv_nodes[OF assms(1)]
  have "m = n" if "(k, m) \<in> set (cg_nodes g)" for m using that k map_of_wf_iff[OF wf, of k m] by simp
  then show ?thesis
    unfolding update_map_values[OF wf k] graph_evolves_def update_nodes_def
    using assms(3) by (intro exI[of _ "\<lambda>x y. if x = k then n' else y"]) auto
qed

lemma set_tag_evolves: "set_tag key v r n = Inr n' \<Longrightarrow> evolves n n'"
  by (auto simp: set_tag_def evolves_def unmarked_def reset_marks_def marks_ok_def split: if_splits)

lemma mark_source_evolves: "r \<noteq> '''' \<Longrightarrow> evolves n (n\<lparr>fn_is_source := True, fn_source_reason := r\<rparr>)"
  by (simp add: evolves_def unmarked_def reset_marks_def marks_ok_def)

lemma mark_sink_evolves:
  "t \<noteq> '''' \<Longrightarrow> r \<noteq> '''' \<Longrightarrow> evolves n (n\<lparr>fn_is_sink := True, fn_sink_type := t, fn_sink_reason := r\<rparr>)"
  by (simp add: evolves_def unmarked_def reset_marks_def marks_ok_def)

lemma set_tags_ok:
  "list_all tag_key_ok (keys ts) \<Longrightarrow>
   \<exists>n'. fold_res (\<lambda>m (key, t). set_tag key (tag_value t) (tag_reason t) m) m ts = Inr n' \<and> evolves m n'"
proof (induction ts arbitrary: m)
  case (Cons p ts)
  obtain key t where p: "p = (key, t)" by (cases p)
  have "\<exists>m'. set_tag key (tag_value t) (tag_reason t) m = Inr m'"
    using Cons.prems p by (simp add: set_tag_def tag_key_ok_def)
  then obtain m' where m': "set_tag key (tag_value t) (tag_reason t) m = Inr m'" by blast
  from Cons.prems have "list_all tag_key_ok (keys ts)" by simp
  from Cons.IH[OF this, of m'] obtain n' where
    "fold_res (\<lambda>m (key, t). set_tag key (tag_value t) (tag_reason t) m) m' ts = Inr n'" "evolves m' n'" by blast
  with p m' evolves_trans[OF set_tag_evolves[OF m']] show ?case by simp
qed simp

lemma apply_annotations_ok:
  assumes "graph_annotations_post_init a = Inr ()"
  shows "\<exists>n'. apply_annotations a n = Inr n' \<and> evolves n n'"
proof -
  define n1 where "n1 = (if ga_is_source a then n\<lparr>fn_is_source := True, fn_source_reason := ga_source_reason a\<rparr> else n)"
  define n2 where "n2 = (if ga_is_sink a
      then n1\<lparr>fn_is_sink := True, fn_sink_type := ga_sink_type a, fn_sink_reason := ga_sink_reason a\<rparr> else n1)"
  have a: "ga_is_source a \<longrightarrow> ga_source_reason a \<noteq> ''''" "ga_is_sink a \<longrightarrow> ga_sink_type a \<noteq> '''' \<and> ga_sink_reason a \<noteq> ''''"
    and tags: "list_all tag_key_ok (keys (ga_tags a))"
    using assms by (simp_all add: graph_annotations_post_init_def res_simps)
  have "evolves n n1" using a(1) mark_source_evolves by (simp add: n1_def)
  moreover have "evolves n1 n2" using a(2) mark_sink_evolves by (simp add: n2_def)
  moreover obtain n' where n': "fold_res (\<lambda>m (key, t). set_tag key (tag_value t) (tag_reason t) m) n2 (ga_tags a) = Inr n'" "evolves n2 n'"
    using set_tags_ok[OF tags] by blast
  moreover have "apply_annotations a n = Inr n'"
    using n'(1) by (simp only: apply_annotations_def Let_def n1_def n2_def)
  ultimately show ?thesis using evolves_trans by blast
qed

lemma cached_provider_graph: "cached_provider st name = (r, st') \<Longrightarrow> ss_graph st' = ss_graph st"
  by (auto simp: cached_provider_def split: option.splits sum.splits prod.splits)

lemma analysis_result_ok: "analysis_result name r = Inr a \<Longrightarrow> graph_annotations_post_init a = Inr ()"
  by (auto simp: analysis_result_def split: analysis.splits sum.splits)

lemma annotate_semantics_node_evolves:
  assumes "graph_inv (ss_graph st)"
  shows "case annotate_semantics_node analyze_node sfp st k of
      Inl e \<Rightarrow> e = AnnotateCancelled | Inr st' \<Rightarrow> graph_evolves (ss_graph st) (ss_graph st')"
proof (cases "get_node (ss_graph st) k")
  case None
  then show ?thesis by (simp add: annotate_semantics_node_def)
next
  case (Some n)
  show ?thesis
  proof (cases "fn_file_path n \<in> set (ss_failed_files st)")
    case True
    then show ?thesis using Some by (simp add: annotate_semantics_node_def)
  next
    case fresh: False
    show ?thesis
    proof (cases "Option.bind (map_of sfp (fn_file_path n)) (\<lambda>s. s)")
      case None
      then show ?thesis using Some fresh by (simp add: annotate_semantics_node_def)
    next
      case sem: (Some name)
      show ?thesis
      proof (cases "name = ''''")
        case True
        then show ?thesis using Some fresh sem by (simp add: annotate_semantics_node_def)
      next
        case False
        obtain r st1 where c: "cached_provider st name = (r, st1)" by fastforce
        define res where "res = and_then r (\<lambda>p. analysis_result name (analyze_node p (facts_of (ss_graph st) n)))"
        have eq: "annotate_semantics_node analyze_node sfp st k = semantics_outcome st1 k n name res"
          using Some fresh sem False c by (simp add: annotate_semantics_node_def res_def)
        note g1 = cached_provider_graph[OF c]
        show ?thesis
        proof (cases res)
          case (Inl e)
          then show ?thesis by (cases e) (simp_all add: eq semantics_outcome_def g1)
        next
          case (Inr a)
          then have "graph_annotations_post_init a = Inr ()" by (auto simp: res_def res_simps dest: analysis_result_ok)
          from apply_annotations_ok[OF this, of n] obtain n' where "apply_annotations a n = Inr n'" "evolves n n'" by blast
          with replace_node_evolves[OF assms Some] Inr show ?thesis by (simp add: eq semantics_outcome_def g1)
        qed
      qed
    qed
  qed
qed

lemma semantics_fold_evolves:
  assumes "graph_inv (ss_graph st)"
  shows "case fold_res (annotate_semantics_node analyze_node sfp) st ks of
      Inl e \<Rightarrow> e = AnnotateCancelled | Inr st' \<Rightarrow> graph_evolves (ss_graph st) (ss_graph st')"
  using assms
proof (induction ks arbitrary: st)
  case (Cons k ks)
  note step = annotate_semantics_node_evolves[OF Cons.prems, of analyze_node sfp k]
  show ?case
  proof (cases "annotate_semantics_node analyze_node sfp st k")
    case (Inr st')
    with step have e: "graph_evolves (ss_graph st) (ss_graph st')" by simp
    from Cons.IH[OF graph_evolves_inv[OF Cons.prems e]] Inr show ?thesis
      using graph_evolves_trans[OF e] by (auto split: sum.splits)
  qed (use step in simp)
qed simp

lemma normalize_sink_type_nonempty: "normalize_sink_type v \<noteq> ''''"
  by (simp add: normalize_sink_type_def Let_def str_or_def)

lemma configured_node_evolves: "evolves n (snd (configured_node_marks sources sinks n))"
proof -
  have 1: "evolves n (snd (configured_source sources n))" for n
    using mark_source_evolves by (simp add: configured_source_def split: option.split)
  have 2: "evolves n (snd (configured_sink sinks n))" for n
    using mark_sink_evolves normalize_sink_type_nonempty by (simp add: configured_sink_def split: option.split list.split)
  show ?thesis
    using evolves_trans[OF 1 2] by (simp add: configured_node_marks_def Let_def case_prod_beta)
qed

lemma update_nodes_evolves: "(\<And>k n. evolves n (f k n)) \<Longrightarrow> graph_evolves g (update_nodes f g)"
  unfolding graph_evolves_def by blast

lemma configured_evolves: "graph_evolves g (snd (annotate_configured_functions settings g))"
proof -
  let ?so = "by_name sf_name (gcf_source_functions settings)" and ?si = "by_name sec_name (gcf_security_functions settings)"
  have "snd (annotate_configured_functions settings g) =
      (if ?so = [] \<and> ?si = [] then g else update_nodes (\<lambda>_ n. snd (configured_node_marks ?so ?si n)) g)"
    by (simp add: annotate_configured_functions_def Let_def update_nodes_def case_prod_beta comp_def)
  then show ?thesis using update_nodes_evolves configured_node_evolves by simp
qed

section \<open>Properties of annotation\<close>

lemma automatic_source_evolves: "evolves n (automatic_source g k n)"
  using mark_source_evolves by (simp add: automatic_source_def Let_def)

lemma reset_unmarked [simp]: "unmarked (reset_marks n) = unmarked n"
  by (simp add: unmarked_def reset_marks_def)

lemma reset_marks_ok: "marks_ok (reset_marks n)"
  by (simp add: marks_ok_def reset_marks_def)

lemma reset_inv: "graph_inv g \<Longrightarrow> graph_inv (update_nodes (\<lambda>_. reset_marks) g)"
  unfolding update_nodes_def by (rule map_values_inv) (simp_all add: reset_marks_def)

text \<open>Annotation starts from the graph without marks, marks the automatic sources and then only adds.\<close>

lemma annotate_graph_evolves:
  assumes inv: "graph_inv g"
  defines "g1 \<equiv> annotate_automatic_sources (update_nodes (\<lambda>_. reset_marks) g)"
  shows "graph_evolves (update_nodes (\<lambda>_. reset_marks) g) g1"
    and "case annotate_graph analyze_node catalog sfp settings g of
        Inl e \<Rightarrow> e = AnnotateCancelled
      | Inr (h, _) \<Rightarrow> graph_evolves g1 h"
proof -
  let ?g0 = "update_nodes (\<lambda>_. reset_marks) g"
  show e1: "graph_evolves ?g0 g1"
    unfolding g1_def annotate_automatic_sources_def using automatic_source_evolves by (rule update_nodes_evolves)
  let ?st = "\<lparr>ss_graph = g1, ss_catalog = catalog, ss_providers = [], ss_failed_files = [], ss_diagnostics = []\<rparr>"
  have "graph_inv (ss_graph ?st)" using graph_evolves_inv[OF reset_inv[OF inv] e1] by simp
  from semantics_fold_evolves[OF this, of analyze_node sfp "keys (cg_nodes g1)"]
  show "case annotate_graph analyze_node catalog sfp settings g of
        Inl e \<Rightarrow> e = AnnotateCancelled
      | Inr (h, _) \<Rightarrow> graph_evolves g1 h"
  proof (cases "fold_res (annotate_semantics_node analyze_node sfp) ?st (keys (cg_nodes g1))")
    case (Inr st)
    with \<open>case fold_res _ _ _ of Inl e \<Rightarrow> _ e | Inr st' \<Rightarrow> _ st'\<close> have "graph_evolves g1 (ss_graph st)" by simp
    with graph_evolves_trans[OF this configured_evolves] Inr show ?thesis
      by (simp add: annotate_graph_def g1_def[symmetric] case_prod_beta)
  qed (simp add: annotate_graph_def g1_def[symmetric])
qed

text \<open>A provider that marks functions named \<open>log\<close> as sinks and fails on the functions of one file.\<close>

definition demo_analyze :: "unit \<Rightarrow> node_facts \<Rightarrow> analysis" where
  "demo_analyze p f =
     (if cf_file_path f = ''a.c'' then AnalysisFailed ''boom''
      else Annotated \<lparr>ga_is_source = False, ga_source_reason = '''', ga_is_sink = cf_name f = ''log'',
        ga_sink_type = (if cf_name f = ''log'' then ''format'' else ''''), ga_sink_reason = (if cf_name f = ''log'' then ''printf'' else ''''),
        ga_tags = [(''io.print'', \<lparr>tag_value = ''1'', tag_reason = ''''\<rparr>)]\<rparr>)"

definition demo_catalog_semantics :: "unit semantics_catalog" where
  "demo_catalog_semantics = new_semantics_catalog [(''c'', LoadedProvider ())] []"

definition demo_settings :: graph_configuration where
  "demo_settings = \<lparr>gcf_source_functions = [\<lparr>sf_name = ''Run'', sf_reason = None\<rparr>], gcf_security_functions = []\<rparr>"

text \<open>
  C34. Annotating a built graph returns unless a provider is cancelled; a provider that fails in
  any other way cannot stop it. It changes nothing of a function but its marks and tags, and
  afterwards every function has a source reason exactly if it is a source, and a sink type and
  reason exactly if it is a sink, whatever the marks were before.
\<close>

theorem annotate_graph_consistent:
  assumes "constructed g"
  shows "case annotate_graph analyze_node catalog sfp settings g of
      Inl e \<Rightarrow> e = AnnotateCancelled
    | Inr (h, failed, diagnostics, counts) \<Rightarrow>
        keys (cg_nodes h) = keys (cg_nodes g) \<and>
        (\<forall>k n. get_node g k = Some n \<longrightarrow> (\<exists>n'. get_node h k = Some n' \<and> unmarked n' = unmarked n \<and>
           (fn_is_source n' \<longleftrightarrow> fn_source_reason n' \<noteq> '''') \<and>
           (fn_is_sink n' \<longleftrightarrow> fn_sink_type n' \<noteq> '''' \<and> fn_sink_reason n' \<noteq> '''')))"
proof -
  note ev = annotate_graph_evolves[OF constructed_inv[OF assms]]
  show ?thesis
  proof (cases "annotate_graph analyze_node catalog sfp settings g")
    case (Inr r)
    obtain h failed diagnostics counts where r: "r = (h, failed, diagnostics, counts)" by (cases r)
    from ev(2)[of analyze_node catalog sfp settings] Inr r
    have e: "graph_evolves (update_nodes (\<lambda>_. reset_marks) g) h" using graph_evolves_trans[OF ev(1)] by simp
    have "\<exists>n'. get_node h k = Some n' \<and> unmarked n' = unmarked n \<and> marks_ok n'" if "get_node g k = Some n" for k n
      using graph_evolves_node[OF e, of k "reset_marks n"] that reset_marks_ok[of n]
      by (auto simp: get_node_update_nodes evolves_def)
    then show ?thesis using graph_evolves_keys[OF e] by (simp add: Inr r marks_ok_def)
  qed (use ev(2)[of analyze_node catalog sfp settings] in simp)
qed

theorem annotate_graph_consistent_witness:
  "\<exists>h failed diagnostics counts.
     annotate_graph demo_analyze demo_catalog_semantics [(''a.c'', Some ''c''), (''b.c'', Some ''c'')] demo_settings demo_linked
       = Inr (h, failed, diagnostics, counts) \<and> failed = [''a.c''] \<and> counts = (1, 0) \<and> keys (cg_nodes h) = keys (cg_nodes demo_linked)"
proof -
  let ?r = "annotate_graph demo_analyze demo_catalog_semantics [(''a.c'', Some ''c''), (''b.c'', Some ''c'')] demo_settings demo_linked"
  have c: "(case ?r of Inl _ \<Rightarrow> None | Inr (h, failed, diagnostics, counts) \<Rightarrow> Some (failed, counts)) = Some ([''a.c''], 1, 0)" by code_simp
  then obtain h failed diagnostics counts where r: "?r = Inr (h, failed, diagnostics, counts)"
    by (auto split: sum.splits)
  with annotate_graph_consistent[OF demo_linked_constructed, of demo_analyze demo_catalog_semantics
      "[(''a.c'', Some ''c''), (''b.c'', Some ''c'')]" demo_settings] c
  show ?thesis by auto
qed

lemma called_functionsE:
  assumes inv: "graph_inv g" and "k \<in> called_functions (update_nodes (\<lambda>_. reset_marks) g)"
  shows "\<exists>c m. get_node g c = Some m \<and> c \<noteq> k \<and> k \<in> set (fn_resolved_calls m)"
proof -
  from assms(2) obtain c m where m: "(c, m) \<in> set (cg_nodes g)" "k \<in> set (fn_resolved_calls m)" "k \<noteq> fn_unique_name m"
    by (auto simp: called_functions_def update_nodes_def vals_def reset_marks_def)
  then have "get_node g c = Some m" using map_of_wf_iff[OF graph_inv_nodes[OF inv], of c m] by (simp add: get_node_def)
  moreover have "c \<noteq> k" using graph_inv_ids[OF inv m(1)] m(3) by simp
  ultimately show ?thesis using m(2) by blast
qed

text \<open>
  No entry point is missed: after annotation every function is a source that is the target of
  a reference in a global initializer, or that has no internal linkage and either no caller but
  itself or a public entry point (in C and C++, one whose name a public header declares).
\<close>

theorem annotate_graph_entry_points:
  assumes "constructed g" and "annotate_graph analyze_node catalog sfp settings g = Inr (h, rest)"
    and "get_node g k = Some n"
    and "k \<in> structured_global_entries g \<or> \<not> fn_has_internal_linkage n \<and>
      ((\<forall>c m. get_node g c = Some m \<longrightarrow> c \<noteq> k \<longrightarrow> k \<notin> set (fn_resolved_calls m)) \<or>
       fn_is_public_entrypoint n \<and> (fn_language n \<notin> {''c'', ''cpp''} \<or> fn_name n \<in> set (keys (cg_public_declarations g))))"
  shows "is_source_name h k"
proof -
  note inv = constructed_inv[OF assms(1)]
  let ?g0 = "update_nodes (\<lambda>_. reset_marks) g"
  have called: "\<exists>c m. get_node g c = Some m \<and> c \<noteq> k \<and> k \<in> set (fn_resolved_calls m)" if "k \<in> called_functions ?g0"
    by (rule called_functionsE[OF inv that])
  have glob: "structured_global_entries ?g0 = structured_global_entries g" "cg_public_declarations ?g0 = cg_public_declarations g"
    by (simp_all add: structured_global_entries_def update_nodes_def)
  have "fn_is_source (automatic_source ?g0 k (reset_marks n))"
    using assms(4) called by (auto simp: automatic_source_def Let_def glob reset_marks_def)
  then have "get_node (annotate_automatic_sources ?g0) k = Some (automatic_source ?g0 k (reset_marks n))"
    "fn_is_source (automatic_source ?g0 k (reset_marks n))"
    using assms(3) by (simp_all add: annotate_automatic_sources_def get_node_update_nodes)
  moreover have "graph_evolves (annotate_automatic_sources ?g0) h"
    using annotate_graph_evolves(2)[OF inv, of analyze_node catalog sfp settings] assms(2) by simp
  ultimately show ?thesis
    using graph_evolves_node[of "annotate_automatic_sources ?g0" h k] by (auto simp: evolves_def is_source_name_def)
qed

theorem annotate_graph_entry_points_witness:
  "\<exists>h rest. annotate_graph demo_analyze demo_catalog_semantics [(''b.c'', Some ''c'')] demo_settings demo_linked = Inr (h, rest) \<and>
     is_source_name h ''b.c::aux''"
proof -
  let ?r = "annotate_graph demo_analyze demo_catalog_semantics [(''b.c'', Some ''c'')] demo_settings demo_linked"
  let ?n = "(demo_function ''b.c::aux'' ''b.c'' ''aux'' [''log''] 20)\<lparr>fn_resolved_calls := [''b.c::log'']\<rparr>"
  have "is_ok ?r" by code_simp
  then obtain h rest where r: "?r = Inr (h, rest)" by (cases ?r) auto
  have n: "get_node demo_linked ''b.c::aux'' = Some ?n" by code_simp
  have "list_all (\<lambda>(c, m). ''b.c::aux'' \<notin> set (fn_resolved_calls m)) (cg_nodes demo_linked)" by code_simp
  then have "\<forall>c m. get_node demo_linked c = Some m \<longrightarrow> c \<noteq> ''b.c::aux'' \<longrightarrow> ''b.c::aux'' \<notin> set (fn_resolved_calls m)"
    by (auto simp: get_node_def list_all_iff dest: map_of_SomeD)
  moreover have "\<not> fn_has_internal_linkage ?n" by (simp add: demo_function_def)
  ultimately have "is_source_name h ''b.c::aux''"
    using annotate_graph_entry_points[OF demo_linked_constructed r n] by blast
  with r show ?thesis by blast
qed

end
