(* ===== verification/Null_Contracts.thy ===== *)
theory Null_Contracts
  imports Reachability
begin

text \<open>
  Function contracts (\<open>engine/nodes/reachability/state.py\<close>): for every C function, under which
  conditions on its parameters a normal return is not null, derived from the syntax facts of the
  graph and from the contracts of the functions it calls. This theory holds the facts and the
  derivation for one function: its result is about the function's own parameters only, it does not
  fail, and it depends on the contracts of the functions called and on nothing else. The iteration
  over the graph is in the theory of the fixed point.
\<close>

section \<open>Facts\<close>

datatype security_subject =
    ParameterSubject string int
  | ReturnSubject string
  | TrackedObjectSubject string string int int

datatype fact_predicate = NullPredicate
datatype fact_truth = Asserted | Negated
datatype fact_origin = Observed | Derived | Hypothesis
datatype effect_operation = Negate
datatype exit_status = UnknownExit | ImpossibleExit

record fact_atom =
  fa_subject :: security_subject
  fa_predicate :: fact_predicate

record fact_literal =
  fl_atom :: fact_atom
  fl_truth :: fact_truth
  fl_evidence_line :: int
  fl_origin :: fact_origin

record state_effect =
  se_operation :: effect_operation
  se_atom :: fact_atom
  se_origin :: fact_origin
  se_evidence_line :: int

record guarded_transfer =
  gt_requirements :: "fact_literal list"
  gt_effects :: "state_effect list"

record normal_exit =
  ne_status :: exit_status
  ne_origin :: "fact_origin option"
  ne_evidence_line :: "int option"

record function_contract =
  fc_function_id :: string
  fc_normal_return_transfers :: "guarded_transfer list"
  fc_normal_exit :: normal_exit

datatype state_error =
    BadSubject
  | UnknownExitWithProvenance
  | ExitWithoutProvenance
  | UnknownFunction string

definition security_subject_post_init :: "security_subject \<Rightarrow> state_error + security_subject" where
  "security_subject_post_init s =
     (case s of
        ParameterSubject f i \<Rightarrow> if f = '''' \<or> i < 0 then Inl BadSubject else Inr s
      | ReturnSubject f \<Rightarrow> if f = '''' then Inl BadSubject else Inr s
      | TrackedObjectSubject f path a b \<Rightarrow>
          if f = '''' \<or> path = '''' \<or> a < 0 \<or> b \<le> a then Inl BadSubject else Inr s)"

definition normal_exit_post_init :: "normal_exit \<Rightarrow> state_error + normal_exit" where
  "normal_exit_post_init e =
     (case ne_status e of
        UnknownExit \<Rightarrow>
          if ne_origin e \<noteq> None \<or> ne_evidence_line e \<noteq> None then Inl UnknownExitWithProvenance else Inr e
      | ImpossibleExit \<Rightarrow>
          if ne_origin e = None \<or> (case ne_evidence_line e of None \<Rightarrow> True | Some l \<Rightarrow> l < 1)
          then Inl ExitWithoutProvenance else Inr e)"

definition null_atom :: "security_subject \<Rightarrow> state_error + fact_atom" where
  "null_atom s = and_then (security_subject_post_init s) (\<lambda>s. Inr \<lparr>fa_subject = s, fa_predicate = NullPredicate\<rparr>)"

text \<open>\<open>repr\<close> of the data classes, the key by which facts are ordered.\<close>

definition repr_subject :: "security_subject \<Rightarrow> string" where
  "repr_subject s =
     (case s of
        ParameterSubject f i \<Rightarrow> ''ParameterSubject(function_id='' @ repr_str f @ '', index='' @ show_int i @ '')''
      | ReturnSubject f \<Rightarrow> ''ReturnSubject(function_id='' @ repr_str f @ '')''
      | TrackedObjectSubject f path a b \<Rightarrow>
          ''TrackedObjectSubject(function_id='' @ repr_str f @ '', file_path='' @ repr_str path @
          '', start_byte='' @ show_int a @ '', end_byte='' @ show_int b @ '')'')"

definition repr_origin :: "fact_origin \<Rightarrow> string" where
  "repr_origin r = (case r of Observed \<Rightarrow> repr_str ''observed'' | Derived \<Rightarrow> repr_str ''derived'' | Hypothesis \<Rightarrow> repr_str ''hypothesis'')"

definition repr_atom :: "fact_atom \<Rightarrow> string" where
  "repr_atom a = ''FactAtom(subject='' @ repr_subject (fa_subject a) @ '', predicate='' @ repr_str ''null'' @ '')''"

definition repr_literal :: "fact_literal \<Rightarrow> string" where
  "repr_literal l =
     ''FactLiteral(atom='' @ repr_atom (fl_atom l) @ '', truth='' @
     (case fl_truth l of Asserted \<Rightarrow> repr_str ''asserted'' | Negated \<Rightarrow> repr_str ''negated'') @
     '', evidence_line='' @ show_int (fl_evidence_line l) @ '', origin='' @ repr_origin (fl_origin l) @ '')''"

definition repr_effect :: "state_effect \<Rightarrow> string" where
  "repr_effect e =
     ''StateEffect(operation='' @ repr_str ''negate'' @ '', atom='' @ repr_atom (se_atom e) @
     '', origin='' @ repr_origin (se_origin e) @ '', evidence_line='' @ show_int (se_evidence_line e) @ '')''"

definition repr_tuple :: "('a \<Rightarrow> string) \<Rightarrow> 'a list \<Rightarrow> string" where
  "repr_tuple f xs =
     (case xs of [] \<Rightarrow> ''()'' | [x] \<Rightarrow> ''('' @ f x @ '',)'' | _ \<Rightarrow> ''('' @ join '', '' (map f xs) @ '')'')"

definition repr_transfer :: "guarded_transfer \<Rightarrow> string" where
  "repr_transfer t =
     ''GuardedTransfer(requirements='' @ repr_tuple repr_literal (gt_requirements t) @
     '', effects='' @ repr_tuple repr_effect (gt_effects t) @ '')''"

section \<open>Deriving the transfer of one function\<close>

text \<open>\<open>{parameter.name: index ...}\<close>: a repeated name keeps the last index.\<close>

definition parameter_indexes :: "function_node \<Rightarrow> (string, int) dict" where
  "parameter_indexes n =
     foldl (\<lambda>d (i, p). if fp_name p = '''' then d else AList.update (fp_name p) (int i) d) []
       (List.enumerate 0 (fn_parameters n))"

definition null_literal :: "string \<Rightarrow> int \<Rightarrow> fact_truth \<Rightarrow> int \<Rightarrow> state_error + fact_literal" where
  "null_literal f i truth line =
     and_then (null_atom (ParameterSubject f i)) (\<lambda>a.
       Inr \<lparr>fl_atom = a, fl_truth = truth, fl_evidence_line = line, fl_origin = Derived\<rparr>)"

text \<open>The facts of one condition; an empty result also stands for a fact about something else.\<close>

fun exclusion_of_facts :: "function_node \<Rightarrow> (string, int) dict \<Rightarrow> int \<Rightarrow> null_fact list \<Rightarrow> state_error + fact_literal list" where
  "exclusion_of_facts n indexes line [] = Inr []"
| "exclusion_of_facts n indexes line (nfact # nfacts) =
     (case map_of indexes (ce_direct_identifier (nf_value nfact)) of
        None \<Rightarrow> Inr []
      | Some i \<Rightarrow>
          and_then (null_literal (fn_unique_name n) i (if nf_is_null nfact then Asserted else Negated) line) (\<lambda>l.
          and_then (exclusion_of_facts n indexes line nfacts) (\<lambda>ls.
          Inr (if ls = [] \<and> nfacts \<noteq> [] then [] else l # ls))))"

definition opposite_facts :: "control_condition \<Rightarrow> null_condition \<Rightarrow> null_fact list" where
  "opposite_facts c nc = (if cc_truth c then nc_when_false nc else nc_when_true nc)"

definition selected_facts :: "control_condition \<Rightarrow> null_condition \<Rightarrow> null_fact list" where
  "selected_facts c nc = (if cc_truth c then nc_when_true nc else nc_when_false nc)"

fun exclusion_loop :: "function_node \<Rightarrow> (string, int) dict \<Rightarrow> control_condition list \<Rightarrow> state_error + fact_literal list" where
  "exclusion_loop n indexes [] = Inr []"
| "exclusion_loop n indexes (c # cs) =
     (case cc_null_condition c of
        None \<Rightarrow> exclusion_loop n indexes cs
      | Some nc \<Rightarrow>
          and_then (exclusion_of_facts n indexes (ce_line (cc_expression c)) (opposite_facts c nc)) (\<lambda>requirements.
          if requirements \<noteq> [] then Inr requirements else exclusion_loop n indexes cs))"

definition return_exclusion_requirements :: "function_node \<Rightarrow> control_condition list \<Rightarrow> state_error + fact_literal list" where
  "return_exclusion_requirements n conditions = exclusion_loop n (parameter_indexes n) conditions"

definition field_root :: "string \<Rightarrow> string" where
  "field_root path = fst (partition_at (CHR ''.'') path)"

definition assignment_modifies :: "code_expression \<Rightarrow> int \<Rightarrow> int \<Rightarrow> value_assignment \<Rightarrow> bool" where
  "assignment_modifies e start_byte end_byte a \<longleftrightarrow>
     start_byte < va_start_byte a \<and> va_start_byte a < end_byte \<and>
     (let target = va_target a; direct = ce_direct_identifier e; path = ce_direct_field_path e; root = field_root path;
          target_path = ce_direct_field_path target
      in (ce_direct_identifier target = '''' \<and> target_path = '''') \<or>
         (direct \<noteq> '''' \<and> ce_direct_identifier target = direct) \<or>
         (root \<noteq> '''' \<and> ce_direct_identifier target = root) \<or>
         (path \<noteq> '''' \<and> target_path \<noteq> '''' \<and> (path = target_path \<or> startswith path (target_path @ ''.''))))"

definition loop_modifies :: "code_expression \<Rightarrow> int \<Rightarrow> int \<Rightarrow> loop_structure \<Rightarrow> bool" where
  "loop_modifies e start_byte end_byte l \<longleftrightarrow>
     start_byte < ls_start_byte l \<and> ls_start_byte l < end_byte \<and>
     list_ex (\<lambda>x. x \<in> set (ls_written_identifiers l @ ls_addressed_identifiers l)) (ce_identifiers e)"

definition expression_modified_between :: "function_node \<Rightarrow> code_expression \<Rightarrow> int \<Rightarrow> int \<Rightarrow> bool" where
  "expression_modified_between n e start_byte end_byte \<longleftrightarrow>
     list_ex (assignment_modifies e start_byte end_byte) (fn_assignments n) \<or>
     list_ex (loop_modifies e start_byte end_byte) (fn_loops n)"

definition single_target :: "call_site \<Rightarrow> string option" where
  "single_target c = (case cs_target_ids c of [t] \<Rightarrow> Some t | _ \<Rightarrow> None)"

definition source_proven :: "fact_origin \<Rightarrow> bool" where
  "source_proven r \<longleftrightarrow> r = Observed \<or> r = Derived"

definition callee_nonnull_transfers :: "call_site \<Rightarrow> (string, function_contract) dict \<Rightarrow> guarded_transfer list" where
  "callee_nonnull_transfers c contracts =
     (case single_target c of
        None \<Rightarrow> []
      | Some target_id \<Rightarrow>
          (case map_of contracts target_id of
             None \<Rightarrow> []
           | Some contract \<Rightarrow>
               filter (\<lambda>t. list_all (\<lambda>r. source_proven (fl_origin r)) (gt_requirements t) \<and>
                   list_ex (\<lambda>e. se_atom e = \<lparr>fa_subject = ReturnSubject target_id, fa_predicate = NullPredicate\<rparr> \<and>
                                se_operation e = Negate \<and> source_proven (se_origin e)) (gt_effects t))
                 (fc_normal_return_transfers contract)))"

text \<open>A requirement of the callee about its parameter, said of the caller's parameter that is passed.\<close>

definition map_requirement ::
  "function_node \<Rightarrow> (string, int) dict \<Rightarrow> call_site \<Rightarrow> string \<Rightarrow> fact_literal \<Rightarrow> state_error + fact_literal option" where
  "map_requirement owner indexes c target_id r =
     (case fa_subject (fl_atom r) of
        ParameterSubject f i \<Rightarrow>
          if f \<noteq> target_id \<or> int (length (cs_arguments c)) \<le> i then Inr None
          else (case map_of indexes (ce_direct_identifier (cs_arguments c ! nat i)) of
                  None \<Rightarrow> Inr None
                | Some j \<Rightarrow> and_then (null_literal (fn_unique_name owner) j (fl_truth r) (cs_line c)) (\<lambda>l. Inr (Some l)))
      | _ \<Rightarrow> Inr None)"

fun map_requirements ::
  "function_node \<Rightarrow> (string, int) dict \<Rightarrow> call_site \<Rightarrow> string \<Rightarrow> fact_literal list \<Rightarrow> state_error + fact_literal list option" where
  "map_requirements owner indexes c target_id [] = Inr (Some [])"
| "map_requirements owner indexes c target_id (r # rs) =
     and_then (map_requirement owner indexes c target_id r) (\<lambda>m.
     case m of None \<Rightarrow> Inr None
     | Some l \<Rightarrow> and_then (map_requirements owner indexes c target_id rs) (\<lambda>ls. Inr (map_option ((#) l) ls)))"

fun first_mapped ::
  "function_node \<Rightarrow> (string, int) dict \<Rightarrow> call_site \<Rightarrow> string \<Rightarrow> guarded_transfer list \<Rightarrow> state_error + fact_literal list option" where
  "first_mapped owner indexes c target_id [] = Inr None"
| "first_mapped owner indexes c target_id (t # ts) =
     and_then (map_requirements owner indexes c target_id (gt_requirements t)) (\<lambda>m.
     case m of Some ls \<Rightarrow> Inr (Some ls) | None \<Rightarrow> first_mapped owner indexes c target_id ts)"

definition callee_nonnull_requirements ::
  "function_node \<Rightarrow> call_site \<Rightarrow> (string, function_contract) dict \<Rightarrow> state_error + fact_literal list option" where
  "callee_nonnull_requirements owner c contracts =
     (case single_target c of
        None \<Rightarrow> Inr None
      | Some target_id \<Rightarrow> first_mapped owner (parameter_indexes owner) c target_id (callee_nonnull_transfers c contracts))"

definition fatal_null_branch_proves_nonnull ::
  "function_node \<Rightarrow> string \<Rightarrow> call_site \<Rightarrow> int \<Rightarrow> (string, function_contract) dict \<Rightarrow> bool" where
  "fatal_null_branch_proves_nonnull n local_name assignment_call return_start contracts =
     (case filter (\<lambda>c. cs_end_byte assignment_call < cs_start_byte c \<and> cs_start_byte c < return_start) (fn_call_sites n) of
        [c] \<Rightarrow>
          (case (cs_conditions c, cs_target_ids c) of
             ([condition], [target_id]) \<Rightarrow>
               (case map_of contracts target_id of
                  None \<Rightarrow> False
                | Some contract \<Rightarrow>
                    ne_status (fc_normal_exit contract) = ImpossibleExit \<and>
                    (case cc_null_condition condition of
                       None \<Rightarrow> False
                     | Some nc \<Rightarrow>
                         (case (selected_facts condition nc, opposite_facts condition nc) of
                            ([s], [q]) \<Rightarrow>
                              ce_direct_identifier (nf_value s) = local_name \<and> nf_is_null s \<and>
                              ce_direct_identifier (nf_value q) = local_name \<and> \<not> nf_is_null q
                          | _ \<Rightarrow> False)))
           | _ \<Rightarrow> False)
      | _ \<Rightarrow> False)"

definition forwarded_return_requirements ::
  "function_node \<Rightarrow> code_expression \<Rightarrow> (string, function_contract) dict \<Rightarrow> state_error + fact_literal list option" where
  "forwarded_return_requirements n return_value contracts =
     (case List.find (\<lambda>c. cs_start_byte c = ce_start_byte return_value \<and> cs_end_byte c = ce_end_byte return_value) (fn_call_sites n) of
        Some direct_call \<Rightarrow> callee_nonnull_requirements n direct_call contracts
      | None \<Rightarrow>
          let local_name = ce_direct_identifier return_value
          in if local_name = '''' \<or> fn_language n \<noteq> ''c'' then Inr None
             else case filter (\<lambda>c. (case cs_result c of None \<Rightarrow> False | Some r \<Rightarrow> ce_direct_identifier r = local_name) \<and>
                                   cs_end_byte c < ce_start_byte return_value) (fn_call_sites n) of
               [assignment_call] \<Rightarrow>
                 if cs_conditions assignment_call \<noteq> [] then Inr None
                 else if list_ex (\<lambda>c. list_ex (\<lambda>a. local_name \<in> set (ce_identifiers a) \<and> ce_direct_identifier a \<noteq> local_name)
                           (cs_arguments c)) (fn_call_sites n) then Inr None
                 else if expression_modified_between n return_value (cs_end_byte assignment_call) (ce_start_byte return_value) then Inr None
                 else if fatal_null_branch_proves_nonnull n local_name assignment_call (ce_start_byte return_value) contracts then Inr (Some [])
                 else callee_nonnull_requirements n assignment_call contracts
             | _ \<Rightarrow> Inr None)"

fun early_requirements :: "function_node \<Rightarrow> return_site list \<Rightarrow> state_error + fact_literal list option" where
  "early_requirements n [] = Inr (Some [])"
| "early_requirements n (r # rs) =
     (if \<not> rs_returns_null r then Inr None
      else and_then (return_exclusion_requirements n (rs_conditions r)) (\<lambda>excluded.
        if excluded = [] then Inr None
        else and_then (early_requirements n rs) (\<lambda>m. Inr (map_option ((@) excluded) m))))"

definition return_effect :: "function_node \<Rightarrow> int \<Rightarrow> state_error + state_effect" where
  "return_effect n line =
     and_then (null_atom (ReturnSubject (fn_unique_name n))) (\<lambda>a.
       Inr \<lparr>se_operation = Negate, se_atom = a, se_origin = Derived, se_evidence_line = line\<rparr>)"

definition derive_nonnull_return_transfer ::
  "function_node \<Rightarrow> (string, function_contract) dict \<Rightarrow> state_error + guarded_transfer option" where
  "derive_nonnull_return_transfer n contracts =
     (if fn_language n \<noteq> ''c'' \<or> fn_returns n = [] then Inr None
      else let final_return = last (fn_returns n)
           in case rs_value final_return of
                None \<Rightarrow> Inr None
              | Some final_value \<Rightarrow>
                  if rs_conditions final_return \<noteq> [] then Inr None
                  else and_then (early_requirements n (butlast (fn_returns n))) (\<lambda>early.
                    case early of None \<Rightarrow> Inr None
                    | Some requirements \<Rightarrow>
                        and_then (forwarded_return_requirements n final_value contracts) (\<lambda>forwarded.
                        case forwarded of None \<Rightarrow> Inr None
                        | Some fwd \<Rightarrow>
                            and_then (return_effect n (rs_line final_return)) (\<lambda>effect.
                            Inr (Some \<lparr>gt_requirements = sort_key repr_literal (remdups (requirements @ fwd)),
                                       gt_effects = [effect]\<rparr>)))))"

section \<open>The transfers that can be derived\<close>

text \<open>
  Whatever the contracts of the other functions are, the requirements derived for a function are about
  its own parameters, with the line of one of its conditions or calls. So only finitely many
  transfers can ever be added to its contract.
\<close>

definition evidence_lines :: "function_node \<Rightarrow> int set" where
  "evidence_lines n = set (map (ce_line \<circ> cc_expression) (concat (map rs_conditions (fn_returns n)))) \<union> set (map cs_line (fn_call_sites n))"

definition own_literals :: "function_node \<Rightarrow> fact_literal set" where
  "own_literals n =
     (\<lambda>(i, truth, line). \<lparr>fl_atom = \<lparr>fa_subject = ParameterSubject (fn_unique_name n) (int i), fa_predicate = NullPredicate\<rparr>,
        fl_truth = truth, fl_evidence_line = line, fl_origin = Derived\<rparr>) `
     ({0..<length (fn_parameters n)} \<times> {Asserted, Negated} \<times> evidence_lines n)"

definition possible_transfers :: "function_node \<Rightarrow> guarded_transfer set" where
  "possible_transfers n =
     (\<lambda>rs. \<lparr>gt_requirements = rs,
        gt_effects = [\<lparr>se_operation = Negate, se_atom = \<lparr>fa_subject = ReturnSubject (fn_unique_name n), fa_predicate = NullPredicate\<rparr>,
                      se_origin = Derived, se_evidence_line = rs_line (last (fn_returns n))\<rparr>]\<rparr>) `
     {rs. set rs \<subseteq> own_literals n \<and> distinct rs}"

lemma finite_own_literals: "finite (own_literals n)"
  by (simp add: own_literals_def evidence_lines_def)

lemma finite_possible_transfers: "finite (possible_transfers n)"
  unfolding possible_transfers_def using finite_subset_distinct[OF finite_own_literals] by (intro finite_imageI)

definition index_step :: "(string, int) dict \<Rightarrow> nat \<times> function_parameter \<Rightarrow> (string, int) dict" where
  "index_step d = (\<lambda>(i, p). if fp_name p = '''' then d else AList.update (fp_name p) (int i) d)"

lemma index_step_range:
  assumes "\<And>y j. map_of d y = Some j \<Longrightarrow> 0 \<le> j \<and> j < m" and "int (fst q) < m" and "map_of (index_step d q) y = Some j"
  shows "0 \<le> j \<and> j < m"
  using assms(1)[of y j] assms(2,3) by (cases q) (auto simp: index_step_def split: if_splits)

lemma index_fold_range:
  assumes "\<And>y j. map_of d y = Some j \<Longrightarrow> 0 \<le> j \<and> j < m" and "\<And>q. q \<in> set ps \<Longrightarrow> int (fst q) < m"
    and "map_of (foldl index_step d ps) y = Some j"
  shows "0 \<le> j \<and> j < m"
  using assms
proof (induction ps arbitrary: d)
  case (Cons q ps)
  show ?case
  proof (rule Cons.IH[of "index_step d q"])
    show "0 \<le> j \<and> j < m" if "map_of (index_step d q) y = Some j" for y j
      using index_step_range[OF Cons.prems(1) _ that] Cons.prems(2) by simp
    show "int (fst r) < m" if "r \<in> set ps" for r using Cons.prems(2) that by simp
    show "map_of (foldl index_step (index_step d q) ps) y = Some j" using Cons.prems(3) by simp
  qed
qed simp

lemma parameter_indexes_range:
  assumes "map_of (parameter_indexes n) x = Some i"
  shows "0 \<le> i \<and> i < int (length (fn_parameters n))"
proof (rule index_fold_range[of "[]" _ "List.enumerate 0 (fn_parameters n)" x])
  show "map_of (foldl index_step [] (List.enumerate 0 (fn_parameters n))) x = Some i"
    using assms by (simp add: parameter_indexes_def index_step_def[abs_def] case_prod_unfold)
  show "int (fst q) < int (length (fn_parameters n))" if "q \<in> set (List.enumerate 0 (fn_parameters n))" for q
    using that by (simp add: in_set_enumerate_eq)
qed simp

lemma null_literal_own:
  assumes "null_literal (fn_unique_name n) i truth line = Inr l" and "map_of (parameter_indexes n) x = Some i" and "line \<in> evidence_lines n"
  shows "l \<in> own_literals n"
proof -
  from parameter_indexes_range[OF assms(2)] have i: "i = int (nat i)" "nat i < length (fn_parameters n)" by auto
  have "l = \<lparr>fl_atom = \<lparr>fa_subject = ParameterSubject (fn_unique_name n) (int (nat i)), fa_predicate = NullPredicate\<rparr>,
      fl_truth = truth, fl_evidence_line = line, fl_origin = Derived\<rparr>"
    using assms(1) i by (auto simp: null_literal_def null_atom_def security_subject_post_init_def res_simps split: if_splits)
  moreover have "truth \<in> {Asserted, Negated}" by (cases truth) auto
  ultimately show ?thesis
    using i assms(3) unfolding own_literals_def by (intro image_eqI[of _ _ "(nat i, truth, line)"]) auto
qed

lemma exclusion_of_facts_own:
  "exclusion_of_facts n (parameter_indexes n) line fs = Inr ls \<Longrightarrow> line \<in> evidence_lines n \<Longrightarrow> set ls \<subseteq> own_literals n"
proof (induction fs arbitrary: ls)
  case (Cons f fs)
  then show ?case
    by (auto simp: res_simps split: option.splits if_splits dest: null_literal_own)
qed simp

lemma exclusion_loop_own:
  "exclusion_loop n (parameter_indexes n) cs = Inr ls \<Longrightarrow> (\<And>c. c \<in> set cs \<Longrightarrow> ce_line (cc_expression c) \<in> evidence_lines n) \<Longrightarrow>
   set ls \<subseteq> own_literals n"
proof (induction cs arbitrary: ls)
  case (Cons c cs)
  show ?case
  proof (cases "cc_null_condition c")
    case None
    then show ?thesis using Cons by simp
  next
    case (Some nc)
    with Cons.prems(1) obtain rs where
      rs: "exclusion_of_facts n (parameter_indexes n) (ce_line (cc_expression c)) (opposite_facts c nc) = Inr rs"
      "(if rs \<noteq> [] then Inr rs else exclusion_loop n (parameter_indexes n) cs) = Inr ls" by (auto simp: res_simps)
    from exclusion_of_facts_own[OF rs(1)] Cons.prems(2) rs(2) Cons.IH show ?thesis by (auto split: if_splits)
  qed
qed simp

lemma early_requirements_own:
  "early_requirements n rs = Inr (Some ls) \<Longrightarrow> set rs \<subseteq> set (fn_returns n) \<Longrightarrow> set ls \<subseteq> own_literals n"
proof (induction rs arbitrary: ls)
  case (Cons r rs)
  from Cons.prems(1) obtain ex ms where ex: "exclusion_loop n (parameter_indexes n) (rs_conditions r) = Inr ex"
    and ms: "early_requirements n rs = Inr (Some ms)" "ls = ex @ ms"
    by (auto simp: res_simps return_exclusion_requirements_def split: if_splits)
  have "set ex \<subseteq> own_literals n"
    using Cons.prems(2) by (intro exclusion_loop_own[OF ex]) (auto simp: evidence_lines_def)
  with Cons.IH[OF ms(1)] Cons.prems(2) ms(2) show ?case by auto
qed simp

lemma map_requirements_own:
  "map_requirements n (parameter_indexes n) c t rs = Inr (Some ls) \<Longrightarrow> c \<in> set (fn_call_sites n) \<Longrightarrow> set ls \<subseteq> own_literals n"
proof (induction rs arbitrary: ls)
  case (Cons r rs)
  from Cons.prems(1) obtain l ms where l: "map_requirement n (parameter_indexes n) c t r = Inr (Some l)"
    and ms: "map_requirements n (parameter_indexes n) c t rs = Inr (Some ms)" "ls = l # ms"
    by (auto simp: res_simps split: option.splits)
  have "cs_line c \<in> evidence_lines n" using Cons.prems(2) by (auto simp: evidence_lines_def)
  with l have "l \<in> own_literals n"
    by (auto simp: map_requirement_def res_simps split: security_subject.splits if_splits option.splits intro: null_literal_own)
  with Cons.IH[OF ms(1) Cons.prems(2)] ms(2) show ?case by simp
qed simp

lemma first_mapped_own:
  "first_mapped n (parameter_indexes n) c t ts = Inr (Some ls) \<Longrightarrow> c \<in> set (fn_call_sites n) \<Longrightarrow> set ls \<subseteq> own_literals n"
  by (induction ts) (auto simp: res_simps split: option.splits dest: map_requirements_own)

lemma callee_requirements_own:
  "callee_nonnull_requirements n c contracts = Inr (Some ls) \<Longrightarrow> c \<in> set (fn_call_sites n) \<Longrightarrow> set ls \<subseteq> own_literals n"
  by (auto simp: callee_nonnull_requirements_def split: option.splits dest: first_mapped_own)

lemma forwarded_own:
  assumes "forwarded_return_requirements n v contracts = Inr (Some ls)"
  shows "set ls \<subseteq> own_literals n"
proof (cases "List.find (\<lambda>c. cs_start_byte c = ce_start_byte v \<and> cs_end_byte c = ce_end_byte v) (fn_call_sites n)")
  case (Some c)
  then have "c \<in> set (fn_call_sites n)" by (auto simp: find_Some_iff)
  with Some assms callee_requirements_own show ?thesis by (auto simp: forwarded_return_requirements_def)
next
  case None
  define as where "as = filter (\<lambda>c. (case cs_result c of None \<Rightarrow> False | Some r \<Rightarrow> ce_direct_identifier r = ce_direct_identifier v) \<and>
      cs_end_byte c < ce_start_byte v) (fn_call_sites n)"
  show ?thesis
  proof (cases "\<exists>c. as = [c]")
    case True
    then obtain c where c: "as = [c]" by blast
    then have "c \<in> set as" by simp
    then have "c \<in> set (fn_call_sites n)" by (simp add: as_def)
    with None assms c callee_requirements_own show ?thesis
      by (auto simp: forwarded_return_requirements_def Let_def as_def[symmetric] split: if_splits)
  next
    case False
    then have "(case as of [c] \<Rightarrow> X c | _ \<Rightarrow> Inr None) = Inr None" for X :: "call_site \<Rightarrow> state_error + fact_literal list option"
      by (auto split: list.splits)
    with None assms show ?thesis by (simp add: forwarded_return_requirements_def Let_def as_def[symmetric] split: if_splits)
  qed
qed

lemma derived_possible:
  assumes "derive_nonnull_return_transfer n contracts = Inr (Some t)"
  shows "t \<in> possible_transfers n"
proof -
  from assms obtain v early fwd eff where
    ne: "fn_returns n \<noteq> []" and early: "early_requirements n (butlast (fn_returns n)) = Inr (Some early)"
    and fwd: "forwarded_return_requirements n v contracts = Inr (Some fwd)"
    and eff: "return_effect n (rs_line (last (fn_returns n))) = Inr eff"
    and t: "t = \<lparr>gt_requirements = sort_key repr_literal (remdups (early @ fwd)), gt_effects = [eff]\<rparr>"
    by (auto simp: derive_nonnull_return_transfer_def Let_def res_simps split: if_splits option.splits)
  have "set early \<subseteq> own_literals n" using early_requirements_own[OF early] by (auto dest: in_set_butlastD)
  moreover have "set fwd \<subseteq> own_literals n" by (rule forwarded_own[OF fwd])
  moreover have "eff = \<lparr>se_operation = Negate, se_atom = \<lparr>fa_subject = ReturnSubject (fn_unique_name n), fa_predicate = NullPredicate\<rparr>,
      se_origin = Derived, se_evidence_line = rs_line (last (fn_returns n))\<rparr>"
    using eff by (auto simp: return_effect_def null_atom_def security_subject_post_init_def res_simps split: if_splits)
  ultimately show ?thesis
    unfolding possible_transfers_def t by (intro image_eqI[of _ _ "sort_key repr_literal (remdups (early @ fwd))"]) (auto simp: distinct_sort_key)
qed

section \<open>The derivation does not fail and reads only the callees\<close>

lemma null_literal_ok:
  assumes "f \<noteq> ''''" and "0 \<le> i"
  shows "\<exists>l. null_literal f i truth line = Inr l"
  using assms by (simp add: null_literal_def null_atom_def security_subject_post_init_def)

lemma exclusion_of_facts_ok:
  assumes "fn_unique_name n \<noteq> ''''"
  shows "\<exists>ls. exclusion_of_facts n (parameter_indexes n) line fs = Inr ls"
proof (induction fs)
  case (Cons x fs)
  show ?case
  proof (cases "map_of (parameter_indexes n) (ce_direct_identifier (nf_value x))")
    case (Some i)
    then obtain l where "null_literal (fn_unique_name n) i (if nf_is_null x then Asserted else Negated) line = Inr l"
      using null_literal_ok[OF assms] parameter_indexes_range by blast
    with Some Cons show ?thesis by auto
  qed simp
qed simp

lemma exclusion_loop_ok:
  assumes "fn_unique_name n \<noteq> ''''"
  shows "\<exists>ls. exclusion_loop n (parameter_indexes n) cs = Inr ls"
proof (induction cs)
  case (Cons c cs)
  show ?case
  proof (cases "cc_null_condition c")
    case (Some nc)
    obtain ls where "exclusion_of_facts n (parameter_indexes n) (ce_line (cc_expression c)) (opposite_facts c nc) = Inr ls"
      using exclusion_of_facts_ok[OF assms] by blast
    with Some Cons show ?thesis by simp
  qed (use Cons in simp)
qed simp

lemma early_requirements_ok:
  assumes "fn_unique_name n \<noteq> ''''"
  shows "\<exists>m. early_requirements n rs = Inr m"
proof (induction rs)
  case (Cons r rs)
  from exclusion_loop_ok[OF assms] obtain ex where "return_exclusion_requirements n (rs_conditions r) = Inr ex"
    by (auto simp: return_exclusion_requirements_def)
  with Cons show ?case by auto
qed simp

lemma map_requirement_ok:
  assumes "fn_unique_name n \<noteq> ''''"
  shows "\<exists>m. map_requirement n (parameter_indexes n) c t r = Inr m"
proof (cases "fa_subject (fl_atom r)")
  case (ParameterSubject f i)
  let ?x = "ce_direct_identifier (cs_arguments c ! nat i)"
  show ?thesis
  proof (cases "map_of (parameter_indexes n) ?x")
    case (Some j)
    then obtain l where "null_literal (fn_unique_name n) j (fl_truth r) (cs_line c) = Inr l"
      using null_literal_ok[OF assms] parameter_indexes_range by blast
    with Some ParameterSubject show ?thesis by (simp add: map_requirement_def)
  qed (simp add: map_requirement_def ParameterSubject)
qed (simp_all add: map_requirement_def)

lemma map_requirements_ok:
  assumes "fn_unique_name n \<noteq> ''''"
  shows "\<exists>m. map_requirements n (parameter_indexes n) c t rs = Inr m"
proof (induction rs)
  case (Cons r rs)
  from map_requirement_ok[OF assms] obtain m where "map_requirement n (parameter_indexes n) c t r = Inr m" by blast
  with Cons show ?case by (cases m) auto
qed simp

lemma first_mapped_ok:
  assumes "fn_unique_name n \<noteq> ''''"
  shows "\<exists>m. first_mapped n (parameter_indexes n) c t ts = Inr m"
proof (induction ts)
  case (Cons u ts)
  from map_requirements_ok[OF assms] obtain m where "map_requirements n (parameter_indexes n) c t (gt_requirements u) = Inr m" by blast
  with Cons show ?case by (cases m) auto
qed simp

lemma callee_requirements_ok:
  assumes "fn_unique_name n \<noteq> ''''"
  shows "\<exists>m. callee_nonnull_requirements n c contracts = Inr m"
  using first_mapped_ok[OF assms] by (simp add: callee_nonnull_requirements_def split: option.split)

lemma forwarded_ok:
  assumes "fn_unique_name n \<noteq> ''''"
  shows "\<exists>m. forwarded_return_requirements n v contracts = Inr m"
  using callee_requirements_ok[OF assms]
  by (simp add: forwarded_return_requirements_def Let_def split: option.split list.split)

lemma derive_ok:
  assumes "fn_unique_name n \<noteq> ''''"
  shows "\<exists>m. derive_nonnull_return_transfer n contracts = Inr m"
proof -
  obtain e where e: "early_requirements n (butlast (fn_returns n)) = Inr e" using early_requirements_ok[OF assms] by blast
  obtain eff where eff: "return_effect n (rs_line (last (fn_returns n))) = Inr eff"
    using assms by (simp add: return_effect_def null_atom_def security_subject_post_init_def)
  show ?thesis
  proof (cases "rs_value (last (fn_returns n))")
    case (Some v)
    obtain w where "forwarded_return_requirements n v contracts = Inr w" using forwarded_ok[OF assms] by blast
    with Some e eff show ?thesis by (cases e; cases w) (simp_all add: derive_nonnull_return_transfer_def Let_def)
  qed (simp add: derive_nonnull_return_transfer_def)
qed

definition callee_targets :: "function_node \<Rightarrow> string set" where
  "callee_targets n = {t. \<exists>c \<in> set (fn_call_sites n). single_target c = Some t}"

lemma callee_requirements_local:
  assumes "c \<in> set (fn_call_sites n)" and "\<And>t. t \<in> callee_targets n \<Longrightarrow> map_of d t = map_of e t"
  shows "callee_nonnull_requirements n c d = callee_nonnull_requirements n c e"
proof (cases "single_target c")
  case (Some t)
  then have "map_of d t = map_of e t" using assms by (auto simp: callee_targets_def)
  with Some show ?thesis by (simp add: callee_nonnull_requirements_def callee_nonnull_transfers_def)
qed (simp add: callee_nonnull_requirements_def)

lemma fatal_branch_local:
  assumes "\<And>t. t \<in> callee_targets n \<Longrightarrow> map_of d t = map_of e t"
  shows "fatal_null_branch_proves_nonnull n x a b d = fatal_null_branch_proves_nonnull n x a b e"
proof -
  define cs where "cs = filter (\<lambda>c. cs_end_byte a < cs_start_byte c \<and> cs_start_byte c < b) (fn_call_sites n)"
  show ?thesis
  proof (cases "\<exists>c t. cs = [c] \<and> cs_target_ids c = [t]")
    case True
    then obtain c t where c: "cs = [c]" "cs_target_ids c = [t]" by blast
    then have "c \<in> set cs" by simp
    then have "c \<in> set (fn_call_sites n)" by (simp add: cs_def)
    then have "t \<in> callee_targets n"
      unfolding callee_targets_def by (intro CollectI bexI[of _ c]) (simp_all add: single_target_def c(2))
    with c assms show ?thesis
      by (simp add: fatal_null_branch_proves_nonnull_def cs_def[symmetric] split: list.split)
  next
    case False
    then have "fatal_null_branch_proves_nonnull n x a b q = False" for q
      by (auto simp: fatal_null_branch_proves_nonnull_def cs_def[symmetric] split: list.splits)
    then show ?thesis by simp
  qed
qed

lemma forwarded_local:
  assumes "\<And>t. t \<in> callee_targets n \<Longrightarrow> map_of d t = map_of e t"
  shows "forwarded_return_requirements n v d = forwarded_return_requirements n v e"
proof (cases "List.find (\<lambda>c. cs_start_byte c = ce_start_byte v \<and> cs_end_byte c = ce_end_byte v) (fn_call_sites n)")
  case (Some c)
  then have "c \<in> set (fn_call_sites n)" by (auto simp: find_Some_iff)
  with Some callee_requirements_local[OF _ assms] show ?thesis by (simp add: forwarded_return_requirements_def)
next
  case None
  define as where "as = filter (\<lambda>c. (case cs_result c of None \<Rightarrow> False | Some r \<Rightarrow> ce_direct_identifier r = ce_direct_identifier v) \<and>
      cs_end_byte c < ce_start_byte v) (fn_call_sites n)"
  have fatal: "fatal_null_branch_proves_nonnull n x a b d = fatal_null_branch_proves_nonnull n x a b e" for x a b
    by (rule fatal_branch_local[OF assms])
  have "callee_nonnull_requirements n c d = callee_nonnull_requirements n c e" if "as = [c]" for c
  proof -
    from that have "c \<in> set as" by simp
    then have "c \<in> set (fn_call_sites n)" by (simp add: as_def)
    then show ?thesis by (rule callee_requirements_local[OF _ assms])
  qed
  then show ?thesis
    using None fatal by (simp add: forwarded_return_requirements_def Let_def as_def[symmetric] split: list.split)
qed

lemma derive_local:
  assumes "\<And>t. t \<in> callee_targets n \<Longrightarrow> map_of d t = map_of e t"
  shows "derive_nonnull_return_transfer n d = derive_nonnull_return_transfer n e"
proof -
  have fwd: "forwarded_return_requirements n v d = forwarded_return_requirements n v e" for v
    by (rule forwarded_local[OF assms])
  show ?thesis unfolding derive_nonnull_return_transfer_def fwd by (rule refl)
qed

end
