(* ===== verification/Contract_Fixpoint.thy ===== *)
theory Contract_Fixpoint
  imports Null_Contracts
begin

text \<open>
  The iteration over the graph (\<open>augment_function_contracts\<close> of
  \<open>engine/nodes/reachability/state.py\<close>). A worklist holds the functions whose contract may have to
  change; a new fact about a function schedules its callers again. The iteration is shown to end,
  because a function has finitely many possible facts, to stop only at a fixed point, and to
  produce well-formed contracts.
\<close>

section \<open>The fixed point\<close>

definition no_exit_information :: normal_exit where
  "no_exit_information = \<lparr>ne_status = UnknownExit, ne_origin = None, ne_evidence_line = None\<rparr>"

definition initial_contract :: "string \<Rightarrow> function_node \<Rightarrow> state_error + function_contract" where
  "initial_contract node_id n =
     and_then (if has_tag ''control.noreturn'' n
               then normal_exit_post_init \<lparr>ne_status = ImpossibleExit, ne_origin = Some Observed, ne_evidence_line = Some (fn_line_number n)\<rparr>
               else Inr no_exit_information) (\<lambda>e.
     Inr \<lparr>fc_function_id = node_id, fc_normal_return_transfers = [], fc_normal_exit = e\<rparr>)"

definition initial_contracts :: "code_graph \<Rightarrow> state_error + (string, function_contract) dict" where
  "initial_contracts g =
     map_res (\<lambda>(k, n). and_then (initial_contract k n) (\<lambda>c. Inr (k, c))) (cg_nodes g)"

definition caller_index :: "code_graph \<Rightarrow> (string, string list) dict" where
  "caller_index g =
     map (\<lambda>(target, callers). (target, remdups callers))
       (filter (\<lambda>(target, _). target \<in> set (keys (cg_nodes g))) (plain_reverse_edges g))"

text \<open>How many transfers may still be added to the contracts.\<close>

definition missing_at :: "code_graph \<Rightarrow> (string, function_contract) dict \<Rightarrow> string \<Rightarrow> nat" where
  "missing_at g contracts k =
     (case get_node g k of None \<Rightarrow> 0
      | Some n \<Rightarrow> card (possible_transfers n -
          (case map_of contracts k of None \<Rightarrow> {} | Some c \<Rightarrow> set (fc_normal_return_transfers c))))"

definition missing_transfers :: "code_graph \<Rightarrow> (string, function_contract) dict \<Rightarrow> nat" where
  "missing_transfers g contracts = (\<Sum>k \<in> set (keys (cg_nodes g)). missing_at g contracts k)"

definition add_transfer :: "guarded_transfer \<Rightarrow> function_contract \<Rightarrow> function_contract" where
  "add_transfer t c = c\<lparr>fc_normal_return_transfers := sort_key repr_transfer (fc_normal_return_transfers c @ [t])\<rparr>"

lemma missing_decreases:
  assumes n: "get_node g f = Some n" and c: "map_of contracts f = Some c" and t: "t \<in> possible_transfers n"
    "t \<notin> set (fc_normal_return_transfers c)"
  shows "missing_transfers g (AList.update f (add_transfer t c) contracts) < missing_transfers g contracts"
  unfolding missing_transfers_def
proof (rule sum_strict_mono_ex1)
  let ?new = "AList.update f (add_transfer t c) contracts"
  have "possible_transfers n - set (fc_normal_return_transfers (add_transfer t c)) \<subset> possible_transfers n - set (fc_normal_return_transfers c)"
    using t by (auto simp: add_transfer_def)
  then have less: "missing_at g ?new f < missing_at g contracts f"
    using n c psubset_card_mono[OF finite_Diff[OF finite_possible_transfers]] by (simp add: missing_at_def)
  moreover have "f \<in> set (keys (cg_nodes g))" using n by (auto simp: get_node_def dest: map_of_Some_keys)
  ultimately show "\<exists>k \<in> set (keys (cg_nodes g)). missing_at g ?new k < missing_at g contracts k" by blast
  show "\<forall>k \<in> set (keys (cg_nodes g)). missing_at g ?new k \<le> missing_at g contracts k"
  proof
    fix k
    show "missing_at g ?new k \<le> missing_at g contracts k"
    proof (cases "k = f")
      case True
      with less show ?thesis by simp
    next
      case False
      then have "missing_at g ?new k = missing_at g contracts k" by (simp only: missing_at_def map_of_update if_False)
      then show ?thesis by simp
    qed
  qed
qed simp

function augment_loop ::
  "code_graph \<Rightarrow> (string, string list) dict \<Rightarrow> (string, function_contract) dict \<Rightarrow> string list \<Rightarrow> string set \<Rightarrow>
   state_error + (string, function_contract) dict" where
  "augment_loop g callers augmented [] scheduled = Inr augmented"
| "augment_loop g callers augmented (f # pending) scheduled =
     (let scheduled = scheduled - {f}
      in case get_node g f of
        None \<Rightarrow> Inl (UnknownFunction f)
      | Some n \<Rightarrow>
          (case derive_nonnull_return_transfer n augmented of
             Inl e \<Rightarrow> Inl e
           | Inr transfer \<Rightarrow>
               (case map_of augmented f of
                  None \<Rightarrow> Inl (UnknownFunction f)
                | Some contract \<Rightarrow>
                    (case transfer of
                       None \<Rightarrow> augment_loop g callers augmented pending scheduled
                     | Some t \<Rightarrow>
                         if t \<in> set (fc_normal_return_transfers contract) then augment_loop g callers augmented pending scheduled
                         else let new = filter (\<lambda>c. c \<notin> scheduled) (sort_key (node_sort_key g) (get_list callers f))
                              in augment_loop g callers (AList.update f (add_transfer t contract) augmented)
                                   (pending @ new) (scheduled \<union> set new)))))"
  by pat_completeness auto
termination
proof (relation "measures [\<lambda>(g, callers, augmented, pending, scheduled). missing_transfers g augmented,
    \<lambda>(g, callers, augmented, pending, scheduled). length pending]", goal_cases)
  case (4 g callers augmented f pending scheduled scheduled' n transfer contract t new)
  then show ?case using missing_decreases derived_possible by simp
qed auto

definition augment_function_contracts :: "code_graph \<Rightarrow> state_error + (string, function_contract) dict" where
  "augment_function_contracts g =
     and_then (initial_contracts g) (\<lambda>augmented.
       let pending = sort_key (node_sort_key g) (keys (cg_nodes g))
       in augment_loop g (caller_index g) augmented pending (set pending))"

section \<open>The iteration keeps the contracts well-formed\<close>

definition exit_of :: "function_node \<Rightarrow> normal_exit" where
  "exit_of n =
     (if has_tag ''control.noreturn'' n
      then \<lparr>ne_status = ImpossibleExit, ne_origin = Some Observed, ne_evidence_line = Some (fn_line_number n)\<rparr>
      else no_exit_information)"

definition contract_ok :: "string \<Rightarrow> function_node \<Rightarrow> function_contract \<Rightarrow> bool" where
  "contract_ok k n c \<longleftrightarrow>
     fc_function_id c = k \<and> fc_normal_exit c = exit_of n \<and> set (fc_normal_return_transfers c) \<subseteq> possible_transfers n"

definition contracts_ok :: "code_graph \<Rightarrow> (string, function_contract) dict \<Rightarrow> bool" where
  "contracts_ok g contracts \<longleftrightarrow>
     keys contracts = keys (cg_nodes g) \<and>
     (\<forall>k n. get_node g k = Some n \<longrightarrow> (\<exists>c. map_of contracts k = Some c \<and> contract_ok k n c))"

lemma contracts_okD:
  assumes "contracts_ok g contracts" and "get_node g k = Some n"
  obtains c where "map_of contracts k = Some c" and "contract_ok k n c"
  using assms by (auto simp: contracts_ok_def)

lemma keys_update_known: "k \<in> set (keys d) \<Longrightarrow> keys (AList.update k v d) = keys d"
  by (induction d) auto

lemma contracts_ok_add:
  assumes ok: "contracts_ok g contracts" and n: "get_node g f = Some n" and c: "map_of contracts f = Some c"
    and t: "t \<in> possible_transfers n"
  shows "contracts_ok g (AList.update f (add_transfer t c) contracts)"
proof -
  have "f \<in> set (keys contracts)" using c by (rule map_of_Some_keys)
  then have "keys (AList.update f (add_transfer t c) contracts) = keys (cg_nodes g)"
    using ok by (simp add: keys_update_known contracts_ok_def)
  moreover have "contract_ok f n (add_transfer t c)"
    using contracts_okD[OF ok n] c t by (auto simp: contract_ok_def add_transfer_def)
  ultimately show ?thesis
    using ok n by (auto simp: contracts_ok_def)
qed

lemma get_list_known:
  "get_list (map (\<lambda>(t, xs). (t, remdups xs)) (filter (\<lambda>(t, _). t \<in> S) d)) f = (if f \<in> S then remdups (get_list d f) else [])"
  by (induction d) (auto simp: get_list_def)

lemma caller_index_lookup:
  assumes "graph_inv g" and "f \<in> set (keys (cg_nodes g))"
  shows "k \<in> set (get_list (caller_index g) f) \<longleftrightarrow> f \<in> set (callees_of_node g k)"
  using assms callers_lookup[OF assms(1)] unfolding caller_index_def get_list_known by simp

lemma distinct_callers: "distinct (get_list (caller_index g) f)"
  unfolding caller_index_def get_list_known by simp

lemma get_node_key: "get_node g f = Some n \<Longrightarrow> f \<in> set (keys (cg_nodes g))"
  by (auto simp: get_node_def dest: map_of_Some_keys)

lemma key_get_node: "f \<in> set (keys (cg_nodes g)) \<Longrightarrow> \<exists>n. get_node g f = Some n"
  using map_of_None_keys[of "cg_nodes g" f] by (cases "get_node g f") (auto simp: get_node_def)

lemma get_node_unique_name: "graph_inv g \<Longrightarrow> get_node g f = Some n \<Longrightarrow> fn_unique_name n = f"
  using graph_inv_ids by (auto simp: get_node_def dest: map_of_SomeD)

definition named_functions :: "code_graph \<Rightarrow> bool" where
  "named_functions g \<longleftrightarrow> '''' \<notin> set (keys (cg_nodes g))"

text \<open>One step of the loop on a function of the graph: its derivation does not fail and its contract exists.\<close>

lemma derive_known:
  assumes "graph_inv g" and "named_functions g" and "get_node g f = Some n"
  obtains m where "derive_nonnull_return_transfer n contracts = Inr m"
proof -
  have "fn_unique_name n \<noteq> ''''"
    using assms(2) get_node_key[OF assms(3)] get_node_unique_name[OF assms(1,3)] unfolding named_functions_def by metis
  from derive_ok[OF this] show ?thesis using that by blast
qed

lemma augment_loop_ok:
  assumes inv: "graph_inv g" and named: "named_functions g"
  shows "callers = caller_index g \<Longrightarrow> contracts_ok g contracts \<Longrightarrow> set pending \<subseteq> set (keys (cg_nodes g)) \<Longrightarrow>
    \<exists>result. augment_loop g callers contracts pending scheduled = Inr result \<and> contracts_ok g result"
  using inv named
proof (induction g callers contracts pending scheduled rule: augment_loop.induct)
  case (2 g callers contracts f pending scheduled)
  have f: "f \<in> set (keys (cg_nodes g))" and rest: "set pending \<subseteq> set (keys (cg_nodes g))" using "2.prems"(3) by auto
  from key_get_node[OF f] obtain n where n: "get_node g f = Some n" by blast
  obtain m where m: "derive_nonnull_return_transfer n contracts = Inr m" by (rule derive_known[OF "2.prems"(4,5) n])
  obtain c where c: "map_of contracts f = Some c" by (rule contracts_okD[OF "2.prems"(2) n])
  show ?case
  proof (cases "case m of None \<Rightarrow> True | Some t \<Rightarrow> t \<in> set (fc_normal_return_transfers c)")
    case True
    then have "\<exists>result. augment_loop g callers contracts pending (scheduled - {f}) = Inr result \<and> contracts_ok g result"
      using "2.IH"(1)[OF refl n m c _ "2.prems"(1,2) rest "2.prems"(4,5)] "2.IH"(2)[OF refl n m c _ _ "2.prems"(1,2) rest "2.prems"(4,5)]
      by (cases m) auto
    then show ?thesis using True by (cases m) (simp_all add: n m c)
  next
    case False
    then obtain t where t: "m = Some t" "t \<notin> set (fc_normal_return_transfers c)" by (cases m) auto
    define new where "new = filter (\<lambda>x. x \<notin> scheduled - {f}) (sort_key (node_sort_key g) (get_list callers f))"
    have "set new \<subseteq> set (keys (cg_nodes g))"
      using caller_index_lookup[OF "2.prems"(4) f] callees_known by (auto simp: new_def "2.prems"(1))
    with rest have pend: "set (pending @ new) \<subseteq> set (keys (cg_nodes g))" by simp
    have ok: "contracts_ok g (AList.update f (add_transfer t c) contracts)"
      using derived_possible m t(1) by (intro contracts_ok_add[OF "2.prems"(2) n c]) simp
    from "2.IH"(3)[OF refl n m c t new_def "2.prems"(1) ok pend "2.prems"(4,5)]
    show ?thesis using t by (simp add: n m c Let_def new_def)
  qed
qed simp

section \<open>The iteration ends at a fixed point\<close>

text \<open>Deriving a function once more gives nothing that its contract does not have.\<close>

definition stable :: "code_graph \<Rightarrow> (string, function_contract) dict \<Rightarrow> string \<Rightarrow> bool" where
  "stable g contracts f \<longleftrightarrow>
     (\<forall>n c t. get_node g f = Some n \<longrightarrow> map_of contracts f = Some c \<longrightarrow>
        derive_nonnull_return_transfer n contracts = Inr (Some t) \<longrightarrow> t \<in> set (fc_normal_return_transfers c))"

text \<open>The call sites with one target are among the resolved calls, which the caller index is made of.\<close>

definition linked :: "code_graph \<Rightarrow> bool" where
  "linked g \<longleftrightarrow>
     list_all (\<lambda>(k, n). list_all (\<lambda>c. case single_target c of None \<Rightarrow> True
        | Some t \<Rightarrow> t \<in> set (keys (cg_nodes g)) \<longrightarrow> t \<in> set (fn_resolved_calls n)) (fn_call_sites n)) (cg_nodes g)"

lemma linked_caller:
  assumes "linked g" and "get_node g k = Some n" and "t \<in> callee_targets n" and "t \<in> set (keys (cg_nodes g))"
  shows "t \<in> set (callees_of_node g k)"
proof -
  from assms(3) obtain c where c: "c \<in> set (fn_call_sites n)" "single_target c = Some t" by (auto simp: callee_targets_def)
  from assms(2) have "(k, n) \<in> set (cg_nodes g)" by (auto simp: get_node_def dest: map_of_SomeD)
  with assms(1) c(1) have "case single_target c of None \<Rightarrow> True
      | Some t \<Rightarrow> t \<in> set (keys (cg_nodes g)) \<longrightarrow> t \<in> set (fn_resolved_calls n)"
    by (auto simp: linked_def list_all_iff)
  with c(2) assms(2,4) show ?thesis by (simp add: callees_of_node_def)
qed

lemma derive_update_irrelevant:
  assumes "f \<notin> callee_targets n"
  shows "derive_nonnull_return_transfer n (AList.update f c contracts) = derive_nonnull_return_transfer n contracts"
  using assms by (intro derive_local) auto

lemma stable_update:
  assumes linked: "linked g" and f: "get_node g f = Some n" "map_of contracts f = Some c"
    and t: "derive_nonnull_return_transfer n contracts = Inr (Some t)"
    and k: "f \<notin> set (callees_of_node g k)" "k \<noteq> f \<Longrightarrow> stable g contracts k"
  shows "stable g (AList.update f (add_transfer t c) contracts) k"
  unfolding stable_def
proof (intro allI impI)
  fix n' c' t'
  assume n': "get_node g k = Some n'" and c': "map_of (AList.update f (add_transfer t c) contracts) k = Some c'"
    and t': "derive_nonnull_return_transfer n' (AList.update f (add_transfer t c) contracts) = Inr (Some t')"
  have "f \<notin> callee_targets n'" using linked_caller[OF linked n' _ get_node_key[OF f(1)]] k(1) by blast
  with t' have old: "derive_nonnull_return_transfer n' contracts = Inr (Some t')" by (simp add: derive_update_irrelevant)
  show "t' \<in> set (fc_normal_return_transfers c')"
  proof (cases "k = f")
    case True
    with old n' f(1) t c' show ?thesis by (auto simp: add_transfer_def)
  next
    case False
    with c' old n' k(2) show ?thesis by (simp add: stable_def)
  qed
qed

lemma augment_loop_stable:
  "augment_loop g callers contracts pending scheduled = Inr result \<Longrightarrow> callers = caller_index g \<Longrightarrow> graph_inv g \<Longrightarrow> linked g \<Longrightarrow>
   scheduled = set pending \<Longrightarrow> distinct pending \<Longrightarrow> (\<And>k. k \<notin> set pending \<Longrightarrow> stable g contracts k) \<Longrightarrow> stable g result k"
proof (induction g callers contracts pending scheduled rule: augment_loop.induct)
  case (2 g callers contracts f pending scheduled)
  obtain n where n: "get_node g f = Some n" using "2.prems"(1) by (cases "get_node g f") simp_all
  obtain m where m: "derive_nonnull_return_transfer n contracts = Inr m"
    using "2.prems"(1) n by (cases "derive_nonnull_return_transfer n contracts") simp_all
  obtain c where c: "map_of contracts f = Some c" using "2.prems"(1) n m by (cases "map_of contracts f") simp_all
  have rest: "scheduled - {f} = set pending" "distinct pending" using "2.prems"(5,6) by auto
  have others: "stable g contracts k" if "k \<noteq> f" "k \<notin> set pending" for k using "2.prems"(7) that by simp
  show ?case
  proof (cases "case m of None \<Rightarrow> True | Some t \<Rightarrow> t \<in> set (fc_normal_return_transfers c)")
    case True
    have loop: "augment_loop g callers contracts pending (scheduled - {f}) = Inr result"
      using "2.prems"(1) True by (cases m) (simp_all add: n m c)
    have self: "stable g contracts f" using True n m c by (auto simp: stable_def)
    have all_stable: "stable g contracts k" if "k \<notin> set pending" for k
      using that by (cases "k = f") (simp_all add: self others)
    show ?thesis
    proof (cases m)
      case None
      show ?thesis by (rule "2.IH"(1)[OF refl n m c None loop "2.prems"(2-4) rest all_stable])
    next
      case (Some t)
      with True have "t \<in> set (fc_normal_return_transfers c)" by simp
      then show ?thesis by (rule "2.IH"(2)[OF refl n m c Some _ loop "2.prems"(2-4) rest all_stable])
    qed
  next
    case False
    then obtain t where t: "m = Some t" "t \<notin> set (fc_normal_return_transfers c)" by (cases m) auto
    define new where "new = filter (\<lambda>x. x \<notin> scheduled - {f}) (sort_key (node_sort_key g) (get_list callers f))"
    have loop: "augment_loop g callers (AList.update f (add_transfer t c) contracts) (pending @ new) (scheduled - {f} \<union> set new) = Inr result"
      using "2.prems"(1) t by (simp add: n m c Let_def new_def)
    have all_stable: "stable g (AList.update f (add_transfer t c) contracts) k" if "k \<notin> set (pending @ new)" for k
    proof (rule stable_update[OF "2.prems"(4) n c])
      show "derive_nonnull_return_transfer n contracts = Inr (Some t)" using m t by simp
      show "f \<notin> set (callees_of_node g k)"
        using that rest caller_index_lookup[OF "2.prems"(3) get_node_key[OF n]] by (auto simp: new_def "2.prems"(2))
      show "k \<noteq> f \<Longrightarrow> stable g contracts k" using others that by simp
    qed
    have "distinct new" using distinct_callers by (simp add: new_def "2.prems"(2) distinct_sort_key)
    moreover have "set pending \<inter> set new = {}" unfolding new_def rest(1) by auto
    ultimately have dist: "distinct (pending @ new)" using rest(2) by simp
    have sched: "scheduled - {f} \<union> set new = set (pending @ new)" using rest(1) by simp
    show ?thesis by (rule "2.IH"(3)[OF refl n m c t new_def loop "2.prems"(2-4) sched dist all_stable])
  qed
qed simp

section \<open>The contracts of a graph\<close>

text \<open>A function that does not return has a line, the evidence for it.\<close>

definition located_exits :: "code_graph \<Rightarrow> bool" where
  "located_exits g \<longleftrightarrow> list_all (\<lambda>(k, n). has_tag ''control.noreturn'' n \<longrightarrow> 1 \<le> fn_line_number n) (cg_nodes g)"

lemma initial_contract_eq:
  assumes "has_tag ''control.noreturn'' n \<longrightarrow> 1 \<le> fn_line_number n"
  shows "initial_contract k n = Inr \<lparr>fc_function_id = k, fc_normal_return_transfers = [], fc_normal_exit = exit_of n\<rparr>"
  using assms by (cases "has_tag ''control.noreturn'' n") (simp_all add: initial_contract_def exit_of_def normal_exit_post_init_def)

lemma initial_contracts_ok:
  assumes "located_exits g"
  obtains contracts where "initial_contracts g = Inr contracts" and "contracts_ok g contracts"
    and "\<And>k c. map_of contracts k = Some c \<Longrightarrow> fc_normal_return_transfers c = []"
proof -
  let ?c = "\<lambda>k n. \<lparr>fc_function_id = k, fc_normal_return_transfers = [], fc_normal_exit = exit_of n\<rparr>"
  let ?d = "map (\<lambda>(k, n). (k, ?c k n)) (cg_nodes g)"
  have "initial_contracts g = map_res (\<lambda>p. Inr ((\<lambda>(k, n). (k, ?c k n)) p)) (cg_nodes g)"
    unfolding initial_contracts_def using assms
    by (intro map_res_cong) (auto simp: located_exits_def list_all_iff initial_contract_eq)
  moreover have "map_res (\<lambda>p. Inr (f p)) xs = Inr (map f xs)" for f :: "string \<times> function_node \<Rightarrow> string \<times> function_contract" and xs
    by (induction xs) simp_all
  ultimately have "initial_contracts g = Inr ?d" by simp
  moreover have lookup: "map_of ?d k = map_option (?c k) (get_node g k)" for k by (simp add: map_of_map_values get_node_def)
  then have "contracts_ok g ?d" by (simp add: contracts_ok_def contract_ok_def keys_map_values)
  ultimately show ?thesis using lookup by (intro that) auto
qed

lemma augment_function_contracts_ok:
  assumes "graph_inv g" and "named_functions g" and "located_exits g"
  shows "\<exists>result. augment_function_contracts g = Inr result \<and> contracts_ok g result \<and> (linked g \<longrightarrow> (\<forall>k. stable g result k))"
proof -
  obtain contracts where c: "initial_contracts g = Inr contracts" "contracts_ok g contracts"
    by (rule initial_contracts_ok[OF assms(3)])
  let ?pending = "sort_key (node_sort_key g) (keys (cg_nodes g))"
  from augment_loop_ok[OF assms(1,2) refl c(2), of ?pending "set ?pending"] obtain result where
    result: "augment_loop g (caller_index g) contracts ?pending (set ?pending) = Inr result" "contracts_ok g result" by auto
  moreover have "stable g result k" if "linked g" for k
  proof (rule augment_loop_stable[OF result(1) refl assms(1) that refl])
    show "distinct ?pending" using graph_inv_nodes[OF assms(1)] by (simp add: distinct_sort_key wf_dict_keys)
    show "stable g contracts k" if "k \<notin> set ?pending" for k
      using that get_node_key[of g k] by (auto simp: stable_def)
  qed
  ultimately show ?thesis by (auto simp: augment_function_contracts_def c(1) Let_def)
qed

lemma possible_transferD:
  assumes "t \<in> possible_transfers n"
  shows "distinct (gt_requirements t)"
    and "r \<in> set (gt_requirements t) \<Longrightarrow> \<exists>i < length (fn_parameters n).
       fa_subject (fl_atom r) = ParameterSubject (fn_unique_name n) (int i) \<and> fl_origin r = Derived"
    and "\<exists>e. gt_effects t = [e] \<and> se_operation e = Negate \<and> fa_subject (se_atom e) = ReturnSubject (fn_unique_name n)"
  using assms by (auto simp: possible_transfers_def own_literals_def)

definition demo_expression :: "string \<Rightarrow> int \<Rightarrow> int \<Rightarrow> int \<Rightarrow> code_expression" where
  "demo_expression x line a b =
     \<lparr>ce_text = x, ce_line = line, ce_start_byte = a, ce_end_byte = b, ce_identifiers = [x], ce_field_paths = [],
      ce_direct_identifier = x, ce_direct_field_path = ''''\<rparr>"

text \<open>The condition \<open>x == NULL\<close>.\<close>

definition demo_null_test :: "string \<Rightarrow> int \<Rightarrow> control_condition" where
  "demo_null_test x line =
     \<lparr>cc_expression = demo_expression x line 0 1, cc_truth = True,
      cc_null_condition = Some \<lparr>nc_when_true = [\<lparr>nf_value = demo_expression x line 0 1, nf_is_null = True\<rparr>],
                                nc_when_false = [\<lparr>nf_value = demo_expression x line 0 1, nf_is_null = False\<rparr>]\<rparr>\<rparr>"

definition demo_call :: "string \<Rightarrow> int \<Rightarrow> int \<Rightarrow> int \<Rightarrow> string list \<Rightarrow> call_site" where
  "demo_call symbol line a b targets =
     \<lparr>cs_symbol = symbol, cs_line = line, cs_argument_count = 1, cs_kind = ''direct'', cs_start_byte = a, cs_end_byte = b,
      cs_qualified_name = '''', cs_generic_qualified_name = '''', cs_receiver = '''', cs_target_ids = targets,
      cs_targets_complete = True, cs_arguments = [], cs_conditions = [], cs_must_conditions = [], cs_result = None\<rparr>"

definition demo_return :: "code_expression \<Rightarrow> control_condition list \<Rightarrow> bool \<Rightarrow> return_site" where
  "demo_return e conditions null =
     \<lparr>rs_value = Some e, rs_line = ce_line e, rs_start_byte = ce_start_byte e, rs_end_byte = ce_end_byte e,
      rs_conditions = conditions, rs_returns_null = null\<rparr>"

text \<open>
  \<open>die\<close> does not return; \<open>xalloc\<close> calls it if \<open>p = malloc(1)\<close> is null; \<open>copy\<close> returns null for a null
  argument and the result of \<open>xalloc\<close> otherwise.
\<close>

definition demo_allocator :: code_graph where
  "demo_allocator = graph_of
     [(demo_function ''m.c::copy'' ''m.c'' ''copy'' [''xalloc''] 1)\<lparr>
        fn_resolved_calls := [''m.c::xalloc''], fn_parameters := [\<lparr>fp_name = ''s'', fp_type_spelling = ''char *''\<rparr>],
        fn_call_sites := [demo_call ''xalloc'' 3 60 70 [''m.c::xalloc'']],
        fn_returns := [demo_return (demo_expression ''NULL'' 2 40 44) [demo_null_test ''s'' 2] True,
                       demo_return (demo_expression '''' 3 60 70) [] False]\<rparr>,
      (demo_function ''m.c::xalloc'' ''m.c'' ''xalloc'' [''malloc'', ''die''] 10)\<lparr>
        fn_resolved_calls := [''m.c::die''],
        fn_call_sites := [(demo_call ''malloc'' 11 110 120 [])\<lparr>cs_result := Some (demo_expression ''p'' 11 105 106)\<rparr>,
                          (demo_call ''die'' 12 130 135 [''m.c::die''])\<lparr>cs_conditions := [demo_null_test ''p'' 12]\<rparr>],
        fn_returns := [demo_return (demo_expression ''p'' 13 150 151) [] False]\<rparr>,
      (demo_function ''m.c::die'' ''m.c'' ''die'' [] 20)\<lparr>fn_tags := [(''control.noreturn'', \<lparr>tag_value = '''', tag_reason = ''''\<rparr>)]\<rparr>]"

lemma demo_allocator_constructed: "constructed demo_allocator"
  unfolding demo_allocator_def by (rule graph_of_constructed)

lemma demo_allocator_hyps: "named_functions demo_allocator" "located_exits demo_allocator" "linked demo_allocator"
  by code_simp+

text \<open>
  C35. The derivation of function contracts ends and does not fail, although a new fact schedules
  the callers again, recursion included: for a graph built by the operations whose functions have
  names and whose functions that do not return have a line, there is a contract for every
  function. If moreover the resolved calls contain the target of every call site with one target,
  the result is a fixed point: deriving any function again adds nothing.
\<close>

theorem function_contracts_fixed_point:
  assumes "constructed g" and "named_functions g" and "located_exits g"
  shows "\<exists>contracts. augment_function_contracts g = Inr contracts \<and> keys contracts = keys (cg_nodes g) \<and>
    (linked g \<longrightarrow> (\<forall>k n c t. get_node g k = Some n \<longrightarrow> map_of contracts k = Some c \<longrightarrow>
       derive_nonnull_return_transfer n contracts = Inr (Some t) \<longrightarrow> t \<in> set (fc_normal_return_transfers c)))"
  using augment_function_contracts_ok[OF constructed_inv[OF assms(1)] assms(2,3)]
  by (auto simp: contracts_ok_def stable_def)

theorem function_contracts_fixed_point_witness:
  "(\<exists>contracts. augment_function_contracts demo_allocator = Inr contracts \<and>
     keys contracts = [''m.c::copy'', ''m.c::xalloc'', ''m.c::die''] \<and>
     \<not> (\<exists>k n c t. get_node demo_allocator k = Some n \<and> map_of contracts k = Some c \<and>
       derive_nonnull_return_transfer n contracts = Inr (Some t) \<and> t \<notin> set (fc_normal_return_transfers c)))"
proof -
  have "keys (cg_nodes demo_allocator) = [''m.c::copy'', ''m.c::xalloc'', ''m.c::die'']" by code_simp
  with function_contracts_fixed_point[OF demo_allocator_constructed demo_allocator_hyps(1,2)] demo_allocator_hyps(3)
  show ?thesis by metis
qed

text \<open>
  C36. The contracts are well-formed: a contract names its function; a normal exit is impossible
  exactly for the functions marked as not returning; and every derived fact says that the
  function's own return value is not null, under distinct requirements about the function's own
  parameters, each with an index in the range of its parameters.
\<close>

theorem function_contracts_wellformed:
  assumes "constructed g" and "named_functions g" and "located_exits g" and "augment_function_contracts g = Inr contracts"
    and "get_node g k = Some n" and "map_of contracts k = Some c"
  shows "fc_function_id c = k \<and> (ne_status (fc_normal_exit c) = ImpossibleExit \<longleftrightarrow> has_tag ''control.noreturn'' n) \<and>
    (\<forall>t \<in> set (fc_normal_return_transfers c). distinct (gt_requirements t) \<and>
       (\<exists>e. gt_effects t = [e] \<and> se_operation e = Negate \<and> fa_subject (se_atom e) = ReturnSubject k) \<and>
       (\<forall>r \<in> set (gt_requirements t). \<exists>i < length (fn_parameters n).
          fa_subject (fl_atom r) = ParameterSubject k (int i) \<and> fl_origin r = Derived))"
proof -
  have "contracts_ok g contracts"
    using augment_function_contracts_ok[OF constructed_inv[OF assms(1)] assms(2,3)] assms(4) by auto
  then obtain c' where "map_of contracts k = Some c'" "contract_ok k n c'" by (rule contracts_okD[OF _ assms(5)])
  with assms(6) have ok: "contract_ok k n c" by simp
  note k = get_node_unique_name[OF constructed_inv[OF assms(1)] assms(5)]
  have "t \<in> possible_transfers n" if "t \<in> set (fc_normal_return_transfers c)" for t using ok that by (auto simp: contract_ok_def)
  note possible_transferD[OF this, unfolded k]
  with ok show ?thesis by (simp add: contract_ok_def exit_of_def no_exit_information_def)
qed

theorem function_contracts_wellformed_witness:
  "\<exists>contracts c t. augment_function_contracts demo_allocator = Inr contracts \<and> map_of contracts ''m.c::copy'' = Some c \<and>
     t \<in> set (fc_normal_return_transfers c) \<and> fc_function_id c = ''m.c::copy'' \<and> distinct (gt_requirements t)"
proof -
  have "case augment_function_contracts demo_allocator of Inl _ \<Rightarrow> False
    | Inr d \<Rightarrow> (case map_of d ''m.c::copy'' of None \<Rightarrow> False | Some c \<Rightarrow> fc_normal_return_transfers c \<noteq> [])" by code_simp
  then obtain contracts c where "augment_function_contracts demo_allocator = Inr contracts" "map_of contracts ''m.c::copy'' = Some c"
    "hd (fc_normal_return_transfers c) \<in> set (fc_normal_return_transfers c)"
    by (auto split: sum.splits option.splits)
  moreover have "get_node demo_allocator ''m.c::copy'' \<noteq> None" by code_simp
  then obtain n where "get_node demo_allocator ''m.c::copy'' = Some n" by blast
  ultimately show ?thesis
    using function_contracts_wellformed[OF demo_allocator_constructed demo_allocator_hyps(1,2)] by blast
qed
end
