(* ===== verification/Finding_Admission.thy ===== *)
theory Finding_Admission
  imports Contract_Fixpoint
begin

text \<open>
  Admission of findings (\<open>engine/nodes/reachability/finding_admission.py\<close> and
  \<open>callsite_has_deterministic_nonnull_return\<close> of \<open>state.py\<close>): a finding that needs the result of a
  call to be null is dropped when the function contracts prove that it is not. The theorem says
  which findings are dropped, in terms of the call, of the source between the call and its use, and
  of the contracts that the fixed point gives.
\<close>

section \<open>Facts that hold at a call site\<close>

definition owner_parameters :: "function_node \<Rightarrow> string list" where
  "owner_parameters owner = filter (\<lambda>x. x \<noteq> '''') (map fp_name (fn_parameters owner))"

definition passed_at :: "call_site \<Rightarrow> string \<Rightarrow> nat list" where
  "passed_at c name = map fst (filter (\<lambda>(i, a). ce_direct_identifier a = name) (List.enumerate 0 (cs_arguments c)))"

definition truth_of :: "null_fact \<Rightarrow> fact_truth" where
  "truth_of nfact = (if nf_is_null nfact then Asserted else Negated)"

definition must_facts_of :: "function_node \<Rightarrow> call_site \<Rightarrow> int \<Rightarrow> null_fact \<Rightarrow> (nat \<times> fact_truth \<times> int) list" where
  "must_facts_of owner c line nfact =
     (let name = ce_direct_identifier (nf_value nfact)
      in if name = '''' \<or> name \<notin> set (owner_parameters owner) then []
         else map (\<lambda>i. (i, truth_of nfact, line)) (passed_at c name))"

definition must_facts :: "function_node \<Rightarrow> call_site \<Rightarrow> (nat \<times> fact_truth \<times> int) list" where
  "must_facts owner c =
     concat (map (\<lambda>condition.
       case cc_null_condition condition of None \<Rightarrow> []
       | Some nc \<Rightarrow> concat (map (must_facts_of owner c (ce_line (cc_expression condition))) (selected_facts condition nc)))
       (cs_must_conditions c))"

definition callsite_must_null_literals :: "function_node \<Rightarrow> call_site \<Rightarrow> string \<Rightarrow> state_error + fact_literal list" where
  "callsite_must_null_literals owner c target_id =
     and_then (map_res (\<lambda>(i, truth, line). null_literal target_id (int i) truth line) (must_facts owner c)) (\<lambda>literals.
     Inr (sort_key repr_literal (remdups literals)))"

definition callsite_has_deterministic_nonnull_return ::
  "function_node \<Rightarrow> call_site \<Rightarrow> (string, function_contract) dict \<Rightarrow> state_error + bool" where
  "callsite_has_deterministic_nonnull_return owner c contracts =
     (case single_target c of
        None \<Rightarrow> Inr False
      | Some target_id \<Rightarrow>
          and_then (callsite_must_null_literals owner c target_id) (\<lambda>literals.
          let proven = map (\<lambda>r. (fl_atom r, fl_truth r)) literals
          in Inr (list_ex (\<lambda>t. list_all (\<lambda>r. (fl_atom r, fl_truth r) \<in> set proven) (gt_requirements t))
                   (callee_nonnull_transfers c contracts))))"

section \<open>Admission\<close>

record grounded_necessary_condition =
  gnc_subject :: security_subject

record grounded_necessary_alternative =
  gna_sink_call_index :: int
  gna_conditions :: "grounded_necessary_condition list"

definition callsite_key :: "call_site \<Rightarrow> int \<times> int \<times> int \<times> string" where
  "callsite_key c = (cs_start_byte c, cs_end_byte c, cs_line c, cs_symbol c)"

definition ordered_node_callsites :: "function_node \<Rightarrow> call_site list" where
  "ordered_node_callsites n = sort_key callsite_key (fn_call_sites n)"

definition expression_matches_result :: "code_expression \<Rightarrow> code_expression \<Rightarrow> bool" where
  "expression_matches_result e result \<longleftrightarrow>
     (ce_direct_identifier result \<noteq> '''' \<and> ce_direct_identifier e = ce_direct_identifier result) \<or>
     (ce_direct_field_path result \<noteq> '''' \<and> ce_direct_field_path e = ce_direct_field_path result)"

definition has_result_span :: "int \<Rightarrow> int \<Rightarrow> call_site \<Rightarrow> bool" where
  "has_result_span a b c = (case cs_result c of None \<Rightarrow> False | Some r \<Rightarrow> ce_start_byte r = a \<and> ce_end_byte r = b)"

text \<open>The subject of a condition is a tracked object; the other subjects do not occur here.\<close>

definition condition_is_contradicted ::
  "code_graph \<Rightarrow> 'c vulnerability_finding \<Rightarrow> call_site \<Rightarrow> grounded_necessary_condition \<Rightarrow> (string, function_contract) dict \<Rightarrow>
   state_error + bool" where
  "condition_is_contradicted g finding sink condition contracts =
     (case gnc_subject condition of
        TrackedObjectSubject function_id path start_byte end_byte \<Rightarrow>
          (case get_node g function_id of
             None \<Rightarrow> Inr False
           | Some n \<Rightarrow>
               if fn_unique_name n \<noteq> vf_primary_function finding then Inr False
               else case filter (has_result_span start_byte end_byte) (ordered_node_callsites n) of
                 [result_call] \<Rightarrow>
                   (case cs_result result_call of
                      None \<Rightarrow> Inr False
                    | Some result \<Rightarrow>
                        if cs_start_byte sink \<le> cs_end_byte result_call then Inr False
                        else let anchor_start = int_or (anchor_int (vf_primary_anchor finding) ''start_line'') (vf_primary_line finding);
                                 anchor_end = int_or (anchor_int (vf_primary_anchor finding) ''end_line'') (vf_primary_line finding)
                             in if \<not> (anchor_start \<le> cs_line sink \<and> cs_line sink \<le> anchor_end) then Inr False
                                else if \<not> list_ex (\<lambda>a. expression_matches_result a result) (cs_arguments sink) then Inr False
                                else if expression_modified_between n result (cs_end_byte result_call) (cs_start_byte sink) then Inr False
                                else if list_ex (\<lambda>c. cs_end_byte result_call < cs_start_byte c \<and> cs_start_byte c < cs_start_byte sink)
                                          (ordered_node_callsites n) then Inr False
                                else callsite_has_deterministic_nonnull_return n result_call contracts)
               | _ \<Rightarrow> Inr False)
      | _ \<Rightarrow> Inr False)"

fun alternative_contradicted ::
  "code_graph \<Rightarrow> 'c vulnerability_finding \<Rightarrow> call_site \<Rightarrow> (string, function_contract) dict \<Rightarrow>
   grounded_necessary_condition list \<Rightarrow> state_error + bool" where
  "alternative_contradicted g finding sink contracts [] = Inr False"
| "alternative_contradicted g finding sink contracts (c # cs) =
     and_then (condition_is_contradicted g finding sink c contracts) (\<lambda>b.
     if b then Inr True else alternative_contradicted g finding sink contracts cs)"

fun all_alternatives_contradicted ::
  "code_graph \<Rightarrow> 'c vulnerability_finding \<Rightarrow> call_site list \<Rightarrow> (string, function_contract) dict \<Rightarrow>
   grounded_necessary_alternative list \<Rightarrow> state_error + bool" where
  "all_alternatives_contradicted g finding calls contracts [] = Inr True"
| "all_alternatives_contradicted g finding calls contracts (a # as) =
     (if \<not> (0 \<le> gna_sink_call_index a \<and> gna_sink_call_index a < int (length calls)) then Inr False
      else and_then (alternative_contradicted g finding (calls ! nat (gna_sink_call_index a)) contracts (gna_conditions a)) (\<lambda>b.
           if \<not> b then Inr False else all_alternatives_contradicted g finding calls contracts as))"

definition finding_admitted ::
  "code_graph \<Rightarrow> (string, grounded_necessary_alternative list) dict \<Rightarrow> (string, function_contract) dict \<Rightarrow>
   string \<times> 'c vulnerability_finding \<Rightarrow> state_error + bool" where
  "finding_admitted g necessary contracts = (\<lambda>(finding_id, finding).
     (case map_of necessary finding_id of
        None \<Rightarrow> Inr True
      | Some [] \<Rightarrow> Inr True
      | Some alternatives \<Rightarrow>
          (case get_node g (vf_primary_function finding) of
             None \<Rightarrow> Inr True
           | Some n \<Rightarrow> and_then (all_alternatives_contradicted g finding (ordered_node_callsites n) contracts alternatives) (\<lambda>b. Inr (\<not> b)))))"

definition admitted_finding_ids ::
  "code_graph \<Rightarrow> (string, 'c vulnerability_finding) dict \<Rightarrow> (string, grounded_necessary_alternative list) dict \<Rightarrow>
   (string, function_contract) dict \<Rightarrow> state_error + string set \<times> int" where
  "admitted_finding_ids g findings necessary contracts =
     and_then (map_res (finding_admitted g necessary contracts) findings) (\<lambda>flags.
       let admitted = set (map fst (filter snd (zip (keys findings) flags)))
       in Inr (admitted, int (length findings) - int (card admitted)))"

section \<open>What a contradiction means\<close>

text \<open>A requirement on a parameter of the callee, known from a condition that holds at the call.\<close>

definition known_at :: "function_node \<Rightarrow> call_site \<Rightarrow> string \<Rightarrow> fact_literal \<Rightarrow> bool" where
  "known_at owner c target_id r \<longleftrightarrow>
     (\<exists>i condition nc nfact. i < length (cs_arguments c) \<and>
        fl_atom r = \<lparr>fa_subject = ParameterSubject target_id (int i), fa_predicate = NullPredicate\<rparr> \<and>
        condition \<in> set (cs_must_conditions c) \<and> cc_null_condition condition = Some nc \<and> nfact \<in> set (selected_facts condition nc) \<and>
        fl_truth r = truth_of nfact \<and> ce_direct_identifier (nf_value nfact) = ce_direct_identifier (cs_arguments c ! i) \<and>
        ce_direct_identifier (nf_value nfact) \<noteq> '''' \<and>
        ce_direct_identifier (nf_value nfact) \<in> fp_name ` set (fn_parameters owner))"

text \<open>A call with one target whose contract has a transfer with requirements that are known at the call.\<close>

definition proven_nonnull :: "function_node \<Rightarrow> call_site \<Rightarrow> (string, function_contract) dict \<Rightarrow> bool" where
  "proven_nonnull owner c contracts \<longleftrightarrow>
     (\<exists>t contract transfer. cs_target_ids c = [t] \<and> map_of contracts t = Some contract \<and>
        transfer \<in> set (fc_normal_return_transfers contract) \<and> (\<forall>r \<in> set (gt_requirements transfer). known_at owner c t r))"

lemma passed_at_iff: "i \<in> set (passed_at c x) \<longleftrightarrow> i < length (cs_arguments c) \<and> ce_direct_identifier (cs_arguments c ! i) = x"
  by (force simp: passed_at_def in_set_enumerate_eq)

lemma must_facts_of_iff:
  "(i, truth, line) \<in> set (must_facts_of owner c line' nfact) \<longleftrightarrow> truth = truth_of nfact \<and> line = line' \<and>
     i < length (cs_arguments c) \<and> ce_direct_identifier (nf_value nfact) = ce_direct_identifier (cs_arguments c ! i) \<and>
     ce_direct_identifier (nf_value nfact) \<noteq> '''' \<and> ce_direct_identifier (nf_value nfact) \<in> fp_name ` set (fn_parameters owner)"
  by (auto simp: must_facts_of_def Let_def passed_at_iff owner_parameters_def)

lemma must_facts_iff:
  "(i, truth, line) \<in> set (must_facts owner c) \<longleftrightarrow>
     (\<exists>condition nc nfact. condition \<in> set (cs_must_conditions c) \<and> cc_null_condition condition = Some nc \<and>
        nfact \<in> set (selected_facts condition nc) \<and> truth = truth_of nfact \<and> line = ce_line (cc_expression condition) \<and>
        i < length (cs_arguments c) \<and> ce_direct_identifier (nf_value nfact) = ce_direct_identifier (cs_arguments c ! i) \<and>
        ce_direct_identifier (nf_value nfact) \<noteq> '''' \<and>
        ce_direct_identifier (nf_value nfact) \<in> fp_name ` set (fn_parameters owner))"
proof -
  have "x \<in> set (must_facts owner c) \<longleftrightarrow> (\<exists>condition nc nfact. condition \<in> set (cs_must_conditions c) \<and>
      cc_null_condition condition = Some nc \<and> nfact \<in> set (selected_facts condition nc) \<and>
      x \<in> set (must_facts_of owner c (ce_line (cc_expression condition)) nfact))" for x
  proof -
    have "x \<in> set (case m of None \<Rightarrow> [] | Some nc \<Rightarrow> concat (map f (sel nc))) \<longleftrightarrow>
        (\<exists>nc nfact. m = Some nc \<and> nfact \<in> set (sel nc) \<and> x \<in> set (f nfact))" for m f and sel :: "null_condition \<Rightarrow> null_fact list"
      by (cases m) auto
    then show ?thesis by (simp add: must_facts_def Bex_def)
  qed
  then show ?thesis by (simp only: must_facts_of_iff)
qed

lemma must_literals_ok:
  assumes "t \<noteq> ''''"
  shows "\<exists>ls. callsite_must_null_literals owner c t = Inr ls \<and>
    (\<forall>r. (fl_atom r, fl_truth r) \<in> (\<lambda>l. (fl_atom l, fl_truth l)) ` set ls \<longleftrightarrow> known_at owner c t r)"
proof -
  let ?l = "\<lambda>(i, truth, line). \<lparr>fl_atom = \<lparr>fa_subject = ParameterSubject t (int i), fa_predicate = NullPredicate\<rparr>,
     fl_truth = truth, fl_evidence_line = line, fl_origin = Derived\<rparr>"
  have "null_literal t (int i) truth line = Inr (?l (i, truth, line))" for i truth line
    using assms by (simp add: null_literal_def null_atom_def security_subject_post_init_def)
  then have "map_res (\<lambda>(i, truth, line). null_literal t (int i) truth line) xs = Inr (map ?l xs)" for xs
    by (induction xs) auto
  then have "callsite_must_null_literals owner c t = Inr (sort_key repr_literal (remdups (map ?l (must_facts owner c))))"
    by (simp add: callsite_must_null_literals_def)
  moreover have "(fl_atom r, fl_truth r) \<in> (\<lambda>l. (fl_atom l, fl_truth l)) ` set (sort_key repr_literal (remdups (map ?l (must_facts owner c))))
      \<longleftrightarrow> (\<exists>i line. fl_atom r = \<lparr>fa_subject = ParameterSubject t (int i), fa_predicate = NullPredicate\<rparr> \<and>
            (i, fl_truth r, line) \<in> set (must_facts owner c))" for r
    by force
  ultimately show ?thesis unfolding must_facts_iff known_at_def by blast
qed

text \<open>All derived transfers are source-proven facts about the return value, so none is filtered out.\<close>

lemma nonnull_transfers_all:
  assumes inv: "graph_inv g" and ok: "contracts_ok g contracts" and c: "cs_target_ids c = [t]" "map_of contracts t = Some contract"
  shows "callee_nonnull_transfers c contracts = fc_normal_return_transfers contract"
proof -
  from c(2) have "t \<in> set (keys (cg_nodes g))" using ok map_of_Some_keys[OF c(2)] by (simp add: contracts_ok_def)
  from key_get_node[OF this] obtain n where n: "get_node g t = Some n" by blast
  obtain contract' where "map_of contracts t = Some contract'" "contract_ok t n contract'" by (rule contracts_okD[OF ok n])
  with c(2) have "set (fc_normal_return_transfers contract) \<subseteq> possible_transfers n" by (simp add: contract_ok_def)
  moreover have "list_all (\<lambda>r. source_proven (fl_origin r)) (gt_requirements tr) \<and>
      list_ex (\<lambda>e. se_atom e = \<lparr>fa_subject = ReturnSubject t, fa_predicate = NullPredicate\<rparr> \<and>
                   se_operation e = Negate \<and> source_proven (se_origin e)) (gt_effects tr)" if "tr \<in> possible_transfers n" for tr
    using that get_node_unique_name[OF inv n]
    by (auto simp: possible_transfers_def own_literals_def list_all_iff source_proven_def)
  ultimately show ?thesis
    unfolding callee_nonnull_transfers_def single_target_def c list.case option.case by (intro filter_True) blast
qed

definition targets_named :: "call_site \<Rightarrow> bool" where
  "targets_named c \<longleftrightarrow> '''' \<notin> set (cs_target_ids c)"

lemma post_init_targets_named: "call_site_post_init c = Inr () \<Longrightarrow> targets_named c"
  by (auto simp: call_site_post_init_def targets_named_def raise_if_def res_simps split: if_splits)

lemma deterministic_nonnull_iff:
  assumes inv: "graph_inv g" and ok: "contracts_ok g contracts" and named: "targets_named c"
  shows "callsite_has_deterministic_nonnull_return owner c contracts = Inr (proven_nonnull owner c contracts)"
proof (cases "\<exists>t. cs_target_ids c = [t]")
  case True
  then obtain t where t: "cs_target_ids c = [t]" by blast
  with named have "t \<noteq> ''''" by (simp add: targets_named_def)
  from must_literals_ok[OF this] obtain ls where ls: "callsite_must_null_literals owner c t = Inr ls"
    "\<And>r. (fl_atom r, fl_truth r) \<in> (\<lambda>l. (fl_atom l, fl_truth l)) ` set ls \<longleftrightarrow> known_at owner c t r" by blast
  have "callsite_has_deterministic_nonnull_return owner c contracts =
      Inr (\<exists>tr \<in> set (callee_nonnull_transfers c contracts). \<forall>r \<in> set (gt_requirements tr). known_at owner c t r)"
    using ls by (simp add: callsite_has_deterministic_nonnull_return_def single_target_def t Let_def list_ex_iff list_all_iff)
  moreover have "map_of contracts t = None \<Longrightarrow> callee_nonnull_transfers c contracts = []"
    by (simp add: callee_nonnull_transfers_def single_target_def t)
  ultimately show ?thesis
    using nonnull_transfers_all[OF inv ok t] t
    by (cases "map_of contracts t") (auto simp: proven_nonnull_def)
next
  case False
  then have "single_target c = None" by (auto simp: single_target_def split: list.splits)
  with False show ?thesis by (auto simp: callsite_has_deterministic_nonnull_return_def proven_nonnull_def)
qed

definition contradicted ::
  "code_graph \<Rightarrow> (string, function_contract) dict \<Rightarrow> 'c vulnerability_finding \<Rightarrow> call_site \<Rightarrow> grounded_necessary_condition \<Rightarrow> bool" where
  "contradicted g contracts f sink condition \<longleftrightarrow>
     (\<exists>fid path a b n rc result. gnc_subject condition = TrackedObjectSubject fid path a b \<and> get_node g fid = Some n \<and>
        fn_unique_name n = vf_primary_function f \<and> filter (has_result_span a b) (ordered_node_callsites n) = [rc] \<and>
        cs_result rc = Some result \<and> cs_end_byte rc < cs_start_byte sink \<and>
        int_or (anchor_int (vf_primary_anchor f) ''start_line'') (vf_primary_line f) \<le> cs_line sink \<and>
        cs_line sink \<le> int_or (anchor_int (vf_primary_anchor f) ''end_line'') (vf_primary_line f) \<and>
        (\<exists>argument \<in> set (cs_arguments sink). expression_matches_result argument result) \<and>
        \<not> expression_modified_between n result (cs_end_byte rc) (cs_start_byte sink) \<and>
        (\<forall>c \<in> set (fn_call_sites n). \<not> (cs_end_byte rc < cs_start_byte c \<and> cs_start_byte c < cs_start_byte sink)) \<and>
        proven_nonnull n rc contracts)"

definition call_sites_named :: "code_graph \<Rightarrow> bool" where
  "call_sites_named g \<longleftrightarrow> list_all (\<lambda>(k, n). list_all targets_named (fn_call_sites n)) (cg_nodes g)"

lemma condition_is_contradicted_iff:
  assumes inv: "graph_inv g" and ok: "contracts_ok g contracts" and named: "call_sites_named g"
  shows "condition_is_contradicted g f sink condition contracts = Inr (contradicted g contracts f sink condition)"
proof (cases "gnc_subject condition")
  case (TrackedObjectSubject fid path a b)
  show ?thesis
  proof (cases "\<exists>n rc result. get_node g fid = Some n \<and> filter (has_result_span a b) (ordered_node_callsites n) = [rc] \<and> cs_result rc = Some result")
    case True
    then obtain n rc result where n: "get_node g fid = Some n" and rc: "filter (has_result_span a b) (ordered_node_callsites n) = [rc]"
      and result: "cs_result rc = Some result" by blast
    have "rc \<in> set (filter (has_result_span a b) (ordered_node_callsites n))" using rc by simp
    then have "rc \<in> set (fn_call_sites n)" by (simp add: ordered_node_callsites_def)
    moreover have "(fid, n) \<in> set (cg_nodes g)" using n by (auto simp: get_node_def dest: map_of_SomeD)
    ultimately have "targets_named rc" using named by (auto simp: call_sites_named_def list_all_iff)
    note det = deterministic_nonnull_iff[OF inv ok this, of n]
    have sites: "set (ordered_node_callsites n) = set (fn_call_sites n)" by (simp add: ordered_node_callsites_def)
    show ?thesis
      unfolding condition_is_contradicted_def contradicted_def TrackedObjectSubject security_subject.case n option.case rc list.case
        result det Let_def
      by (auto simp: list_ex_iff sites not_le n rc result)
  next
    case False
    then show ?thesis
      by (auto simp: condition_is_contradicted_def contradicted_def TrackedObjectSubject split: option.splits list.splits)
  qed
qed (simp_all add: condition_is_contradicted_def contradicted_def)

definition refuted ::
  "code_graph \<Rightarrow> (string, function_contract) dict \<Rightarrow> (string, grounded_necessary_alternative list) dict \<Rightarrow>
   string \<Rightarrow> 'c vulnerability_finding \<Rightarrow> bool" where
  "refuted g contracts necessary finding_id f \<longleftrightarrow>
     (\<exists>alternatives n. map_of necessary finding_id = Some alternatives \<and> alternatives \<noteq> [] \<and>
        get_node g (vf_primary_function f) = Some n \<and>
        (\<forall>a \<in> set alternatives. 0 \<le> gna_sink_call_index a \<and> gna_sink_call_index a < int (length (fn_call_sites n)) \<and>
           (\<exists>condition \<in> set (gna_conditions a).
              contradicted g contracts f (ordered_node_callsites n ! nat (gna_sink_call_index a)) condition)))"

lemma alternative_contradicted_iff:
  assumes "graph_inv g" and "contracts_ok g contracts" and "call_sites_named g"
  shows "alternative_contradicted g f sink contracts cs = Inr (\<exists>c \<in> set cs. contradicted g contracts f sink c)"
  by (induction cs) (simp_all add: condition_is_contradicted_iff[OF assms])

lemma all_alternatives_contradicted_iff:
  assumes "graph_inv g" and "contracts_ok g contracts" and "call_sites_named g"
  shows "all_alternatives_contradicted g f calls contracts as =
    Inr (\<forall>a \<in> set as. 0 \<le> gna_sink_call_index a \<and> gna_sink_call_index a < int (length calls) \<and>
       (\<exists>c \<in> set (gna_conditions a). contradicted g contracts f (calls ! nat (gna_sink_call_index a)) c))"
  by (induction as) (auto simp: alternative_contradicted_iff[OF assms])

lemma finding_admitted_iff:
  assumes "graph_inv g" and "contracts_ok g contracts" and "call_sites_named g"
  shows "finding_admitted g necessary contracts (k, f) = Inr (\<not> refuted g contracts necessary k f)"
  by (auto simp: finding_admitted_def refuted_def all_alternatives_contradicted_iff[OF assms] ordered_node_callsites_def
      simp del: all_alternatives_contradicted.simps split: option.split list.split)

lemma keys_where_not:
  assumes "wf_dict d"
  shows "set (map fst (filter snd (map (\<lambda>(k, v). (k, \<not> P k v)) d))) = set (keys d) - {k. \<exists>v. map_of d k = Some v \<and> P k v}"
proof -
  have look: "map_of d k = Some v \<longleftrightarrow> (k, v) \<in> set d" for k v using assms by (simp add: wf_dict_def keys_def map_of_eq_Some_iff)
  have same: "v = v'" if "(k, v) \<in> set d" "(k, v') \<in> set d" for k v v' using that look by (metis option.inject)
  have "set (map fst (filter snd (map (\<lambda>(k, v). (k, \<not> P k v)) d))) = {k. \<exists>v. (k, v) \<in> set d \<and> \<not> P k v}" by force
  moreover have "set (keys d) = {k. \<exists>v. (k, v) \<in> set d}" by (force simp: keys_def)
  ultimately show ?thesis unfolding look using same by blast
qed

lemma admitted_finding_ids_eq:
  fixes findings :: "(string, 'c vulnerability_finding) dict"
  assumes g: "graph_inv g" "contracts_ok g contracts" "call_sites_named g" and wf: "wf_dict findings"
  shows "admitted_finding_ids g findings necessary contracts =
    Inr (set (keys findings) - {k. \<exists>f. map_of findings k = Some f \<and> refuted g contracts necessary k f},
         int (card {k. \<exists>f. map_of findings k = Some f \<and> refuted g contracts necessary k f}))"
    (is "_ = Inr (?A, int (card ?R))")
proof -
  have "map_res (finding_admitted g necessary contracts) xs = Inr (map (\<lambda>(k, f). \<not> refuted g contracts necessary k f) xs)"
    for xs :: "(string, 'c vulnerability_finding) dict" by (induction xs) (auto simp: finding_admitted_iff[OF g])
  moreover have "zip (keys findings) (map (\<lambda>(k, f). \<not> refuted g contracts necessary k f) findings) =
      map (\<lambda>(k, f). (k, \<not> refuted g contracts necessary k f)) findings"
    by (induction findings) auto
  moreover have "set (map fst (filter snd (map (\<lambda>(k, f). (k, \<not> refuted g contracts necessary k f)) findings))) = ?A"
    by (rule keys_where_not[OF wf])
  moreover have "int (length findings) - int (card ?A) = int (card ?R)"
  proof -
    have sub: "?R \<subseteq> set (keys findings)" by (auto dest: map_of_Some_keys)
    have "card (set (keys findings)) = length findings" using wf distinct_card[of "map fst findings"] by (simp add: wf_dict_def keys_def)
    with sub show ?thesis using card_mono[OF _ sub] by (simp add: card_Diff_subset finite_subset[OF sub])
  qed
  ultimately show ?thesis by (simp only: admitted_finding_ids_def and_then_Inr Let_def)
qed

text \<open>
  The function \<open>use\<close> calls \<open>free_list(p)\<close> on the result \<open>p\<close> of \<open>xalloc\<close>, which never returns null;
  \<open>other\<close> does so on the result of an unknown function.
\<close>

definition demo_user :: "string \<Rightarrow> string list \<Rightarrow> function_node" where
  "demo_user name targets =
     (demo_function (''m.c::'' @ name) ''m.c'' name [] 30)\<lparr>
        fn_resolved_calls := targets,
        fn_call_sites := [(demo_call ''make'' 31 310 320 targets)\<lparr>cs_result := Some (demo_expression ''p'' 31 305 306)\<rparr>,
                          (demo_call ''free_list'' 32 330 340 [])\<lparr>cs_arguments := [demo_expression ''p'' 32 335 336]\<rparr>]\<rparr>"

definition demo_users :: code_graph where
  "demo_users = graph_of (vals (cg_nodes demo_allocator) @ [demo_user ''use'' [''m.c::xalloc''], demo_user ''other'' []])"

lemma demo_users_constructed: "constructed demo_users"
  unfolding demo_users_def by (rule graph_of_constructed)

lemma demo_users_hyps: "named_functions demo_users" "located_exits demo_users" "call_sites_named demo_users"
  by code_simp+

definition demo_findings :: "(string, unit vulnerability_finding) dict" where
  "demo_findings =
     [(''f1'', demo_finding\<lparr>vf_primary_function := ''m.c::use'', vf_primary_line := 32\<rparr>),
      (''f2'', demo_finding\<lparr>vf_primary_function := ''m.c::other'', vf_primary_line := 32\<rparr>)]"

definition demo_necessary :: "(string, grounded_necessary_alternative list) dict" where
  "demo_necessary =
     [(''f1'', [\<lparr>gna_sink_call_index = 1, gna_conditions = [\<lparr>gnc_subject = TrackedObjectSubject ''m.c::use'' ''m.c'' 305 306\<rparr>]\<rparr>]),
      (''f2'', [\<lparr>gna_sink_call_index = 1, gna_conditions = [\<lparr>gnc_subject = TrackedObjectSubject ''m.c::other'' ''m.c'' 305 306\<rparr>]\<rparr>])]"

text \<open>
  C37. Admission against the contracts that the fixed point derives does not fail and drops
  exactly the refuted findings, which it counts: those with at least one alternative, in a function
  of the graph, all of whose alternatives name a call of the function as the sink and have a
  condition that is contradicted. A condition is contradicted only if one call stores its result
  in the tracked place, the sink comes after it on a line of the finding and uses that result, no
  assignment, loop or other call comes between, and the only target of the call has a derived
  contract whose requirements are known from the conditions that hold at the call.
\<close>

theorem admission_drops_refuted:
  assumes "constructed g" and "named_functions g" and "located_exits g" and "call_sites_named g"
    and "augment_function_contracts g = Inr contracts" and "wf_dict findings"
  shows "\<exists>admitted dropped. admitted_finding_ids g findings necessary contracts = Inr (admitted, int (card dropped)) \<and>
    dropped = {k. \<exists>f. map_of findings k = Some f \<and> refuted g contracts necessary k f} \<and>
    admitted \<union> dropped = set (keys findings) \<and> admitted \<inter> dropped = {}"
proof -
  have "contracts_ok g contracts"
    using augment_function_contracts_ok[OF constructed_inv[OF assms(1)] assms(2,3)] assms(5) by auto
  from admitted_finding_ids_eq[OF constructed_inv[OF assms(1)] this assms(4,6)] show ?thesis
    by (intro exI conjI) (assumption, rule refl, auto dest: map_of_Some_keys)
qed

theorem admission_drops_refuted_witness:
  "\<exists>contracts. augment_function_contracts demo_users = Inr contracts \<and>
     admitted_finding_ids demo_users demo_findings demo_necessary contracts = Inr ({''f2''}, 1) \<and>
     (\<exists>f. map_of demo_findings ''f1'' = Some f \<and> refuted demo_users contracts demo_necessary ''f1'' f)"
proof -
  have "case augment_function_contracts demo_users of Inl _ \<Rightarrow> False
    | Inr d \<Rightarrow> admitted_finding_ids demo_users demo_findings demo_necessary d = Inr ({''f2''}, 1)" by code_simp
  then obtain contracts where c: "augment_function_contracts demo_users = Inr contracts"
    "admitted_finding_ids demo_users demo_findings demo_necessary contracts = Inr ({''f2''}, 1)" by (auto split: sum.splits)
  have wf: "wf_dict demo_findings" and f1: "''f1'' \<in> set (keys demo_findings)" by code_simp+
  from admission_drops_refuted[OF demo_users_constructed demo_users_hyps c(1) wf, of demo_necessary] c(2)
  obtain dropped where d: "dropped = {k. \<exists>f. map_of demo_findings k = Some f \<and> refuted demo_users contracts demo_necessary k f}"
    "{''f2''} \<union> dropped = set (keys demo_findings)" by auto
  have "''f1'' \<in> {''f2''} \<union> dropped" unfolding d(2) by (rule f1)
  then have "''f1'' \<in> dropped" by simp
  with c show ?thesis unfolding d(1) by blast
qed

end
