(* ===== verification/Text_Split.thy ===== *)
theory Text_Split
  imports Prelude
begin

text \<open>
  Splitting of source text (\<open>utils.py\<close>: \<open>source_lines\<close>, \<open>split_snippet\<close>,
  \<open>_partition_token_bounded_parts\<close> and \<open>_split_token_bounded_text\<close>). The token counter belongs to
  the model provider and is a parameter. No character is lost, every chunk carries the line on
  which it starts, and every chunk is within the token limit.
\<close>

section \<open>Lines\<close>

text \<open>\<open>list(StringIO(text))\<close>: the lines with their ends; only a line feed ends a line.\<close>

abbreviation newline :: char where
  "newline \<equiv> CHR 0x0A"

fun string_io_lines :: "string \<Rightarrow> string list" where
  "string_io_lines [] = []"
| "string_io_lines (c # s) =
     (if c = newline then [c] # string_io_lines s
      else case string_io_lines s of [] \<Rightarrow> [[c]] | l # ls \<Rightarrow> (c # l) # ls)"

definition removesuffix :: "string \<Rightarrow> string \<Rightarrow> string" where
  "removesuffix s suffix = (if suffix \<noteq> '''' \<and> endswith s suffix then take (length s - length suffix) s else s)"

definition source_lines :: "string \<Rightarrow> bool \<Rightarrow> string list" where
  "source_lines text keepends =
     (let lines = string_io_lines text
      in if keepends then lines
         else map (\<lambda>line. removesuffix (removesuffix line [CHR 0x0D, newline]) [newline]) lines)"

section \<open>Splitting\<close>

datatype split_error = NotPositive | FragmentTooLarge | CharacterTooLarge

text \<open>The stack of pending pieces is a list whose head is popped; \<open>None\<close> stands for a loop that never ends.\<close>

partial_function (option) split_pending ::
  "(string \<Rightarrow> int) \<Rightarrow> int \<Rightarrow> string list \<Rightarrow> string list \<Rightarrow> (split_error + string list) option" where
  "split_pending counter max_tokens parts pending =
     (if pending = [] then Some (Inr parts)
      else if counter (hd pending) \<le> max_tokens
           then split_pending counter max_tokens (parts @ [hd pending]) (tl pending)
      else if length (hd pending) = 1 then Some (Inl CharacterTooLarge)
      else split_pending counter max_tokens parts
             (take (length (hd pending) div 2) (hd pending) # drop (length (hd pending) div 2) (hd pending) # tl pending))"

definition split_token_bounded_text :: "string \<Rightarrow> int \<Rightarrow> (string \<Rightarrow> int) \<Rightarrow> (split_error + string list) option" where
  "split_token_bounded_text text max_tokens counter =
     (if text = '''' \<or> counter text \<le> max_tokens then Some (Inr (if text = '''' then [] else [text]))
      else split_pending counter max_tokens [] [text])"

function partition_token_bounded_parts ::
  "(string \<times> int) list \<Rightarrow> int \<Rightarrow> (string \<Rightarrow> int) \<Rightarrow> split_error + (string \<times> int) list" where
  "partition_token_bounded_parts parts max_tokens counter =
     (case parts of
        [] \<Rightarrow> Inr []
      | part # _ \<Rightarrow>
          let combined = concat (map fst parts)
          in if counter combined \<le> max_tokens then Inr [(combined, snd part)]
             else if length parts = 1 then Inl FragmentTooLarge
             else let midpoint = length parts div 2
                  in and_then (partition_token_bounded_parts (take midpoint parts) max_tokens counter) (\<lambda>left.
                     and_then (partition_token_bounded_parts (drop midpoint parts) max_tokens counter) (\<lambda>right.
                     Inr (left @ right))))"
  by pat_completeness auto
termination
  by (relation "measure (\<lambda>(parts, _). length parts)") (auto simp: Suc_lessI)

declare partition_token_bounded_parts.simps [simp del]

fun split_lines :: "(string \<Rightarrow> int) \<Rightarrow> int \<Rightarrow> int \<Rightarrow> string list \<Rightarrow> (split_error + (string \<times> int) list) option" where
  "split_lines counter max_tokens line_number [] = Some (Inr [])"
| "split_lines counter max_tokens line_number (line # lines) =
     (case split_token_bounded_text line max_tokens counter of
        None \<Rightarrow> None
      | Some (Inl e) \<Rightarrow> Some (Inl e)
      | Some (Inr pieces) \<Rightarrow>
          (case split_lines counter max_tokens (line_number + 1) lines of
             None \<Rightarrow> None
           | Some (Inl e) \<Rightarrow> Some (Inl e)
           | Some (Inr parts) \<Rightarrow> Some (Inr (map (\<lambda>p. (p, line_number)) pieces @ parts))))"

text \<open>\<open>count_tokens\<close> is the counter used when none is given.\<close>

definition split_snippet ::
  "(string \<Rightarrow> int) \<Rightarrow> string \<Rightarrow> int \<Rightarrow> (string \<Rightarrow> int) option \<Rightarrow> (split_error + (string \<times> int) list) option" where
  "split_snippet count_tokens snippet max_tokens token_counter =
     (if max_tokens \<le> 0 then Some (Inl NotPositive)
      else let counter = (case token_counter of None \<Rightarrow> count_tokens | Some f \<Rightarrow> f)
           in case split_lines counter max_tokens 1 (source_lines snippet True) of
                None \<Rightarrow> None
              | Some (Inl e) \<Rightarrow> Some (Inl e)
              | Some (Inr parts) \<Rightarrow> Some (partition_token_bounded_parts parts max_tokens counter))"

section \<open>Lemmas\<close>

definition newlines :: "string \<Rightarrow> int" where
  "newlines s = int (count_list s newline)"

lemma newlines_simps [simp]: "newlines [] = 0" "newlines (s @ t) = newlines s + newlines t"
  "newlines (c # s) = (if c = newline then 1 else 0) + newlines s"
  by (simp_all add: newlines_def)

lemma concat_string_io_lines: "concat (string_io_lines s) = s"
  by (induction s) (auto split: list.split)

lemma string_io_lines_nonempty: "l \<in> set (string_io_lines s) \<Longrightarrow> l \<noteq> []"
  by (induction s arbitrary: l) (auto split: if_splits list.splits)

text \<open>A line feed occurs at the end of a line only, and every line but the last has one.\<close>

fun wf_lines :: "string list \<Rightarrow> bool" where
  "wf_lines [] \<longleftrightarrow> True"
| "wf_lines (l # ls) \<longleftrightarrow> l \<noteq> [] \<and> newline \<notin> set (butlast l) \<and> (ls \<noteq> [] \<longrightarrow> last l = newline) \<and> wf_lines ls"

lemma wf_string_io_lines: "wf_lines (string_io_lines s)"
  by (induction s) (auto split: list.split)

text \<open>Each piece carries the line on which it starts.\<close>

fun numbered :: "int \<Rightarrow> (string \<times> int) list \<Rightarrow> bool" where
  "numbered line [] \<longleftrightarrow> True"
| "numbered line ((s, k) # xs) \<longleftrightarrow> k = line \<and> numbered (line + newlines s) xs"

lemma numbered_append:
  "numbered line (xs @ ys) \<longleftrightarrow> numbered line xs \<and> numbered (line + newlines (concat (map fst xs))) ys"
  by (induction line xs rule: numbered.induct) (auto simp: add.assoc)

lemma numbered_nth:
  "numbered line xs \<Longrightarrow> i < length xs \<Longrightarrow> snd (xs ! i) = line + newlines (concat (map fst (take i xs)))"
proof (induction line xs arbitrary: i rule: numbered.induct)
  case (2 line s k xs)
  then show ?case by (cases i) auto
qed simp

lemma numbered_one_line:
  assumes "newline \<notin> set (butlast (concat ps))" and "\<And>p. p \<in> set ps \<Longrightarrow> p \<noteq> []"
  shows "numbered line (map (\<lambda>p. (p, line)) ps)"
  using assms
proof (induction ps)
  case (Cons p ps)
  show ?case
  proof (cases "ps = []")
    case False
    then obtain q qs where ps: "ps = q # qs" by (cases ps) auto
    with Cons.prems(2) have "concat ps \<noteq> []" by auto
    then have no: "newline \<notin> set p" "newline \<notin> set (butlast (concat ps))"
      using Cons.prems(1) by (simp_all del: concat_eq_Nil_conv add: butlast_append)
    then have "newlines p = 0" by (simp add: newlines_def)
    with Cons.IH no Cons.prems(2) show ?thesis by simp
  qed simp
qed simp

definition within :: "(string \<Rightarrow> int) \<Rightarrow> int \<Rightarrow> string list \<Rightarrow> bool" where
  "within counter max_tokens ps \<longleftrightarrow> (\<forall>p \<in> set ps. p \<noteq> [] \<and> counter p \<le> max_tokens)"

text \<open>The outcome of splitting a text: pieces that make it up, or a character that is too large.\<close>

definition split_of :: "(string \<Rightarrow> int) \<Rightarrow> int \<Rightarrow> string \<Rightarrow> string list \<Rightarrow> split_error + string list \<Rightarrow> bool" where
  "split_of counter max_tokens text parts r \<longleftrightarrow>
     (case r of
        Inl e \<Rightarrow> e = CharacterTooLarge \<and> (\<exists>c \<in> set text. max_tokens < counter [c])
      | Inr ps \<Rightarrow> \<exists>qs. ps = parts @ qs \<and> concat qs = text \<and> within counter max_tokens qs)"

lemma split_of_step:
  assumes "split_of counter m (concat rest) (parts @ [p]) r" and "p \<noteq> []" and "counter p \<le> m"
  shows "split_of counter m (p @ concat rest) parts r"
proof (cases r)
  case (Inr ps)
  with assms(1) obtain qs where "ps = parts @ p # qs" "concat qs = concat rest" "within counter m qs"
    by (auto simp: split_of_def)
  with Inr assms(2,3) show ?thesis by (auto simp: split_of_def within_def intro!: exI[of _ "p # qs"])
qed (use assms(1) in \<open>auto simp: split_of_def\<close>)

lemma split_pending_spec:
  assumes "\<And>p. p \<in> set pending \<Longrightarrow> p \<noteq> []"
  shows "\<exists>r. split_pending counter m parts pending = Some r \<and> split_of counter m (concat pending) parts r"
  using assms
proof (induction "sum_list (map (\<lambda>p. 2 * length p - 1) pending)" arbitrary: pending parts rule: less_induct)
  case less
  show ?case
  proof (cases pending)
    case Nil
    then show ?thesis by (simp add: split_pending.simps split_of_def within_def)
  next
    case (Cons p rest)
    then have p: "p \<noteq> []" and rest: "\<And>q. q \<in> set rest \<Longrightarrow> q \<noteq> []" using less.prems by auto
    consider "counter p \<le> m" | "\<not> counter p \<le> m" "length p = 1" | "\<not> counter p \<le> m" "2 \<le> length p"
      using p by (cases p rule: remdups_adj.cases) auto
    then show ?thesis
    proof cases
      case 1
      have "sum_list (map (\<lambda>p. 2 * length p - 1) rest) < sum_list (map (\<lambda>p. 2 * length p - 1) pending)"
        using p by (cases p) (auto simp: Cons)
      from less.hyps[OF this rest] obtain r where "split_pending counter m (parts @ [p]) rest = Some r"
        "split_of counter m (concat rest) (parts @ [p]) r" by blast
      with 1 p split_of_step show ?thesis by (subst split_pending.simps) (simp add: Cons)
    next
      case 2
      then obtain c where "p = [c]" by (cases p) auto
      with 2 show ?thesis by (subst split_pending.simps) (simp add: Cons split_of_def)
    next
      case 3
      let ?h = "length p div 2"
      let ?next = "take ?h p # drop ?h p # rest"
      have "0 < ?h" "?h < length p" using 3(2) by auto
      then have "sum_list (map (\<lambda>p. 2 * length p - 1) ?next) < sum_list (map (\<lambda>p. 2 * length p - 1) pending)"
        and "\<And>q. q \<in> set ?next \<Longrightarrow> q \<noteq> []" using rest by (auto simp: Cons)
      from less.hyps[OF this] obtain r where r: "split_pending counter m parts ?next = Some r"
        "split_of counter m (concat ?next) parts r" by blast
      have same: "concat ?next = concat pending" by (simp add: Cons)
      have "split_pending counter m parts pending = Some r" using r(1) 3 by (subst split_pending.simps) (simp add: Cons)
      with r(2) show ?thesis unfolding same by blast
    qed
  qed
qed

lemma split_text_spec:
  "\<exists>r. split_token_bounded_text text m counter = Some r \<and> split_of counter m text [] r"
  using split_pending_spec[of "[text]" counter m "[]"]
  by (auto simp: split_token_bounded_text_def split_of_def within_def)

definition parts_of :: "(string \<Rightarrow> int) \<Rightarrow> int \<Rightarrow> int \<Rightarrow> string \<Rightarrow> (string \<times> int) list \<Rightarrow> bool" where
  "parts_of counter m line text parts \<longleftrightarrow>
     concat (map fst parts) = text \<and> within counter m (map fst parts) \<and> numbered line parts"

lemma parts_of_append:
  "parts_of counter m line s xs \<Longrightarrow> parts_of counter m (line + newlines s) t ys \<Longrightarrow> parts_of counter m line (s @ t) (xs @ ys)"
  by (auto simp: parts_of_def numbered_append within_def)

lemma split_lines_spec:
  assumes "wf_lines lines"
  shows "\<exists>r. split_lines counter m line lines = Some r \<and>
    (case r of Inl e \<Rightarrow> e = CharacterTooLarge \<and> (\<exists>c \<in> set (concat lines). m < counter [c])
     | Inr parts \<Rightarrow> parts_of counter m line (concat lines) parts)"
  using assms
proof (induction lines arbitrary: line)
  case Nil
  then show ?case by (simp add: parts_of_def within_def)
next
  case (Cons l ls)
  from split_text_spec obtain r where r: "split_token_bounded_text l m counter = Some r" "split_of counter m l [] r" by blast
  from Cons obtain r' where r': "split_lines counter m (line + 1) ls = Some r'"
    "case r' of Inl e \<Rightarrow> e = CharacterTooLarge \<and> (\<exists>c \<in> set (concat ls). m < counter [c])
     | Inr parts \<Rightarrow> parts_of counter m (line + 1) (concat ls) parts" by fastforce
  show ?case
  proof (cases r; cases r')
    fix pieces parts
    assume eq: "r = Inr pieces" "r' = Inr parts"
    with r(2) have pieces: "concat pieces = l" "within counter m pieces" by (auto simp: split_of_def)
    have "parts_of counter m line l (map (\<lambda>p. (p, line)) pieces)"
      using pieces Cons.prems numbered_one_line[of pieces line] by (auto simp: parts_of_def within_def comp_def)
    moreover have "parts_of counter m (line + newlines l) (concat ls) parts"
    proof (cases "ls = []")
      case True
      with r'(1) eq have "parts = []" by simp
      with True show ?thesis by (simp add: parts_of_def within_def)
    next
      case False
      with Cons.prems have l: "butlast l @ [newline] = l" "newline \<notin> set (butlast l)"
        using append_butlast_last_id[of l] by auto
      have "newlines (x @ [newline]) = 1" if "newline \<notin> set x" for x
        using that by (simp add: newlines_def count_list_0_iff)
      from this[OF l(2)] have "newlines l = 1" unfolding l(1) .
      with r'(2) eq show ?thesis by simp
    qed
    ultimately show ?thesis using r(1) r'(1) eq parts_of_append by simp
  qed (use r r' in \<open>auto simp: split_of_def\<close>)
qed

lemma partition_spec:
  assumes "within counter m (map fst parts)" and "numbered line parts"
  shows "\<exists>chunks. partition_token_bounded_parts parts m counter = Inr chunks \<and>
    parts_of counter m line (concat (map fst parts)) chunks"
  using assms
proof (induction parts m counter arbitrary: line rule: partition_token_bounded_parts.induct)
  case (1 parts m counter)
  show ?case
  proof (cases parts)
    case Nil
    then show ?thesis by (simp add: partition_token_bounded_parts.simps parts_of_def within_def)
  next
    case (Cons part rest)
    let ?all = "concat (map fst parts)"
    have "snd part = line" using "1.prems"(2) Cons by (cases part) auto
    consider "counter ?all \<le> m" | "\<not> counter ?all \<le> m" "2 \<le> length parts"
      using "1.prems"(1) Cons by (cases rest) (auto simp: within_def)
    then show ?thesis
    proof cases
      case 1
      then have "partition_token_bounded_parts parts m counter = Inr [(?all, snd part)]"
        by (subst partition_token_bounded_parts.simps) (simp add: Cons)
      moreover have "parts_of counter m line ?all [(?all, snd part)]"
        using 1 \<open>snd part = line\<close> "1.prems"(1) by (simp add: parts_of_def within_def Cons)
      ultimately show ?thesis by blast
    next
      case 2
      let ?h = "length parts div 2"
      have halves: "parts = take ?h parts @ drop ?h parts" by simp
      from "1.prems" have left: "within counter m (map fst (take ?h parts))" "numbered line (take ?h parts)"
        and right: "within counter m (map fst (drop ?h parts))"
          "numbered (line + newlines (concat (map fst (take ?h parts)))) (drop ?h parts)"
        using numbered_append[of line "take ?h parts" "drop ?h parts"]
        by (auto simp: within_def dest: in_set_takeD in_set_dropD)
      have cond: "\<not> counter ?all \<le> m" "length parts \<noteq> 1" using 2 by auto
      from "1.IH"(1)[OF Cons refl cond refl left] obtain xs where
        xs: "partition_token_bounded_parts (take ?h parts) m counter = Inr xs"
          "parts_of counter m line (concat (map fst (take ?h parts))) xs" by blast
      from "1.IH"(2)[OF Cons refl cond refl right] obtain ys where
        ys: "partition_token_bounded_parts (drop ?h parts) m counter = Inr ys"
          "parts_of counter m (line + newlines (concat (map fst (take ?h parts)))) (concat (map fst (drop ?h parts))) ys" by blast
      have "partition_token_bounded_parts parts m counter = Inr (xs @ ys)"
        using cond xs(1) ys(1) by (subst partition_token_bounded_parts.simps) (simp add: Cons)
      moreover have "concat (map fst (take ?h parts)) @ concat (map fst (drop ?h parts)) = ?all"
        by (metis concat_append halves map_append)
      with parts_of_append[OF xs(2) ys(2)] have "parts_of counter m line ?all (xs @ ys)" by simp
      ultimately show ?thesis by blast
    qed
  qed
qed

section \<open>Properties\<close>

lemma split_snippet_spec:
  assumes "0 < m"
  shows "\<exists>r. split_snippet count_tokens s m f = Some r \<and>
    (let counter = (case f of None \<Rightarrow> count_tokens | Some g \<Rightarrow> g)
     in case r of Inl e \<Rightarrow> e = CharacterTooLarge \<and> (\<exists>c \<in> set s. m < counter [c])
        | Inr chunks \<Rightarrow> parts_of counter m 1 s chunks)"
proof -
  let ?counter = "case f of None \<Rightarrow> count_tokens | Some g \<Rightarrow> g"
  from split_lines_spec[OF wf_string_io_lines, of ?counter m 1 s, unfolded concat_string_io_lines] obtain r where
    r: "split_lines ?counter m 1 (string_io_lines s) = Some r"
      "case r of Inl e \<Rightarrow> e = CharacterTooLarge \<and> (\<exists>c \<in> set s. m < ?counter [c]) | Inr parts \<Rightarrow> parts_of ?counter m 1 s parts"
    by blast
  show ?thesis
  proof (cases r)
    case (Inr parts)
    with r(2) have parts: "concat (map fst parts) = s" "within ?counter m (map fst parts)" "numbered 1 parts"
      by (auto simp: parts_of_def)
    from partition_spec[OF parts(2,3)] obtain chunks where
      "partition_token_bounded_parts parts m ?counter = Inr chunks" "parts_of ?counter m 1 s chunks" by (auto simp: parts(1))
    with Inr r(1) assms show ?thesis by (simp add: split_snippet_def source_lines_def Let_def)
  qed (use r assms in \<open>simp add: split_snippet_def source_lines_def Let_def\<close>)
qed

text \<open>A counter for which a token is four characters.\<close>

definition demo_counter :: "string \<Rightarrow> int" where
  "demo_counter s = (int (length s) + 3) div 4"

text \<open>
  Splitting loses nothing and counts lines right: whenever a text is split, the chunks put
  together are the text, and each chunk carries the number of the line on which it starts, one
  more than the line feeds before it.
\<close>

theorem split_snippet_roundtrip:
  assumes "split_snippet count_tokens s m f = Some (Inr chunks)"
  shows "concat (map fst chunks) = s \<and>
    (\<forall>i < length chunks. snd (chunks ! i) = 1 + int (count_list (concat (map fst (take i chunks))) newline))"
proof -
  have m: "0 < m" using assms by (auto simp: split_snippet_def split: if_splits)
  have "concat (map fst chunks) = s" "numbered 1 chunks"
    using split_snippet_spec[OF m, of count_tokens s f] assms by (auto simp: Let_def parts_of_def)
  then show ?thesis using numbered_nth[of 1 chunks] by (simp add: newlines_def)
qed

theorem split_snippet_roundtrip_witness:
  "concat (map fst [(''int a;'' @ [newline], 1), (''int b;'', 2 :: int)]) = ''int a;'' @ newline # ''int b;''"
proof -
  have "split_snippet demo_counter (''int a;'' @ newline # ''int b;'') 2 None
      = Some (Inr [(''int a;'' @ [newline], 1), (''int b;'', 2)])" by code_simp
  from conjunct1[OF split_snippet_roundtrip[OF this]] show ?thesis .
qed

text \<open>
  Splitting always ends, although a piece that is too large is pushed back in halves, and
  keeps the limit: every chunk has a character and at most \<open>max_tokens\<close> tokens. A limit below one is
  refused; otherwise the only failure is a single character of the text whose count exceeds the
  limit, so a text whose characters all fit is split.
\<close>

theorem split_snippet_bounds:
  "\<exists>r. split_snippet count_tokens s m f = Some r \<and>
    (case r of
       Inr chunks \<Rightarrow> 0 < m \<and> list_all (\<lambda>c. fst c \<noteq> '''' \<and> (case f of None \<Rightarrow> count_tokens | Some g \<Rightarrow> g) (fst c) \<le> m) chunks
     | Inl NotPositive \<Rightarrow> m \<le> 0
     | Inl CharacterTooLarge \<Rightarrow> 0 < m \<and> list_ex (\<lambda>c. m < (case f of None \<Rightarrow> count_tokens | Some g \<Rightarrow> g) [c]) s
     | Inl FragmentTooLarge \<Rightarrow> False)"
proof (cases "0 < m")
  case True
  from split_snippet_spec[OF this, of count_tokens s f] obtain r where
    "split_snippet count_tokens s m f = Some r"
    "case r of Inl e \<Rightarrow> e = CharacterTooLarge \<and> (\<exists>c \<in> set s. m < (case f of None \<Rightarrow> count_tokens | Some g \<Rightarrow> g) [c])
     | Inr chunks \<Rightarrow> parts_of (case f of None \<Rightarrow> count_tokens | Some g \<Rightarrow> g) m 1 s chunks" by (auto simp: Let_def)
  with True show ?thesis
    by (cases r) (auto simp: parts_of_def within_def list_all_iff list_ex_iff)
qed (simp add: split_snippet_def)

end
