(* ===== verification/Source_Map.thy ===== *)
theory Source_Map
  imports Text_Split Posix_Path
begin

text \<open>
  Source maps (\<open>engine/source/source_map.py\<close>, \<open>engine/source/anchor.py\<close>): the lines and byte offsets
  of a file, and the resolution of a snippet that a model reports to the lines where it stands.
  The text is ASCII, so that encoding and decoding change nothing. The function spans, found by a
  parser outside the repository or by a regular expression, and the hash are parameters. The cache
  of hashes is part of the state and is threaded through the operations that use it.
\<close>

section \<open>Anchors\<close>

datatype confidence = Exact | Disambiguated | Fuzzy | Unresolved
datatype anchor_kind = KindFunction | KindStatement | KindRange | KindChunk

record code_anchor =
  an_file_path :: string
  an_start_line :: int
  an_end_line :: int
  an_start_col :: int
  an_end_col :: int
  an_start_byte :: int
  an_end_byte :: int
  an_symbol :: "string option"
  an_kind :: anchor_kind
  an_content_hash :: string
  an_confidence :: confidence

text \<open>\<open>str.lstrip("./")\<close> removes every leading dot and slash.\<close>

definition normalize_path :: "string \<Rightarrow> string" where
  "normalize_path path = dropWhile (\<lambda>c. c = CHR ''.'' \<or> c = slash) (replace_char (CHR 0x5C) slash (normpath path))"

fun collapse_spaces :: "string \<Rightarrow> string" where
  "collapse_spaces [] = []"
| "collapse_spaces (c # s) =
     (if is_space c then (case s of [] \<Rightarrow> '' '' | d # _ \<Rightarrow> if is_space d then collapse_spaces s else CHR '' '' # collapse_spaces s)
      else c # collapse_spaces s)"

definition content_hash :: "(string \<Rightarrow> string) \<Rightarrow> string \<Rightarrow> string" where
  "content_hash sha256 text = take 16 (sha256 (collapse_spaces (strip text)))"

definition code_anchor_post_init :: "code_anchor \<Rightarrow> code_anchor" where
  "code_anchor_post_init a = a\<lparr>an_file_path := normalize_path (an_file_path a)\<rparr>"

definition display_id :: "code_anchor \<Rightarrow> string" where
  "display_id a =
     an_file_path a @ ''#'' @ (case an_symbol a of None \<Rightarrow> '''' | Some s \<Rightarrow> s) @ ''@'' @ show_int (an_start_line a) @ ''-'' @ show_int (an_end_line a)"

definition stable_id :: "code_anchor \<Rightarrow> string" where
  "stable_id a =
     an_file_path a @ ''#'' @
     (case an_symbol a of None \<Rightarrow> ''<file>'' | Some s \<Rightarrow> if s = '''' then ''<file>'' else s) @ ''~'' @ an_content_hash a"

definition unresolved_anchor :: "string \<Rightarrow> string option \<Rightarrow> code_anchor" where
  "unresolved_anchor file_path symbol = code_anchor_post_init
     \<lparr>an_file_path = file_path, an_start_line = 0, an_end_line = 0, an_start_col = 0, an_end_col = 0, an_start_byte = 0,
      an_end_byte = 0, an_symbol = symbol, an_kind = KindRange, an_content_hash = '''', an_confidence = Unresolved\<rparr>"

section \<open>The map\<close>

record source_map =
  sm_rel_path :: string
  sm_source :: string
  sm_anchor_source :: string
  sm_lines :: "string list"
  sm_line_offsets :: "int list"
  sm_functions :: "(int \<times> int \<times> string) list"
  sm_anchor_hashes :: "((int \<times> int) \<times> string) list"

fun line_ends :: "int \<Rightarrow> string \<Rightarrow> int list" where
  "line_ends i [] = []"
| "line_ends i (c # s) = (if c = newline then [i + 1] else []) @ line_ends (i + 1) s"

definition compute_line_offsets :: "string \<Rightarrow> int list" where
  "compute_line_offsets source = 0 # line_ends 0 source"

datatype source_error = UnequalLength

definition new_source_map ::
  "(string \<Rightarrow> string \<Rightarrow> (int \<times> int \<times> string) list) \<Rightarrow> string \<Rightarrow> string \<Rightarrow> string option \<Rightarrow> source_error + source_map" where
  "new_source_map spans rel_path text anchor_source =
     (let anchors = (case anchor_source of None \<Rightarrow> text | Some s \<Rightarrow> s)
      in and_then (raise_if (length anchors \<noteq> length text) UnequalLength) (\<lambda>_.
         Inr \<lparr>sm_rel_path = normalize_path rel_path, sm_source = text, sm_anchor_source = anchors,
              sm_lines = source_lines text False, sm_line_offsets = compute_line_offsets text,
              sm_functions = sort (spans (normalize_path rel_path) text), sm_anchor_hashes = []\<rparr>))"

definition line_count :: "source_map \<Rightarrow> int" where
  "line_count sm = int (length (sm_lines sm))"

text \<open>\<open>bisect.bisect_right\<close> on a sorted list: the number of entries that are at most the value.\<close>

definition bisect_right :: "int list \<Rightarrow> int \<Rightarrow> int" where
  "bisect_right xs v = int (length (takeWhile (\<lambda>x. x \<le> v) xs))"

definition slice :: "int \<Rightarrow> int \<Rightarrow> 'a list \<Rightarrow> 'a list" where
  "slice a b xs = drop (nat a) (take (nat b) xs)"

definition byte_to_line :: "source_map \<Rightarrow> int \<Rightarrow> int" where
  "byte_to_line sm byte_offset =
     (if byte_offset \<le> 0 then 1 else max 1 (bisect_right (sm_line_offsets sm) byte_offset - 1 + 1))"

definition line_to_byte :: "source_map \<Rightarrow> int \<Rightarrow> int" where
  "line_to_byte sm line = sm_line_offsets sm ! nat (max 1 (min line (int (length (sm_line_offsets sm)))) - 1)"

text \<open>Called with a line of at least one.\<close>

definition line_end_byte :: "source_map \<Rightarrow> int \<Rightarrow> int" where
  "line_end_byte sm line =
     (if line < int (length (sm_line_offsets sm))
      then let end_byte = sm_line_offsets sm ! nat line - 1
           in if slice (end_byte - 1) end_byte (sm_source sm) = [CHR 0x0D] then end_byte - 1 else end_byte
      else int (length (sm_source sm)))"

definition byte_slice :: "source_map \<Rightarrow> int \<Rightarrow> int \<Rightarrow> string" where
  "byte_slice sm start_byte end_byte =
     (let n = int (length (sm_source sm)); start = max 0 (min start_byte n); stop = max start (min end_byte n)
      in slice start stop (sm_source sm))"

section \<open>Rendering\<close>

definition number_line :: "nat \<Rightarrow> int \<Rightarrow> string \<Rightarrow> string" where
  "number_line width i line =
     replicate (width - length (show_int i)) (CHR '' '') @ show_int i @ '': '' @ line"

definition numbered_slice :: "source_map \<Rightarrow> int \<Rightarrow> int \<Rightarrow> int option \<Rightarrow> string" where
  "numbered_slice sm start_line end_line max_lines =
     (if sm_lines sm = [] then ''''
      else let start = max 1 (min start_line (line_count sm));
               full_end = max start (min end_line (line_count sm));
               stop = (case max_lines of None \<Rightarrow> full_end
                       | Some n \<Rightarrow> if n < full_end - start + 1 then start + n - 1 else full_end);
               width = length (show_int stop)
           in join [newline] (map (\<lambda>i. number_line width i (sm_lines sm ! nat (i - 1))) [start..stop]))"

definition context_slice :: "source_map \<Rightarrow> int \<Rightarrow> int \<Rightarrow> int option \<Rightarrow> string" where
  "context_slice sm line radius max_chars =
     (let l = max 1 line; out = numbered_slice sm (l - radius) (l + radius) None
      in case max_chars of None \<Rightarrow> out | Some n \<Rightarrow> if n = 0 then out else slice 0 n out)"

definition find_function_span :: "source_map \<Rightarrow> string option \<Rightarrow> int \<Rightarrow> (int \<times> int) option" where
  "find_function_span sm name near_line =
     (let spans = (case name of None \<Rightarrow> sm_functions sm | Some x \<Rightarrow> filter (\<lambda>(s, e, n). n = x) (sm_functions sm))
      in if spans = [] then None
         else case arg_min_list (\<lambda>(s, e, n). (if s \<le> near_line \<and> near_line \<le> e then 0 else 1 :: int, \<bar>s - near_line\<bar>)) spans of
                (s, e, _) \<Rightarrow> Some (s, e))"

text \<open>The lines that fit; \<open>used\<close> is the length of what has been selected.\<close>

fun fitting_lines :: "int \<Rightarrow> bool \<Rightarrow> int \<Rightarrow> string list \<Rightarrow> string list" where
  "fitting_lines max_chars first used [] = []"
| "fitting_lines max_chars first used (line # lines) =
     (let sep = (if first then 0 else 1)
      in if max_chars < used + sep + int (length line) then []
         else line # fitting_lines max_chars False (used + sep + int (length line)) lines)"

definition function_slice :: "source_map \<Rightarrow> int \<Rightarrow> int \<Rightarrow> int \<Rightarrow> int \<Rightarrow> string" where
  "function_slice sm start_line end_line max_chars fallback_lines =
     (let stop = (if end_line \<noteq> 0 then end_line
                  else case find_function_span sm None start_line of
                         Some (_, e) \<Rightarrow> e | None \<Rightarrow> min (line_count sm) (start_line + fallback_lines));
          rendered = numbered_slice sm start_line stop None
      in if int (length rendered) \<le> max_chars then rendered
         else let selected = fitting_lines max_chars True 0 (source_lines rendered False)
              in if selected \<noteq> [] then join [newline] selected else slice 0 max_chars rendered)"

definition number_text :: "string \<Rightarrow> int \<Rightarrow> string" where
  "number_text text start_line =
     (let lines = source_lines text False
      in if lines = [] then ''''
         else let width = length (show_int (start_line + int (length lines) - 1))
              in join [newline] (map (\<lambda>(i, line). number_line width (start_line + int i) line) (List.enumerate 0 lines)))"

definition enclosing_symbol :: "source_map \<Rightarrow> int \<Rightarrow> string option" where
  "enclosing_symbol sm line =
     (case List.find (\<lambda>(s, e, n). s \<le> line \<and> line \<le> e) (sm_functions sm) of
        None \<Rightarrow> None | Some (_, _, n) \<Rightarrow> Some (sm_rel_path sm @ ''::'' @ n))"

section \<open>Anchors for lines and bytes\<close>

definition anchor_content_hash :: "(string \<Rightarrow> string) \<Rightarrow> source_map \<Rightarrow> int \<Rightarrow> int \<Rightarrow> string \<times> source_map" where
  "anchor_content_hash sha256 sm start_byte end_byte =
     (let key = (start_byte, end_byte); hashes = sm_anchor_hashes sm
      in case map_of hashes key of
           Some digest \<Rightarrow> (digest, sm\<lparr>sm_anchor_hashes := AList.delete key hashes @ [(key, digest)]\<rparr>)
         | None \<Rightarrow>
             let digest = content_hash sha256 (slice start_byte end_byte (sm_anchor_source sm));
                 kept = (if 256 \<le> length hashes then tl hashes else hashes)
             in (digest, sm\<lparr>sm_anchor_hashes := kept @ [(key, digest)]\<rparr>))"

definition anchor_for_lines ::
  "(string \<Rightarrow> string) \<Rightarrow> source_map \<Rightarrow> int \<Rightarrow> int \<Rightarrow> confidence \<Rightarrow> code_anchor \<times> source_map" where
  "anchor_for_lines sha256 sm start_line end_line conf =
     (let start = max 1 (min start_line (if line_count sm = 0 then 1 else line_count sm));
          stop = max start (min end_line (if line_count sm = 0 then start else line_count sm));
          sb = line_to_byte sm start;
          eb = line_end_byte sm stop;
          symbol = enclosing_symbol sm start;
          (digest, sm') = anchor_content_hash sha256 sm sb eb
      in (code_anchor_post_init
            \<lparr>an_file_path = sm_rel_path sm, an_start_line = start, an_end_line = stop, an_start_col = 0,
             an_end_col = (if sm_lines sm = [] then 0 else int (length (sm_lines sm ! nat (stop - 1)))),
             an_start_byte = sb, an_end_byte = eb, an_symbol = symbol, an_kind = KindRange,
             an_content_hash = digest, an_confidence = conf\<rparr>, sm'))"

definition anchor_for_bytes :: "(string \<Rightarrow> string) \<Rightarrow> source_map \<Rightarrow> int \<Rightarrow> int \<Rightarrow> string option \<Rightarrow> anchor_kind \<Rightarrow> confidence \<Rightarrow> code_anchor" where
  "anchor_for_bytes sha256 sm start_byte end_byte symbol kind conf =
     (let sl = byte_to_line sm start_byte; el = byte_to_line sm (max start_byte (end_byte - 1))
      in code_anchor_post_init
           \<lparr>an_file_path = sm_rel_path sm, an_start_line = sl, an_end_line = el,
            an_start_col = start_byte - line_to_byte sm sl, an_end_col = max 0 (end_byte - line_to_byte sm el),
            an_start_byte = start_byte, an_end_byte = end_byte,
            an_symbol = (case symbol of None \<Rightarrow> enclosing_symbol sm sl | Some _ \<Rightarrow> symbol), an_kind = kind,
            an_content_hash = content_hash sha256 (slice start_byte end_byte (sm_anchor_source sm)), an_confidence = conf\<rparr>)"

section \<open>Resolution of snippets\<close>

text \<open>\<open>s.split()\<close>: the maximal pieces without white space.\<close>

fun split_spaces :: "string \<Rightarrow> string list" where
  "split_spaces [] = [[]]"
| "split_spaces (c # s) =
     (if is_space c then [] # split_spaces s
      else case split_spaces s of [] \<Rightarrow> [[c]] | w # ws \<Rightarrow> (c # w) # ws)"

definition norm_line :: "string \<Rightarrow> string" where
  "norm_line line = join '' '' (filter (\<lambda>w. w \<noteq> '''') (split_spaces line))"

text \<open>The regular expression \<open>^\s*(\d+):\s?\<close>: the number and the rest of the line.\<close>

definition digits_value :: "string \<Rightarrow> int" where
  "digits_value ds = foldl (\<lambda>n d. 10 * n + (of_char d - 48)) 0 ds"

definition numbered_line_prefix :: "string \<Rightarrow> (int \<times> string) option" where
  "numbered_line_prefix line =
     (let s = dropWhile is_space line; ds = takeWhile is_digit s; r = dropWhile is_digit s
      in if ds = [] then None
         else case r of
                c # t \<Rightarrow> if c = CHR '':'' then Some (digits_value ds, case t of [] \<Rightarrow> [] | d # u \<Rightarrow> if is_space d then u else t) else None
              | [] \<Rightarrow> None)"

fun strip_numbers :: "int \<Rightarrow> string list \<Rightarrow> string list option" where
  "strip_numbers n [] = Some []"
| "strip_numbers n (line # lines) =
     (case numbered_line_prefix line of
        None \<Rightarrow> None
      | Some (k, rest) \<Rightarrow> if k \<noteq> n then None else map_option ((#) rest) (strip_numbers (n + 1) lines))"

definition without_consistent_line_numbers :: "string \<Rightarrow> int option \<Rightarrow> int option \<Rightarrow> string" where
  "without_consistent_line_numbers snippet start_line end_line =
     (case (start_line, end_line) of
        (Some a, Some b) \<Rightarrow>
          (let lines = source_lines snippet False
           in if int (length lines) \<noteq> max 0 (b + 1 - a) then snippet
              else case strip_numbers a lines of None \<Rightarrow> snippet | Some ls \<Rightarrow> join [newline] ls)
      | _ \<Rightarrow> snippet)"

text \<open>\<open>h.find(needle, start)\<close> and \<open>needle in h\<close>.\<close>

fun find_at :: "int \<Rightarrow> string \<Rightarrow> string \<Rightarrow> int option" where
  "find_at i needle [] = (if needle = [] then Some i else None)"
| "find_at i needle (c # h) = (if startswith (c # h) needle then Some i else find_at (i + 1) needle h)"

definition str_find :: "string \<Rightarrow> string \<Rightarrow> int \<Rightarrow> int option" where
  "str_find h needle start = (if int (length h) < start then None else find_at start needle (drop (nat start) h))"

definition contains :: "string \<Rightarrow> string \<Rightarrow> bool" where
  "contains h needle \<longleftrightarrow> str_find h needle 0 \<noteq> None"

definition in_hint :: "(int \<times> int) option \<Rightarrow> int \<Rightarrow> bool" where
  "in_hint hint i = (case hint of None \<Rightarrow> False | Some (a, b) \<Rightarrow> a \<le> i \<and> i < b)"

text \<open>\<open>name.split("::")[-1]\<close>; \<open>part\<close> is what has been read since the last separator.\<close>

fun last_part :: "string \<Rightarrow> string \<Rightarrow> string" where
  "last_part part [] = part"
| "last_part part [c] = part @ [c]"
| "last_part part (a # b # s) =
     (if a = CHR '':'' \<and> b = CHR '':'' then last_part [] s else last_part (part @ [a]) (b # s))"

definition disambiguate :: "source_map \<Rightarrow> (int \<times> int) list \<Rightarrow> (int \<times> int) option \<Rightarrow> string \<Rightarrow> int \<times> int" where
  "disambiguate sm all_spans hint context_text =
     (let hinted = filter (\<lambda>(a, b). in_hint hint a \<or> in_hint hint b) all_spans;
          spans = (if hint \<noteq> None \<and> hinted \<noteq> [] then hinted else all_spans)
      in if hint \<noteq> None \<and> length hinted = 1 then hd hinted
         else if context_text = '''' then hd spans
         else case List.find (\<lambda>(a, b). case enclosing_symbol sm a of None \<Rightarrow> False
                       | Some name \<Rightarrow> last_part [] name \<noteq> '''' \<and> contains context_text (last_part [] name)) spans of
                Some span \<Rightarrow> span | None \<Rightarrow> hd spans)"

definition verbatim_source :: "source_map \<Rightarrow> string \<times> int list" where
  "verbatim_source sm = (let text = join [newline] (map rstrip (sm_lines sm)) in (text, compute_line_offsets text))"

text \<open>The loop that collects the occurrences from \<open>pos\<close> on.\<close>

lemma find_at_range:
  "find_at i needle h = Some j \<Longrightarrow> i \<le> j \<and> j \<le> i + int (length h)"
  by (induction i needle h rule: find_at.induct) (auto split: if_splits)

lemma str_find_range: "\<not> start < 0 \<Longrightarrow> str_find h needle start = Some j \<Longrightarrow> start \<le> j \<and> j \<le> int (length h)"
  by (auto simp: str_find_def split: if_splits dest!: find_at_range)

function occurrences :: "string \<Rightarrow> string \<Rightarrow> int \<Rightarrow> int list" where
  "occurrences h needle start =
     (if start < 0 then []
      else case str_find h needle start of None \<Rightarrow> [] | Some pos \<Rightarrow> pos # occurrences h needle (pos + 1))"
  by pat_completeness auto
termination
  by (relation "measure (\<lambda>(h, needle, start). nat (int (length h) + 1 - start))") (use str_find_range in fastforce)+

declare occurrences.simps [simp del]

definition resolve_verbatim ::
  "(string \<Rightarrow> string) \<Rightarrow> source_map \<Rightarrow> string list \<Rightarrow> (int \<times> int) option \<Rightarrow> string \<Rightarrow> code_anchor option \<times> source_map" where
  "resolve_verbatim sha256 sm snippet_lines hint context_text =
     (let needle = join [newline] snippet_lines; (haystack, line_starts) = verbatim_source sm;
          n = int (length snippet_lines);
          span_of = (\<lambda>pos. let start = bisect_right line_starts pos in (start, start + n - 1));
          found = (\<lambda>(a, b) conf. map_prod Some id (anchor_for_lines sha256 sm a b conf))
      in case str_find haystack needle 0 of
           None \<Rightarrow> (None, sm)
         | Some first \<Rightarrow>
             (case str_find haystack needle (first + 1) of
                None \<Rightarrow> found (span_of first) Exact
              | Some second \<Rightarrow>
                  if hint = None \<and> context_text = '''' then found (span_of first) Disambiguated
                  else let spans = span_of first # map span_of (occurrences haystack needle second)
                       in found (disambiguate sm spans hint context_text) Disambiguated))"

definition line_index :: "source_map \<Rightarrow> string \<Rightarrow> int list" where
  "line_index sm w = map (\<lambda>(i, _). int i + 1) (filter (\<lambda>(_, line). norm_line line = w) (List.enumerate 0 (sm_lines sm)))"

text \<open>\<open>while hits[j] < bound: j += 1\<close>; the loop stops at the current hit at the latest.\<close>

definition advance :: "int list \<Rightarrow> int \<Rightarrow> nat \<Rightarrow> nat" where
  "advance hits bound j = j + length (takeWhile (\<lambda>h. h < bound) (drop j hits))"

definition fuzzy_step ::
  "int list \<Rightarrow> int \<Rightarrow> (int \<times> int) option \<Rightarrow> nat \<times> int \<times> int \<Rightarrow> nat \<times> int \<Rightarrow> nat \<times> int \<times> int" where
  "fuzzy_step hits window hint = (\<lambda>(j, best_start, best_count) (i, h).
     let j' = advance hits (h - window) j; c = int i - int j' + 1
     in if best_count < c \<or> (c = best_count \<and> in_hint hint h \<and> \<not> in_hint hint best_start)
        then (j', hits ! j', c) else (j', best_start, best_count))"

definition wanted_lines :: "string list \<Rightarrow> string list" where
  "wanted_lines snippet_lines =
     filter (\<lambda>n. 8 \<le> length n \<and> n \<notin> {''{'', ''}'', ''};''}) (map norm_line snippet_lines)"

definition resolve_fuzzy ::
  "(string \<Rightarrow> string) \<Rightarrow> source_map \<Rightarrow> string list \<Rightarrow> (int \<times> int) option \<Rightarrow> code_anchor option \<times> source_map" where
  "resolve_fuzzy sha256 sm snippet_lines hint =
     (let wanted = wanted_lines snippet_lines;
          hits = sort (concat (map (line_index sm) wanted))
      in if wanted = [] \<or> hits = [] then (None, sm)
         else let window = int (max (length snippet_lines) 3);
                  (_, best_start, _) = foldl (fuzzy_step hits window hint) (0, hd hits, 1) (List.enumerate 0 hits);
                  cluster = filter (\<lambda>h. best_start \<le> h \<and> h \<le> best_start + window) hits
              in map_prod Some id (anchor_for_lines sha256 sm (Min (set cluster)) (Max (set cluster)) Fuzzy))"

definition trimmed_lines :: "string \<Rightarrow> string list" where
  "trimmed_lines snippet =
     rev (dropWhile (\<lambda>l. strip l = '''') (rev (dropWhile (\<lambda>l. strip l = '''') (map rstrip (source_lines snippet False)))))"

definition resolve_snippet ::
  "(string \<Rightarrow> string) \<Rightarrow> source_map \<Rightarrow> string \<Rightarrow> (int \<times> int) option \<Rightarrow> string \<Rightarrow> code_anchor option \<times> source_map" where
  "resolve_snippet sha256 sm snippet hint context_text =
     (if snippet = '''' \<or> sm_lines sm = [] then (None, sm)
      else let snippet_lines = trimmed_lines snippet
           in if snippet_lines = [] then (None, sm)
              else case resolve_verbatim sha256 sm snippet_lines hint context_text of
                     (Some a, sm') \<Rightarrow> (Some a, sm')
                   | (None, sm') \<Rightarrow> resolve_fuzzy sha256 sm' snippet_lines hint)"

definition verify_lines ::
  "(string \<Rightarrow> string) \<Rightarrow> source_map \<Rightarrow> int \<Rightarrow> int \<Rightarrow> string \<Rightarrow> code_anchor option \<times> source_map" where
  "verify_lines sha256 sm start_line end_line snippet =
     (if \<not> (1 \<le> start_line \<and> start_line \<le> end_line \<and> end_line \<le> line_count sm) then (None, sm)
      else let actual = map norm_line (slice (start_line - 1) end_line (sm_lines sm));
               wanted = filter (\<lambda>l. l \<noteq> '''') (map norm_line (source_lines snippet False));
               joined_actual = join '' '' (filter (\<lambda>a. a \<noteq> '''') actual);
               joined_wanted = join '' '' wanted
           in if wanted = [] \<or> joined_actual = '''' then (None, sm)
              else if contains joined_actual joined_wanted \<or> contains joined_wanted joined_actual
                   then map_prod Some id (anchor_for_lines sha256 sm start_line end_line Exact)
              else (None, sm))"

fun verify_candidates ::
  "(string \<Rightarrow> string) \<Rightarrow> source_map \<Rightarrow> int \<Rightarrow> int \<Rightarrow> string list \<Rightarrow> code_anchor option \<times> source_map" where
  "verify_candidates sha256 sm a b [] = (None, sm)"
| "verify_candidates sha256 sm a b (c # cs) =
     (case verify_lines sha256 sm a b c of
        (Some v, sm') \<Rightarrow> (Some v, sm') | (None, sm') \<Rightarrow> verify_candidates sha256 sm' a b cs)"

fun locate_candidates ::
  "(string \<Rightarrow> string) \<Rightarrow> source_map \<Rightarrow> (int \<times> int) option \<Rightarrow> string \<Rightarrow> string list \<Rightarrow> code_anchor option \<times> source_map" where
  "locate_candidates sha256 sm hint context_text [] = (None, sm)"
| "locate_candidates sha256 sm hint context_text (c # cs) =
     (if c = '''' then locate_candidates sha256 sm hint context_text cs
      else case resolve_snippet sha256 sm c hint context_text of
             (Some v, sm') \<Rightarrow> (Some v, sm') | (None, sm') \<Rightarrow> locate_candidates sha256 sm' hint context_text cs)"

definition resolve_issue ::
  "(string \<Rightarrow> string) \<Rightarrow> source_map \<Rightarrow> string \<Rightarrow> int option \<Rightarrow> int option \<Rightarrow> (int \<times> int) option \<Rightarrow> string \<Rightarrow> code_anchor \<times> source_map" where
  "resolve_issue sha256 sm snippet start_line end_line hint context_text =
     (let unnumbered = without_consistent_line_numbers snippet start_line end_line;
          candidates = (if unnumbered \<noteq> snippet then [snippet, unnumbered] else [snippet]);
          (verified, sm1) = (case (start_line, end_line) of
             (Some a, Some b) \<Rightarrow> verify_candidates sha256 sm a b candidates | _ \<Rightarrow> (None, sm))
      in case verified of
           Some v \<Rightarrow> (v, sm1)
         | None \<Rightarrow> (case locate_candidates sha256 sm1 hint context_text candidates of
                      (Some v, sm2) \<Rightarrow> (v, sm2)
                    | (None, sm2) \<Rightarrow> (unresolved_anchor (sm_rel_path sm2) None, sm2)))"

section \<open>Occurrences\<close>

definition occurs_at :: "string \<Rightarrow> string \<Rightarrow> nat \<Rightarrow> bool" where
  "occurs_at h needle k \<longleftrightarrow> k \<le> length h \<and> startswith (drop k h) needle"

lemma occurs_at_Cons [simp]: "occurs_at (c # h) needle (Suc k) \<longleftrightarrow> occurs_at h needle k"
  by (simp add: occurs_at_def)

lemma occurs_at_0: "occurs_at h needle 0 \<longleftrightarrow> startswith h needle"
  by (simp add: occurs_at_def)

lemma occurs_at_drop: "s \<le> length h \<Longrightarrow> occurs_at (drop s h) needle k \<longleftrightarrow> occurs_at h needle (s + k)"
  by (auto simp: occurs_at_def add.commute)


lemma find_at_spec:
  "case find_at i needle h of
     None \<Rightarrow> \<forall>k. \<not> occurs_at h needle k
   | Some j \<Rightarrow> \<exists>k. j = i + int k \<and> occurs_at h needle k \<and> (\<forall>k' < k. \<not> occurs_at h needle k')"
proof (induction i needle h rule: find_at.induct)
  case (1 i needle)
  then show ?case by (auto simp: occurs_at_def startswith_def)
next
  case (2 i needle c h)
  show ?case
  proof (cases "startswith (c # h) needle")
    case True
    then show ?thesis by (auto simp: occurs_at_0 intro!: exI[of _ 0])
  next
    case False
    have none: "\<not> occurs_at (c # h) needle 0" using False by (simp add: occurs_at_0)
    show ?thesis
    proof (cases "find_at (i + 1) needle h")
      case None
      with 2 False have "\<not> occurs_at h needle k" for k by simp
      with none have "\<not> occurs_at (c # h) needle k" for k by (cases k) auto
      with None False show ?thesis by simp
    next
      case (Some j)
      with 2 False obtain k where k: "j = i + 1 + int k" "occurs_at h needle k" "\<forall>k' < k. \<not> occurs_at h needle k'" by auto
      have "\<not> occurs_at (c # h) needle k'" if "k' < Suc k" for k' using that none k(3) by (cases k') auto
      with k(1,2) Some False show ?thesis by (auto intro!: exI[of _ "Suc k"])
    qed
  qed
qed

lemma str_find_Some:
  assumes "str_find h needle (int s) = Some j"
  obtains k where "j = int k" and "s \<le> k" and "occurs_at h needle k" and "\<And>k'. s \<le> k' \<Longrightarrow> k' < k \<Longrightarrow> \<not> occurs_at h needle k'"
proof -
  from assms have s: "s \<le> length h" and f: "find_at (int s) needle (drop s h) = Some j"
    by (auto simp: str_find_def split: if_splits)
  from find_at_spec[where i = "int s" and needle = needle and h = "drop s h"] f s obtain k where
    k: "j = int (s + k)" "occurs_at h needle (s + k)" "\<And>k'. k' < k \<Longrightarrow> \<not> occurs_at h needle (s + k')"
    by (auto simp: occurs_at_drop)
  have "\<not> occurs_at h needle k'" if "s \<le> k'" "k' < s + k" for k' using k(3)[of "k' - s"] that by simp
  with k show ?thesis using that[of "s + k"] by simp
qed

lemma str_find_None:
  assumes "str_find h needle (int s) = None" and "s \<le> k"
  shows "\<not> occurs_at h needle k"
proof (cases "s \<le> length h")
  case True
  with assms(1) have "find_at (int s) needle (drop s h) = None" by (simp add: str_find_def)
  with find_at_spec[where i = "int s" and needle = needle and h = "drop s h"] have "\<not> occurs_at (drop s h) needle (k - s)" by simp
  with True assms(2) show ?thesis by (simp add: occurs_at_drop)
qed (use assms(2) in \<open>auto simp: occurs_at_def\<close>)


section \<open>Lines of an occurrence\<close>









section \<open>The state of a map\<close>

definition hash_of :: "(string \<Rightarrow> string) \<Rightarrow> source_map \<Rightarrow> int \<Rightarrow> int \<Rightarrow> string" where
  "hash_of sha256 sm a b = content_hash sha256 (slice a b (sm_anchor_source sm))"

definition wf_map :: "(string \<Rightarrow> string) \<Rightarrow> source_map \<Rightarrow> bool" where
  "wf_map sha256 sm \<longleftrightarrow>
     sm_lines sm = source_lines (sm_source sm) False \<and> sm_line_offsets sm = compute_line_offsets (sm_source sm) \<and>
     length (sm_anchor_hashes sm) \<le> 256 \<and> distinct (map fst (sm_anchor_hashes sm)) \<and>
     (\<forall>((a, b), d) \<in> set (sm_anchor_hashes sm). d = hash_of sha256 sm a b)"


definition with_hashes :: "((int \<times> int) \<times> string) list \<Rightarrow> source_map \<Rightarrow> source_map" where
  "with_hashes hs sm = sm\<lparr>sm_anchor_hashes := hs\<rparr>"

lemma with_hashes_simps [simp]: "sm_lines (with_hashes hs sm) = sm_lines sm" "sm_source (with_hashes hs sm) = sm_source sm"
  "sm_rel_path (with_hashes hs sm) = sm_rel_path sm" "sm_line_offsets (with_hashes hs sm) = sm_line_offsets sm"
  "sm_anchor_source (with_hashes hs sm) = sm_anchor_source sm" "sm_functions (with_hashes hs sm) = sm_functions sm"
  "sm_anchor_hashes (with_hashes hs sm) = hs" "hash_of sha256 (with_hashes hs sm) = hash_of sha256 sm"
  "line_count (with_hashes hs sm) = line_count sm"
  by (simp_all add: with_hashes_def hash_of_def fun_eq_iff line_count_def)

text \<open>The cache of hashes: it answers with the hash, stays coherent and holds at most 256 entries.\<close>

lemma anchor_content_hash_spec:
  assumes "wf_map sha256 sm"
  shows "\<exists>hs. anchor_content_hash sha256 sm a b = (hash_of sha256 sm a b, with_hashes hs sm) \<and> wf_map sha256 (with_hashes hs sm)"
proof (cases "map_of (sm_anchor_hashes sm) (a, b)")
  case None
  define kept where "kept = (if 256 \<le> length (sm_anchor_hashes sm) then tl (sm_anchor_hashes sm) else sm_anchor_hashes sm)"
  have kept: "set kept \<subseteq> set (sm_anchor_hashes sm)" "length kept \<le> 255" "distinct (map fst kept)"
    using assms by (auto simp: kept_def wf_map_def map_tl distinct_tl dest: list.set_sel(2)[rotated])
  have "(a, b) \<notin> fst ` set kept" using None kept(1) by (auto simp: map_of_eq_None_iff)
  with assms kept have "wf_map sha256 (with_hashes (kept @ [((a, b), hash_of sha256 sm a b)]) sm)"
    by (auto simp: wf_map_def)
  with None show ?thesis
    by (auto simp: anchor_content_hash_def Let_def kept_def[symmetric] hash_of_def with_hashes_def)
next
  case (Some d)
  let ?hs = "AList.delete (a, b) (sm_anchor_hashes sm) @ [((a, b), d)]"
  have d: "d = hash_of sha256 sm a b" using assms map_of_SomeD[OF Some] by (auto simp: wf_map_def)
  have "(a, b) \<in> set (keys (sm_anchor_hashes sm))" using map_of_Some_keys[OF Some] .
  then have "length (AList.delete (a, b) (sm_anchor_hashes sm)) < length (sm_anchor_hashes sm)" by (rule length_delete_less)
  moreover have "set (AList.delete (a, b) (sm_anchor_hashes sm)) \<subseteq> set (sm_anchor_hashes sm)" by (auto simp: delete_filter)
  ultimately have "wf_map sha256 (with_hashes ?hs sm)"
    using assms d by (auto simp: wf_map_def delete_filter distinct_map_filter)
  with Some d show ?thesis by (auto simp: anchor_content_hash_def with_hashes_def Let_def)
qed


section \<open>What a resolution means\<close>

definition stripped_text :: "source_map \<Rightarrow> string" where
  "stripped_text sm = join [newline] (map rstrip (sm_lines sm))"

definition needle_of :: "string \<Rightarrow> string" where
  "needle_of snippet = join [newline] (trimmed_lines snippet)"

text \<open>The snippet stands, character by character, on the lines of the anchor.\<close>

definition stands_on :: "source_map \<Rightarrow> string \<Rightarrow> int \<Rightarrow> int \<Rightarrow> bool" where
  "stands_on sm needle s e \<longleftrightarrow>
     (\<exists>x y. join [newline] (map rstrip (slice (s - 1) e (sm_lines sm))) = x @ needle @ y)"

text \<open>A line of the file is, up to white space, one of the distinctive lines of the snippet.\<close>

definition matches_line :: "source_map \<Rightarrow> string \<Rightarrow> int \<Rightarrow> bool" where
  "matches_line sm snippet i \<longleftrightarrow>
     1 \<le> i \<and> i \<le> line_count sm \<and> norm_line (sm_lines sm ! nat (i - 1)) \<in> set (wanted_lines (trimmed_lines snippet))"

definition located :: "source_map \<Rightarrow> string \<Rightarrow> code_anchor \<Rightarrow> bool" where
  "located sm snippet a \<longleftrightarrow>
     (case an_confidence a of
        Exact \<Rightarrow> (\<exists>!k. occurs_at (stripped_text sm) (needle_of snippet) k) \<and>
                 stands_on sm (needle_of snippet) (an_start_line a) (an_end_line a)
      | Disambiguated \<Rightarrow> (\<exists>k k'. k \<noteq> k' \<and> occurs_at (stripped_text sm) (needle_of snippet) k \<and>
                                occurs_at (stripped_text sm) (needle_of snippet) k') \<and>
                 stands_on sm (needle_of snippet) (an_start_line a) (an_end_line a)
      | Fuzzy \<Rightarrow> (\<forall>k. \<not> occurs_at (stripped_text sm) (needle_of snippet) k) \<and>
                 matches_line sm snippet (an_start_line a) \<and> matches_line sm snippet (an_end_line a) \<and>
                 an_end_line a \<le> an_start_line a + int (max (length (trimmed_lines snippet)) 3)
      | Unresolved \<Rightarrow> False)"

text \<open>The normalized text of the lines and of the snippet: one contains the other.\<close>

definition agrees :: "source_map \<Rightarrow> string \<Rightarrow> int \<Rightarrow> int \<Rightarrow> bool" where
  "agrees sm snippet s e \<longleftrightarrow>
     (let actual = join '' '' (filter (\<lambda>a. a \<noteq> '''') (map norm_line (slice (s - 1) e (sm_lines sm))));
          wanted = join '' '' (filter (\<lambda>l. l \<noteq> '''') (map norm_line (source_lines snippet False)))
      in actual \<noteq> '''' \<and> wanted \<noteq> '''' \<and> (contains actual wanted \<or> contains wanted actual))"

text \<open>Nothing in the file matches the snippet, neither its text nor one of its distinctive lines.\<close>

definition unlocatable :: "source_map \<Rightarrow> string \<Rightarrow> bool" where
  "unlocatable sm snippet \<longleftrightarrow>
     sm_lines sm = [] \<or> trimmed_lines snippet = [] \<or>
     (\<forall>k. \<not> occurs_at (stripped_text sm) (needle_of snippet) k) \<and> (\<forall>i. \<not> matches_line sm snippet i)"

definition in_file :: "(string \<Rightarrow> string) \<Rightarrow> source_map \<Rightarrow> code_anchor \<Rightarrow> bool" where
  "in_file sha256 sm a \<longleftrightarrow>
     1 \<le> an_start_line a \<and> an_start_line a \<le> an_end_line a \<and> an_end_line a \<le> line_count sm \<and>
     an_content_hash a = hash_of sha256 sm (an_start_byte a) (an_end_byte a)"









lemma contains_iff: "contains h needle \<longleftrightarrow> (\<exists>k. occurs_at h needle k)"
proof (cases "str_find h needle 0")
  case None
  with str_find_None[of h needle 0] show ?thesis by (auto simp: contains_def)
next
  case (Some j)
  then obtain k where "occurs_at h needle k" using str_find_Some[of h needle 0 j] by auto
  with Some show ?thesis by (auto simp: contains_def)
qed



text \<open>
  Whatever one of the resolutions returns: an anchor in the file that is justified, or nothing, and
  then there is nothing to be found.
\<close>

definition resolves ::
  "(string \<Rightarrow> string) \<Rightarrow> source_map \<Rightarrow> (code_anchor \<Rightarrow> bool) \<Rightarrow> bool \<Rightarrow> code_anchor option \<times> source_map \<Rightarrow> bool" where
  "resolves sha256 sm P N r \<longleftrightarrow>
     (\<exists>hs. snd r = with_hashes hs sm \<and> wf_map sha256 (with_hashes hs sm)) \<and>
     (\<forall>a. fst r = Some a \<longrightarrow> in_file sha256 sm a \<and> P a) \<and> (fst r = None \<longrightarrow> N)"








text \<open>The reported lines are lines of the file and their text agrees with the snippet.\<close>

definition verifiable :: "source_map \<Rightarrow> int \<Rightarrow> int \<Rightarrow> string \<Rightarrow> bool" where
  "verifiable sm s e snippet \<longleftrightarrow> 1 \<le> s \<and> s \<le> e \<and> e \<le> line_count sm \<and> agrees sm snippet s e"

lemma join_nonempty: "(\<And>x. x \<in> set xs \<Longrightarrow> x \<noteq> []) \<Longrightarrow> join sep xs = [] \<longleftrightarrow> xs = []"
  by (induction sep xs rule: join.induct) auto

lemma join_words [simp]: "join sep (filter (\<lambda>l. l \<noteq> []) xs) = [] \<longleftrightarrow> filter (\<lambda>l. l \<noteq> []) xs = []"
  by (rule join_nonempty) auto


text \<open>The cache of hashes has no influence on what a resolution means.\<close>

lemma with_hashes_twice [simp]: "with_hashes hs (with_hashes hs' sm) = with_hashes hs sm"
  by (simp add: with_hashes_def)

lemma text_with_hashes: "stripped_text (with_hashes hs sm) = stripped_text sm" "stands_on (with_hashes hs sm) = stands_on sm"
  "matches_line (with_hashes hs sm) = matches_line sm"
  by (simp_all add: stripped_text_def stands_on_def matches_line_def fun_eq_iff)

lemma meaning_with_hashes [simp]:
  "located (with_hashes hs sm) = located sm" "agrees (with_hashes hs sm) = agrees sm" "unlocatable (with_hashes hs sm) = unlocatable sm"
  "in_file sha256 (with_hashes hs sm) = in_file sha256 sm" "resolves sha256 (with_hashes hs sm) P N r = resolves sha256 sm P N r"
  "verifiable (with_hashes hs sm) = verifiable sm"
proof -
  show "located (with_hashes hs sm) = located sm" unfolding located_def fun_eq_iff text_with_hashes by simp
  show "unlocatable (with_hashes hs sm) = unlocatable sm" unfolding unlocatable_def fun_eq_iff text_with_hashes by simp
qed (simp_all add: agrees_def verifiable_def in_file_def resolves_def fun_eq_iff)





section \<open>Properties\<close>

definition candidates_of :: "string \<Rightarrow> int option \<Rightarrow> int option \<Rightarrow> string list" where
  "candidates_of snippet s e =
     (let unnumbered = without_consistent_line_numbers snippet s e in if unnumbered \<noteq> snippet then [snippet, unnumbered] else [snippet])"




text \<open>The cache of hashes has no influence on the anchors that are found.\<close>

definition same_result :: "(string \<Rightarrow> string) \<Rightarrow> 'a \<times> source_map \<Rightarrow> 'a \<times> source_map \<Rightarrow> bool" where
  "same_result sha256 r r' \<longleftrightarrow>
     fst r = fst r' \<and> wf_map sha256 (snd r) \<and> wf_map sha256 (snd r') \<and> (\<exists>hs. snd r' = with_hashes hs (snd r))"

lemma anchor_content_hash_same:
  assumes "wf_map sha256 sm" and "wf_map sha256 (with_hashes hs sm)"
  shows "same_result sha256 (anchor_content_hash sha256 sm a b) (anchor_content_hash sha256 (with_hashes hs sm) a b)"
  using anchor_content_hash_spec[OF assms(1), of a b] anchor_content_hash_spec[OF assms(2), of a b]
  by (auto simp: same_result_def intro!: exI)

lemma places_with_hashes: "line_to_byte (with_hashes hs sm) = line_to_byte sm" "line_end_byte (with_hashes hs sm) = line_end_byte sm"
  "enclosing_symbol (with_hashes hs sm) = enclosing_symbol sm"
  unfolding fun_eq_iff line_to_byte_def line_end_byte_def enclosing_symbol_def with_hashes_def line_count_def
  by (simp_all cong: option.case_cong prod.case_cong)

lemma anchor_for_lines_same:
  assumes "wf_map sha256 sm" and "wf_map sha256 (with_hashes hs sm)"
  shows "same_result sha256 (anchor_for_lines sha256 sm s e conf) (anchor_for_lines sha256 (with_hashes hs sm) s e conf)"
proof -
  have "same_result sha256 (case r of (d, m) \<Rightarrow> (f d, m)) (case r' of (d, m) \<Rightarrow> (f d, m))"
    if "same_result sha256 r r'" for r r' and f :: "string \<Rightarrow> code_anchor"
    using that by (simp add: same_result_def case_prod_beta)
  from this[OF anchor_content_hash_same[OF assms]] show ?thesis
    unfolding anchor_for_lines_def Let_def places_with_hashes with_hashes_simps .
qed

lemma same_result_found:
  "same_result sha256 r r' \<Longrightarrow> same_result sha256 (map_prod Some id r) (map_prod Some id r')"
  by (auto simp: same_result_def)

lemma same_result_refl:
  "wf_map sha256 sm \<Longrightarrow> wf_map sha256 (with_hashes hs sm) \<Longrightarrow> same_result sha256 (x, sm) (x, with_hashes hs sm)"
  by (auto simp: same_result_def)

lemma same_result_next:
  assumes "same_result sha256 r r'"
    and "\<And>m hs. wf_map sha256 m \<Longrightarrow> wf_map sha256 (with_hashes hs m) \<Longrightarrow> same_result sha256 (f m) (f (with_hashes hs m))"
  shows "same_result sha256 (case r of (Some a, m) \<Rightarrow> (Some a, m) | (None, m) \<Rightarrow> f m)
    (case r' of (Some a, m) \<Rightarrow> (Some a, m) | (None, m) \<Rightarrow> f m)"
proof -
  obtain x m x' m' where r: "r = (x, m)" "r' = (x', m')" by fastforce
  with assms(1) obtain hs where hs: "x' = x" "wf_map sha256 m" "wf_map sha256 (with_hashes hs m)" "m' = with_hashes hs m"
    by (auto simp: same_result_def)
  show ?thesis
  proof (cases x)
    case None
    with assms(2)[OF hs(2,3)] show ?thesis by (simp add: r hs)
  next
    case (Some a)
    then show ?thesis using same_result_refl[OF hs(2,3)] by (simp add: r hs)
  qed
qed

lemma resolve_verbatim_same:
  assumes "wf_map sha256 sm" and "wf_map sha256 (with_hashes hs sm)"
  shows "same_result sha256 (resolve_verbatim sha256 sm ls hint ctx) (resolve_verbatim sha256 (with_hashes hs sm) ls hint ctx)"
proof -
  have eqs: "verbatim_source (with_hashes hs sm) = verbatim_source sm" "disambiguate (with_hashes hs sm) = disambiguate sm"
    by (simp_all only: fun_eq_iff verbatim_source_def disambiguate_def places_with_hashes with_hashes_simps simp_thms)
  show ?thesis
    unfolding resolve_verbatim_def eqs Let_def case_prod_beta
    by (auto simp only: same_result_refl[OF assms] same_result_found[OF anchor_for_lines_same[OF assms]] split: option.split if_split)
qed

lemma resolve_fuzzy_same:
  assumes "wf_map sha256 sm" and "wf_map sha256 (with_hashes hs sm)"
  shows "same_result sha256 (resolve_fuzzy sha256 sm ls hint) (resolve_fuzzy sha256 (with_hashes hs sm) ls hint)"
proof -
  have eqs: "line_index (with_hashes hs sm) = line_index sm" by (auto simp: fun_eq_iff line_index_def)
  show ?thesis
    by (simp add: resolve_fuzzy_def eqs Let_def case_prod_beta same_result_refl[OF assms]
        same_result_found[OF anchor_for_lines_same[OF assms]])
qed

lemma resolve_snippet_same:
  assumes "wf_map sha256 sm" and "wf_map sha256 (with_hashes hs sm)"
  shows "same_result sha256 (resolve_snippet sha256 sm c hint ctx) (resolve_snippet sha256 (with_hashes hs sm) c hint ctx)"
  using same_result_next[OF resolve_verbatim_same[OF assms], of "\<lambda>m. resolve_fuzzy sha256 m (trimmed_lines c) hint", OF resolve_fuzzy_same]
  by (simp add: resolve_snippet_def Let_def same_result_refl[OF assms])

lemma verify_lines_same:
  assumes "wf_map sha256 sm" and "wf_map sha256 (with_hashes hs sm)"
  shows "same_result sha256 (verify_lines sha256 sm s e c) (verify_lines sha256 (with_hashes hs sm) s e c)"
  by (simp add: verify_lines_def Let_def same_result_refl[OF assms] same_result_found[OF anchor_for_lines_same[OF assms]])

lemma verify_candidates_same:
  "wf_map sha256 sm \<Longrightarrow> wf_map sha256 (with_hashes hs sm) \<Longrightarrow>
   same_result sha256 (verify_candidates sha256 sm s e cs) (verify_candidates sha256 (with_hashes hs sm) s e cs)"
proof (induction cs arbitrary: sm hs)
  case (Cons c cs)
  show ?case unfolding verify_candidates.simps by (rule same_result_next[OF verify_lines_same[OF Cons.prems] Cons.IH])
qed (simp add: same_result_refl)

lemma locate_candidates_same:
  "wf_map sha256 sm \<Longrightarrow> wf_map sha256 (with_hashes hs sm) \<Longrightarrow>
   same_result sha256 (locate_candidates sha256 sm hint ctx cs) (locate_candidates sha256 (with_hashes hs sm) hint ctx cs)"
proof (induction cs arbitrary: sm hs)
  case (Cons c cs)
  have "same_result sha256
    (case resolve_snippet sha256 sm c hint ctx of (Some a, m) \<Rightarrow> (Some a, m) | (None, m) \<Rightarrow> locate_candidates sha256 m hint ctx cs)
    (case resolve_snippet sha256 (with_hashes hs sm) c hint ctx of (Some a, m) \<Rightarrow> (Some a, m) | (None, m) \<Rightarrow> locate_candidates sha256 m hint ctx cs)"
    by (rule same_result_next[OF resolve_snippet_same[OF Cons.prems] Cons.IH])
  then show ?case using Cons.IH[OF Cons.prems] by simp
qed (simp add: same_result_refl)

lemma resolve_issue_same:
  assumes "wf_map sha256 sm" and "wf_map sha256 (with_hashes hs sm)"
  shows "same_result sha256 (resolve_issue sha256 sm snippet s e hint ctx) (resolve_issue sha256 (with_hashes hs sm) snippet s e hint ctx)"
proof -
  let ?cs = "candidates_of snippet s e"
  let ?verify = "\<lambda>m. case (s, e) of (Some a, Some b) \<Rightarrow> verify_candidates sha256 m a b ?cs | _ \<Rightarrow> (None, m)"
  let ?r = "\<lambda>m. case ?verify m of (Some a, m') \<Rightarrow> (Some a, m') | (None, m') \<Rightarrow> locate_candidates sha256 m' hint ctx ?cs"
  have "same_result sha256 (?verify sm) (?verify (with_hashes hs sm))"
    using assms by (auto simp: same_result_refl verify_candidates_same split: option.split)
  then have "same_result sha256 (?r sm) (?r (with_hashes hs sm))" by (rule same_result_next) (rule locate_candidates_same)
  moreover have "resolve_issue sha256 m snippet s e hint ctx =
      (case ?r m of (Some a, m') \<Rightarrow> (a, m') | (None, m') \<Rightarrow> (unresolved_anchor (sm_rel_path m') None, m'))" for m
    unfolding resolve_issue_def candidates_of_def[symmetric, unfolded Let_def] Let_def
    by (auto split: prod.splits option.splits)
  moreover have "same_result sha256 (case r of (Some a, m') \<Rightarrow> (a, m') | (None, m') \<Rightarrow> (unresolved_anchor (sm_rel_path m') None, m'))
      (case r' of (Some a, m') \<Rightarrow> (a, m') | (None, m') \<Rightarrow> (unresolved_anchor (sm_rel_path m') None, m'))"
    if "same_result sha256 r r'" for r r'
    using that by (cases r; cases r'; cases "fst r") (auto simp: same_result_def)
  ultimately show ?thesis by simp
qed


definition demo_source :: string where
  "demo_source = ''int f(void) {'' @ [newline] @ ''  use(p);'' @ [newline] @ ''  free(p);'' @ [newline] @ ''  use(p);'' @ [newline] @ ''}''"

definition demo_map :: source_map where
  "demo_map = (case new_source_map (\<lambda>_ _. [(1, 5, ''f'')]) ''./m.c'' demo_source None of Inr sm \<Rightarrow> sm | Inl _ \<Rightarrow> undefined)"



text \<open>A leading dot that belongs to a name is lost, so two different files get the same path.\<close>

lemma normalize_path_merges_hidden_directory: "normalize_path ''.ci/a.c'' = normalize_path ''ci/a.c''"
  by code_simp

text \<open>
  Lines are verified also when their text is only a part of the snippet: the closing brace of the
  file is taken for a snippet that occurs nowhere in the file.
\<close>

lemma verified_lines_without_snippet:
  "case resolve_issue (\<lambda>s. s) demo_map ''int f(void) {}'' (Some 5) (Some 5) None '''' of
     (a, _) \<Rightarrow> an_start_line a = 5 \<and> an_end_line a = 5 \<and> an_confidence a = Exact"
  by code_simp

end
