(* ===== verification/Node_Chunks.thy ===== *)
theory Node_Chunks
  imports Source_Map Code_Graph
begin

text \<open>
  Grouping of functions into prompts (\<open>engine/nodes/reachability/source_context.py\<close>): the numbered
  source of every function is split into pieces, and the pieces of a file are packed, in order, into
  chunks within a token limit. The end of a chunk is found by doubling its length and then by
  bisection, which asks the token counter a logarithmic number of times; the theorems compare it
  with the greedy packing that asks for every piece. The token counter belongs to the provider and
  the source maps come from files, so both are parameters.
\<close>

section \<open>The search for the end of a chunk\<close>

text \<open>\<open>bisect.bisect_right(a, x, key=key)\<close> between the positions \<open>lo\<close> and \<open>hi\<close>.\<close>

function bisect_search :: "(nat \<Rightarrow> int) \<Rightarrow> int \<Rightarrow> nat \<Rightarrow> nat \<Rightarrow> nat" where
  "bisect_search key x lo hi =
     (if hi \<le> lo then lo
      else let mid = (lo + hi) div 2
           in if x < key mid then bisect_search key x lo mid else bisect_search key x (Suc mid) hi)"
  by pat_completeness auto
termination
  by (relation "measure (\<lambda>(_, _, lo, hi). hi - lo)") auto

declare bisect_search.simps [simp del]

text \<open>
  The inner loop: \<open>tokens start stop\<close> is the count for the pieces between the two positions, \<open>n\<close> the
  number of pieces. A loop that never ends is \<open>None\<close>.
\<close>

partial_function (option) grow_chunk :: "(nat \<Rightarrow> nat \<Rightarrow> int) \<Rightarrow> nat \<Rightarrow> int \<Rightarrow> nat \<Rightarrow> nat \<Rightarrow> nat option" where
  "grow_chunk tokens n max_tokens start end_pos =
     (if n \<le> end_pos then Some end_pos
      else let stop = min n (start + 2 * (end_pos - start))
           in if max_tokens < tokens start stop
              then Some (end_pos + bisect_search (\<lambda>i. tokens start (end_pos + 1 + i)) max_tokens 0 (stop - (end_pos + 1)))
              else grow_chunk tokens n max_tokens start stop)"

section \<open>Chunks\<close>

type_synonym part = "function_node \<times> string"
type_synonym chunk = "function_node list \<times> string"

fun distinct_functions :: "string set \<Rightarrow> part list \<Rightarrow> function_node list" where
  "distinct_functions names [] = []"
| "distinct_functions names ((n, _) # parts) =
     (if fn_unique_name n \<in> names then distinct_functions names parts
      else n # distinct_functions (insert (fn_unique_name n) names) parts)"

definition join_parts :: "part list \<Rightarrow> string" where
  "join_parts parts = join [newline, newline] (map snd parts)"

definition chunk_of :: "part list \<Rightarrow> chunk" where
  "chunk_of parts = (distinct_functions {} parts, join_parts parts)"

definition parts_between :: "part list \<Rightarrow> nat \<Rightarrow> nat \<Rightarrow> part list" where
  "parts_between parts start stop = drop start (take stop parts)"

definition parts_tokens :: "(string \<Rightarrow> int) \<Rightarrow> part list \<Rightarrow> nat \<Rightarrow> nat \<Rightarrow> int" where
  "parts_tokens counter parts start stop = counter (join_parts (parts_between parts start stop))"

partial_function (option) chunk_loop :: "(string \<Rightarrow> int) \<Rightarrow> int \<Rightarrow> part list \<Rightarrow> nat \<Rightarrow> chunk list option" where
  "chunk_loop counter max_tokens parts start =
     (if length parts \<le> start then Some []
      else Option.bind (grow_chunk (parts_tokens counter parts) (length parts) max_tokens start (start + 1)) (\<lambda>end_pos.
           Option.bind (chunk_loop counter max_tokens parts end_pos) (\<lambda>rest.
           Some (chunk_of (parts_between parts start end_pos) # rest))))"

section \<open>The pieces of a file\<close>

datatype chunk_error = LineTooLarge | SplitFailed split_error

text \<open>\<open>function.end_line or function.line_number\<close>.\<close>

definition function_body :: "source_map \<Rightarrow> function_node \<Rightarrow> string" where
  "function_body sm n =
     numbered_slice sm (fn_line_number n) (if fn_end_line n \<noteq> 0 then fn_end_line n else fn_line_number n) None"

definition split_body :: "(string \<Rightarrow> int) \<Rightarrow> int \<Rightarrow> string \<Rightarrow> (chunk_error + (string \<times> int) list) option" where
  "split_body counter max_tokens body =
     (if list_ex (\<lambda>line. max_tokens < counter line) (source_lines body True) then Some (Inl LineTooLarge)
      else map_option (map_sum SplitFailed id) (split_snippet counter body max_tokens (Some counter)))"

fun file_parts :: "(string \<Rightarrow> int) \<Rightarrow> int \<Rightarrow> source_map \<Rightarrow> function_node list \<Rightarrow> (chunk_error + part list) option" where
  "file_parts counter max_tokens sm [] = Some (Inr [])"
| "file_parts counter max_tokens sm (n # ns) =
     (let body = function_body sm n
      in if body = '''' then file_parts counter max_tokens sm ns
         else case split_body counter max_tokens body of
           None \<Rightarrow> None
         | Some (Inl e) \<Rightarrow> Some (Inl e)
         | Some (Inr pieces) \<Rightarrow>
             (case file_parts counter max_tokens sm ns of
                None \<Rightarrow> None
              | Some (Inl e) \<Rightarrow> Some (Inl e)
              | Some (Inr parts) \<Rightarrow> Some (Inr (map (\<lambda>(piece, _). (n, piece)) pieces @ parts))))"

section \<open>All files\<close>

definition location_key :: "function_node \<Rightarrow> string \<times> int \<times> string" where
  "location_key n = (fn_file_path n, fn_line_number n, fn_name n)"

definition functions_by_file :: "function_node list \<Rightarrow> (string, function_node list) dict" where
  "functions_by_file nodes =
     foldl (\<lambda>d n. setdefault_append d (fn_file_path n) n) [] (sort_key location_key nodes)"

fun file_chunks ::
  "(string \<Rightarrow> int) \<Rightarrow> int \<Rightarrow> (string \<Rightarrow> source_map option) \<Rightarrow> (string, function_node list) dict \<Rightarrow> string list \<Rightarrow>
   (chunk_error + chunk list) option" where
  "file_chunks counter max_tokens source_for by_file [] = Some (Inr [])"
| "file_chunks counter max_tokens source_for by_file (path # paths) =
     (case source_for path of
        None \<Rightarrow> file_chunks counter max_tokens source_for by_file paths
      | Some sm \<Rightarrow>
          (case file_parts counter max_tokens sm (get_list by_file path) of
             None \<Rightarrow> None
           | Some (Inl e) \<Rightarrow> Some (Inl e)
           | Some (Inr parts) \<Rightarrow>
               (case chunk_loop counter max_tokens parts 0 of
                  None \<Rightarrow> None
                | Some chunks \<Rightarrow>
                    (case file_chunks counter max_tokens source_for by_file paths of
                       None \<Rightarrow> None
                     | Some (Inl e) \<Rightarrow> Some (Inl e)
                     | Some (Inr rest) \<Rightarrow> Some (Inr (chunks @ rest))))))"

definition build_file_grouped_node_chunks ::
  "(string \<Rightarrow> source_map option) \<Rightarrow> function_node list \<Rightarrow> int \<Rightarrow> (string \<Rightarrow> int) \<Rightarrow> (chunk_error + chunk list) option" where
  "build_file_grouped_node_chunks source_for nodes max_tokens token_counter =
     (let by_file = functions_by_file nodes
      in file_chunks token_counter max_tokens source_for by_file (sort (keys by_file)))"

section \<open>Bisection and growth\<close>

text \<open>Bisection compares the positions on both sides of its result, whatever the key function is.\<close>

lemma bisect_search_spec:
  assumes "lo \<le> hi"
  shows "lo \<le> bisect_search key x lo hi \<and> bisect_search key x lo hi \<le> hi \<and>
    (lo < bisect_search key x lo hi \<longrightarrow> key (bisect_search key x lo hi - 1) \<le> x) \<and>
    (bisect_search key x lo hi < hi \<longrightarrow> x < key (bisect_search key x lo hi))"
  using assms
proof (induction key x lo hi rule: bisect_search.induct)
  case (1 key x lo hi)
  show ?case
  proof (cases "hi \<le> lo")
    case False
    define mid where "mid = (lo + hi) div 2"
    have mid: "lo \<le> mid" "mid < hi" using False by (auto simp: mid_def)
    have eq: "bisect_search key x lo hi = (if x < key mid then bisect_search key x lo mid else bisect_search key x (Suc mid) hi)"
      using False by (subst bisect_search.simps) (simp add: mid_def Let_def)
    show ?thesis
    proof (cases "x < key mid")
      case True
      with 1(1)[OF False mid_def] mid eq show ?thesis by (cases "bisect_search key x lo mid = mid") auto
    next
      case False
      with 1(2)[OF \<open>\<not> hi \<le> lo\<close> mid_def] mid eq show ?thesis by (cases "bisect_search key x (Suc mid) hi = Suc mid") auto
    qed
  qed (use 1(3) in \<open>simp add: bisect_search.simps\<close>)
qed

text \<open>The end of a chunk: the chunk fits, and it would not fit with the next piece.\<close>

definition chunk_end :: "(nat \<Rightarrow> nat \<Rightarrow> int) \<Rightarrow> nat \<Rightarrow> int \<Rightarrow> nat \<Rightarrow> nat \<Rightarrow> bool" where
  "chunk_end tokens n m start r \<longleftrightarrow>
     start < r \<and> r \<le> n \<and> tokens start r \<le> m \<and> (r < n \<longrightarrow> m < tokens start (Suc r))"

lemma grow_chunk_spec:
  assumes "start < e" and "e \<le> n" and "tokens start e \<le> m"
  shows "\<exists>r. grow_chunk tokens n m start e = Some r \<and> e \<le> r \<and> chunk_end tokens n m start r"
  using assms
proof (induction "n - e" arbitrary: e rule: less_induct)
  case less
  show ?case
  proof (cases "n \<le> e")
    case False
    define stop where "stop = min n (start + 2 * (e - start))"
    have stop: "e < stop" "stop \<le> n" using less.prems(1) False by (auto simp: stop_def)
    show ?thesis
    proof (cases "m < tokens start stop")
      case True
      define r where "r = bisect_search (\<lambda>i. tokens start (e + 1 + i)) m 0 (stop - (e + 1))"
      note spec = bisect_search_spec[of 0 "stop - (e + 1)" "\<lambda>i. tokens start (e + 1 + i)" m, folded r_def, simplified]
      have "grow_chunk tokens n m start e = Some (e + r)"
        using False True by (subst grow_chunk.simps) (simp add: stop_def r_def Let_def)
      moreover have "tokens start (e + r) \<le> m" using spec less.prems(3) by (cases r) auto
      moreover have "m < tokens start (Suc (e + r))"
        using spec True stop by (cases "r = stop - Suc e") auto
      ultimately show ?thesis using spec stop less.prems(1) by (auto simp: chunk_end_def)
    next
      case no: False
      have "grow_chunk tokens n m start e = grow_chunk tokens n m start stop"
        using False no by (subst grow_chunk.simps) (simp add: stop_def Let_def)
      with less.hyps[of stop] stop less.prems(1) no show ?thesis by force
    qed
  qed (use less.prems in \<open>auto simp: grow_chunk.simps chunk_end_def\<close>)
qed

section \<open>Packed groups\<close>

text \<open>Groups of pieces as the loop makes them, and the greedy packing that tries every piece.\<close>

fun packed :: "(string \<Rightarrow> int) \<Rightarrow> int \<Rightarrow> part list list \<Rightarrow> bool" where
  "packed counter m [] \<longleftrightarrow> True"
| "packed counter m (g # gs) \<longleftrightarrow>
     g \<noteq> [] \<and> counter (join_parts g) \<le> m \<and>
     (case gs of h # _ \<Rightarrow> m < counter (join_parts (g @ take 1 h)) | [] \<Rightarrow> True) \<and> packed counter m gs"

fun greedy_from :: "(string \<Rightarrow> int) \<Rightarrow> int \<Rightarrow> part list \<Rightarrow> part list \<Rightarrow> part list list" where
  "greedy_from counter m cur [] = [cur]"
| "greedy_from counter m cur (p # ps) =
     (if counter (join_parts (cur @ [p])) \<le> m then greedy_from counter m (cur @ [p]) ps
      else cur # greedy_from counter m [p] ps)"

definition greedy_groups :: "(string \<Rightarrow> int) \<Rightarrow> int \<Rightarrow> part list \<Rightarrow> part list list" where
  "greedy_groups counter m parts = (case parts of [] \<Rightarrow> [] | p # ps \<Rightarrow> greedy_from counter m [p] ps)"

lemma packed_mem: "packed counter m gs \<Longrightarrow> g \<in> set gs \<Longrightarrow> g \<noteq> [] \<and> counter (join_parts g) \<le> m"
  by (induction gs) auto

lemma drop_split: "start \<le> e \<Longrightarrow> drop start xs = drop start (take e xs) @ drop e xs"
  by (metis append_take_drop_id drop_drop drop_take le_add_diff_inverse2)

lemma chunk_loop_spec:
  assumes "\<And>p. p \<in> set parts \<Longrightarrow> counter (snd p) \<le> m" and "start \<le> length parts"
  shows "\<exists>gs. chunk_loop counter m parts start = Some (map chunk_of gs) \<and> concat gs = drop start parts \<and> packed counter m gs"
  using assms(2)
proof (induction "length parts - start" arbitrary: start rule: less_induct)
  case less
  show ?case
  proof (cases "length parts \<le> start")
    case False
    let ?t = "parts_tokens counter parts"
    have "parts_between parts start (start + 1) = [parts ! start]"
      using False by (simp add: parts_between_def take_Suc_conv_app_nth)
    then have "?t start (start + 1) \<le> m"
      using assms(1)[of "parts ! start"] False by (simp add: parts_tokens_def join_parts_def)
    with grow_chunk_spec[of start "start + 1" "length parts" ?t m] False obtain e where
      e: "grow_chunk ?t (length parts) m start (start + 1) = Some e" "start < e" "chunk_end ?t (length parts) m start e" by auto
    then have le: "e \<le> length parts" by (simp add: chunk_end_def)
    have "length parts - e < length parts - start" using e(2) le by linarith
    from less.hyps[OF this le] obtain gs where
      gs: "chunk_loop counter m parts e = Some (map chunk_of gs)" "concat gs = drop e parts" "packed counter m gs" by blast
    let ?g = "parts_between parts start e"
    have "chunk_loop counter m parts start = Some (map chunk_of (?g # gs))"
      using False e(1) gs(1) by (subst chunk_loop.simps) simp
    moreover have "concat (?g # gs) = drop start parts"
      using gs(2) drop_split[of start e parts] e(2) by (simp add: parts_between_def)
    moreover have "m < counter (join_parts (?g @ take 1 h))" if "gs = h # hs" for h hs
    proof -
      from that gs(3) obtain q qs where h: "h = q # qs" by (cases h) auto
      with that gs(2) have d: "drop e parts = q # qs @ concat hs" by simp
      then have "e < length parts" by (metis drop_all list.distinct(1) not_le)
      moreover with d have "parts ! e = q" by (metis hd_drop_conv_nth list.sel(1))
      ultimately show ?thesis using e h by (simp add: chunk_end_def parts_tokens_def parts_between_def take_Suc_conv_app_nth)
    qed
    moreover have "?g \<noteq> []" "counter (join_parts ?g) \<le> m"
      using e le by (simp_all add: chunk_end_def parts_tokens_def parts_between_def)
    ultimately show ?thesis using gs(3) by (intro exI[of _ "?g # gs"]) (auto split: list.splits)
  qed (simp add: chunk_loop.simps exI[of _ "[]"])
qed

text \<open>A counter that does not decrease when text is appended.\<close>

definition monotone_counter :: "(string \<Rightarrow> int) \<Rightarrow> bool" where
  "monotone_counter counter \<longleftrightarrow> (\<forall>s t. counter s \<le> counter (s @ t))"

lemma join_append: "xs \<noteq> [] \<Longrightarrow> \<exists>t. join sep (xs @ ys) = join sep xs @ t"
proof (induction xs)
  case (Cons x xs)
  show ?case
  proof (cases "xs = []")
    case True
    then show ?thesis by (cases ys) auto
  next
    case False
    with Cons.IH obtain t where "join sep (xs @ ys) = join sep xs @ t" by blast
    moreover obtain y zs where "xs = y # zs" using False by (cases xs) auto
    ultimately show ?thesis by auto
  qed
qed simp

lemma monotone_prefix:
  assumes "monotone_counter counter" and "g \<noteq> []" and "counter (join_parts (g @ h)) \<le> m"
  shows "counter (join_parts g) \<le> m"
proof -
  from join_append[of "map snd g" "[newline, newline]" "map snd h"] assms(2) obtain t where
    "join_parts (g @ h) = join_parts g @ t" by (auto simp: join_parts_def)
  with assms(1,3) show ?thesis unfolding monotone_counter_def by (metis order_trans)
qed

lemma greedy_fill:
  assumes "monotone_counter counter" and "g \<noteq> []" and "counter (join_parts (g @ h)) \<le> m"
  shows "greedy_from counter m g (h @ rest) = greedy_from counter m (g @ h) rest"
  using assms(2,3)
proof (induction h arbitrary: g)
  case (Cons p h)
  have "counter (join_parts (g @ [p])) \<le> m"
    using Cons.prems monotone_prefix[OF assms(1), of "g @ [p]" h] by simp
  with Cons show ?case by simp
qed simp

lemma packed_greedy:
  assumes "monotone_counter counter" and "packed counter m gs"
  shows "greedy_groups counter m (concat gs) = gs"
  using assms(2)
proof (induction gs)
  case (Cons g gs)
  then obtain p ps where g: "g = p # ps" by (cases g) auto
  have "greedy_groups counter m (concat (g # gs)) = greedy_from counter m g (concat gs)"
    using greedy_fill[OF assms(1), of "[p]" ps m "concat gs"] Cons.prems g by (simp add: greedy_groups_def)
  also have "\<dots> = g # gs"
  proof (cases gs)
    case (Cons h hs)
    with \<open>packed counter m (g # gs)\<close> obtain q qs where "h = q # qs" by (cases h) auto
    with Cons.IH Cons.prems Cons show ?thesis by (simp add: greedy_groups_def)
  qed simp
  finally show ?case .
qed (simp add: greedy_groups_def)

section \<open>Pieces\<close>

lemma split_lines_fit:
  "list_all (\<lambda>l. counter l \<le> m) lines \<Longrightarrow> \<exists>parts. split_lines counter m line lines = Some (Inr parts)"
proof (induction lines arbitrary: line)
  case (Cons l lines)
  then obtain parts where "split_lines counter m (line + 1) lines = Some (Inr parts)" by fastforce
  with Cons.prems show ?case by (simp add: split_token_bounded_text_def)
qed simp

definition too_large :: "(string \<Rightarrow> int) \<Rightarrow> int \<Rightarrow> string \<Rightarrow> bool" where
  "too_large counter m body \<longleftrightarrow> list_ex (\<lambda>line. m < counter line) (source_lines body True)"

lemma split_body_spec:
  "\<exists>r. split_body counter m body = Some r \<and>
    (case r of
       Inl LineTooLarge \<Rightarrow> too_large counter m body
     | Inl (SplitFailed e) \<Rightarrow> m \<le> 0
     | Inr pieces \<Rightarrow> concat (map fst pieces) = body \<and> within counter m (map fst pieces))"
proof (cases "too_large counter m body \<or> m \<le> 0")
  case True
  then show ?thesis by (auto simp: split_body_def too_large_def split_snippet_def)
next
  case False
  then have m: "0 < m" and fit: "list_all (\<lambda>l. counter l \<le> m) (source_lines body True)"
    by (auto simp: too_large_def list_ex_iff list_all_iff not_less)
  from split_snippet_spec[OF m, of counter body "Some counter"] obtain r where
    r: "split_snippet counter body m (Some counter) = Some r"
      "case r of Inl e \<Rightarrow> e = CharacterTooLarge \<and> (\<exists>c \<in> set body. m < counter [c]) | Inr chunks \<Rightarrow> parts_of counter m 1 body chunks"
    by auto
  from split_lines_fit[OF fit, of 1] obtain parts where "split_lines counter m 1 (source_lines body True) = Some (Inr parts)" by blast
  then have "\<exists>pieces. partition_token_bounded_parts parts m counter = Inr pieces"
    using m r split_lines_spec[OF wf_string_io_lines, of counter m 1 body] partition_spec[of counter m parts 1]
    by (auto simp: source_lines_def parts_of_def)
  then obtain pieces where "r = Inr pieces"
    using r(1) m \<open>split_lines counter m 1 (source_lines body True) = Some (Inr parts)\<close> by (auto simp: split_snippet_def)
  with r False show ?thesis by (auto simp: split_body_def too_large_def parts_of_def)
qed

text \<open>The pieces that each function owns.\<close>

definition owned_parts :: "(function_node \<times> string list) list \<Rightarrow> part list" where
  "owned_parts owned = concat (map (\<lambda>(n, ps). map (Pair n) ps) owned)"

definition owns_body :: "(string \<Rightarrow> int) \<Rightarrow> int \<Rightarrow> source_map \<Rightarrow> function_node \<times> string list \<Rightarrow> bool" where
  "owns_body counter m sm = (\<lambda>(n, ps). concat ps = function_body sm n \<and> within counter m ps)"

lemma owned_parts_simps [simp]:
  "owned_parts [] = []" "owned_parts ((n, ps) # os) = map (Pair n) ps @ owned_parts os"
  "owned_parts (os @ os') = owned_parts os @ owned_parts os'"
  by (simp_all add: owned_parts_def)

lemma owned_fit:
  "\<forall>x \<in> set owned. owns_body counter m sm x \<Longrightarrow> p \<in> set (owned_parts owned) \<Longrightarrow> counter (snd p) \<le> m \<and> fst p \<in> fst ` set owned"
  by (induction owned) (auto simp: owns_body_def within_def)

definition chunk_error_ok :: "(string \<Rightarrow> int) \<Rightarrow> int \<Rightarrow> (function_node \<Rightarrow> source_map option) \<Rightarrow> function_node list \<Rightarrow> chunk_error \<Rightarrow> bool" where
  "chunk_error_ok counter m source_of ns e =
     (case e of LineTooLarge \<Rightarrow> \<exists>n \<in> set ns. \<exists>sm. source_of n = Some sm \<and> too_large counter m (function_body sm n)
      | SplitFailed _ \<Rightarrow> m \<le> 0)"

lemma chunk_error_ok_mono:
  "chunk_error_ok counter m f ns e \<Longrightarrow> set ns \<subseteq> set ns' \<Longrightarrow> (\<And>n. n \<in> set ns \<Longrightarrow> f n = g n) \<Longrightarrow> chunk_error_ok counter m g ns' e"
  by (force simp: chunk_error_ok_def split: chunk_error.splits)

lemma file_parts_spec:
  "\<exists>r. file_parts counter m sm ns = Some r \<and>
    (case r of
       Inl e \<Rightarrow> chunk_error_ok counter m (\<lambda>_. Some sm) ns e
     | Inr parts \<Rightarrow> \<exists>owned. map fst owned = ns \<and> (\<forall>x \<in> set owned. owns_body counter m sm x) \<and> parts = owned_parts owned)"
proof (induction ns)
  case (Cons n ns)
  then obtain r where r: "file_parts counter m sm ns = Some r"
    "case r of Inl e \<Rightarrow> chunk_error_ok counter m (\<lambda>_. Some sm) ns e
     | Inr parts \<Rightarrow> \<exists>owned. map fst owned = ns \<and> (\<forall>x \<in> set owned. owns_body counter m sm x) \<and> parts = owned_parts owned" by blast
  from split_body_spec[of counter m "function_body sm n"] obtain b where b: "split_body counter m (function_body sm n) = Some b"
    "case b of Inl LineTooLarge \<Rightarrow> too_large counter m (function_body sm n) | Inl (SplitFailed e) \<Rightarrow> m \<le> 0
     | Inr pieces \<Rightarrow> concat (map fst pieces) = function_body sm n \<and> within counter m (map fst pieces)" by blast
  have fail: "chunk_error_ok counter m (\<lambda>_. Some sm) (n # ns) e" if "b = Inl e" for e
    using b(2) that by (cases e) (simp_all add: chunk_error_ok_def)
  have more: "\<exists>owned'. map fst owned' = n # ns \<and> (\<forall>x \<in> set owned'. owns_body counter m sm x) \<and> map (Pair n) ps @ owned_parts owned = owned_parts owned'"
    if "map fst owned = ns" "\<forall>x \<in> set owned. owns_body counter m sm x" "owns_body counter m sm (n, ps)" for owned ps
    using that by (intro exI[of _ "(n, ps) # owned"]) auto
  show ?case
  proof (cases r)
    case (Inl e)
    with r(2) have "chunk_error_ok counter m (\<lambda>_. Some sm) (n # ns) e"
      by (auto intro: chunk_error_ok_mono)
    with Inl r(1) fail b(1) show ?thesis by (cases b) (auto simp: Let_def)
  next
    case (Inr parts)
    with r(2) obtain owned where owned: "map fst owned = ns" "\<forall>x \<in> set owned. owns_body counter m sm x" "parts = owned_parts owned"
      by auto
    show ?thesis
    proof (cases "function_body sm n = ''''")
      case True
      with more[OF owned(1,2), of "[]"] r(1) Inr owned(3) show ?thesis by (auto simp: owns_body_def within_def Let_def)
    next
      case body: False
      show ?thesis
      proof (cases b)
        case (Inl e)
        with fail b(1) body show ?thesis by (simp add: Let_def)
      next
        case (Inr pieces)
        with b(2) have "owns_body counter m sm (n, map fst pieces)" by (simp add: owns_body_def)
        from more[OF owned(1,2) this] b(1) r(1) body Inr \<open>r = Inr parts\<close> owned(3) show ?thesis
          by (auto simp: Let_def comp_def case_prod_unfold)
      qed
    qed
  qed
qed simp

section \<open>Files\<close>

lemma split_least:
  assumes "sorted (map f xs)" and "\<And>x. x \<in> set xs \<Longrightarrow> k \<le> f x"
  shows "xs = filter (\<lambda>x. f x = k) xs @ filter (\<lambda>x. f x \<noteq> k) xs"
  using assms
proof (induction xs)
  case (Cons x xs)
  show ?case
  proof (cases "f x = k")
    case False
    with Cons.prems have "k < f x" by (simp add: order.not_eq_order_implies_strict)
    with Cons.prems(1) have "f y \<noteq> k" if "y \<in> set (x # xs)" for y using that by auto
    then have "filter (\<lambda>y. f y = k) (x # xs) = []" "filter (\<lambda>y. f y \<noteq> k) (x # xs) = x # xs"
      by (auto simp only: filter_empty_conv filter_id_conv)
    then show ?thesis by (simp only: append_Nil)
  qed (use Cons in auto)
qed simp

lemma concat_by_key:
  assumes "sorted (map f xs)" and "sorted ks" and "distinct ks" and "f ` set xs \<subseteq> set ks"
  shows "concat (map (\<lambda>k. filter (\<lambda>x. f x = k) xs) ks) = xs"
  using assms
proof (induction ks arbitrary: xs)
  case (Cons k ks)
  let ?rest = "filter (\<lambda>x. f x \<noteq> k) xs"
  have "sorted (map f ?rest)" by (rule sorted_filter[OF Cons.prems(1)])
  with Cons have "concat (map (\<lambda>j. filter (\<lambda>x. f x = j) ?rest) ks) = ?rest" by (intro Cons.IH) auto
  moreover have "filter (\<lambda>x. f x = j) ?rest = filter (\<lambda>x. f x = j) xs" if "j \<in> set ks" for j
    using that Cons.prems(3) by (auto intro: filter_cong)
  ultimately have "concat (map (\<lambda>j. filter (\<lambda>x. f x = j) xs) ks) = ?rest" by (simp cong: map_cong)
  then show ?case using split_least[OF Cons.prems(1), of k] Cons.prems(2,4) by fastforce
qed auto

lemma grouped_spec:
  "wf_dict d \<Longrightarrow> wf_dict (foldl (\<lambda>d n. setdefault_append d (fn_file_path n) n) d xs) \<and>
   set (keys (foldl (\<lambda>d n. setdefault_append d (fn_file_path n) n) d xs)) = set (keys d) \<union> fn_file_path ` set xs \<and>
   get_list (foldl (\<lambda>d n. setdefault_append d (fn_file_path n) n) d xs) path = get_list d path @ filter (\<lambda>n. fn_file_path n = path) xs"
  by (induction xs arbitrary: d) (auto simp: setdefault_append_def)

lemma functions_by_file_spec:
  "distinct (keys (functions_by_file nodes))"
  "set (keys (functions_by_file nodes)) = fn_file_path ` set nodes"
  "get_list (functions_by_file nodes) path = filter (\<lambda>n. fn_file_path n = path) (sort_key location_key nodes)"
  using grouped_spec[OF wf_dict_Nil, of "sort_key location_key nodes" path]
  by (simp_all add: functions_by_file_def wf_dict_keys)

lemma sorted_files: "sorted (map fn_file_path (sort_key location_key nodes))"
  using sorted_sort_key[of location_key nodes]
  by (auto simp: sorted_map location_key_def less_eq_prod_def elim!: sorted_wrt_mono_rel[rotated])

lemma functions_with_source:
  "concat (map (get_list (functions_by_file nodes)) (filter P (sort (keys (functions_by_file nodes)))))
   = filter (P \<circ> fn_file_path) (sort_key location_key nodes)"
proof -
  let ?ns = "filter (P \<circ> fn_file_path) (sort_key location_key nodes)" and ?ks = "filter P (sort (keys (functions_by_file nodes)))"
  have "get_list (functions_by_file nodes) k = filter (\<lambda>n. fn_file_path n = k) ?ns" if "k \<in> set ?ks" for k
    using that by (auto simp: functions_by_file_spec intro: filter_cong)
  then have "map (get_list (functions_by_file nodes)) ?ks = map (\<lambda>k. filter (\<lambda>n. fn_file_path n = k) ?ns) ?ks"
    by (rule map_cong[OF refl])
  moreover have "concat (map (\<lambda>k. filter (\<lambda>n. fn_file_path n = k) ?ns) ?ks) = ?ns"
    by (rule concat_by_key[OF sorted_filter[OF sorted_files]]) (auto simp: sorted_filter[of id, simplified] functions_by_file_spec)
  ultimately show ?thesis by (simp only:)
qed

text \<open>The outcome for a list of functions: chunks within the limit that hold the pieces of all of them.\<close>

definition group_ok :: "(string \<Rightarrow> int) \<Rightarrow> int \<Rightarrow> part list \<Rightarrow> bool" where
  "group_ok counter m g \<longleftrightarrow> g \<noteq> [] \<and> counter (join_parts g) \<le> m \<and> (\<exists>path. \<forall>p \<in> set g. fn_file_path (fst p) = path)"

definition chunks_ok ::
  "(string \<Rightarrow> int) \<Rightarrow> int \<Rightarrow> (string \<Rightarrow> source_map option) \<Rightarrow> function_node list \<Rightarrow> chunk list \<Rightarrow> bool" where
  "chunks_ok counter m source_for ns chunks \<longleftrightarrow>
     (\<exists>owned groups. map fst owned = ns \<and>
        (\<forall>(n, ps) \<in> set owned. \<exists>sm. source_for (fn_file_path n) = Some sm \<and> concat ps = function_body sm n) \<and>
        concat groups = owned_parts owned \<and> chunks = map chunk_of groups \<and> (\<forall>g \<in> set groups. group_ok counter m g))"

lemma chunks_ok_append:
  assumes "chunks_ok counter m source_for ns chunks" and "chunks_ok counter m source_for ns' chunks'"
  shows "chunks_ok counter m source_for (ns @ ns') (chunks @ chunks')"
proof -
  obtain os gs where 1: "map fst os = ns" "\<forall>(n, ps) \<in> set os. \<exists>sm. source_for (fn_file_path n) = Some sm \<and> concat ps = function_body sm n"
    "concat gs = owned_parts os" "chunks = map chunk_of gs" "\<forall>g \<in> set gs. group_ok counter m g"
    using assms(1) unfolding chunks_ok_def by blast
  obtain os' gs' where 2: "map fst os' = ns'" "\<forall>(n, ps) \<in> set os'. \<exists>sm. source_for (fn_file_path n) = Some sm \<and> concat ps = function_body sm n"
    "concat gs' = owned_parts os'" "chunks' = map chunk_of gs'" "\<forall>g \<in> set gs'. group_ok counter m g"
    using assms(2) unfolding chunks_ok_def by blast
  show ?thesis unfolding chunks_ok_def
    using 1 2 by (intro exI[of _ "os @ os'"] exI[of _ "gs @ gs'"]) (simp add: ball_Un)
qed

lemma file_chunk_loop:
  assumes "\<forall>x \<in> set owned. owns_body counter m sm x" and "source_for path = Some sm"
    and "\<forall>x \<in> set owned. fn_file_path (fst x) = path"
  shows "\<exists>chunks. chunk_loop counter m (owned_parts owned) 0 = Some chunks \<and> chunks_ok counter m source_for (map fst owned) chunks"
proof -
  have fit: "\<And>p. p \<in> set (owned_parts owned) \<Longrightarrow> counter (snd p) \<le> m" using owned_fit[OF assms(1)] by blast
  from chunk_loop_spec[of "owned_parts owned" counter m 0, OF fit] obtain gs where
    gs: "chunk_loop counter m (owned_parts owned) 0 = Some (map chunk_of gs)" "concat gs = owned_parts owned" "packed counter m gs"
    by auto
  have "group_ok counter m g" if "g \<in> set gs" for g
  proof -
    have "p \<in> set (owned_parts owned)" if "p \<in> set g" for p using that \<open>g \<in> set gs\<close> gs(2)[symmetric] by auto
    then have "\<forall>p \<in> set g. fn_file_path (fst p) = path" using owned_fit[OF assms(1)] assms(3) by fastforce
    with packed_mem[OF gs(3) that] show ?thesis by (auto simp: group_ok_def)
  qed
  moreover have "\<forall>(n, ps) \<in> set owned. \<exists>sm. source_for (fn_file_path n) = Some sm \<and> concat ps = function_body sm n"
    using assms by (fastforce simp: owns_body_def)
  ultimately have "chunks_ok counter m source_for (map fst owned) (map chunk_of gs)"
    using gs(2) unfolding chunks_ok_def by (intro exI[of _ owned] exI[of _ gs]) auto
  with gs(1) show ?thesis by blast
qed

lemma file_chunks_spec:
  assumes "\<And>path n. path \<in> set paths \<Longrightarrow> n \<in> set (get_list by_file path) \<Longrightarrow> fn_file_path n = path"
  shows "\<exists>r. file_chunks counter m source_for by_file paths = Some r \<and>
    (case r of
       Inl e \<Rightarrow> chunk_error_ok counter m (source_for \<circ> fn_file_path) (concat (map (get_list by_file) paths)) e
     | Inr chunks \<Rightarrow> chunks_ok counter m source_for
         (concat (map (get_list by_file) (filter (\<lambda>p. source_for p \<noteq> None) paths))) chunks)"
  using assms
proof (induction paths)
  case Nil
  show ?case by (auto simp: chunks_ok_def)
next
  case (Cons path paths)
  let ?all = "concat (map (get_list by_file) paths)"
  from Cons.IH Cons.prems obtain r where r: "file_chunks counter m source_for by_file paths = Some r"
    "case r of Inl e \<Rightarrow> chunk_error_ok counter m (source_for \<circ> fn_file_path) ?all e
     | Inr chunks \<Rightarrow> chunks_ok counter m source_for (concat (map (get_list by_file) (filter (\<lambda>p. source_for p \<noteq> None) paths))) chunks"
    by (metis list.set_intros(2))
  have later: "chunk_error_ok counter m (source_for \<circ> fn_file_path) (get_list by_file path @ ?all) e" if "r = Inl e" for e
    using r(2) that by (auto intro: chunk_error_ok_mono)
  show ?case
  proof (cases "source_for path")
    case None
    with r later show ?thesis by (auto split: sum.splits)
  next
    case (Some sm)
    note sm = this
    from file_parts_spec[of counter m sm "get_list by_file path"] obtain f where f: "file_parts counter m sm (get_list by_file path) = Some f"
      "case f of Inl e \<Rightarrow> chunk_error_ok counter m (\<lambda>_. Some sm) (get_list by_file path) e
       | Inr parts \<Rightarrow> \<exists>owned. map fst owned = get_list by_file path \<and> (\<forall>x \<in> set owned. owns_body counter m sm x) \<and> parts = owned_parts owned"
      by blast
    have files: "fn_file_path n = path" if "n \<in> set (get_list by_file path)" for n using Cons.prems that by simp
    show ?thesis
    proof (cases f)
      case (Inl e)
      with f(2) have "chunk_error_ok counter m (source_for \<circ> fn_file_path) (get_list by_file path @ ?all) e"
        by (auto intro!: chunk_error_ok_mono[of counter m "\<lambda>_. Some sm" "get_list by_file path" e] simp: files sm)
      with Inl f(1) sm show ?thesis by simp
    next
      case (Inr parts)
      with f(2) obtain owned where owned: "map fst owned = get_list by_file path" "\<forall>x \<in> set owned. owns_body counter m sm x"
        "parts = owned_parts owned" by auto
      have "\<forall>x \<in> set owned. fn_file_path (fst x) = path" using files by (metis image_eqI list.set_map owned(1))
      from file_chunk_loop[of owned counter m sm source_for path, OF owned(2) sm this] obtain chunks where
        "chunk_loop counter m parts 0 = Some chunks" "chunks_ok counter m source_for (get_list by_file path) chunks"
        using owned by auto
      with r f(1) Inr sm later show ?thesis by (cases r) (auto intro: chunks_ok_append)
    qed
  qed
qed

section \<open>Properties\<close>

lemma build_chunks_spec:
  "\<exists>r. build_file_grouped_node_chunks source_for nodes max_tokens counter = Some r \<and>
    (case r of
       Inl e \<Rightarrow> chunk_error_ok counter max_tokens (source_for \<circ> fn_file_path) nodes e
     | Inr chunks \<Rightarrow> chunks_ok counter max_tokens source_for
         (filter (\<lambda>n. source_for (fn_file_path n) \<noteq> None) (sort_key location_key nodes)) chunks)"
proof -
  let ?d = "functions_by_file nodes"
  have "set (concat (map (get_list ?d) (sort (keys ?d)))) \<subseteq> set nodes" by (auto simp: functions_by_file_spec)
  then have weaken: "chunk_error_ok counter max_tokens (source_for \<circ> fn_file_path) nodes e"
    if "chunk_error_ok counter max_tokens (source_for \<circ> fn_file_path) (concat (map (get_list ?d) (sort (keys ?d)))) e" for e
    using chunk_error_ok_mono[OF that] by blast
  have "\<exists>r. file_chunks counter max_tokens source_for ?d (sort (keys ?d)) = Some r \<and>
    (case r of
       Inl e \<Rightarrow> chunk_error_ok counter max_tokens (source_for \<circ> fn_file_path) (concat (map (get_list ?d) (sort (keys ?d)))) e
     | Inr chunks \<Rightarrow> chunks_ok counter max_tokens source_for
         (concat (map (get_list ?d) (filter (\<lambda>p. source_for p \<noteq> None) (sort (keys ?d))))) chunks)"
    by (rule file_chunks_spec) (auto simp: functions_by_file_spec)
  then obtain r where r: "file_chunks counter max_tokens source_for ?d (sort (keys ?d)) = Some r"
    "case r of
       Inl e \<Rightarrow> chunk_error_ok counter max_tokens (source_for \<circ> fn_file_path) (concat (map (get_list ?d) (sort (keys ?d)))) e
     | Inr chunks \<Rightarrow> chunks_ok counter max_tokens source_for
         (concat (map (get_list ?d) (filter (\<lambda>p. source_for p \<noteq> None) (sort (keys ?d))))) chunks" by blast
  then show ?thesis using weaken functions_with_source[of nodes "\<lambda>p. source_for p \<noteq> None"]
    by (cases r) (simp_all add: build_file_grouped_node_chunks_def comp_def)
qed

text \<open>
  C31. Grouping ends for every token counter and keeps everything: the functions whose file has a
  source, in the order of file, line and name, are cut into pieces that make up their numbered
  bodies, and the pieces, in order, into nonempty chunks of one file each, none above the token
  limit. It fails only on a source line above the limit, or when the limit is not positive.
\<close>

theorem node_chunks_bounded:
  "\<exists>r. build_file_grouped_node_chunks source_for nodes max_tokens counter = Some r \<and>
    (case r of
       Inl e \<Rightarrow> chunk_error_ok counter max_tokens (source_for \<circ> fn_file_path) nodes e
     | Inr chunks \<Rightarrow> chunks_ok counter max_tokens source_for
         (filter (\<lambda>n. source_for (fn_file_path n) \<noteq> None) (sort_key location_key nodes)) chunks)"
  by (rule build_chunks_spec)

text \<open>
  C32. The doubling and bisecting search finds the greedy boundary: when the count never decreases as
  text is appended and every piece fits, the chunks are those of the packing that adds one piece at
  a time for as long as the chunk fits.
\<close>

theorem chunk_loop_greedy:
  assumes "monotone_counter counter" and "\<And>p. p \<in> set parts \<Longrightarrow> counter (snd p) \<le> max_tokens"
  shows "chunk_loop counter max_tokens parts 0 = Some (map chunk_of (greedy_groups counter max_tokens parts))"
proof -
  from chunk_loop_spec[of parts counter max_tokens 0, OF assms(2)] obtain gs where
    "chunk_loop counter max_tokens parts 0 = Some (map chunk_of gs)" "concat gs = parts" "packed counter max_tokens gs" by auto
  with packed_greedy[OF assms(1)] show ?thesis by metis
qed

theorem chunk_loop_greedy_witness:
  "map_option (map snd) (chunk_loop demo_counter 3 (map (Pair (hd demo_functions)) [''aaaa'', ''bb'', ''c'', ''dddddddd'', ''e'']) 0)
   = Some [''aaaa'' @ [newline, newline] @ ''bb'' @ [newline, newline] @ ''c'', ''dddddddd'' @ [newline, newline] @ ''e'']"
proof -
  let ?parts = "map (Pair (hd demo_functions)) [''aaaa'', ''bb'', ''c'', ''dddddddd'', ''e'']"
  have "monotone_counter demo_counter" unfolding monotone_counter_def demo_counter_def by (auto intro!: zdiv_mono1)
  moreover have "demo_counter (snd p) \<le> 3" if "p \<in> set ?parts" for p using that by (auto simp: demo_counter_def)
  ultimately have "chunk_loop demo_counter 3 ?parts 0 = Some (map chunk_of (greedy_groups demo_counter 3 ?parts))"
    by (rule chunk_loop_greedy)
  then show ?thesis by (simp add: greedy_groups_def join_parts_def chunk_of_def demo_counter_def)
qed

end
