(* ===== verification/C_Linking.thy ===== *)
theory C_Linking
  imports Finding_Admission
begin

text \<open>
  Linking of C and C++ functions (\<open>plugins/c_family/linking.py\<close>): every call site and every reference
  of the parsed functions is resolved to the definitions it may refer to, by linkage, name lookup
  through the enclosing scopes, value declarations that hide functions, and argument counts. A
  parsed function shares its node with the graph; here the graph is returned with the nodes updated.
  The cache of candidates for C++ calls is shown to change nothing.
\<close>

section \<open>Parsed functions\<close>

record value_binding =
  vb_name :: string
  vb_declaration_byte :: int
  vb_scope_start_byte :: int
  vb_scope_end_byte :: int
  vb_targets :: "symbol_reference list option"

record c_call_site =
  cc_symbol :: string
  cc_precise_symbol :: string
  cc_line :: int
  cc_argument_count :: int
  cc_kind :: string
  cc_start_byte :: int
  cc_end_byte :: int
  cc_qualified_name :: string
  cc_generic_qualified_name :: string
  cc_receiver :: string
  cc_arguments :: "code_expression list"
  cc_conditions :: "control_condition list"
  cc_must_conditions :: "control_condition list"
  cc_result :: "code_expression option"

record function_syntax =
  fs_name :: string
  fs_qualified_name :: string
  fs_signature_suffix :: string
  fs_lexical_scope :: "string list"
  fs_minimum_argument_count :: int
  fs_maximum_argument_count :: "int option"
  fs_has_external_c_linkage :: bool

record parsed_function =
  pf_node :: function_node
  pf_syntax :: function_syntax
  pf_calls :: "c_call_site list"
  pf_value_bindings :: "value_binding list"
  pf_visible_languages :: "string list option"

definition anonymous_namespace_scope :: string where
  "anonymous_namespace_scope = ''(anonymous namespace)''"

text \<open>\<open>s.split("::")\<close>, \<open>"::".join(parts)\<close>, \<open>s.rpartition("::")\<close> and \<open>"::" in s\<close>.\<close>

fun split_colons_from :: "string \<Rightarrow> string \<Rightarrow> string list" where
  "split_colons_from part [] = [part]"
| "split_colons_from part [c] = [part @ [c]]"
| "split_colons_from part (a # b # s) =
     (if a = CHR '':'' \<and> b = CHR '':'' then part # split_colons_from [] s else split_colons_from (part @ [a]) (b # s))"

definition colon_positions :: "string \<Rightarrow> nat list" where
  "colon_positions s = filter (\<lambda>i. startswith (drop i s) ''::'') [0..<length s]"

definition rpartition_colons :: "string \<Rightarrow> string \<times> string" where
  "rpartition_colons s =
     (if colon_positions s = [] then ('''', s)
      else let i = last (colon_positions s) in (take i s, drop (i + 2) s))"

section \<open>Value bindings\<close>

text \<open>\<open>max\<close> returns the first of the largest elements.\<close>

fun max_by_declaration :: "value_binding \<Rightarrow> value_binding list \<Rightarrow> value_binding" where
  "max_by_declaration best [] = best"
| "max_by_declaration best (b # bs) =
     max_by_declaration (if vb_declaration_byte best < vb_declaration_byte b then b else best) bs"

definition visible_value_binding :: "value_binding list \<Rightarrow> string \<Rightarrow> int \<Rightarrow> value_binding option" where
  "visible_value_binding bindings name at_byte =
     (case filter (\<lambda>b. vb_name b = name \<and> vb_declaration_byte b \<le> at_byte \<and>
                       vb_scope_start_byte b \<le> at_byte \<and> at_byte \<le> vb_scope_end_byte b) bindings of
        [] \<Rightarrow> None | b # bs \<Rightarrow> Some (max_by_declaration b bs))"

definition pointer_targets_for_call :: "value_binding list \<Rightarrow> c_call_site \<Rightarrow> symbol_reference list option" where
  "pointer_targets_for_call bindings call =
     (if cc_receiver call \<noteq> '''' then None
      else case visible_value_binding bindings (cc_precise_symbol call) (cc_start_byte call) of
             None \<Rightarrow> None
           | Some b \<Rightarrow> Some (filter (\<lambda>t. sr_start_byte t < cc_start_byte call)
                               (case vb_targets b of None \<Rightarrow> [] | Some ts \<Rightarrow> ts)))"

type_synonym value_declarations = "(string \<times> string, int list) dict"

definition has_visible_value_declaration :: "value_declarations \<Rightarrow> string \<Rightarrow> string \<Rightarrow> int \<Rightarrow> bool" where
  "has_visible_value_declaration decls file_path qualified_name at_byte \<longleftrightarrow>
     list_ex (\<lambda>b. b \<le> at_byte) (get_list decls (file_path, qualified_name))"

section \<open>Indexes of the definitions\<close>

definition node_span :: "parsed_function \<Rightarrow> string \<times> int \<times> int" where
  "node_span f = (fn_file_path (pf_node f), fn_start_byte (pf_node f), fn_end_byte (pf_node f))"

definition with_c_linkage :: "parsed_function list \<Rightarrow> function_syntax list \<Rightarrow> parsed_function list" where
  "with_c_linkage functions declarations =
     (let c_linkage_names = map fs_qualified_name (filter fs_has_external_c_linkage declarations);
          cpp_definitions = map node_span (filter (\<lambda>f. fn_language (pf_node f) = ''cpp'') functions)
      in if c_linkage_names = [] then functions
         else map (\<lambda>f. if fn_language (pf_node f) = ''c'' \<and> \<not> fn_has_internal_linkage (pf_node f) \<and>
                          fs_qualified_name (pf_syntax f) \<in> set c_linkage_names \<and> node_span f \<notin> set cpp_definitions
                       then f\<lparr>pf_visible_languages := Some [''c'', ''cpp'']\<rparr> else f) functions)"

record link_index =
  li_by_name :: "(string, parsed_function list) dict"
  li_by_qualified_name :: "(string, parsed_function list) dict"
  li_c_by_file :: "(string \<times> string, parsed_function list) dict"
  li_external_c :: "(string, parsed_function list) dict"

definition visible_name :: "string \<Rightarrow> string" where
  "visible_name qualified_name =
     join ''::'' (filter (\<lambda>p. p \<noteq> anonymous_namespace_scope) (split_colons_from [] qualified_name))"

definition index_definition :: "link_index \<Rightarrow> parsed_function \<Rightarrow> link_index" where
  "index_definition idx f =
     (let n = pf_node f; q = fs_qualified_name (pf_syntax f);
          idx1 = idx\<lparr>li_by_name := setdefault_append (li_by_name idx) (fn_name n) f\<rparr>;
          idx2 = (if fn_language n = ''c''
                  then let idx' = idx1\<lparr>li_c_by_file := setdefault_append (li_c_by_file idx1) (fn_file_path n, fn_name n) f\<rparr>
                       in if fn_has_internal_linkage n then idx'
                          else idx'\<lparr>li_external_c := setdefault_append (li_external_c idx') (fn_name n) f\<rparr>
                  else idx1);
          idx3 = idx2\<lparr>li_by_qualified_name := setdefault_append (li_by_qualified_name idx2) q f\<rparr>
      in if anonymous_namespace_scope \<in> set (fs_lexical_scope (pf_syntax f))
         then idx3\<lparr>li_by_qualified_name := setdefault_append (li_by_qualified_name idx3) (visible_name q) f\<rparr>
         else idx3)"

definition build_index :: "parsed_function list \<Rightarrow> function_syntax list \<Rightarrow> link_index" where
  "build_index functions declarations =
     foldl index_definition \<lparr>li_by_name = [], li_by_qualified_name = [], li_c_by_file = [], li_external_c = []\<rparr>
       (with_c_linkage functions declarations)"

definition declared_minimums :: "function_syntax list \<Rightarrow> (string \<times> string, int) dict" where
  "declared_minimums declarations =
     foldl (\<lambda>d s. let key = (fs_qualified_name s, fs_signature_suffix s);
                      current = (case map_of d key of None \<Rightarrow> fs_minimum_argument_count s | Some n \<Rightarrow> n)
                  in AList.update key (min current (fs_minimum_argument_count s)) d) [] declarations"

section \<open>Candidates\<close>

text \<open>The name in the enclosing scopes, from the innermost out.\<close>

definition scoped_names :: "string list \<Rightarrow> string \<Rightarrow> string list" where
  "scoped_names lexical_scope name =
     map (\<lambda>depth. join ''::'' (take depth lexical_scope @ [name])) (rev [0..<Suc (length lexical_scope)])"

fun prefix_before :: "string \<Rightarrow> string list \<Rightarrow> string list" where
  "prefix_before x [] = []"
| "prefix_before x (y # ys) = (if y = x then [] else y # prefix_before x ys)"

definition visible_anonymous_namespace_candidates :: "parsed_function list \<Rightarrow> string list \<Rightarrow> parsed_function list" where
  "visible_anonymous_namespace_candidates candidates lexical_scope =
     filter (\<lambda>f. let scope = fs_lexical_scope (pf_syntax f); enclosing = prefix_before anonymous_namespace_scope scope
                 in anonymous_namespace_scope \<notin> set scope \<or> take (length enclosing) lexical_scope = enclosing) candidates"

definition linkage_visible :: "string \<Rightarrow> parsed_function \<Rightarrow> bool" where
  "linkage_visible file_path f \<longleftrightarrow> \<not> fn_has_internal_linkage (pf_node f) \<or> fn_file_path (pf_node f) = file_path"

text \<open>The lookup of a C++ reference; \<open>None\<close> when a value declaration hides the functions.\<close>

fun lookup_reference ::
  "link_index \<Rightarrow> value_declarations \<Rightarrow> string \<Rightarrow> int \<Rightarrow> string list \<Rightarrow> parsed_function list option" where
  "lookup_reference idx decls file_path at_byte [] = Some []"
| "lookup_reference idx decls file_path at_byte (name # names) =
     (if has_visible_value_declaration decls file_path name at_byte then None
      else let candidates = get_list (li_by_qualified_name idx) name
           in if candidates \<noteq> [] then Some candidates else lookup_reference idx decls file_path at_byte names)"

definition lookup_in_scopes ::
  "link_index \<Rightarrow> value_declarations \<Rightarrow> symbol_reference \<Rightarrow> string \<Rightarrow> string \<Rightarrow> string list \<Rightarrow> string \<Rightarrow> parsed_function list option" where
  "lookup_in_scopes idx decls reference file_path language lexical_scope symbol =
     (if language = ''cpp''
      then lookup_reference idx decls file_path (sr_start_byte reference)
             (if startswith (sr_symbol reference) ''::'' then [symbol] else scoped_names lexical_scope symbol)
      else if has_visible_value_declaration decls file_path symbol (sr_start_byte reference) then None else Some [])"

definition language_visible :: "string \<Rightarrow> parsed_function \<Rightarrow> bool" where
  "language_visible language f \<longleftrightarrow>
     (case pf_visible_languages f of None \<Rightarrow> fn_language (pf_node f) = language | Some ls \<Rightarrow> language \<in> set ls)"

definition visible_references :: "string \<Rightarrow> string \<Rightarrow> bool \<Rightarrow> string list \<Rightarrow> parsed_function list \<Rightarrow> parsed_function list" where
  "visible_references file_path language is_qualified lexical_scope candidates =
     (let visible = filter (\<lambda>f. language_visible language f \<and> linkage_visible file_path f) candidates
      in if is_qualified then visible else visible_anonymous_namespace_candidates visible lexical_scope)"

definition reference_candidates ::
  "link_index \<Rightarrow> value_declarations \<Rightarrow> symbol_reference \<Rightarrow> string \<Rightarrow> string \<Rightarrow> string list \<Rightarrow> value_binding list \<Rightarrow> parsed_function list" where
  "reference_candidates idx decls reference file_path language lexical_scope value_bindings =
     (let symbol = removeprefix (sr_symbol reference) ''::'';
          is_qualified = startswith (sr_symbol reference) ''::'' \<or> colon_positions symbol \<noteq> []
      in if \<not> is_qualified \<and> visible_value_binding value_bindings symbol (sr_start_byte reference) \<noteq> None then []
         else case lookup_in_scopes idx decls reference file_path language lexical_scope symbol of
                None \<Rightarrow> []
              | Some found \<Rightarrow>
                  visible_references file_path language is_qualified lexical_scope
                    (if found = [] \<and> \<not> is_qualified then get_list (li_by_name idx) (snd (rpartition_colons symbol)) else found))"

definition c_call_candidates ::
  "link_index \<Rightarrow> value_declarations \<Rightarrow> c_call_site \<Rightarrow> parsed_function \<Rightarrow> parsed_function list" where
  "c_call_candidates idx decls call caller =
     (let file_path = fn_file_path (pf_node caller)
      in if cc_kind call \<noteq> ''direct'' then []
         else if has_visible_value_declaration decls file_path (cc_precise_symbol call) (cc_start_byte call) then []
         else case get_list (li_c_by_file idx) (file_path, cc_precise_symbol call) of
                [] \<Rightarrow> get_list (li_external_c idx) (cc_precise_symbol call)
              | fs \<Rightarrow> fs)"

fun first_found :: "link_index \<Rightarrow> string list \<Rightarrow> parsed_function list" where
  "first_found idx [] = []"
| "first_found idx (name # names) =
     (let candidates = get_list (li_by_qualified_name idx) name
      in if candidates \<noteq> [] then candidates else first_found idx names)"

definition qualified_lookup_names :: "string list \<Rightarrow> string \<Rightarrow> string list" where
  "qualified_lookup_names lexical_scope qualified_name =
     (let normalized = removeprefix qualified_name ''::''
      in if startswith qualified_name ''::'' then [normalized] else scoped_names lexical_scope normalized)"

definition accepts_arguments :: "(string \<times> string, int) dict \<Rightarrow> int \<Rightarrow> parsed_function \<Rightarrow> bool" where
  "accepts_arguments minimums argument_count f \<longleftrightarrow>
     (case map_of minimums (fs_qualified_name (pf_syntax f), fs_signature_suffix (pf_syntax f)) of
        None \<Rightarrow> fs_minimum_argument_count (pf_syntax f) | Some n \<Rightarrow> n) \<le> argument_count \<and>
     (case fs_maximum_argument_count (pf_syntax f) of None \<Rightarrow> True | Some n \<Rightarrow> argument_count \<le> n)"

text \<open>The fields of a C++ call on which its candidates depend, the key of the cache.\<close>

type_synonym call_key = "string \<times> string \<times> string \<times> string \<times> int"

definition call_key_of :: "c_call_site \<Rightarrow> call_key" where
  "call_key_of call =
     (cc_symbol call, cc_qualified_name call, cc_generic_qualified_name call, cc_receiver call, cc_argument_count call)"

definition named_candidates :: "link_index \<Rightarrow> parsed_function \<Rightarrow> call_key \<Rightarrow> parsed_function list" where
  "named_candidates idx caller = (\<lambda>(symbol, qualified_name, generic_name, receiver, argument_count).
     let scope = fs_lexical_scope (pf_syntax caller)
     in if qualified_name \<noteq> ''''
        then first_found idx (concat (map (qualified_lookup_names scope) (fromkeys [qualified_name, generic_name])))
        else if receiver = ''this''
        then get_list (li_by_qualified_name idx)
               (fst (rpartition_colons (fs_qualified_name (pf_syntax caller))) @ ''::'' @ symbol)
        else first_found idx (scoped_names scope symbol))"

definition visible_calls :: "parsed_function \<Rightarrow> bool \<Rightarrow> parsed_function list \<Rightarrow> parsed_function list" where
  "visible_calls caller is_qualified candidates =
     (let file_path = fn_file_path (pf_node caller);
          visible = filter (\<lambda>f. (case pf_visible_languages f of None \<Rightarrow> True | Some ls \<Rightarrow> ''cpp'' \<in> set ls) \<and>
                                linkage_visible file_path f) candidates
      in if is_qualified then visible
         else let vis = visible_anonymous_namespace_candidates visible (fs_lexical_scope (pf_syntax caller));
                  same_file = filter (\<lambda>f. fn_file_path (pf_node f) = file_path) vis
              in if same_file \<noteq> [] then same_file else vis)"

definition call_candidates ::
  "link_index \<Rightarrow> (string \<times> string, int) dict \<Rightarrow> parsed_function \<Rightarrow> call_key \<Rightarrow> parsed_function list" where
  "call_candidates idx minimums caller key =
     (case key of (symbol, qualified_name, generic_name, receiver, argument_count) \<Rightarrow>
        let found = named_candidates idx caller key
        in if qualified_name = '''' \<and> receiver \<noteq> '''' \<and> receiver \<noteq> ''this'' then []
           else if found = [] \<and> qualified_name \<noteq> '''' then []
           else filter (accepts_arguments minimums argument_count)
                  (visible_calls caller (qualified_name \<noteq> '''') (if found = [] then get_list (li_by_name idx) symbol else found)))"

section \<open>Resolution\<close>

datatype link_error = BadSyntax syntax_error | UnknownReference string | UnknownScope string

definition target_ids_of :: "parsed_function list \<Rightarrow> string list" where
  "target_ids_of candidates = fromkeys (map (fn_unique_name \<circ> pf_node) candidates)"

definition new_call_site :: "c_call_site \<Rightarrow> string \<Rightarrow> string list \<Rightarrow> link_error + call_site" where
  "new_call_site call kind target_ids =
     (let site = \<lparr>cs_symbol = cc_precise_symbol call, cs_line = cc_line call, cs_argument_count = cc_argument_count call,
                  cs_kind = kind, cs_start_byte = cc_start_byte call, cs_end_byte = cc_end_byte call,
                  cs_qualified_name = cc_qualified_name call, cs_generic_qualified_name = cc_generic_qualified_name call,
                  cs_receiver = cc_receiver call, cs_target_ids = target_ids, cs_targets_complete = False,
                  cs_arguments = cc_arguments call, cs_conditions = cc_conditions call,
                  cs_must_conditions = cc_must_conditions call, cs_result = cc_result call\<rparr>
      in case call_site_post_init site of Inl e \<Rightarrow> Inl (BadSyntax e) | Inr _ \<Rightarrow> Inr site)"

type_synonym candidate_cache = "(call_key, parsed_function list) dict"

text \<open>The kind of a call and its candidates; for a C++ call they come from the cache.\<close>

definition candidates_for_call ::
  "link_index \<Rightarrow> (string \<times> string, int) dict \<Rightarrow> value_declarations \<Rightarrow> (string, value_binding list) dict \<Rightarrow> parsed_function \<Rightarrow>
   candidate_cache \<Rightarrow> c_call_site \<Rightarrow> candidate_cache \<times> string \<times> parsed_function list" where
  "candidates_for_call idx minimums decls bindings caller cache call =
     (case pointer_targets_for_call (get_list bindings (cc_precise_symbol call)) call of
        Some references \<Rightarrow>
          (cache, ''indirect'',
           concat (map (\<lambda>r. reference_candidates idx decls r (fn_file_path (pf_node caller)) (fn_language (pf_node caller))
                              (fs_lexical_scope (pf_syntax caller)) (get_list bindings (sr_symbol r))) references))
      | None \<Rightarrow>
          if fn_language (pf_node caller) = ''cpp''
          then let key = call_key_of call;
                   cache' = (if key \<in> set (keys cache) then cache else AList.update key (call_candidates idx minimums caller key) cache)
               in (cache', cc_kind call, get_list cache' key)
          else (cache, cc_kind call, c_call_candidates idx decls call caller))"

fun resolve_call_sites ::
  "link_index \<Rightarrow> (string \<times> string, int) dict \<Rightarrow> value_declarations \<Rightarrow> (string, value_binding list) dict \<Rightarrow> parsed_function \<Rightarrow>
   candidate_cache \<Rightarrow> c_call_site list \<Rightarrow> link_error + call_site list" where
  "resolve_call_sites idx minimums decls bindings caller cache [] = Inr []"
| "resolve_call_sites idx minimums decls bindings caller cache (call # calls) =
     (case candidates_for_call idx minimums decls bindings caller cache call of
        (cache', kind, candidates) \<Rightarrow>
          and_then (new_call_site call kind (target_ids_of candidates)) (\<lambda>site.
          and_then (resolve_call_sites idx minimums decls bindings caller cache' calls) (\<lambda>sites.
          Inr (site # sites))))"

definition bindings_by_name :: "parsed_function \<Rightarrow> (string, value_binding list) dict" where
  "bindings_by_name caller = foldl (\<lambda>d b. setdefault_append d (vb_name b) b) [] (pf_value_bindings caller)"

definition link_reference :: "string list \<Rightarrow> symbol_reference \<Rightarrow> link_error + symbol_reference" where
  "link_reference targets r = (case with_targets targets r of Inl e \<Rightarrow> Inl (BadSyntax e) | Inr r' \<Rightarrow> Inr r')"

definition link_function ::
  "link_index \<Rightarrow> (string \<times> string, int) dict \<Rightarrow> value_declarations \<Rightarrow> parsed_function \<Rightarrow> link_error + function_node" where
  "link_function idx minimums decls caller =
     (let bindings = bindings_by_name caller; n = pf_node caller
      in and_then (resolve_call_sites idx minimums decls bindings caller [] (pf_calls caller)) (\<lambda>sites.
         and_then (map_res (\<lambda>r. link_reference (target_ids_of (reference_candidates idx decls r (fn_file_path n) (fn_language n)
                     (fs_lexical_scope (pf_syntax caller)) (get_list bindings (sr_symbol r)))) r) (fn_references n)) (\<lambda>refs.
         Inr (n\<lparr>fn_call_sites := sites, fn_references := refs,
                fn_resolved_calls := fromkeys (concat (map cs_target_ids sites))\<rparr>))))"

definition global_initializer_entrypoint_reason :: string where
  "global_initializer_entrypoint_reason = ''referenced by a global function table or initializer''"

definition mark_entrypoint :: "code_graph \<Rightarrow> string \<Rightarrow> code_graph" where
  "mark_entrypoint g target_id =
     (case get_node g target_id of None \<Rightarrow> g
      | Some n \<Rightarrow> g\<lparr>cg_nodes := AList.update target_id
          (n\<lparr>fn_is_public_entrypoint := True, fn_entrypoint_reason := global_initializer_entrypoint_reason\<rparr>) (cg_nodes g)\<rparr>)"

definition link_global_reference ::
  "link_index \<Rightarrow> value_declarations \<Rightarrow> (string \<times> int \<times> int, string list) dict \<Rightarrow> (string, string list) dict \<Rightarrow>
   global_construct \<Rightarrow> symbol_reference \<Rightarrow> link_error + symbol_reference" where
  "link_global_reference idx decls languages scopes c r =
     (case map_of languages (gc_file_path c, sr_start_byte r, sr_end_byte r) of
        None \<Rightarrow> Inl (UnknownReference (gc_unique_name c))
      | Some ls \<Rightarrow>
          (if ls = [] then link_reference [] r
           else case map_of scopes (gc_unique_name c) of
                  None \<Rightarrow> Inl (UnknownScope (gc_unique_name c))
                | Some scope \<Rightarrow>
                    link_reference (target_ids_of (concat (map (\<lambda>language.
                      reference_candidates idx decls r (gc_file_path c) language scope []) (sort (remdups ls))))) r))"

definition link_global ::
  "link_index \<Rightarrow> value_declarations \<Rightarrow> (string \<times> int \<times> int, string list) dict \<Rightarrow> (string, string list) dict \<Rightarrow>
   code_graph \<Rightarrow> string \<times> global_construct \<Rightarrow> link_error + code_graph" where
  "link_global idx decls languages scopes g = (\<lambda>(k, c).
     and_then (map_res (link_global_reference idx decls languages scopes c) (gc_references c)) (\<lambda>refs.
     Inr (foldl mark_entrypoint (g\<lparr>cg_globals := AList.update k (c\<lparr>gc_references := refs\<rparr>) (cg_globals g)\<rparr>)
            (concat (map sr_target_ids refs)))))"

definition link_caller ::
  "link_index \<Rightarrow> (string \<times> string, int) dict \<Rightarrow> value_declarations \<Rightarrow> code_graph \<Rightarrow> parsed_function \<Rightarrow> link_error + code_graph" where
  "link_caller idx minimums decls g caller =
     and_then (link_function idx minimums decls caller) (\<lambda>n.
     Inr (g\<lparr>cg_nodes := AList.update (fn_unique_name n) n (cg_nodes g)\<rparr>))"

definition resolve_calls ::
  "code_graph \<Rightarrow> parsed_function list \<Rightarrow> function_syntax list \<Rightarrow> (string \<times> int \<times> int, string list) dict \<Rightarrow>
   (string, string list) dict \<Rightarrow> value_declarations \<Rightarrow> link_error + code_graph" where
  "resolve_calls g functions declarations languages scopes decls =
     (let idx = build_index functions declarations; minimums = declared_minimums declarations
      in and_then (fold_res (link_caller idx minimums decls) g functions) (\<lambda>g1.
         fold_res (link_global idx decls languages scopes) g1 (cg_globals g1)))"

section \<open>The indexes hold the functions\<close>

definition listed :: "(parsed_function \<Rightarrow> bool) \<Rightarrow> ('k, parsed_function list) dict \<Rightarrow> bool" where
  "listed P d \<longleftrightarrow> (\<forall>k. \<forall>f \<in> set (get_list d k). P f)"

lemma listed_append: "listed P d \<Longrightarrow> P f \<Longrightarrow> listed P (setdefault_append d k f)"
  by (auto simp: listed_def)

definition same_function :: "parsed_function \<Rightarrow> parsed_function \<Rightarrow> bool" where
  "same_function f f' \<longleftrightarrow> pf_node f = pf_node f' \<and> pf_syntax f = pf_syntax f'"

definition one_of :: "parsed_function list \<Rightarrow> parsed_function \<Rightarrow> bool" where
  "one_of functions f \<longleftrightarrow> (\<exists>f' \<in> set functions. same_function f f')"

definition index_ok :: "parsed_function list \<Rightarrow> link_index \<Rightarrow> bool" where
  "index_ok functions idx \<longleftrightarrow>
     listed (one_of functions) (li_by_name idx) \<and> listed (one_of functions) (li_by_qualified_name idx) \<and>
     (\<forall>file x. \<forall>f \<in> set (get_list (li_c_by_file idx) (file, x)). one_of functions f \<and> fn_file_path (pf_node f) = file) \<and>
     (\<forall>x. \<forall>f \<in> set (get_list (li_external_c idx) x). one_of functions f \<and> \<not> fn_has_internal_linkage (pf_node f))"

lemma index_definition_ok:
  assumes "index_ok functions idx" and "one_of functions f"
  shows "index_ok functions (index_definition idx f)"
  using assms by (auto simp: index_definition_def index_ok_def Let_def intro!: listed_append)

lemma with_c_linkage_one_of: "f \<in> set (with_c_linkage functions declarations) \<Longrightarrow> one_of functions f"
  by (auto simp: with_c_linkage_def Let_def one_of_def same_function_def split: if_splits)

lemma build_index_ok: "index_ok functions (build_index functions declarations)"
proof -
  have "index_ok functions (foldl index_definition idx fs)" if "index_ok functions idx" "\<And>f. f \<in> set fs \<Longrightarrow> one_of functions f" for idx fs
    using that by (induction fs arbitrary: idx) (auto intro: index_definition_ok)
  moreover have "index_ok functions \<lparr>li_by_name = [], li_by_qualified_name = [], li_c_by_file = [], li_external_c = []\<rparr>"
    by (simp add: index_ok_def listed_def)
  ultimately show ?thesis using with_c_linkage_one_of by (simp add: build_index_def)
qed

text \<open>A candidate is one of the functions and is visible from the file by its linkage.\<close>

definition eligible_target :: "parsed_function list \<Rightarrow> string \<Rightarrow> parsed_function \<Rightarrow> bool" where
  "eligible_target functions file_path f \<longleftrightarrow> one_of functions f \<and> linkage_visible file_path f"

lemma lookup_reference_listed:
  "listed P (li_by_qualified_name idx) \<Longrightarrow> lookup_reference idx decls path b names = Some fs \<Longrightarrow> f \<in> set fs \<Longrightarrow> P f"
  by (induction idx decls path b names rule: lookup_reference.induct) (auto simp: Let_def listed_def split: if_splits)

lemma first_found_listed: "listed P (li_by_qualified_name idx) \<Longrightarrow> f \<in> set (first_found idx names) \<Longrightarrow> P f"
  by (induction idx names rule: first_found.induct) (auto simp: Let_def listed_def split: if_splits)

lemma anonymous_subset: "set (visible_anonymous_namespace_candidates fs scope) \<subseteq> set fs"
  by (auto simp: visible_anonymous_namespace_candidates_def)

lemma visible_references_subset:
  "f \<in> set (visible_references path lang q scope cs) \<Longrightarrow> f \<in> set cs \<and> linkage_visible path f"
  using anonymous_subset[of _ scope] by (fastforce simp: visible_references_def Let_def split: if_splits)

lemma visible_calls_subset:
  "f \<in> set (visible_calls caller q cs) \<Longrightarrow> f \<in> set cs \<and> linkage_visible (fn_file_path (pf_node caller)) f"
  using anonymous_subset[of _ "fs_lexical_scope (pf_syntax caller)"] by (fastforce simp: visible_calls_def Let_def split: if_splits)

lemma index_okD:
  assumes "index_ok functions idx"
  shows "f \<in> set (get_list (li_by_name idx) x) \<Longrightarrow> one_of functions f"
    and "f \<in> set (get_list (li_by_qualified_name idx) x) \<Longrightarrow> one_of functions f"
    and "f \<in> set (first_found idx names) \<Longrightarrow> one_of functions f"
    and "lookup_reference idx decls path b names = Some fs \<Longrightarrow> f \<in> set fs \<Longrightarrow> one_of functions f"
  using assms first_found_listed[of "one_of functions" idx f names] lookup_reference_listed[of "one_of functions" idx decls path b names fs f]
  by (auto simp: index_ok_def listed_def)

lemma lookup_in_scopes_one_of:
  assumes "index_ok functions idx" and "lookup_in_scopes idx decls r path lang scope symbol = Some fs" and "f \<in> set fs"
  shows "one_of functions f"
  using assms index_okD(4)[OF assms(1)] by (auto simp: lookup_in_scopes_def split: if_splits)

lemma reference_candidates_eligible:
  assumes "index_ok functions idx" and "f \<in> set (reference_candidates idx decls r path lang scope vbs)"
  shows "eligible_target functions path f"
proof -
  define symbol where "symbol = removeprefix (sr_symbol r) ''::''"
  define q where "q = (startswith (sr_symbol r) ''::'' \<or> colon_positions symbol \<noteq> [])"
  have f1: "f \<in> set (if \<not> q \<and> visible_value_binding vbs symbol (sr_start_byte r) \<noteq> None then []
      else case lookup_in_scopes idx decls r path lang scope symbol of None \<Rightarrow> []
        | Some found \<Rightarrow> visible_references path lang q scope
            (if found = [] \<and> \<not> q then get_list (li_by_name idx) (snd (rpartition_colons symbol)) else found))"
    using assms(2) unfolding reference_candidates_def Let_def symbol_def[symmetric] q_def[symmetric] .
  then obtain found where found: "lookup_in_scopes idx decls r path lang scope symbol = Some found"
    by (cases "lookup_in_scopes idx decls r path lang scope symbol") (simp_all split: if_splits)
  with f1 have f: "f \<in> set (visible_references path lang q scope
      (if found = [] \<and> \<not> q then get_list (li_by_name idx) (snd (rpartition_colons symbol)) else found))"
    by (simp only: option.case split: if_splits) simp_all
  from visible_references_subset[OF f] index_okD(1)[OF assms(1)] lookup_in_scopes_one_of[OF assms(1) found] show ?thesis
    by (auto simp: eligible_target_def split: if_splits)
qed

lemma c_call_candidates_eligible:
  assumes ok: "index_ok functions idx" and f: "f \<in> set (c_call_candidates idx decls call caller)"
  shows "eligible_target functions (fn_file_path (pf_node caller)) f"
proof -
  let ?path = "fn_file_path (pf_node caller)"
  from f have "f \<in> set (get_list (li_c_by_file idx) (?path, cc_precise_symbol call)) \<or> f \<in> set (get_list (li_external_c idx) (cc_precise_symbol call))"
    by (auto simp: c_call_candidates_def Let_def split: if_splits list.splits)
  then show ?thesis using ok by (auto simp: index_ok_def eligible_target_def linkage_visible_def)
qed

lemma named_candidates_one_of: "index_ok functions idx \<Longrightarrow> f \<in> set (named_candidates idx caller key) \<Longrightarrow> one_of functions f"
  by (auto simp: named_candidates_def Let_def split: prod.splits if_splits dest: index_okD)

lemma call_candidates_eligible:
  assumes ok: "index_ok functions idx" and f: "f \<in> set (call_candidates idx minimums caller key)"
  shows "eligible_target functions (fn_file_path (pf_node caller)) f"
proof -
  obtain symbol q generic receiver argc where key: "key = (symbol, q, generic, receiver, argc)" by (cases key)
  define found where "found = named_candidates idx caller key"
  from f have "f \<in> set (visible_calls caller (q \<noteq> '''') (if found = [] then get_list (li_by_name idx) symbol else found))"
    unfolding call_candidates_def found_def[symmetric] Let_def by (auto simp: key split: if_splits)
  from visible_calls_subset[OF this] show ?thesis
    using index_okD(1)[OF ok, of f symbol] named_candidates_one_of[OF ok, of f caller key]
    by (auto simp: eligible_target_def found_def split: if_splits)
qed

section \<open>The cache of candidates changes nothing\<close>

definition plain_candidates ::
  "link_index \<Rightarrow> (string \<times> string, int) dict \<Rightarrow> value_declarations \<Rightarrow> (string, value_binding list) dict \<Rightarrow> parsed_function \<Rightarrow>
   c_call_site \<Rightarrow> string \<times> parsed_function list" where
  "plain_candidates idx minimums decls bindings caller call =
     (case pointer_targets_for_call (get_list bindings (cc_precise_symbol call)) call of
        Some references \<Rightarrow>
          (''indirect'', concat (map (\<lambda>r. reference_candidates idx decls r (fn_file_path (pf_node caller)) (fn_language (pf_node caller))
                           (fs_lexical_scope (pf_syntax caller)) (get_list bindings (sr_symbol r))) references))
      | None \<Rightarrow> (cc_kind call, if fn_language (pf_node caller) = ''cpp'' then call_candidates idx minimums caller (call_key_of call)
                              else c_call_candidates idx decls call caller))"

definition cached :: "link_index \<Rightarrow> (string \<times> string, int) dict \<Rightarrow> parsed_function \<Rightarrow> candidate_cache \<Rightarrow> bool" where
  "cached idx minimums caller cache \<longleftrightarrow>
     (\<forall>key \<in> set (keys cache). get_list cache key = call_candidates idx minimums caller key)"

lemma candidates_for_call_plain:
  assumes "cached idx minimums caller cache"
  shows "\<exists>cache'. cached idx minimums caller cache' \<and>
    candidates_for_call idx minimums decls bindings caller cache call = (cache', plain_candidates idx minimums decls bindings caller call)"
proof -
  define key where "key = call_key_of call"
  define cache' where "cache' = (if key \<in> set (keys cache) then cache else AList.update key (call_candidates idx minimums caller key) cache)"
  have "cached idx minimums caller cache'" "get_list cache' key = call_candidates idx minimums caller key"
    using assms by (auto simp: cached_def cache'_def set_keys_update)
  with assms show ?thesis
    by (auto simp: candidates_for_call_def plain_candidates_def Let_def key_def[symmetric] cache'_def[symmetric] split: option.split)
qed

lemma plain_candidates_eligible:
  assumes ok: "index_ok functions idx" and "f \<in> set (snd (plain_candidates idx minimums decls bindings caller call))"
  shows "eligible_target functions (fn_file_path (pf_node caller)) f"
proof (cases "pointer_targets_for_call (get_list bindings (cc_precise_symbol call)) call")
  case None
  show ?thesis
  proof (cases "fn_language (pf_node caller) = ''cpp''")
    case True
    with assms(2) None have "f \<in> set (call_candidates idx minimums caller (call_key_of call))" by (simp add: plain_candidates_def)
    then show ?thesis by (rule call_candidates_eligible[OF ok])
  next
    case False
    with assms(2) None have "f \<in> set (c_call_candidates idx decls call caller)" by (simp add: plain_candidates_def)
    then show ?thesis by (rule c_call_candidates_eligible[OF ok])
  qed
next
  case (Some references)
  with assms(2) obtain r where "f \<in> set (reference_candidates idx decls r (fn_file_path (pf_node caller)) (fn_language (pf_node caller))
      (fs_lexical_scope (pf_syntax caller)) (get_list bindings (sr_symbol r)))" by (auto simp: plain_candidates_def)
  then show ?thesis by (rule reference_candidates_eligible[OF ok])
qed

section \<open>What linking establishes\<close>

text \<open>The targets of a call site made from \<open>caller\<close>.\<close>

definition site_ok :: "parsed_function list \<Rightarrow> parsed_function \<Rightarrow> call_site \<Rightarrow> bool" where
  "site_ok functions caller site \<longleftrightarrow>
     targets_named site \<and> distinct (cs_target_ids site) \<and>
     (\<forall>t \<in> set (cs_target_ids site). \<exists>f \<in> set functions. fn_unique_name (pf_node f) = t \<and>
        linkage_visible (fn_file_path (pf_node caller)) f)"

lemma target_ids_eligible:
  assumes "\<And>f. f \<in> set fs \<Longrightarrow> eligible_target functions path f" and "t \<in> set (target_ids_of fs)"
  shows "\<exists>f \<in> set functions. fn_unique_name (pf_node f) = t \<and> linkage_visible path f"
proof -
  from assms(2) obtain f where f: "f \<in> set fs" "fn_unique_name (pf_node f) = t" by (auto simp: target_ids_of_def)
  from assms(1)[OF f(1)] obtain f' where "f' \<in> set functions" "pf_node f = pf_node f'" "linkage_visible path f"
    by (auto simp: eligible_target_def one_of_def same_function_def)
  with f(2) show ?thesis by (auto simp: linkage_visible_def)
qed

lemma new_call_site_ok:
  assumes "new_call_site call kind (target_ids_of fs) = Inr site" and "\<And>f. f \<in> set fs \<Longrightarrow> eligible_target functions (fn_file_path (pf_node caller)) f"
  shows "site_ok functions caller site \<and> cs_start_byte site = cc_start_byte call \<and> cs_end_byte site = cc_end_byte call"
proof -
  from assms(1) have site: "call_site_post_init site = Inr ()" "cs_target_ids site = target_ids_of fs"
    "cs_start_byte site = cc_start_byte call" "cs_end_byte site = cc_end_byte call"
    by (auto simp: new_call_site_def Let_def split: sum.splits)
  then show ?thesis
    using post_init_targets_named[OF site(1)] target_ids_eligible[OF assms(2)]
    by (auto simp: site_ok_def) (simp add: target_ids_of_def)
qed

lemma resolve_call_sites_ok:
  assumes ok: "index_ok functions idx"
  shows "cached idx minimums caller cache \<Longrightarrow> resolve_call_sites idx minimums decls bindings caller cache calls = Inr sites \<Longrightarrow>
    list_all2 (\<lambda>call site. site_ok functions caller site \<and> cs_start_byte site = cc_start_byte call \<and> cs_end_byte site = cc_end_byte call) calls sites"
proof (induction calls arbitrary: cache sites)
  case (Cons call calls)
  obtain cache' where c: "cached idx minimums caller cache'"
    "candidates_for_call idx minimums decls bindings caller cache call = (cache', plain_candidates idx minimums decls bindings caller call)"
    using candidates_for_call_plain[OF Cons.prems(1)] by blast
  obtain kind fs where p: "plain_candidates idx minimums decls bindings caller call = (kind, fs)" by fastforce
  from Cons.prems(2) c(2) p obtain site rest where
    s: "new_call_site call kind (target_ids_of fs) = Inr site" and
    r: "resolve_call_sites idx minimums decls bindings caller cache' calls = Inr rest" and "sites = site # rest"
    by (auto simp: res_simps)
  have el: "eligible_target functions (fn_file_path (pf_node caller)) f" if "f \<in> set fs" for f
    using plain_candidates_eligible[OF ok, of f minimums decls bindings caller call] p that by simp
  show ?case using new_call_site_ok[OF s el] Cons.IH[OF c(1) r] \<open>sites = site # rest\<close> by simp
qed simp

text \<open>A node after linking; its other fields are those of the parsed function.\<close>

definition linked_node :: "parsed_function list \<Rightarrow> parsed_function \<Rightarrow> function_node \<Rightarrow> bool" where
  "linked_node functions f n \<longleftrightarrow>
     fn_unique_name n = fn_unique_name (pf_node f) \<and> fn_name n = fn_name (pf_node f) \<and>
     list_all2 (\<lambda>call site. site_ok functions f site \<and> cs_start_byte site = cc_start_byte call \<and> cs_end_byte site = cc_end_byte call)
       (pf_calls f) (fn_call_sites n) \<and>
     distinct (fn_resolved_calls n) \<and> set (fn_resolved_calls n) = (\<Union>site \<in> set (fn_call_sites n). set (cs_target_ids site))"

lemma link_function_ok:
  assumes "index_ok functions idx" and "link_function idx minimums decls f = Inr n"
  shows "linked_node functions f n"
  using assms(2) resolve_call_sites_ok[OF assms(1), of minimums f "[]"]
  by (auto simp: link_function_def Let_def res_simps linked_node_def cached_def)

lemma replace_node_inv:
  assumes "graph_inv g" and "get_node g k = Some n" and "fn_unique_name n' = fn_unique_name n" and "fn_name n' = fn_name n"
  shows "graph_inv (g\<lparr>cg_nodes := AList.update k n' (cg_nodes g)\<rparr>)"
proof -
  note wf = graph_inv_nodes[OF assms(1)]
  have k: "map_of (cg_nodes g) k = Some n" using assms(2) by (simp add: get_node_def)
  have "m = n" if "(k, m) \<in> set (cg_nodes g)" for m using that k map_of_wf_iff[OF wf, of k m] by simp
  with assms(3,4) show ?thesis
    unfolding update_map_values[OF wf k] by (intro map_values_inv[OF assms(1)]) auto
qed

text \<open>The graph while its functions are linked: \<open>todo\<close> are the functions not linked yet.\<close>

definition link_inv :: "parsed_function list \<Rightarrow> parsed_function list \<Rightarrow> code_graph \<Rightarrow> bool" where
  "link_inv functions todo g \<longleftrightarrow>
     graph_inv g \<and> keys (cg_nodes g) = map (fn_unique_name \<circ> pf_node) functions \<and>
     (\<forall>f \<in> set functions. \<exists>n. get_node g (fn_unique_name (pf_node f)) = Some n \<and>
        fn_name n = fn_name (pf_node f) \<and> (f \<in> set todo \<or> linked_node functions f n))"

lemma link_caller_inv:
  assumes inv: "link_inv functions (f # todo) g" and f: "f \<in> set functions"
    and link: "link_caller (build_index functions declarations) minimums decls g f = Inr h"
  shows "link_inv functions todo h"
proof -
  let ?id = "\<lambda>f. fn_unique_name (pf_node f)"
  from link obtain n' where n': "link_function (build_index functions declarations) minimums decls f = Inr n'"
    and h: "h = g\<lparr>cg_nodes := AList.update (fn_unique_name n') n' (cg_nodes g)\<rparr>" by (auto simp: link_caller_def res_simps)
  have ok: "linked_node functions f n'" by (rule link_function_ok[OF build_index_ok n'])
  then have id: "fn_unique_name n' = ?id f" by (simp add: linked_node_def)
  from inv f obtain n where n: "get_node g (?id f) = Some n" "fn_name n = fn_name (pf_node f)" by (auto simp: link_inv_def)
  have inv': "graph_inv g" and ks: "keys (cg_nodes g) = map (fn_unique_name \<circ> pf_node) functions" using inv by (auto simp: link_inv_def)
  have "graph_inv h" unfolding h id using ok n get_node_unique_name[OF inv' n(1)]
    by (intro replace_node_inv[OF inv' n(1)]) (auto simp: linked_node_def)
  moreover have "keys (cg_nodes h) = keys (cg_nodes g)"
    using get_node_key[OF n(1)] by (simp add: h id keys_update_known)
  moreover have "\<exists>m. get_node h (?id f') = Some m \<and> fn_name m = fn_name (pf_node f') \<and> (f' \<in> set todo \<or> linked_node functions f' m)"
    if f': "f' \<in> set functions" for f'
  proof (cases "?id f' = ?id f")
    case True
    have "distinct (map ?id functions)" using graph_inv_nodes[OF inv'] ks by (simp add: wf_dict_keys comp_def)
    with f f' True have "f' = f" by (auto simp: distinct_map dest: inj_onD)
    with ok show ?thesis by (auto simp: h id get_node_def linked_node_def)
  next
    case False
    with inv f' show ?thesis by (auto simp: link_inv_def h id get_node_def)
  qed
  ultimately show ?thesis using ks by (simp add: link_inv_def)
qed

lemma link_callers_inv:
  assumes "fold_res (link_caller (build_index functions declarations) minimums decls) g todo = Inr h"
    and "link_inv functions todo g" and "set todo \<subseteq> set functions"
  shows "link_inv functions [] h"
  using assms
proof (induction todo arbitrary: g)
  case (Cons f todo)
  then obtain g' where l: "link_caller (build_index functions declarations) minimums decls g f = Inr g'"
    and r: "fold_res (link_caller (build_index functions declarations) minimums decls) g' todo = Inr h" by (auto split: sum.splits)
  have "link_inv functions todo g'" by (rule link_caller_inv[OF Cons.prems(2) _ l]) (use Cons.prems(3) in simp)
  with Cons.IH[OF r] Cons.prems(3) show ?case by simp
qed simp

lemma mark_entrypoint_inv:
  assumes "link_inv functions [] g"
  shows "link_inv functions [] (mark_entrypoint g t)"
proof (cases "get_node g t")
  case (Some n)
  let ?n = "n\<lparr>fn_is_public_entrypoint := True, fn_entrypoint_reason := global_initializer_entrypoint_reason\<rparr>"
  let ?h = "g\<lparr>cg_nodes := AList.update t ?n (cg_nodes g)\<rparr>"
  have "graph_inv ?h" using assms Some by (intro replace_node_inv) (auto simp: link_inv_def)
  moreover have "keys (cg_nodes ?h) = keys (cg_nodes g)" using get_node_key[OF Some] by (simp add: keys_update_known)
  moreover have "\<exists>m. get_node ?h (fn_unique_name (pf_node f)) = Some m \<and> fn_name m = fn_name (pf_node f) \<and> linked_node functions f m"
    if "f \<in> set functions" for f
    using assms that Some by (fastforce simp: link_inv_def get_node_def linked_node_def)
  ultimately show ?thesis using assms Some by (simp add: mark_entrypoint_def link_inv_def)
qed (use assms in \<open>simp add: mark_entrypoint_def\<close>)

lemma global_update_inv:
  assumes "link_inv functions [] g" and "map_of (cg_globals g) k = Some c"
  shows "link_inv functions [] (g\<lparr>cg_globals := AList.update k (c\<lparr>gc_references := refs\<rparr>) (cg_globals g)\<rparr>)"
proof -
  have inv: "graph_inv g" using assms(1) by (simp add: link_inv_def)
  note wf = graph_inv_globals[OF inv]
  have "gc_unique_name c = k" using graph_inv_gids[OF inv] map_of_SomeD[OF assms(2)] by simp
  moreover have "\<forall>(k, c) \<in> set (cg_globals g). gc_unique_name c = k" using inv by (simp add: graph_inv_def)
  ultimately have "graph_inv (g\<lparr>cg_globals := AList.update k (c\<lparr>gc_references := refs\<rparr>) (cg_globals g)\<rparr>)"
    using inv unfolding update_map_values[OF wf assms(2)] by (auto simp: graph_inv_def wf_dict_keys keys_map_values)
  with assms(1) show ?thesis by (simp add: link_inv_def get_node_def)
qed

lemma mark_entrypoint_globals: "cg_globals (mark_entrypoint g t) = cg_globals g"
  by (simp add: mark_entrypoint_def split: option.split)

lemma mark_entrypoints_inv:
  "link_inv functions [] g \<Longrightarrow> link_inv functions [] (foldl mark_entrypoint g ts) \<and> cg_globals (foldl mark_entrypoint g ts) = cg_globals g"
  by (induction ts arbitrary: g) (auto simp: mark_entrypoint_inv mark_entrypoint_globals)

lemma link_globals_inv:
  assumes "fold_res (link_global idx decls languages scopes) g cs = Inr h" and "link_inv functions [] g"
    and "distinct (keys cs)" and "\<And>k c. (k, c) \<in> set cs \<Longrightarrow> map_of (cg_globals g) k = Some c"
  shows "link_inv functions [] h"
  using assms
proof (induction cs arbitrary: g)
  case (Cons p cs)
  obtain k c where p: "p = (k, c)" by (cases p)
  from Cons.prems(1) obtain g' where g': "link_global idx decls languages scopes g (k, c) = Inr g'"
    and rest: "fold_res (link_global idx decls languages scopes) g' cs = Inr h" by (auto simp: p split: sum.splits)
  from g' obtain refs where
    g'_eq: "g' = foldl mark_entrypoint (g\<lparr>cg_globals := AList.update k (c\<lparr>gc_references := refs\<rparr>) (cg_globals g)\<rparr>) (concat (map sr_target_ids refs))"
    by (auto simp: link_global_def res_simps)
  let ?g = "g\<lparr>cg_globals := AList.update k (c\<lparr>gc_references := refs\<rparr>) (cg_globals g)\<rparr>"
  have "map_of (cg_globals g) k = Some c" using Cons.prems(4) by (simp add: p)
  from mark_entrypoints_inv[OF global_update_inv[OF Cons.prems(2) this, of refs]]
  have step: "link_inv functions [] (foldl mark_entrypoint ?g (concat (map sr_target_ids refs)))"
    "cg_globals (foldl mark_entrypoint ?g (concat (map sr_target_ids refs))) = cg_globals ?g" by blast+
  have "map_of (cg_globals ?g) k' = Some c'" if "(k', c') \<in> set cs" for k' c'
  proof -
    have "k' \<noteq> k" using that Cons.prems(3) by (force simp: p keys_def)
    with Cons.prems(4)[of k' c'] that show ?thesis by simp
  qed
  with Cons.IH[OF rest] step Cons.prems(3) show ?case by (simp add: p g'_eq)
qed simp

text \<open>
  The graph holds the nodes of the parsed functions, in their order. Parsing a file adds the nodes of
  its functions to the graph; a file that fails adds neither nodes nor functions.
\<close>

definition holds_functions :: "code_graph \<Rightarrow> parsed_function list \<Rightarrow> bool" where
  "holds_functions g functions \<longleftrightarrow> cg_nodes g = map (\<lambda>f. (fn_unique_name (pf_node f), pf_node f)) functions"

lemma resolve_calls_inv:
  assumes inv: "graph_inv g" and holds: "holds_functions g functions"
    and r: "resolve_calls g functions declarations languages scopes decls = Inr h"
  shows "link_inv functions [] h"
proof -
  have ks: "keys (cg_nodes g) = map (fn_unique_name \<circ> pf_node) functions" using holds by (simp add: holds_functions_def keys_def comp_def)
  have "get_node g (fn_unique_name (pf_node f)) = Some (pf_node f)" if "f \<in> set functions" for f
    using map_of_wf_iff[OF graph_inv_nodes[OF inv], of "fn_unique_name (pf_node f)" "pf_node f"] that holds
    by (auto simp: get_node_def holds_functions_def)
  then have start: "link_inv functions functions g" using inv ks by (auto simp: link_inv_def)
  from r obtain g1 where g1: "fold_res (link_caller (build_index functions declarations) (declared_minimums declarations) decls) g functions = Inr g1"
    and g2: "fold_res (link_global (build_index functions declarations) decls languages scopes) g1 (cg_globals g1) = Inr h"
    by (auto simp: resolve_calls_def Let_def res_simps)
  have linked_all: "link_inv functions [] g1" by (rule link_callers_inv[OF g1 start]) simp
  then have "graph_inv g1" by (simp add: link_inv_def)
  note wf = graph_inv_globals[OF this]
  have "distinct (keys (cg_globals g1))" using wf by (simp add: wf_dict_keys)
  moreover have "map_of (cg_globals g1) k = Some c" if "(k, c) \<in> set (cg_globals g1)" for k c using map_of_wf_iff[OF wf] that by simp
  ultimately show ?thesis by (rule link_globals_inv[OF g2 linked_all])
qed

lemma link_inv_linked:
  assumes "link_inv functions [] h"
  shows "linked h" and "call_sites_named h"
proof -
  have node: "\<exists>f \<in> set functions. linked_node functions f n" if n: "(k, n) \<in> set (cg_nodes h)" for k n
  proof -
    have inv: "graph_inv h" using assms by (simp add: link_inv_def)
    have "k \<in> set (keys (cg_nodes h))" using n by (force simp: keys_def)
    then obtain f where f: "f \<in> set functions" "fn_unique_name (pf_node f) = k" using assms by (auto simp: link_inv_def)
    from assms f obtain m where "get_node h k = Some m" "linked_node functions f m" by (auto simp: link_inv_def)
    moreover have "get_node h k = Some n" using map_of_wf_iff[OF graph_inv_nodes[OF inv]] n by (simp add: get_node_def)
    ultimately show ?thesis using f(1) by auto
  qed
  have sites: "targets_named c" "set (cs_target_ids c) \<subseteq> set (fn_resolved_calls n)" if "(k, n) \<in> set (cg_nodes h)" "c \<in> set (fn_call_sites n)" for k n c
  proof -
    from node[OF that(1)] obtain f where f: "linked_node functions f n" by blast
    then have "list_all2 (\<lambda>call site. site_ok functions f site \<and> cs_start_byte site = cc_start_byte call \<and> cs_end_byte site = cc_end_byte call)
        (pf_calls f) (fn_call_sites n)" by (simp add: linked_node_def)
    from list_all2_right[OF this that(2)] show "targets_named c" by (auto simp: site_ok_def)
    show "set (cs_target_ids c) \<subseteq> set (fn_resolved_calls n)" using f that(2) by (auto simp: linked_node_def)
  qed
  then show "call_sites_named h" by (auto simp: call_sites_named_def list_all_iff)
  have "single_target c = Some t \<Longrightarrow> t \<in> set (cs_target_ids c)" for c t by (auto simp: single_target_def split: list.splits)
  with sites show "linked h" by (fastforce simp: linked_def list_all_iff split: option.split)
qed

section \<open>Properties\<close>

definition demo_c_call :: "string \<Rightarrow> int \<Rightarrow> c_call_site" where
  "demo_c_call symbol start =
     \<lparr>cc_symbol = symbol, cc_precise_symbol = symbol, cc_line = 1, cc_argument_count = 0, cc_kind = ''direct'',
      cc_start_byte = start, cc_end_byte = start + 5, cc_qualified_name = '''', cc_generic_qualified_name = '''', cc_receiver = '''',
      cc_arguments = [], cc_conditions = [], cc_must_conditions = [], cc_result = None\<rparr>"

definition demo_parsed :: "string \<Rightarrow> string \<Rightarrow> bool \<Rightarrow> c_call_site list \<Rightarrow> parsed_function" where
  "demo_parsed path name internal calls =
     \<lparr>pf_node = (demo_function (path @ ''::'' @ name) path name [] 1)\<lparr>fn_has_internal_linkage := internal\<rparr>,
      pf_syntax = \<lparr>fs_name = name, fs_qualified_name = name, fs_signature_suffix = ''()'', fs_lexical_scope = [],
                   fs_minimum_argument_count = 0, fs_maximum_argument_count = Some 0, fs_has_external_c_linkage = False\<rparr>,
      pf_calls = calls, pf_value_bindings = [], pf_visible_languages = None\<rparr>"

text \<open>Both files define \<open>log\<close>, the second one internally; \<open>run\<close> in the first file calls it.\<close>

definition demo_parsed_functions :: "parsed_function list" where
  "demo_parsed_functions =
     [demo_parsed ''a.c'' ''run'' False [demo_c_call ''log'' 10], demo_parsed ''b.c'' ''log'' False [], demo_parsed ''c.c'' ''log'' True []]"

definition demo_unlinked :: code_graph where
  "demo_unlinked = graph_of (map pf_node demo_parsed_functions)"

lemma demo_unlinked_constructed: "constructed demo_unlinked"
  unfolding demo_unlinked_def by (rule graph_of_constructed)

lemma demo_unlinked_holds: "holds_functions demo_unlinked demo_parsed_functions"
  by code_simp

text \<open>
  C39. Linking gives every call of every parsed function one call site, in order. The targets of a
  call site are distinct, are functions of the graph, and respect linkage: a function with internal
  linkage is a target only within its own file. The resolved calls of a function are exactly the
  targets of its call sites. The cache of candidates does not influence this.
\<close>

theorem resolve_calls_respects_linkage:
  assumes "constructed g" and "holds_functions g functions"
    and "resolve_calls g functions declarations languages scopes decls = Inr h" and "f \<in> set functions"
  shows "keys (cg_nodes h) = keys (cg_nodes g) \<and>
    (\<exists>n. get_node h (fn_unique_name (pf_node f)) = Some n \<and>
       map (\<lambda>s. (cs_start_byte s, cs_end_byte s)) (fn_call_sites n) = map (\<lambda>c. (cc_start_byte c, cc_end_byte c)) (pf_calls f) \<and>
       distinct (fn_resolved_calls n) \<and> set (fn_resolved_calls n) = (\<Union>site \<in> set (fn_call_sites n). set (cs_target_ids site)) \<and>
       (\<forall>site \<in> set (fn_call_sites n). distinct (cs_target_ids site) \<and>
          (\<forall>t \<in> set (cs_target_ids site). \<exists>target \<in> set functions. fn_unique_name (pf_node target) = t \<and>
             (fn_has_internal_linkage (pf_node target) \<longrightarrow> fn_file_path (pf_node target) = fn_file_path (pf_node f)))))"
proof -
  have inv: "link_inv functions [] h" by (rule resolve_calls_inv[OF constructed_inv[OF assms(1)] assms(2,3)])
  then have "keys (cg_nodes h) = keys (cg_nodes g)" using assms(2) by (simp add: link_inv_def holds_functions_def keys_def comp_def)
  moreover obtain n where n: "get_node h (fn_unique_name (pf_node f)) = Some n" "linked_node functions f n"
    using inv assms(4) by (auto simp: link_inv_def)
  let ?R = "\<lambda>call site. site_ok functions f site \<and> cs_start_byte site = cc_start_byte call \<and> cs_end_byte site = cc_end_byte call"
  have all: "list_all2 ?R (pf_calls f) (fn_call_sites n)" using n(2) by (simp add: linked_node_def)
  then have "map (\<lambda>s. (cs_start_byte s, cs_end_byte s)) (fn_call_sites n) = map (\<lambda>c. (cc_start_byte c, cc_end_byte c)) (pf_calls f)"
    by (induction rule: list_all2_induct) auto
  moreover have "site_ok functions f site" if "site \<in> set (fn_call_sites n)" for site
    using list_all2_right[OF all that] by blast
  ultimately show ?thesis using n by (auto simp: linked_node_def site_ok_def linkage_visible_def)
qed

theorem resolve_calls_respects_linkage_witness:
  "\<exists>h n. resolve_calls demo_unlinked demo_parsed_functions [] [] [] [] = Inr h \<and> get_node h ''a.c::run'' = Some n \<and>
     fn_resolved_calls n = [''b.c::log''] \<and> distinct (fn_resolved_calls n)"
proof -
  have "case resolve_calls demo_unlinked demo_parsed_functions [] [] [] [] of Inl _ \<Rightarrow> False
    | Inr h \<Rightarrow> (case get_node h ''a.c::run'' of None \<Rightarrow> False | Some n \<Rightarrow> fn_resolved_calls n = [''b.c::log''])" by code_simp
  then obtain h n where h: "resolve_calls demo_unlinked demo_parsed_functions [] [] [] [] = Inr h" "get_node h ''a.c::run'' = Some n"
    "fn_resolved_calls n = [''b.c::log'']" by (auto split: sum.splits option.splits)
  have f: "hd demo_parsed_functions \<in> set demo_parsed_functions" "fn_unique_name (pf_node (hd demo_parsed_functions)) = ''a.c::run''"
    by code_simp+
  from resolve_calls_respects_linkage[OF demo_unlinked_constructed demo_unlinked_holds h(1) f(1)] h(2) f(2)
  have "distinct (fn_resolved_calls n)" by simp
  with h show ?thesis by blast
qed

end
