(* ===== verification/Effects.thy ===== *)
theory Effects
  imports Prelude
begin

text \<open>
  Computations with effects, for the components that talk to a model provider. A computation takes
  a world and returns a result, which is an exception or a value, together with the world after
  it. The world is the state of everything outside the program (of any type) and the trace of the
  calls made to it so far. What another package answers may depend on that state in any way, so a
  theorem about all worlds is a theorem about every behaviour of the outside.

  The calculus is the one of weakest preconditions: \<open>wp m Q w\<close> says that \<open>m\<close>, run in \<open>w\<close>, ends in
  a result and a world that satisfy \<open>Q\<close>, and the collection \<open>wp_simps\<close> computes it for each
  combinator.
\<close>

named_theorems wp_simps \<open>weakest preconditions of the combinators\<close>

section \<open>Computations\<close>

record ('w, 'ev) world =
  w_state :: 'w
  w_trace :: "'ev list"

type_synonym ('w, 'ev, 'e, 'a) io = "('w, 'ev) world \<Rightarrow> ('e + 'a) \<times> ('w, 'ev) world"

definition io_return :: "'a \<Rightarrow> ('w, 'ev, 'e, 'a) io" where
  "io_return x = (\<lambda>w. (Inr x, w))"

definition io_raise :: "'e \<Rightarrow> ('w, 'ev, 'e, 'a) io" where
  "io_raise e = (\<lambda>w. (Inl e, w))"

definition io_bind :: "('w, 'ev, 'e, 'a) io \<Rightarrow> ('a \<Rightarrow> ('w, 'ev, 'e, 'b) io) \<Rightarrow> ('w, 'ev, 'e, 'b) io" where
  "io_bind m f = (\<lambda>w. case m w of (Inl e, w') \<Rightarrow> (Inl e, w') | (Inr x, w') \<Rightarrow> f x w')"

definition io_try :: "('w, 'ev, 'e, 'a) io \<Rightarrow> ('e + 'a \<Rightarrow> ('w, 'ev, 'e, 'b) io) \<Rightarrow> ('w, 'ev, 'e, 'b) io" where
  "io_try m f = (\<lambda>w. case m w of (r, w') \<Rightarrow> f r w')"

definition io_of :: "'e + 'a \<Rightarrow> ('w, 'ev, 'e, 'a) io" where
  "io_of r = (\<lambda>w. (r, w))"

definition io_query :: "('w \<Rightarrow> 'a \<times> 'w) \<Rightarrow> ('w, 'ev, 'e, 'a) io" where
  "io_query f = (\<lambda>w. case f (w_state w) of (x, s) \<Rightarrow> (Inr x, w\<lparr>w_state := s\<rparr>))"

definition io_emit :: "'ev \<Rightarrow> ('w, 'ev, 'e, unit) io" where
  "io_emit ev = (\<lambda>w. (Inr (), w\<lparr>w_trace := w_trace w @ [ev]\<rparr>))"

fun io_fold :: "('s \<Rightarrow> 'a \<Rightarrow> ('w, 'ev, 'e, 's) io) \<Rightarrow> 's \<Rightarrow> 'a list \<Rightarrow> ('w, 'ev, 'e, 's) io" where
  "io_fold f s [] = io_return s"
| "io_fold f s (x # xs) = io_bind (f s x) (\<lambda>s'. io_fold f s' xs)"

section \<open>Weakest preconditions\<close>

definition wp :: "('w, 'ev, 'e, 'a) io \<Rightarrow> ('e + 'a \<Rightarrow> ('w, 'ev) world \<Rightarrow> bool) \<Rightarrow> ('w, 'ev) world \<Rightarrow> bool" where
  "wp m Q w = (case m w of (r, w') \<Rightarrow> Q r w')"

lemma wpD: "wp m Q w \<Longrightarrow> m w = (r, w') \<Longrightarrow> Q r w'"
  by (simp add: wp_def)

lemma wpI: "(\<And>r w'. m w = (r, w') \<Longrightarrow> Q r w') \<Longrightarrow> wp m Q w"
  by (simp add: wp_def split: prod.splits)

lemma wp_mono: "wp m Q w \<Longrightarrow> (\<And>r w'. Q r w' \<Longrightarrow> R r w') \<Longrightarrow> wp m R w"
  by (simp add: wp_def split: prod.splits)

lemma wp_conj: "wp m (\<lambda>r w'. Q r w' \<and> R r w') w \<longleftrightarrow> wp m Q w \<and> wp m R w"
  by (simp add: wp_def split: prod.splits)

lemma wp_return [wp_simps]: "wp (io_return x) Q w \<longleftrightarrow> Q (Inr x) w"
  by (simp add: wp_def io_return_def)

lemma wp_raise [wp_simps]: "wp (io_raise e) Q w \<longleftrightarrow> Q (Inl e) w"
  by (simp add: wp_def io_raise_def)

lemma wp_bind [wp_simps]:
  "wp (io_bind m f) Q w \<longleftrightarrow> wp m (\<lambda>r w'. case r of Inl e \<Rightarrow> Q (Inl e) w' | Inr x \<Rightarrow> wp (f x) Q w') w"
  by (simp add: wp_def io_bind_def split: prod.splits sum.splits)

lemma wp_try [wp_simps]: "wp (io_try m f) Q w \<longleftrightarrow> wp m (\<lambda>r w'. wp (f r) Q w') w"
  by (simp add: wp_def io_try_def split: prod.splits)

lemma wp_of [wp_simps]: "wp (io_of r) Q w \<longleftrightarrow> Q r w"
  by (simp add: wp_def io_of_def)

lemma wp_query [wp_simps]:
  "wp (io_query f) Q w \<longleftrightarrow> (\<forall>x s. f (w_state w) = (x, s) \<longrightarrow> Q (Inr x) (w\<lparr>w_state := s\<rparr>))"
  by (simp add: wp_def io_query_def split: prod.splits)

lemma wp_emit [wp_simps]: "wp (io_emit ev) Q w \<longleftrightarrow> Q (Inr ()) (w\<lparr>w_trace := w_trace w @ [ev]\<rparr>)"
  by (simp add: wp_def io_emit_def)

lemma wp_if [wp_simps]: "wp (if c then m else n) Q w \<longleftrightarrow> (if c then wp m Q w else wp n Q w)"
  by simp

section \<open>Traces\<close>

text \<open>
  The calls a computation makes: the trace only grows. \<open>emits m P\<close> says that, from every world,
  the events \<open>m\<close> adds satisfy \<open>P\<close> with its result.
\<close>

definition emits :: "('w, 'ev, 'e, 'a) io \<Rightarrow> ('e + 'a \<Rightarrow> 'ev list \<Rightarrow> bool) \<Rightarrow> bool" where
  "emits m P \<longleftrightarrow> (\<forall>w. wp m (\<lambda>r w'. \<exists>evs. w_trace w' = w_trace w @ evs \<and> P r evs) w)"

lemma emitsI: "(\<And>w r w'. m w = (r, w') \<Longrightarrow> \<exists>evs. w_trace w' = w_trace w @ evs \<and> P r evs) \<Longrightarrow> emits m P"
  by (simp add: emits_def wp_def split: prod.splits)

lemma emitsD: "emits m P \<Longrightarrow> m w = (r, w') \<Longrightarrow> \<exists>evs. w_trace w' = w_trace w @ evs \<and> P r evs"
  unfolding emits_def wp_def by (erule allE[of _ w]) simp

lemma emits_mono: "emits m P \<Longrightarrow> (\<And>r evs. P r evs \<Longrightarrow> Q r evs) \<Longrightarrow> emits m Q"
  by (fastforce simp: emits_def elim!: wp_mono)

lemma emits_return [simp]: "emits (io_return x) P \<longleftrightarrow> P (Inr x) []"
  by (simp add: emits_def wp_simps)

lemma emits_raise [simp]: "emits (io_raise e) P \<longleftrightarrow> P (Inl e) []"
  by (simp add: emits_def wp_simps)

lemma emits_of [simp]: "emits (io_of r) P \<longleftrightarrow> P r []"
  by (simp add: emits_def wp_simps)

lemma emits_emit [simp]: "emits (io_emit ev) P \<longleftrightarrow> P (Inr ()) [ev]"
  by (simp add: emits_def wp_simps)

lemma emits_query: "(\<And>x. P (Inr x) []) \<Longrightarrow> emits (io_query f) P"
  by (simp add: emits_def wp_simps)

lemma emits_bind:
  assumes "emits m P" and "\<And>e evs. P (Inl e) evs \<Longrightarrow> R (Inl e) evs"
    and "\<And>x evs. P (Inr x) evs \<Longrightarrow> emits (f x) (\<lambda>r evs'. R r (evs @ evs'))"
  shows "emits (io_bind m f) R"
proof (rule emitsI)
  fix w r w'
  assume run: "io_bind m f w = (r, w')"
  obtain r1 w1 where m: "m w = (r1, w1)" by fastforce
  from emitsD[OF assms(1) m] obtain evs where evs: "w_trace w1 = w_trace w @ evs" "P r1 evs" by blast
  show "\<exists>evs. w_trace w' = w_trace w @ evs \<and> R r evs"
  proof (cases r1)
    case (Inl e)
    with run m evs assms(2) show ?thesis by (auto simp: io_bind_def)
  next
    case (Inr x)
    with run m have "f x w1 = (r, w')" by (simp add: io_bind_def)
    from emitsD[OF assms(3) this] Inr evs show ?thesis by fastforce
  qed
qed

lemma emits_try:
  assumes "emits m P" and "\<And>r evs. P r evs \<Longrightarrow> emits (f r) (\<lambda>r' evs'. R r' (evs @ evs'))"
  shows "emits (io_try m f) R"
proof (rule emitsI)
  fix w r w'
  assume run: "io_try m f w = (r, w')"
  obtain r1 w1 where m: "m w = (r1, w1)" by fastforce
  from emitsD[OF assms(1) m] obtain evs where evs: "w_trace w1 = w_trace w @ evs" "P r1 evs" by blast
  from run m have "f r1 w1 = (r, w')" by (simp add: io_try_def)
  from emitsD[OF assms(2)[OF evs(2)] this] evs(1) show "\<exists>evs. w_trace w' = w_trace w @ evs \<and> R r evs" by fastforce
qed

lemma emits_fold:
  assumes "I [] s []"
    and step: "\<And>seen x later s evs. xs = seen @ x # later \<Longrightarrow> I seen s evs \<Longrightarrow>
      emits (f s x) (\<lambda>r evs'. case r of Inl e \<Rightarrow> R (Inl e) (evs @ evs') | Inr s' \<Rightarrow> I (seen @ [x]) s' (evs @ evs'))"
    and "\<And>s evs. I xs s evs \<Longrightarrow> R (Inr s) evs"
  shows "emits (io_fold f s xs) R"
proof -
  have "emits (io_fold f s later) (\<lambda>r evs'. R r (evs @ evs'))" if "xs = seen @ later" "I seen s evs" for seen later s evs
    using that
  proof (induction later arbitrary: seen s evs)
    case Nil
    then show ?case using assms(3) by simp
  next
    case (Cons x later)
    have "emits (io_fold f s' later) (\<lambda>r evs''. R r (evs @ evs' @ evs''))" if "I (seen @ [x]) s' (evs @ evs')" for s' evs'
      using Cons.IH[of "seen @ [x]" s' "evs @ evs'"] Cons.prems(1) that by simp
    then show ?case by (auto intro!: emits_bind[OF step[OF Cons.prems]])
  qed
  from this[of "[]" xs s "[]"] assms(1) show ?thesis by simp
qed

end
