(* ===== verification/Prompt_Runner.thy ===== *)
theory Prompt_Runner
  imports Complex_Main Model_Tools
begin

text \<open>
  The retry loop of \<open>engine/llm_runner.py\<close>: \<open>JsonPromptRunner\<close> asks a chat model for a JSON answer,
  at most \<open>max_attempts\<close> times when the answer is unusable and \<open>max_transport_retries\<close> times more
  when the provider fails, waiting between attempts as long as the provider asks. Delays are real
  numbers. The provider, the rendering of templates, the clock, \<open>random.uniform\<close>, the usage hooks
  and the caller's \<open>parse\<close> are services of the outside. Logging and the run log are left out.
\<close>

section \<open>Chat model options\<close>

datatype 'p param = ParamInt int | ParamStr string | ParamObject 'p

type_synonym 'p kwargs = "(string, 'p param option) dict"

definition set_option :: "string \<Rightarrow> 'p param option \<Rightarrow> 'p kwargs \<Rightarrow> 'p kwargs" where
  "set_option key v kwargs = (case v of None \<Rightarrow> kwargs | Some x \<Rightarrow> AList.update key (Some x) kwargs)"

definition merge_chat_model_kwargs ::
  "'p kwargs option list \<Rightarrow> 'p param option \<Rightarrow> 'p param option \<Rightarrow> 'p param option \<Rightarrow> 'p param option \<Rightarrow> (string, 'p param) dict" where
  "merge_chat_model_kwargs sources model callbacks reasoning_effort response_format =
     (let kwargs = fold (\<lambda>source d. case source of None \<Rightarrow> d | Some s \<Rightarrow> fold (\<lambda>(k, v). AList.update k v) s d) sources [];
          kwargs = set_option ''reasoning_effort'' reasoning_effort (set_option ''response_format'' response_format
            (set_option ''callbacks'' callbacks (set_option ''model'' model kwargs)))
      in concat (map (\<lambda>(k, v). case v of None \<Rightarrow> [] | Some x \<Rightarrow> [(k, x)]) kwargs))"

section \<open>Requests and services\<close>

record chat_prompt =
  cp_system :: string
  cp_user :: string
  cp_evidence :: "string option"

text \<open>What the caller's \<open>parse\<close> is applied to: None, the structured object, or the text of the response.\<close>

datatype 'o parse_input = ParseNone | ParseObject 'o | ParseText string

datatype parsing_error = NoParsingError | ParsingCancelled | ParsingFailed string

datatype ('v, 'o) structured_result =
    NotADict
  | StructuredDict "'v model_response option" parsing_error "'o option"

record ('w, 'v, 'o, 'p, 'r) prompt_request =
  rq_model :: string
  rq_system_prompt :: string
  rq_user_prompt :: string
  rq_parse :: "'o parse_input \<Rightarrow> 'w \<Rightarrow> (real, 'r option) outcome \<times> 'w"
  rq_label :: string
  rq_invalid_message :: string
  rq_max_tokens :: "int option"
  rq_temperature :: "'p option"
  rq_response_model :: bool \<comment> \<open>whether one is given\<close>
  rq_reasoning_effort :: "string option"
  rq_chat_model_kwargs :: "'p kwargs option"
  rq_model_tools :: "tool list"
  rq_max_tool_rounds :: "int option"
  rq_on_output_limit :: "('w \<Rightarrow> (real, unit) outcome \<times> 'w) option"
  rq_max_input_tokens :: "int option"
  rq_callbacks :: "('w, real, 'v) tool_callbacks"

record ('w, 'v, 'c, 'o, 'p) provider =
  pv_services :: "('w, real, 'v, 'c) services"
  pv_count_tokens :: "string \<Rightarrow> string \<Rightarrow> int" \<comment> \<open>text and model\<close>
  pv_max_retries :: "int option" \<comment> \<open>None when the attribute is missing or no integer\<close>
  pv_usage_kwargs :: "('w \<Rightarrow> (real, 'p kwargs) outcome \<times> 'w) option"
  pv_runlog_callback :: "'p param option \<Rightarrow> 'p param"
  pv_get_chat_model :: "(string, 'p param) dict \<Rightarrow> 'w \<Rightarrow> (real, 'c) outcome \<times> 'w"
  pv_render :: "chat_prompt \<Rightarrow> 'w \<Rightarrow> (real, 'v message list) outcome \<times> 'w"
  pv_has_structured_output :: "'c \<Rightarrow> bool"
  pv_structured_output :: "'c \<Rightarrow> 'w \<Rightarrow> (real, 'c) outcome \<times> 'w"
  pv_structured_invoke :: "'c \<Rightarrow> 'v message list \<Rightarrow> 'w \<Rightarrow> (real, ('v, 'o) structured_result) outcome \<times> 'w"
  pv_output_text :: "'v model_response \<Rightarrow> 'w \<Rightarrow> (real, string) outcome \<times> 'w" \<comment> \<open>\<open>StrOutputParser\<close>\<close>
  pv_time :: "'w \<Rightarrow> real \<times> 'w"
  pv_uniform :: "'w \<Rightarrow> real \<times> 'w" \<comment> \<open>\<open>random.uniform(0.75, 1.0)\<close>\<close>
  pv_wait :: "real \<Rightarrow> 'w \<Rightarrow> bool \<times> 'w" \<comment> \<open>whether a checkpoint raised while waiting\<close>

record runner =
  rn_max_attempts :: nat
  rn_retry_backoff_seconds :: real

definition new_runner :: "int \<Rightarrow> real \<Rightarrow> runner" where
  "new_runner max_attempts retry_backoff_seconds =
     \<lparr>rn_max_attempts = nat (max 1 max_attempts), rn_retry_backoff_seconds = retry_backoff_seconds\<rparr>"

definition json_chat_prompt :: "string \<Rightarrow> string \<Rightarrow> tool list \<Rightarrow> string list \<Rightarrow> chat_prompt" where
  "json_chat_prompt system_prompt user_prompt model_tools tool_evidence =
     \<lparr>cp_system = model_tool_system_prompt system_prompt model_tools (tool_evidence = []), cp_user = user_prompt,
      cp_evidence = (if tool_evidence = [] then None
        else Some (''BEGIN UNTRUSTED TOOL EVIDENCE\<newline>'' @ join ''\<newline>\<newline>'' tool_evidence @ ''\<newline>END UNTRUSTED TOOL EVIDENCE''))\<rparr>"

section \<open>Provider failures\<close>

text \<open>
  \<open>_certificate_verification_failed\<close>: the walk along causes and contexts, which stops at an object
  it has seen.
\<close>

definition contains_text :: "string \<Rightarrow> string \<Rightarrow> bool" where
  "contains_text needle s = list_ex (\<lambda>i. startswith (drop i s) needle) [0..<Suc (length s)]"

definition certificate_message :: "string \<Rightarrow> bool" where
  "certificate_message s =
     (contains_text ''certificate_verify_failed'' (lower s) \<or> contains_text ''certificate verify failed'' (lower s))"

definition next_exception :: "exception_object \<Rightarrow> nat option" where
  "next_exception e = (case eo_cause e of Some c \<Rightarrow> Some c | None \<Rightarrow> eo_context e)"

function certificate_walk :: "(nat, exception_object) dict \<Rightarrow> nat option \<Rightarrow> nat set \<Rightarrow> bool" where
  "certificate_walk store current seen =
     (case current of
        None \<Rightarrow> False
      | Some i \<Rightarrow>
          if i \<in> seen then False
          else case map_of store i of
            None \<Rightarrow> False
          | Some e \<Rightarrow>
              if eo_certificate_error e \<or> certificate_message (eo_text e) then True
              else certificate_walk store (next_exception e) (insert i seen))"
  by pat_completeness auto
termination
proof (relation "measure (\<lambda>(store, _, seen). card (set (keys store) - seen))", goal_cases)
  case (2 store current seen i e)
  then have "i \<in> set (keys store) - seen" using map_of_Some_keys[of store i e] by simp
  then have "card (set (keys store) - insert i seen) < card (set (keys store) - seen)"
    by (intro psubset_card_mono) auto
  then show ?case by (simp only: in_measure prod.case)
qed simp

definition certificate_verification_failed :: "real provider_error \<Rightarrow> bool" where
  "certificate_verification_failed error = certificate_walk (pe_store error) (Some (pe_object error)) {}"

declare certificate_walk.simps [simp del]

text \<open>\<open>_provider_retry_delay\<close>: whether to try again, and after how long.\<close>

definition refuses_retry :: "real provider_error \<Rightarrow> bool" where
  "refuses_retry error \<longleftrightarrow>
     (case pe_response_error_code error of None \<Rightarrow> False
      | Some code \<Rightarrow> code \<notin> {''server_error'', ''rate_limit_exceeded'', ''vector_store_timeout'', ''failed_to_download_image''}) \<or>
     pe_should_retry error = Some ''false'' \<or> pe_code error = Some ''insufficient_quota'' \<or>
     (case pe_status_code error of None \<Rightarrow> False
      | Some status \<Rightarrow> status \<notin> {408, 409, 429} \<and> 400 \<le> status \<and> status < 500 \<and> pe_should_retry error \<noteq> Some ''true'')"

definition retry_after_ms :: "real provider_error \<Rightarrow> real option" where
  "retry_after_ms error =
     (case pe_retry_after_ms error of
        Some (HeaderNumber n) \<Rightarrow> if n / 1000 < 0 then None else Some (n / 1000)
      | _ \<Rightarrow> None)"

definition retry_after_header :: "real \<Rightarrow> real provider_error \<Rightarrow> real option" where
  "retry_after_header now error =
     (case pe_retry_after error of
        Some (HeaderNumber n) \<Rightarrow> Some n
      | Some (HeaderDate timestamp) \<Rightarrow> Some (timestamp - now)
      | _ \<Rightarrow> None)"

definition provider_retry_delay :: "real \<Rightarrow> real provider_error \<Rightarrow> real \<Rightarrow> real model_error + real" where
  "provider_retry_delay now error default_seconds =
     (if refuses_retry error then Inl (OtherError error)
      else case (case retry_after_ms error of Some n \<Rightarrow> Some n | None \<Rightarrow> retry_after_header now error) of
          None \<Rightarrow> Inr default_seconds
        | Some n \<Rightarrow> if 120 < n then Inl (OtherError error) else Inr (if 0 \<le> n then n else default_seconds))"

section \<open>One attempt\<close>

text \<open>A \<open>TypeError\<close> raised by the runner itself: an exception without cause and without a response.\<close>

definition plain_error :: "string \<Rightarrow> real provider_error" where
  "plain_error message =
     \<lparr>pe_object = 0, pe_store = [(0, \<lparr>eo_certificate_error = False, eo_text = message, eo_cause = None, eo_context = None\<rparr>)],
      pe_text = message, pe_response_error_code = None, pe_should_retry = None, pe_retry_after_ms = None,
      pe_retry_after = None, pe_code = None, pe_status_code = None\<rparr>"

text \<open>Calling \<open>parse\<close>: an exception of it is a failure text, a cancellation stays one.\<close>

definition parse_answer ::
  "('w, 'v, 'o, 'p, 'r) prompt_request \<Rightarrow> string \<Rightarrow> 'o parse_input \<Rightarrow> ('w, real, 'v, 'r option \<times> string) model_io" where
  "parse_answer request kind answer =
     io_try (external (rq_parse request answer)) (\<lambda>r.
       case r of
         Inl (OtherError e) \<Rightarrow> io_return (None, kind @ '' validation failed: '' @ pe_text e)
       | Inl e \<Rightarrow> io_raise e
       | Inr parsed \<Rightarrow> io_return (parsed, rq_invalid_message request))"

definition chat_model_params ::
  "('w, 'v, 'c, 'o, 'p) provider \<Rightarrow> ('w, 'v, 'o, 'p, 'r) prompt_request \<Rightarrow> 'p kwargs option \<Rightarrow> (string, 'p param) dict" where
  "chat_model_params provider request usage_kwargs =
     (let params = merge_chat_model_kwargs [rq_chat_model_kwargs request, usage_kwargs] (Some (ParamStr (rq_model request))) None
            (map_option ParamStr (rq_reasoning_effort request)) None;
          params = AList.update ''max_retries'' (ParamInt 0) params;
          params = AList.update ''callbacks'' (pv_runlog_callback provider (map_of params ''callbacks'')) params;
          params = (case rq_max_tokens request of None \<Rightarrow> params | Some n \<Rightarrow> AList.update ''max_tokens'' (ParamInt n) params)
      in case rq_temperature request of None \<Rightarrow> params | Some t \<Rightarrow> AList.update ''temperature'' (ParamObject t) params)"

definition request_budget :: "('w, 'v, 'c, 'o, 'p) provider \<Rightarrow> ('w, 'v, 'o, 'p, 'r) prompt_request \<Rightarrow> budget" where
  "request_budget provider request =
     map_option (\<lambda>limit. (\<lambda>t. pv_count_tokens provider t (rq_model request), limit)) (rq_max_input_tokens request)"

text \<open>The answer through \<open>with_structured_output\<close>.\<close>

definition structured_attempt ::
  "('w, 'v, 'c, 'o, 'p) provider \<Rightarrow> ('w, 'v, 'o, 'p, 'r) prompt_request \<Rightarrow> 'c \<Rightarrow> chat_prompt \<Rightarrow> string list \<Rightarrow>
   ('w, real, 'v, 'r option \<times> string) model_io" where
  "structured_attempt provider request chat prompt tool_evidence =
     (let sv = pv_services provider in
      io_bind (external (pv_structured_output provider chat)) (\<lambda>structured_model.
      io_bind (cancellation_checkpoint sv) (\<lambda>_.
      io_bind (external (pv_render provider prompt)) (\<lambda>messages.
      io_bind (io_emit (StructuredCalled messages)) (\<lambda>_.
      io_bind (external (pv_structured_invoke provider structured_model messages)) (\<lambda>result.
      io_bind (cancellation_checkpoint sv) (\<lambda>_.
        case result of
          NotADict \<Rightarrow> io_raise (OtherError (plain_error ''Structured model response did not include raw output''))
        | StructuredDict raw parsing_error parsed \<Rightarrow>
            if parsing_error = ParsingCancelled then io_raise CancelledError
            else io_bind (io_of (case raw of None \<Rightarrow> Inr () | Some r \<Rightarrow> require_completed_model_response r tool_evidence)) (\<lambda>_.
                 io_bind (parse_answer request ''structured'' (case parsing_error of
                     NoParsingError \<Rightarrow> (case parsed of None \<Rightarrow> ParseNone | Some obj \<Rightarrow> ParseObject obj)
                   | _ \<Rightarrow> ParseNone)) (\<lambda>answer.
                 io_return (case parsing_error of
                     ParsingFailed message \<Rightarrow> (None, ''structured validation failed: '' @ message)
                   | _ \<Rightarrow> answer))))))))))"

text \<open>The answer as text, from the tool loop or from one call. The evidence is returned with it.\<close>

definition text_attempt ::
  "('w, 'v, 'c, 'o, 'p) provider \<Rightarrow> ('w, 'v, 'o, 'p, 'r) prompt_request \<Rightarrow> 'c \<Rightarrow> chat_prompt \<Rightarrow> tool list \<Rightarrow> nat \<Rightarrow> string list \<Rightarrow>
   ('w, real, 'v, 'r option \<times> string \<times> string list) model_io" where
  "text_attempt provider request chat prompt active_tools max_tool_rounds tool_evidence =
     (let sv = pv_services provider in
      io_bind
        (if active_tools \<noteq> []
         then io_bind (invoke_model_with_tools sv (rq_callbacks request) (request_budget provider request) chat
                 (pv_render provider prompt) active_tools max_tool_rounds) (\<lambda>answer.
              io_bind (cancellation_checkpoint sv) (\<lambda>_. io_return answer))
         else io_bind (cancellation_checkpoint sv) (\<lambda>_.
              io_bind (external (pv_render provider prompt)) (\<lambda>messages.
              io_bind (io_emit (ModelCalled False messages)) (\<lambda>_.
              io_bind (external (sv_invoke sv chat False messages)) (\<lambda>response.
              io_bind (cancellation_checkpoint sv) (\<lambda>_.
              io_bind (io_of (require_completed_model_response response tool_evidence)) (\<lambda>_.
              io_bind (external (pv_output_text provider response)) (\<lambda>response_text.
              io_return (response_text, tool_evidence))))))))) (\<lambda>(response_text, evidence).
      io_bind (parse_answer request ''response'' (ParseText response_text)) (\<lambda>(parsed, failure).
      io_return (parsed, failure, evidence))))"

text \<open>
  The body of the \<open>try\<close>. The prompt is rebuilt when there is evidence; without evidence it is the
  one built before the loop, which is \<open>json_chat_prompt\<close> of no evidence.
\<close>

definition attempt_body ::
  "('w, 'v, 'c, 'o, 'p) provider \<Rightarrow> ('w, 'v, 'o, 'p, 'r) prompt_request \<Rightarrow> nat \<Rightarrow> string list \<Rightarrow>
   ('w, real, 'v, 'r option \<times> string \<times> string list) model_io" where
  "attempt_body provider request max_tool_rounds tool_evidence =
     (let sv = pv_services provider in
      io_bind (case pv_usage_kwargs provider of None \<Rightarrow> io_return None
               | Some f \<Rightarrow> io_bind (external f) (\<lambda>d. io_return (Some d))) (\<lambda>usage_kwargs.
      io_bind (cancellation_checkpoint sv) (\<lambda>_.
      io_bind (io_emit ChatBuilt) (\<lambda>_.
      io_bind (external (pv_get_chat_model provider (chat_model_params provider request usage_kwargs))) (\<lambda>chat.
      io_bind (cancellation_checkpoint sv) (\<lambda>_.
      let active_tools = (if tool_evidence = [] then rq_model_tools request else []);
          prompt = json_chat_prompt (rq_system_prompt request) (rq_user_prompt request) (rq_model_tools request) tool_evidence
      in io_bind (case rq_max_input_tokens request of None \<Rightarrow> io_return ()
                  | Some _ \<Rightarrow> io_bind (external (pv_render provider prompt)) (\<lambda>messages.
                      io_of (require_model_input_budget sv (request_budget provider request) messages))) (\<lambda>_.
         if active_tools = [] \<and> rq_response_model request \<and> pv_has_structured_output provider chat
         then io_bind (structured_attempt provider request chat prompt tool_evidence) (\<lambda>(parsed, failure).
              io_return (parsed, failure, tool_evidence))
         else text_attempt provider request chat prompt active_tools max_tool_rounds tool_evidence)))))))"

section \<open>The retry loop\<close>

record run_state =
  st_last_failure :: string
  st_confirmed_output_limit :: bool
  st_incomplete_response :: "real model_error option"
  st_tool_evidence :: "string list"
  st_transport_retries :: nat
  st_output_attempts :: nat

definition initial_run_state :: run_state where
  "initial_run_state = \<lparr>st_last_failure = ''unknown failure'', st_confirmed_output_limit = False, st_incomplete_response = None,
     st_tool_evidence = [], st_transport_retries = 0, st_output_attempts = 0\<rparr>"

datatype 'r attempt_result =
    Answered 'r
  | Unusable run_state
  | ProviderFailed run_state "real provider_error"

definition tls_message :: string where
  "tls_message = ''TLS certificate verification failed while contacting '' @
     ''the model provider. Install the required CA certificate '' @ ''in the Python environment before retrying.''"

definition run_attempt ::
  "('w, 'v, 'c, 'o, 'p) provider \<Rightarrow> ('w, 'v, 'o, 'p, 'r) prompt_request \<Rightarrow> nat \<Rightarrow> run_state \<Rightarrow>
   ('w, real, 'v, 'r attempt_result) model_io" where
  "run_attempt provider request max_tool_rounds st =
     (let checkpoint = cancellation_checkpoint (pv_services provider);
          unusable = (\<lambda>s. io_bind checkpoint (\<lambda>_. io_return (Unusable s)))
      in io_bind checkpoint (\<lambda>_.
         io_try (attempt_body provider request max_tool_rounds (st_tool_evidence st)) (\<lambda>r.
           case r of
             Inr (Some parsed, _, _) \<Rightarrow>
               io_bind checkpoint (\<lambda>_. io_bind checkpoint (\<lambda>_. io_return (Answered parsed)))
           | Inr (None, failure, evidence) \<Rightarrow>
               unusable (st\<lparr>st_tool_evidence := evidence, st_last_failure := failure\<rparr>)
           | Inl (ModelOutputLimitError message evidence) \<Rightarrow>
               io_bind checkpoint (\<lambda>_. unusable (st\<lparr>st_confirmed_output_limit := True,
                 st_tool_evidence := evidence, st_last_failure := message\<rparr>))
           | Inl (ModelResponseIncompleteError message evidence) \<Rightarrow>
               io_bind checkpoint (\<lambda>_. unusable (st\<lparr>st_incomplete_response := Some (ModelResponseIncompleteError message evidence),
                 st_tool_evidence := evidence, st_last_failure := message\<rparr>))
           | Inl (OtherError e) \<Rightarrow>
               io_bind checkpoint (\<lambda>_.
                 if certificate_verification_failed e then io_raise (ModelProviderConfigurationError tls_message)
                 else io_bind checkpoint (\<lambda>_. io_return (ProviderFailed (st\<lparr>st_last_failure := pe_text e\<rparr>) e)))
           | Inl CancelledError \<Rightarrow> io_raise CancelledError
           | Inl e \<Rightarrow> io_bind checkpoint (\<lambda>_. io_raise e))))"

definition wait_for :: "('w, 'v, 'c, 'o, 'p) provider \<Rightarrow> real \<Rightarrow> ('w, real, 'v, unit) model_io" where
  "wait_for provider seconds =
     (if 0 < seconds
      then io_bind (io_emit (Waited seconds)) (\<lambda>_.
           io_bind (io_query (pv_wait provider seconds)) (\<lambda>cancelled.
           if cancelled then io_raise CancelledError else io_return ()))
      else io_return ())"

text \<open>After the loop: what a run without an answer ends in.\<close>

definition conclude_attempts ::
  "('w, 'v, 'c, 'o, 'p) provider \<Rightarrow> runner \<Rightarrow> ('w, 'v, 'o, 'p, 'r) prompt_request \<Rightarrow> run_state \<Rightarrow>
   ('w, real, 'v, 'r option) model_io" where
  "conclude_attempts provider rn request st =
     (let checkpoint = cancellation_checkpoint (pv_services provider) in
      io_bind checkpoint (\<lambda>_.
      io_bind (if st_confirmed_output_limit st
               then (case rq_on_output_limit request of
                       Some f \<Rightarrow> io_bind (io_emit OutputLimitReported) (\<lambda>_. external f)
                     | None \<Rightarrow> io_raise (ModelOutputLimitError (rq_label request @ '' reached the model output token limit after '' @
                         show_nat (rn_max_attempts rn) @ '' attempts'') (st_tool_evidence st)))
               else (case st_incomplete_response st of Some e \<Rightarrow> io_raise e | None \<Rightarrow> io_return ())) (\<lambda>_.
      io_bind checkpoint (\<lambda>_. io_return None))))"

primrec attempts ::
  "('w, 'v, 'c, 'o, 'p) provider \<Rightarrow> runner \<Rightarrow> ('w, 'v, 'o, 'p, 'r) prompt_request \<Rightarrow> nat \<Rightarrow> nat \<Rightarrow> nat \<Rightarrow> run_state \<Rightarrow>
   ('w, real, 'v, 'r option) model_io" where
  "attempts provider rn request max_transport_retries max_tool_rounds 0 st = conclude_attempts provider rn request st"
| "attempts provider rn request max_transport_retries max_tool_rounds (Suc left) st =
     io_bind (run_attempt provider request max_tool_rounds st) (\<lambda>result.
       case result of
         Answered parsed \<Rightarrow> io_return (Some parsed)
       | ProviderFailed st' error \<Rightarrow>
           if max_transport_retries \<le> st_transport_retries st' then io_raise (OtherError error)
           else io_bind (io_query (pv_uniform provider)) (\<lambda>u.
                io_bind (io_query (pv_time provider)) (\<lambda>now.
                io_bind (io_of (provider_retry_delay now error
                    (max 0 (min (rn_retry_backoff_seconds rn * 2 ^ st_transport_retries st') 30 * u)))) (\<lambda>delay.
                io_bind (wait_for provider delay) (\<lambda>_.
                attempts provider rn request max_transport_retries max_tool_rounds left
                  (st'\<lparr>st_transport_retries := Suc (st_transport_retries st')\<rparr>)))))
       | Unusable st' \<Rightarrow>
           let st'' = st'\<lparr>st_output_attempts := Suc (st_output_attempts st')\<rparr> in
           if rn_max_attempts rn \<le> st_output_attempts st'' then conclude_attempts provider rn request st''
           else io_bind (wait_for provider (max 0 (min (rn_retry_backoff_seconds rn * 2 ^ (st_output_attempts st'' - 1)) 30))) (\<lambda>_.
                attempts provider rn request max_transport_retries max_tool_rounds left st''))"

definition transport_retry_limit :: "('w, 'v, 'c, 'o, 'p) provider \<Rightarrow> runner \<Rightarrow> nat" where
  "transport_retry_limit provider rn =
     (case pv_max_retries provider of Some n \<Rightarrow> nat (max 0 n) | None \<Rightarrow> rn_max_attempts rn - 1)"

definition invoke_attempts ::
  "('w, 'v, 'c, 'o, 'p) provider \<Rightarrow> runner \<Rightarrow> ('w, 'v, 'o, 'p, 'r) prompt_request \<Rightarrow> ('w, real, 'v, 'r option) model_io" where
  "invoke_attempts provider rn request =
     (let retries = transport_retry_limit provider rn in
      io_bind (io_of (if rq_model_tools request = [] then Inr 0 else require_max_tool_rounds (rq_max_tool_rounds request))) (\<lambda>max_tool_rounds.
      io_bind (external (pv_render provider (json_chat_prompt (rq_system_prompt request) (rq_user_prompt request)
          (rq_model_tools request) []))) (\<lambda>_.
      attempts provider rn request retries max_tool_rounds (rn_max_attempts rn + retries) initial_run_state)))"

definition invoke :: "('w, 'v, 'c, 'o, 'p) provider \<Rightarrow> runner \<Rightarrow> ('w, 'v, 'o, 'p, 'r) prompt_request \<Rightarrow> ('w, real, 'v, 'r option) model_io" where
  "invoke provider rn request =
     io_bind (cancellation_checkpoint (pv_services provider)) (\<lambda>_.
     io_bind (invoke_attempts provider rn request) (\<lambda>parsed.
     io_bind (cancellation_checkpoint (pv_services provider)) (\<lambda>_. io_return parsed)))"

section \<open>What an attempt does\<close>

definition chats_built :: "('n, 'v) event list \<Rightarrow> nat" where
  "chats_built evs = length (filter (\<lambda>ev. case ev of ChatBuilt \<Rightarrow> True | _ \<Rightarrow> False) evs)"

definition waits :: "('n, 'v) event list \<Rightarrow> 'n list" where
  "waits evs = concat (map (\<lambda>ev. case ev of Waited d \<Rightarrow> [d] | _ \<Rightarrow> []) evs)"

text \<open>An event of an attempt after the chat model is built, and one in which no tool is offered or run.\<close>

definition is_exchange :: "('n, 'v) event \<Rightarrow> bool" where
  "is_exchange ev = (case ev of ChatBuilt \<Rightarrow> False | Waited _ \<Rightarrow> False | OutputLimitReported \<Rightarrow> False | _ \<Rightarrow> True)"

definition without_tools :: "('n, 'v) event \<Rightarrow> bool" where
  "without_tools ev = (case ev of ToolRun _ _ \<Rightarrow> False | ModelCalled allowed _ \<Rightarrow> \<not> allowed | _ \<Rightarrow> True)"

lemma counted_simps [simp]:
  "chats_built [] = 0" "chats_built (evs @ evs') = chats_built evs + chats_built evs'"
  "chats_built (ev # evs) = (case ev of ChatBuilt \<Rightarrow> 1 | _ \<Rightarrow> 0) + chats_built evs"
  "waits [] = []" "waits (evs @ evs') = waits evs @ waits evs'"
  "waits (ev # evs) = (case ev of Waited d \<Rightarrow> [d] | _ \<Rightarrow> []) @ waits evs"
  by (simp_all add: chats_built_def waits_def split: event.splits)

lemma exchange_counts: "list_all is_exchange evs \<Longrightarrow> chats_built evs = 0 \<and> waits evs = []"
  by (induction evs) (auto simp: is_exchange_def split: event.splits)

lemma emits_all_bind:
  "emits m (\<lambda>r evs. list_all P evs) \<Longrightarrow> (\<And>x. emits (f x) (\<lambda>r evs. list_all P evs)) \<Longrightarrow>
   emits (io_bind m f) (\<lambda>r evs. list_all P evs)"
  by (rule emits_bind[of m "\<lambda>r. list_all P"]) (auto elim: emits_mono)

lemma emits_all_try:
  "emits m (\<lambda>r evs. list_all P evs) \<Longrightarrow> (\<And>r. emits (f r) (\<lambda>r evs. list_all P evs)) \<Longrightarrow>
   emits (io_try m f) (\<lambda>r evs. list_all P evs)"
  by (rule emits_try[of m "\<lambda>r. list_all P"]) (auto elim: emits_mono)

lemma emits_all_prefix:
  "emits m (\<lambda>r evs. list_all P evs) \<Longrightarrow> list_all P seen \<Longrightarrow> emits m (\<lambda>r evs. list_all P (seen @ evs))"
  by (auto elim: emits_mono)

lemma emits_all_fold:
  "(\<And>s x. emits (f s x) (\<lambda>r evs. list_all P evs)) \<Longrightarrow> emits (io_fold f s xs) (\<lambda>r evs. list_all P evs)"
  by (induction xs arbitrary: s) (simp_all add: emits_all_bind)

lemma emits_all_external: "emits (external f) (\<lambda>r evs. list_all P evs)"
  by (rule emits_external) simp

lemma emits_all_checkpoint: "emits (cancellation_checkpoint sv) (\<lambda>r evs. list_all P evs)"
  by (rule emits_checkpoint) simp_all

lemmas emits_all_rules = emits_all_bind emits_all_try emits_all_fold emits_all_external emits_all_checkpoint

lemma report_exchange: "is_exchange ev \<Longrightarrow> emits (report ev f t) (\<lambda>r evs. list_all is_exchange evs)"
  by (intro emits_mono[OF report_emits]) simp

lemma observe_exchange: "emits (observe_tool_results cb observations) (\<lambda>r evs. list_all is_exchange evs)"
  unfolding observe_tool_results_def
  by (auto intro!: emits_all_fold report_exchange simp: is_exchange_def split: option.splits)

lemma run_tool_exchange: "emits (run_tool sv tools name args) (\<lambda>r evs. list_all is_exchange evs)"
  unfolding run_tool_def
  by (intro emits_all_rules | simp add: is_exchange_def split: option.split sum.split model_error.split
      | intro conjI allI impI)+

lemma answer_call_exchange: "emits (answer_call sv cb tools lp x) (\<lambda>r evs. list_all is_exchange evs)"
proof -
  have "emits (case (cbk_on_tool_error cb, outcome) of (Some f, Inl _) \<Rightarrow> report ToolErrorReported f t | _ \<Rightarrow> io_return ())
     (\<lambda>r evs. list_all is_exchange evs)" for outcome :: "string + string" and t
    by (cases "cbk_on_tool_error cb"; cases outcome) (simp_all add: report_exchange is_exchange_def)
  then show ?thesis
    by (cases x) (auto simp: answer_call_eq intro!: emits_all_bind run_tool_exchange)
qed

lemma call_model_exchange: "emits (call_model sv budget chat allowed choice messages) (\<lambda>r evs. list_all is_exchange evs)"
  unfolding call_model_def by (intro emits_all_rules) (simp_all add: is_exchange_def)

lemma completed_exchange: "emits (completed_or_observe cb lp response) (\<lambda>r evs. list_all is_exchange evs)"
  unfolding completed_or_observe_def
  by (auto intro!: emits_all_bind observe_exchange split: sum.splits)

lemma finish_exchange: "emits (finish_loop sv cb lp response) (\<lambda>r evs. list_all is_exchange evs)"
  unfolding finish_loop_def by (intro emits_all_rules observe_exchange) simp

lemma tool_rounds_exchange:
  "emits (tool_rounds sv cb budget chat tool_chat tools left lp) (\<lambda>r evs. list_all is_exchange evs)"
  by (induction left arbitrary: lp)
    (auto intro!: emits_all_bind emits_all_fold call_model_exchange completed_exchange finish_exchange answer_call_exchange)

lemma tool_loop_exchange:
  "emits (invoke_model_with_tools sv cb budget chat render tools rounds) (\<lambda>r evs. list_all is_exchange evs)"
  unfolding invoke_model_with_tools_def
  by (auto intro!: emits_all_rules tool_rounds_exchange)

text \<open>An answer is produced by the request's \<open>parse\<close>.\<close>

definition produced :: "('w, 'v, 'o, 'p, 'r) prompt_request \<Rightarrow> 'r \<Rightarrow> bool" where
  "produced request x \<longleftrightarrow> (\<exists>answer s s'. rq_parse request answer s = (Returned (Some x), s'))"

lemma parse_answer_emits:
  "emits (parse_answer request kind answer) (\<lambda>r evs. evs = [] \<and>
     (case r of Inl e \<Rightarrow> e = CancelledError | Inr (p, _) \<Rightarrow> \<forall>x. p = Some x \<longrightarrow> produced request x))"
  unfolding parse_answer_def
  by (rule emits_try_external) (auto simp: produced_def)

lemma completed_evidence:
  "require_completed_model_response response evidence = Inl e \<Longrightarrow> carried_evidence (Inl e) \<in> {None, Some evidence}"
  by (simp add: require_completed_evidence)

definition attempt_ok :: "('w, 'v, 'o, 'p, 'r) prompt_request \<Rightarrow> string list \<Rightarrow> real model_error + 'r option \<times> string \<Rightarrow> bool" where
  "attempt_ok request evidence r =
     (case r of Inl e \<Rightarrow> carried_evidence (Inl e) \<in> {None, Some evidence} | Inr (p, _) \<Rightarrow> \<forall>x. p = Some x \<longrightarrow> produced request x)"

lemma structured_answer_emits:
  "emits (io_bind (io_of (case raw of None \<Rightarrow> Inr () | Some r \<Rightarrow> require_completed_model_response r evidence)) (\<lambda>_.
      io_bind (parse_answer request kind answer) (\<lambda>answer. io_return (case pe of ParsingFailed t \<Rightarrow> (None, failure t) | _ \<Rightarrow> answer))))
    (\<lambda>r evs. evs = [] \<and> attempt_ok request evidence r)"
proof (rule emits_bind_of, goal_cases)
  case (1 e)
  then show ?case by (auto simp: attempt_ok_def dest: completed_evidence split: option.splits)
next
  case (2 u)
  show ?case
    by (rule emits_bind[OF parse_answer_emits]) (auto simp: attempt_ok_def split: parsing_error.splits)
qed

lemma structured_attempt_emits:
  "emits (structured_attempt provider request chat prompt evidence) (\<lambda>r evs.
     list_all is_exchange evs \<and> list_all without_tools evs \<and> attempt_ok request evidence r)"
  unfolding structured_attempt_def Let_def
proof (intro emits_rules, goal_cases)
  case (9 m s s' ms t t' result u u')
  show ?case
  proof (cases result)
    case (StructuredDict raw pe parsed)
    then show ?thesis
      by (auto intro!: emits_mono[OF structured_answer_emits] simp: is_exchange_def without_tools_def attempt_ok_def)
  qed (simp add: is_exchange_def without_tools_def attempt_ok_def)
qed (simp_all add: is_exchange_def without_tools_def attempt_ok_def)

text \<open>The same for the text of a response, which comes with the evidence that goes on.\<close>

definition text_ok :: "('w, 'v, 'o, 'p, 'r) prompt_request \<Rightarrow> string list \<Rightarrow> bool \<Rightarrow>
    real model_error + 'r option \<times> string \<times> string list \<Rightarrow> bool" where
  "text_ok request evidence kept r =
     (case r of Inl e \<Rightarrow> kept \<longrightarrow> carried_evidence (Inl e) \<in> {None, Some evidence}
      | Inr (p, _, evidence') \<Rightarrow> (kept \<longrightarrow> evidence' = evidence) \<and> (\<forall>x. p = Some x \<longrightarrow> produced request x))"

lemma text_attempt_emits:
  "emits (text_attempt provider request chat prompt active_tools rounds evidence) (\<lambda>r evs.
     list_all is_exchange evs \<and> (active_tools = [] \<longrightarrow> list_all without_tools evs) \<and> text_ok request evidence (active_tools = []) r)"
proof -
  let ?P = "\<lambda>(r :: real model_error + string \<times> string list) evs. list_all is_exchange evs \<and>
     (active_tools = [] \<longrightarrow> list_all without_tools evs \<and> (case r of Inl e \<Rightarrow> carried_evidence (Inl e) \<in> {None, Some evidence} | Inr (_, ev) \<Rightarrow> ev = evidence))"
  have parse: "emits (io_bind (parse_answer request ''response'' (ParseText t)) (\<lambda>(p, failure). io_return (p, failure, ev)))
     (\<lambda>r evs. evs = [] \<and> (case r of Inl e \<Rightarrow> e = CancelledError | Inr (p, _, ev') \<Rightarrow> ev' = ev \<and> (\<forall>x. p = Some x \<longrightarrow> produced request x)))" for t ev
    by (rule emits_bind[OF parse_answer_emits]) auto
  show ?thesis
    unfolding text_attempt_def Let_def
  proof (rule emits_bind[where P = ?P], goal_cases)
    case 1
    show ?case
    proof (cases "active_tools = []")
      case True
      then show ?thesis
        by (auto intro!: emits_rules simp: is_exchange_def without_tools_def dest: completed_evidence)
    next
      case False
      then show ?thesis
        by (auto intro!: emits_bind[OF tool_loop_exchange] emits_bind_checkpoint)
    qed
  next
    case (2 e evs)
    then show ?case by (simp add: text_ok_def)
  next
    case (3 x evs)
    then show ?case
      by (auto intro!: emits_mono[OF parse] simp: text_ok_def split: prod.splits sum.splits)
  qed
qed

definition body_spec :: "('w, 'v, 'o, 'p, 'r) prompt_request \<Rightarrow> string list \<Rightarrow>
    real model_error + 'r option \<times> string \<times> string list \<Rightarrow> (real, 'v) event list \<Rightarrow> bool" where
  "body_spec request evidence r evs \<longleftrightarrow>
     chats_built evs \<le> 1 \<and> waits evs = [] \<and> text_ok request evidence (evidence \<noteq> []) r \<and>
     (evidence \<noteq> [] \<longrightarrow> list_all without_tools evs) \<and>
     (chats_built evs = 0 \<longrightarrow> (\<exists>e. r = Inl e \<and> carried_evidence (Inl e) = None))"

lemma budget_emits:
  "emits (case rq_max_input_tokens request of None \<Rightarrow> io_return ()
      | Some _ \<Rightarrow> io_bind (external (pv_render provider prompt)) (\<lambda>messages.
          io_of (require_model_input_budget sv (request_budget provider request) messages)))
    (\<lambda>r evs. evs = [] \<and> (\<forall>e. r = Inl e \<longrightarrow> carried_evidence (Inl e) = None))"
proof (cases "rq_max_input_tokens request")
  case (Some n)
  then show ?thesis
    by (auto intro!: emits_bind_external simp: require_model_input_budget_def raise_if_def split: option.splits)
qed simp

lemma usage_emits:
  "emits (case pv_usage_kwargs provider of None \<Rightarrow> io_return None | Some f \<Rightarrow> io_bind (external f) (\<lambda>d. io_return (Some d)))
    (\<lambda>r evs. evs = [] \<and> (\<forall>e. r = Inl e \<longrightarrow> carried_evidence (Inl e) = None))"
  by (cases "pv_usage_kwargs provider") (auto intro!: emits_bind_external)

lemma attempt_body_emits:
  "emits (attempt_body provider request rounds evidence) (body_spec request evidence)"
proof -
  let ?tools = "if evidence = [] then rq_model_tools request else []"
  let ?prompt = "json_chat_prompt (rq_system_prompt request) (rq_user_prompt request) (rq_model_tools request) evidence"
  let ?Q = "\<lambda>r evs. list_all is_exchange evs \<and> (evidence \<noteq> [] \<longrightarrow> list_all without_tools evs) \<and> text_ok request evidence (evidence \<noteq> []) r"
  have answer: "emits (if ?tools = [] \<and> rq_response_model request \<and> pv_has_structured_output provider chat
       then io_bind (structured_attempt provider request chat ?prompt evidence) (\<lambda>(parsed, failure). io_return (parsed, failure, evidence))
       else text_attempt provider request chat ?prompt ?tools rounds evidence) ?Q" for chat
  proof (cases "?tools = [] \<and> rq_response_model request \<and> pv_has_structured_output provider chat")
    case True
    show ?thesis unfolding if_P[OF True]
      by (rule emits_bind[OF structured_attempt_emits]) (auto simp: text_ok_def attempt_ok_def)
  next
    case False
    show ?thesis unfolding if_not_P[OF False]
      by (rule emits_mono[OF text_attempt_emits]) (auto simp: text_ok_def split: sum.splits)
  qed
  show ?thesis
    unfolding attempt_body_def Let_def
  proof (rule emits_bind[OF usage_emits], goal_cases)
    case (1 e evs)
    then show ?case by (simp add: body_spec_def text_ok_def)
  next
    case (2 d evs)
    then have "evs = []" by simp
    show ?case unfolding \<open>evs = []\<close> append_Nil
    proof (intro emits_rules emits_bind[OF budget_emits], goal_cases)
      case (6 chat s s' u evs')
      then show ?case
        by (intro emits_mono[OF answer]) (auto simp: body_spec_def without_tools_def dest: exchange_counts)
    qed (auto simp: body_spec_def text_ok_def without_tools_def)
  qed
qed

section \<open>What the retry loop does\<close>

definition same_counters :: "run_state \<Rightarrow> run_state \<Rightarrow> bool" where
  "same_counters st st' \<longleftrightarrow> st_transport_retries st' = st_transport_retries st \<and> st_output_attempts st' = st_output_attempts st \<and>
     (st_tool_evidence st \<noteq> [] \<longrightarrow> st_tool_evidence st' = st_tool_evidence st)"

definition attempt_spec :: "('w, 'v, 'o, 'p, 'r) prompt_request \<Rightarrow> run_state \<Rightarrow> real model_error + 'r attempt_result \<Rightarrow>
    (real, 'v) event list \<Rightarrow> bool" where
  "attempt_spec request st r evs \<longleftrightarrow>
     chats_built evs \<le> 1 \<and> waits evs = [] \<and> (st_tool_evidence st \<noteq> [] \<longrightarrow> list_all without_tools evs) \<and>
     (case r of Inl _ \<Rightarrow> True | Inr (Answered p) \<Rightarrow> produced request p
      | Inr (Unusable st') \<Rightarrow> chats_built evs = 1 \<and> same_counters st st'
      | Inr (ProviderFailed st' _) \<Rightarrow> same_counters st st')"

lemma run_attempt_emits: "emits (run_attempt provider request rounds st) (attempt_spec request st)"
  unfolding run_attempt_def Let_def
proof (intro emits_bind_checkpoint emits_try[OF attempt_body_emits], goal_cases)
  case 1
  show ?case by (simp add: attempt_spec_def)
next
  case (2 r evs)
  show ?case
  proof (cases r)
    case (Inr x)
    obtain p failure evidence where x: "x = (p, failure, evidence)" by (cases x)
    with 2 Inr show ?thesis
      by (cases p) (auto intro!: emits_bind_checkpoint simp: attempt_spec_def body_spec_def text_ok_def same_counters_def)
  next
    case (Inl e)
    with 2 show ?thesis
      by (cases e) (auto intro!: emits_bind_checkpoint
          simp: attempt_spec_def body_spec_def text_ok_def same_counters_def carried_evidence_def)
  qed
qed

lemma emits_bind_query:
  assumes "\<And>x s s'. g s = (x, s') \<Longrightarrow> emits (f x) R"
  shows "emits (io_bind (io_query g) f) R"
proof (rule emits_bind[of _ "\<lambda>r evs. evs = [] \<and> (\<exists>x s s'. r = Inr x \<and> g s = (x, s'))"])
  show "emits (io_query g) (\<lambda>r evs. evs = [] \<and> (\<exists>x s s'. r = Inr x \<and> g s = (x, s')))"
    by (rule emitsI) (auto simp: io_query_def split: prod.splits)
qed (use assms in auto)

lemma wait_for_emits: "emits (wait_for provider d) (\<lambda>r evs. evs = [] \<or> evs = [Waited d] \<and> 0 < d)"
  unfolding wait_for_def by (auto intro!: emits_bind_emit emits_bind_query)

lemma retry_delay_bounds:
  assumes "provider_retry_delay now error default_seconds = Inr delay" and "0 \<le> default_seconds" and "default_seconds \<le> 120"
  shows "0 \<le> delay \<and> delay \<le> 120"
  using assms by (auto simp: provider_retry_delay_def Let_def split: if_splits option.splits)

lemma conclude_attempts_emits:
  "emits (conclude_attempts provider rn request st) (\<lambda>r evs.
     chats_built evs = 0 \<and> waits evs = [] \<and> list_all without_tools evs \<and> (\<forall>x. r \<noteq> Inr (Some x)))"
proof -
  have "emits (if st_confirmed_output_limit st
      then (case rq_on_output_limit request of
              Some f \<Rightarrow> io_bind (io_emit OutputLimitReported) (\<lambda>_. external f)
            | None \<Rightarrow> io_raise (ModelOutputLimitError (rq_label request @ '' reached the model output token limit after '' @
                show_nat (rn_max_attempts rn) @ '' attempts'') (st_tool_evidence st)))
      else (case st_incomplete_response st of Some e \<Rightarrow> io_raise e | None \<Rightarrow> io_return ()))
    (\<lambda>r evs. chats_built evs = 0 \<and> waits evs = [] \<and> list_all without_tools evs)"
    by (auto intro!: emits_bind_emit emits_external simp: without_tools_def split: option.splits)
  then show ?thesis
    unfolding conclude_attempts_def Let_def
    by (intro emits_bind_checkpoint emits_bind[where P = "\<lambda>r evs. chats_built evs = 0 \<and> waits evs = [] \<and> list_all without_tools evs"])
      (auto intro!: emits_bind_checkpoint)
qed

definition retry_spec :: "nat \<Rightarrow> nat \<Rightarrow> ('w, 'v, 'o, 'p, 'r) prompt_request \<Rightarrow> run_state \<Rightarrow> real model_error + 'r option \<Rightarrow>
    (real, 'v) event list \<Rightarrow> bool" where
  "retry_spec outputs retries request st r evs \<longleftrightarrow>
     (let left = (outputs - st_output_attempts st) + (retries - st_transport_retries st)
      in chats_built evs \<le> left \<and> length (waits evs) < left) \<and>
     (\<forall>d \<in> set (waits evs). 0 < d \<and> d \<le> 120) \<and>
     (st_tool_evidence st \<noteq> [] \<longrightarrow> list_all without_tools evs) \<and>
     (\<forall>x. r = Inr (Some x) \<longrightarrow> produced request x) \<and>
     (r = Inr None \<longrightarrow> outputs - st_output_attempts st \<le> chats_built evs)"

lemma retry_spec_unusable:
  assumes now: "attempt_spec request st (Inr (Unusable st')) evs" and wait: "evs' = [] \<or> evs' = [Waited d] \<and> 0 < d" and "d \<le> 120"
    and more: "Suc (st_output_attempts st) < outputs"
    and later: "retry_spec outputs retries request (st'\<lparr>st_output_attempts := Suc (st_output_attempts st')\<rparr>) r evs''"
  shows "retry_spec outputs retries request st r (evs @ evs' @ evs'')"
proof -
  have st': "st_output_attempts st' = st_output_attempts st" "st_transport_retries st' = st_transport_retries st"
    "chats_built evs = 1" "waits evs = []" "chats_built evs' = 0" "length (waits evs') \<le> 1" "\<forall>d \<in> set (waits evs'). 0 < d \<and> d \<le> 120"
    using now wait \<open>d \<le> 120\<close> by (auto simp: attempt_spec_def same_counters_def)
  have "list_all without_tools (evs @ evs' @ evs'')" if "st_tool_evidence st \<noteq> []"
    using that now wait later by (auto simp: attempt_spec_def same_counters_def retry_spec_def without_tools_def)
  then show ?thesis
    using later more st' unfolding retry_spec_def Let_def by auto
qed

lemma retry_spec_provider_failed:
  assumes now: "attempt_spec request st (Inr (ProviderFailed st' e)) evs" and wait: "evs' = [] \<or> evs' = [Waited d] \<and> 0 < d" and "d \<le> 120"
    and more: "st_transport_retries st < retries" "st_output_attempts st < outputs"
    and later: "retry_spec outputs retries request (st'\<lparr>st_transport_retries := Suc (st_transport_retries st')\<rparr>) r evs''"
  shows "retry_spec outputs retries request st r (evs @ evs' @ evs'')"
proof -
  have st': "st_output_attempts st' = st_output_attempts st" "st_transport_retries st' = st_transport_retries st"
    "chats_built evs \<le> 1" "waits evs = []" "chats_built evs' = 0" "length (waits evs') \<le> 1" "\<forall>d \<in> set (waits evs'). 0 < d \<and> d \<le> 120"
    using now wait \<open>d \<le> 120\<close> by (auto simp: attempt_spec_def same_counters_def)
  have "list_all without_tools (evs @ evs' @ evs'')" if "st_tool_evidence st \<noteq> []"
    using that now wait later by (auto simp: attempt_spec_def same_counters_def retry_spec_def without_tools_def)
  then show ?thesis
    using later more st' unfolding retry_spec_def Let_def by auto
qed

lemma retry_spec_raise:
  assumes "attempt_spec request st r' evs" and "evs' = [] \<or> evs' = [Waited d] \<and> 0 < d \<and> d \<le> 120 \<and> (outputs - st_output_attempts st) + (retries - st_transport_retries st) > 1"
    and "st_output_attempts st < outputs"
  shows "retry_spec outputs retries request st (Inl e) (evs @ evs')"
proof -
  have "chats_built evs \<le> 1" "waits evs = []" "chats_built evs' = 0" "\<forall>d \<in> set (waits evs'). 0 < d \<and> d \<le> 120"
    "length (waits evs') < (outputs - st_output_attempts st) + (retries - st_transport_retries st)"
    using assms by (auto simp: attempt_spec_def)
  moreover have "list_all without_tools (evs @ evs')" if "st_tool_evidence st \<noteq> []"
    using that assms(1,2) by (auto simp: attempt_spec_def without_tools_def)
  ultimately show ?thesis using assms(3) unfolding retry_spec_def Let_def by auto
qed

lemma wait_then_emits:
  assumes now: "attempt_spec request st r' evs" and "d \<le> 120" and "st_output_attempts st < outputs"
    and room: "1 < (outputs - st_output_attempts st) + (retries - st_transport_retries st)" and later: "emits rest S"
    and step: "\<And>evs' r evs''. evs' = [] \<or> evs' = [Waited d] \<and> 0 < d \<Longrightarrow> S r evs'' \<Longrightarrow>
      retry_spec outputs retries request st r (evs @ evs' @ evs'')"
  shows "emits (io_bind (wait_for provider d) (\<lambda>_. rest)) (\<lambda>r evs'. retry_spec outputs retries request st r (evs @ evs'))"
proof (rule emits_bind[OF wait_for_emits], goal_cases)
  case (1 e evs')
  with assms(2-4) show ?case by (intro retry_spec_raise[OF now, where d = d]) auto
next
  case (2 u evs')
  then show ?case by (intro emits_mono[OF later] step)
qed

lemma default_delay_bound:
  assumes "provider_retry_delay now e (max 0 (min b 30 * u)) = Inr d" and "0 \<le> u" and "u \<le> (1 :: real)"
  shows "d \<le> 120"
proof -
  have "min b 30 * u \<le> 30" using mult_mono[of "min b 30" 30 u 1] assms(2,3) by simp
  with retry_delay_bounds[OF assms(1)] show ?thesis by simp
qed

text \<open>After an unusable answer, and after a failure of the provider, given what the rest of the loop does.\<close>

lemma unusable_emits:
  assumes now: "attempt_spec request st (Inr (Unusable st')) evs" and "st_output_attempts st < outputs"
    and rest: "Suc (st_output_attempts st) < outputs \<Longrightarrow>
      emits rest (retry_spec outputs retries request (st'\<lparr>st_output_attempts := Suc (st_output_attempts st')\<rparr>))"
    and "d \<le> 120"
  shows "emits (if outputs \<le> st_output_attempts (st'\<lparr>st_output_attempts := Suc (st_output_attempts st')\<rparr>) then conclude_attempts provider rn request st''
      else io_bind (wait_for provider d) (\<lambda>_. rest)) (\<lambda>r evs'. retry_spec outputs retries request st r (evs @ evs'))"
proof (cases "outputs \<le> Suc (st_output_attempts st')")
  case True
  have "retry_spec outputs retries request st r (evs @ evs')"
    if "chats_built evs' = 0 \<and> waits evs' = [] \<and> list_all without_tools evs' \<and> (\<forall>x. r \<noteq> Inr (Some x))" for r evs'
    using now that True assms(2) unfolding retry_spec_def attempt_spec_def same_counters_def Let_def by auto
  with True show ?thesis by (auto intro!: emits_mono[OF conclude_attempts_emits])
next
  case False
  then have "Suc (st_output_attempts st) < outputs" using now by (simp add: attempt_spec_def same_counters_def)
  with False rest show ?thesis
    by (auto intro!: wait_then_emits[OF now \<open>d \<le> 120\<close> assms(2)] retry_spec_unusable[OF now _ \<open>d \<le> 120\<close>])
qed

lemma provider_failed_emits:
  assumes now: "attempt_spec request st (Inr (ProviderFailed st' e)) evs" and "st_output_attempts st < outputs"
    and more: "st_transport_retries st < retries"
    and rest: "emits rest (retry_spec outputs retries request (st'\<lparr>st_transport_retries := Suc (st_transport_retries st')\<rparr>))"
    and uniform: "\<forall>s. 0 \<le> fst (pv_uniform provider s) \<and> fst (pv_uniform provider s) \<le> 1"
  shows "emits (io_bind (io_query (pv_uniform provider)) (\<lambda>u. io_bind (io_query (pv_time provider)) (\<lambda>now.
      io_bind (io_of (provider_retry_delay now e (max 0 (min b 30 * u)))) (\<lambda>delay.
      io_bind (wait_for provider delay) (\<lambda>_. rest)))))
    (\<lambda>r evs'. retry_spec outputs retries request st r (evs @ evs'))"
proof (intro emits_bind_query emits_bind_of, goal_cases)
  case (1 u s s' n t t' e')
  then show ?case using retry_spec_raise[OF now, of "[]"] assms(2) by simp
next
  case (2 u s s' n t t' d)
  have "d \<le> 120" using default_delay_bound[OF 2(3)] uniform[rule_format, of s] 2(1) by simp
  with assms(2) more rest show ?case
    by (auto intro!: wait_then_emits[OF now] retry_spec_provider_failed[OF now])
qed

lemma attempts_emits:
  assumes uniform: "\<forall>s. 0 \<le> fst (pv_uniform provider s) \<and> fst (pv_uniform provider s) \<le> 1"
    and "st_output_attempts st < rn_max_attempts rn"
    and "(rn_max_attempts rn - st_output_attempts st) + (retries - st_transport_retries st) \<le> left"
  shows "emits (attempts provider rn request retries rounds left st) (retry_spec (rn_max_attempts rn) retries request st)"
  using assms(2,3)
proof (induction left arbitrary: st)
  case (Suc left)
  show ?case
    unfolding attempts.simps
  proof (rule emits_bind[OF run_attempt_emits], goal_cases)
    case (1 e evs)
    then show ?case using retry_spec_raise[of request st "Inl e" evs "[]"] Suc.prems(1) by simp
  next
    case (2 result evs)
    show ?case
    proof (cases result)
      case (Answered p)
      then show ?thesis using 2 Suc.prems unfolding retry_spec_def attempt_spec_def Let_def by auto
    next
      case (Unusable st')
      with 2 have now: "attempt_spec request st (Inr (Unusable st')) evs" by simp
      then have st': "st_output_attempts st' = st_output_attempts st" "st_transport_retries st' = st_transport_retries st"
        by (simp_all add: attempt_spec_def same_counters_def)
      from Unusable Suc.prems st' show ?thesis
        unfolding Unusable attempt_result.case Let_def
        by (intro unusable_emits[OF now Suc.prems(1) Suc.IH]) auto
    next
      case (ProviderFailed st' e)
      with 2 have now: "attempt_spec request st (Inr (ProviderFailed st' e)) evs" by simp
      then have st': "st_output_attempts st' = st_output_attempts st" "st_transport_retries st' = st_transport_retries st"
        by (simp_all add: attempt_spec_def same_counters_def)
      show ?thesis
      proof (cases "retries \<le> st_transport_retries st'")
        case True
        then show ?thesis using ProviderFailed retry_spec_raise[OF now, of "[]"] Suc.prems(1) by simp
      next
        case False
        with ProviderFailed st' Suc.prems show ?thesis
          by (auto intro!: provider_failed_emits[OF now Suc.prems(1) _ Suc.IH uniform, unfolded st'])
      qed
    qed
  qed
qed simp

text \<open>The range of the \<open>for\<close> loop is never what ends it.\<close>

lemma io_bind_cong_run: "(\<And>w x w'. m w = (Inr x, w') \<Longrightarrow> f x w' = g x w') \<Longrightarrow> io_bind m f = io_bind m g"
  by (auto simp: fun_eq_iff io_bind_def split: prod.splits sum.splits)

lemma run_attempt_counters:
  assumes "run_attempt provider request rounds st w = (Inr result, w')"
    and "result = Unusable st' \<or> result = ProviderFailed st' e"
  shows "st_output_attempts st' = st_output_attempts st \<and> st_transport_retries st' = st_transport_retries st"
  using emitsD[OF run_attempt_emits assms(1)] assms(2) by (auto simp: attempt_spec_def same_counters_def)

lemma attempts_range:
  assumes "st_output_attempts st < rn_max_attempts rn"
    and "(rn_max_attempts rn - st_output_attempts st) + (retries - st_transport_retries st) \<le> left"
  shows "attempts provider rn request retries rounds (left + k) st = attempts provider rn request retries rounds left st"
  using assms
proof (induction left arbitrary: st)
  case (Suc left)
  show ?case
    unfolding add_Suc attempts.simps
  proof (rule io_bind_cong_run, goal_cases)
    case (1 w result w')
    show ?case
    proof (cases result)
      case (Unusable st')
      with 1 have "st_output_attempts st' = st_output_attempts st \<and> st_transport_retries st' = st_transport_retries st"
        by (blast dest: run_attempt_counters)
      then show ?thesis
        using Unusable Suc.IH[of "st'\<lparr>st_output_attempts := Suc (st_output_attempts st')\<rparr>"] Suc.prems by (simp add: Let_def)
    next
      case (ProviderFailed st' e)
      with 1 have "st_output_attempts st' = st_output_attempts st \<and> st_transport_retries st' = st_transport_retries st"
        by (blast dest: run_attempt_counters)
      then show ?thesis
        using ProviderFailed Suc.IH[of "st'\<lparr>st_transport_retries := Suc (st_transport_retries st')\<rparr>"] Suc.prems by simp
    qed simp
  qed
qed simp

section \<open>The walk along the causes of an exception\<close>

definition certificate_failure :: "exception_object \<Rightarrow> bool" where
  "certificate_failure e \<longleftrightarrow> eo_certificate_error e \<or> certificate_message (eo_text e)"

definition exception_edges :: "(nat, exception_object) dict \<Rightarrow> (nat \<times> nat) set" where
  "exception_edges store = {(i, j). \<exists>e. map_of store i = Some e \<and> next_exception e = Some j}"

definition failing_from :: "(nat, exception_object) dict \<Rightarrow> nat option \<Rightarrow> bool" where
  "failing_from store current \<longleftrightarrow> (\<exists>i j e. current = Some i \<and> (i, j) \<in> (exception_edges store)\<^sup>* \<and>
     map_of store j = Some e \<and> certificate_failure e)"

lemma failing_from_step:
  assumes "map_of store i = Some e" and "\<not> certificate_failure e"
  shows "failing_from store (Some i) \<longleftrightarrow> failing_from store (next_exception e)"
proof
  assume "failing_from store (Some i)"
  then obtain j e' where path: "(i, j) \<in> (exception_edges store)\<^sup>*" and "map_of store j = Some e'" "certificate_failure e'"
    by (auto simp: failing_from_def)
  from path this(2,3) assms show "failing_from store (next_exception e)"
    by (cases rule: converse_rtranclE) (auto simp: failing_from_def exception_edges_def)
next
  assume "failing_from store (next_exception e)"
  then obtain k j e' where k: "next_exception e = Some k" "(k, j) \<in> (exception_edges store)\<^sup>*"
    and "map_of store j = Some e'" "certificate_failure e'" by (auto simp: failing_from_def)
  moreover have "(i, k) \<in> exception_edges store" using assms(1) k(1) by (simp add: exception_edges_def)
  ultimately show "failing_from store (Some i)"
    unfolding failing_from_def by (blast intro: converse_rtrancl_into_rtrancl)
qed

lemma seen_not_failing:
  assumes "\<forall>k \<in> seen. \<exists>e. map_of store k = Some e \<and> \<not> certificate_failure e \<and> (\<forall>j. next_exception e = Some j \<longrightarrow> j \<in> seen)"
    and "i \<in> seen"
  shows "\<not> failing_from store (Some i)"
proof -
  have "j \<in> seen" if "(i, j) \<in> (exception_edges store)\<^sup>*" for j
    using that assms by induction (auto simp: exception_edges_def)
  with assms(1) show ?thesis by (fastforce simp: failing_from_def)
qed

lemma certificate_walk_exact:
  assumes "\<forall>k \<in> seen. \<exists>e. map_of store k = Some e \<and> \<not> certificate_failure e \<and>
    (\<forall>j. next_exception e = Some j \<longrightarrow> j \<in> seen \<or> current = Some j)"
  shows "certificate_walk store current seen \<longleftrightarrow> failing_from store current"
  using assms
proof (induction store current seen rule: certificate_walk.induct)
  case (1 store current seen)
  show ?case
  proof (cases current)
    case None
    then show ?thesis by (simp add: certificate_walk.simps failing_from_def)
  next
    case (Some i)
    consider "i \<in> seen" | "i \<notin> seen" "map_of store i = None" | e where "i \<notin> seen" "map_of store i = Some e" by fastforce
    then show ?thesis
    proof cases
      case 1
      then have "\<not> failing_from store (Some i)"
        using "1.prems" unfolding Some by (intro seen_not_failing[of seen]) fastforce+
      with 1 Some show ?thesis by (simp add: certificate_walk.simps)
    next
      case 2
      then have "\<not> failing_from store (Some i)"
        by (auto simp: failing_from_def exception_edges_def elim: converse_rtranclE)
      with 2 Some show ?thesis by (simp add: certificate_walk.simps)
    next
      case 3
      show ?thesis
      proof (cases "certificate_failure e")
        case True
        then have "failing_from store (Some i)" using 3 by (auto simp: failing_from_def)
        with True 3 Some show ?thesis by (simp add: certificate_walk.simps certificate_failure_def)
      next
        case False
        from False have nf: "\<not> (eo_certificate_error e \<or> certificate_message (eo_text e))" by (simp add: certificate_failure_def)
        have "\<forall>k \<in> insert i seen. \<exists>e'. map_of store k = Some e' \<and> \<not> certificate_failure e' \<and>
            (\<forall>j. next_exception e' = Some j \<longrightarrow> j \<in> insert i seen \<or> next_exception e = Some j)"
          using "1.prems" 3 False unfolding Some by (metis insert_iff option.inject)
        from "1.IH"[OF Some 3 nf this]
        have "certificate_walk store (next_exception e) (insert i seen) \<longleftrightarrow> failing_from store (next_exception e)" .
        with failing_from_step[OF 3(2) False] nf 3 Some show ?thesis
          by (simp add: certificate_walk.simps[of store "Some i"])
      qed
    qed
  qed
qed

corollary certificate_verification_failed_iff:
  "certificate_verification_failed error \<longleftrightarrow> failing_from (pe_store error) (Some (pe_object error))"
  by (simp add: certificate_verification_failed_def certificate_walk_exact)

section \<open>A run\<close>

text \<open>A provider whose first answer cannot be parsed; the outside counts the answers.\<close>

definition demo_provider :: "(nat, unit, unit, unit, unit) provider" where
  "demo_provider = \<lparr>pv_services = \<lparr>sv_cancelled = Pair False, sv_can_bind_tools = (\<lambda>_. True),
       sv_bind_tools = (\<lambda>c _. Pair (Returned c)), sv_is_openai = (\<lambda>_. False),
       sv_invoke = (\<lambda>_ _ ms. Pair (Returned (demo_response [] ''answer''))),
       sv_run_tool = (\<lambda>_ _. Pair (Returned ''no match'')), sv_dumps_args = (\<lambda>_. ''{}''), sv_dumps_calls = (\<lambda>_. ''[]'')\<rparr>,
     pv_count_tokens = (\<lambda>t _. int (length t)), pv_max_retries = Some 3, pv_usage_kwargs = None,
     pv_runlog_callback = (\<lambda>_. ParamObject ()), pv_get_chat_model = (\<lambda>_. Pair (Returned ())),
     pv_render = (\<lambda>p. Pair (Returned [PromptMessage (TextContent (cp_user p))])), pv_has_structured_output = (\<lambda>_. False),
     pv_structured_output = (\<lambda>c. Pair (Returned c)), pv_structured_invoke = (\<lambda>_ _. Pair (Returned NotADict)),
     pv_output_text = (\<lambda>r. Pair (Returned (message_content_text (mr_content r)))),
     pv_time = Pair 0, pv_uniform = Pair 1, pv_wait = (\<lambda>_. Pair False)\<rparr>"

definition demo_request :: "tool list \<Rightarrow> (nat, unit, unit, unit, string) prompt_request" where
  "demo_request tools = \<lparr>rq_model = ''m'', rq_system_prompt = ''s'', rq_user_prompt = ''u'',
     rq_parse = (\<lambda>_ n. (Returned (if n = 0 then None else Some ''finding''), Suc n)), rq_label = ''review'',
     rq_invalid_message = ''invalid'', rq_max_tokens = None, rq_temperature = None, rq_response_model = False,
     rq_reasoning_effort = None, rq_chat_model_kwargs = None, rq_model_tools = tools, rq_max_tool_rounds = Some 1,
     rq_on_output_limit = None, rq_max_input_tokens = Some 10,
     rq_callbacks = \<lparr>cbk_on_tool_result = None, cbk_on_tool_error = None\<rparr>\<rparr>"

definition demo_prompt_run :: "(real model_error + string option) \<times> (nat, (real, unit) event) world" where
  "demo_prompt_run = invoke demo_provider (new_runner 2 1) (demo_request []) \<lparr>w_state = 0, w_trace = []\<rparr>"

lemma demo_prompt_run_value:
  "demo_prompt_run = (Inr (Some ''finding''), \<lparr>w_state = 2, w_trace =
     [ChatBuilt, ModelCalled False [PromptMessage (TextContent ''u'')], Waited 1,
      ChatBuilt, ModelCalled False [PromptMessage (TextContent ''u'')]]\<rparr>)"
  by code_simp

definition demo_retry_state :: run_state where
  "demo_retry_state = initial_run_state\<lparr>st_tool_evidence := [demo_evidence], st_output_attempts := 1\<rparr>"

definition demo_retry_run :: "(real model_error + string option) \<times> (nat, (real, unit) event) world" where
  "demo_retry_run = attempts demo_provider (new_runner 2 1) (demo_request demo_tools) 3 1 4 demo_retry_state \<lparr>w_state = 1, w_trace = []\<rparr>"

lemma demo_retry_run_value:
  "demo_retry_run = (Inr (Some ''finding''), \<lparr>w_state = 2, w_trace =
     [ChatBuilt, ModelCalled False [PromptMessage (TextContent ''u'')]]\<rparr>)"
  by code_simp

section \<open>Properties\<close>

lemma invoke_emits:
  assumes "0 < rn_max_attempts rn" and "\<forall>s. 0 \<le> fst (pv_uniform provider s) \<and> fst (pv_uniform provider s) \<le> 1"
  shows "emits (invoke provider rn request) (\<lambda>r evs. evs = [] \<and> (\<exists>e. r = Inl e) \<or>
     retry_spec (rn_max_attempts rn) (transport_retry_limit provider rn) request initial_run_state r evs \<or>
     (\<exists>r'. r = Inl CancelledError \<and> retry_spec (rn_max_attempts rn) (transport_retry_limit provider rn) request initial_run_state r' evs))"
proof -
  let ?S = "retry_spec (rn_max_attempts rn) (transport_retry_limit provider rn) request initial_run_state"
  have loop: "emits (attempts provider rn request (transport_retry_limit provider rn) rounds
      (rn_max_attempts rn + transport_retry_limit provider rn) initial_run_state) ?S" for rounds
    by (rule attempts_emits[OF assms(2)]) (simp_all add: initial_run_state_def assms(1))
  have inner: "emits (invoke_attempts provider rn request) (\<lambda>r evs. evs = [] \<and> (\<exists>e. r = Inl e) \<or> ?S r evs)"
    unfolding invoke_attempts_def Let_def
    by (intro emits_bind_of emits_bind_external) (auto intro!: emits_mono[OF loop])
  show ?thesis
    unfolding invoke_def
    by (intro emits_bind_checkpoint emits_bind[OF inner]) (auto intro!: emits_bind_checkpoint)
qed

text \<open>
  C16. A prompt costs a bounded number of attempts, whatever the provider does: at most
  \<open>max_attempts\<close> plus the transport retries chat models are built, and between them there is at
  most one wait less, each of more than zero and at most 120 seconds. An answer that is
  returned was produced by the request's \<open>parse\<close>; None is returned only after \<open>max_attempts\<close>
  attempts reached the model without a usable answer.
\<close>

theorem prompt_retries_bounded:
  assumes "invoke provider (new_runner max_attempts backoff) request w = (r, w')"
    and "\<forall>s. 3 / 4 \<le> fst (pv_uniform provider s) \<and> fst (pv_uniform provider s) \<le> 1"
  shows "\<exists>evs. let rn = new_runner max_attempts backoff; limit = rn_max_attempts rn + transport_retry_limit provider rn
    in w_trace w' = w_trace w @ evs \<and> chats_built evs \<le> limit \<and> length (waits evs) < limit \<and>
       (\<forall>d \<in> set (waits evs). 0 < d \<and> d \<le> 120) \<and>
       (\<forall>x. r = Inr (Some x) \<longrightarrow> (\<exists>answer s s'. rq_parse request answer s = (Returned (Some x), s'))) \<and>
       (r = Inr None \<longrightarrow> rn_max_attempts rn \<le> chats_built evs)"
proof -
  let ?rn = "new_runner max_attempts backoff"
  have pos: "0 < rn_max_attempts ?rn" by (simp add: new_runner_def)
  have "\<forall>s. 0 \<le> fst (pv_uniform provider s) \<and> fst (pv_uniform provider s) \<le> 1"
    using assms(2) by (meson dual_order.trans zero_le_divide_iff zero_le_numeral)
  from emitsD[OF invoke_emits[OF pos this] assms(1)] obtain evs where "w_trace w' = w_trace w @ evs"
    and "evs = [] \<and> (\<exists>e. r = Inl e) \<or> (\<exists>r'. (r' = r \<or> r = Inl CancelledError) \<and>
      retry_spec (rn_max_attempts ?rn) (transport_retry_limit provider ?rn) request initial_run_state r' evs)" by blast
  then show ?thesis
    using pos by (intro exI[of _ evs]) (auto simp: retry_spec_def produced_def initial_run_state_def Let_def)
qed

theorem prompt_retries_bounded_witness:
  "fst demo_prompt_run = Inr (Some ''finding'') \<and> chats_built (w_trace (snd demo_prompt_run)) = 2 \<and>
   chats_built (w_trace (snd demo_prompt_run)) \<le> 2 + 3 \<and> waits (w_trace (snd demo_prompt_run)) = [1]"
proof -
  have run: "invoke demo_provider (new_runner 2 1) (demo_request []) \<lparr>w_state = 0, w_trace = []\<rparr>
      = (fst demo_prompt_run, snd demo_prompt_run)" by (simp add: demo_prompt_run_def)
  have "\<forall>s. 3 / 4 \<le> fst (pv_uniform demo_provider s) \<and> fst (pv_uniform demo_provider s) \<le> 1"
    by (simp add: demo_provider_def)
  from prompt_retries_bounded[OF run this]
  have "chats_built (w_trace (snd demo_prompt_run)) \<le> 2 + 3"
    by (auto simp: Let_def new_runner_def transport_retry_limit_def demo_provider_def)
  then show ?thesis by (simp add: demo_prompt_run_value)
qed

lemma attempts_without_tools:
  assumes "st_tool_evidence st \<noteq> []"
  shows "emits (attempts provider rn request retries rounds left st) (\<lambda>r evs. list_all without_tools evs)"
  using assms
proof (induction left arbitrary: st)
  case 0
  then show ?case by (auto intro: emits_mono[OF conclude_attempts_emits])
next
  case (Suc left)
  have wait: "emits (wait_for provider d) (\<lambda>r evs. list_all without_tools evs)" for d
    by (rule emits_mono[OF wait_for_emits]) (auto simp: without_tools_def)
  have conclude: "emits (conclude_attempts provider rn request s) (\<lambda>r evs. list_all without_tools evs)" for s
    by (rule emits_mono[OF conclude_attempts_emits]) simp
  show ?case
    unfolding attempts.simps
  proof (rule emits_bind[OF run_attempt_emits], goal_cases)
    case (2 result evs)
    then have "list_all without_tools evs" using Suc.prems by (simp add: attempt_spec_def)
    with 2 Suc.prems show ?case
      by (intro emits_all_prefix; cases result) (auto simp: Let_def attempt_spec_def same_counters_def
          intro!: emits_all_bind emits_query wait conclude Suc.IH)
  qed (use Suc.prems in \<open>simp add: attempt_spec_def\<close>)
qed

text \<open>
  C18. Tools are not run twice for the same evidence: once an attempt has gathered tool evidence,
  the rest of the retry loop neither runs a tool nor asks the model with tools, and the number of
  attempts is what the counters leave, however large the range of the loop is.
\<close>

theorem evidence_retry_without_tools:
  assumes "st_tool_evidence st \<noteq> []" and "st_output_attempts st < rn_max_attempts rn"
    and "(rn_max_attempts rn - st_output_attempts st) + (retries - st_transport_retries st) \<le> left"
    and "attempts provider rn request retries rounds (left + k) st w = (r, w')"
  shows "attempts provider rn request retries rounds left st w = (r, w') \<and>
    (\<exists>evs. w_trace w' = w_trace w @ evs \<and>
       list_all (\<lambda>ev. case ev of ToolRun _ _ \<Rightarrow> False | ModelCalled allowed _ \<Rightarrow> \<not> allowed | _ \<Rightarrow> True) evs)"
proof -
  have run: "attempts provider rn request retries rounds left st w = (r, w')"
    using attempts_range[OF assms(2,3)] assms(4) by metis
  from emitsD[OF attempts_without_tools[OF assms(1)] run] run show ?thesis unfolding without_tools_def by blast
qed

theorem evidence_retry_without_tools_witness:
  "fst demo_retry_run = Inr (Some ''finding'') \<and> list_all without_tools (w_trace (snd demo_retry_run)) \<and>
   attempts demo_provider (new_runner 2 1) (demo_request demo_tools) 3 1 (4 + 0) demo_retry_state \<lparr>w_state = 1, w_trace = []\<rparr> = demo_retry_run"
proof -
  have run: "attempts demo_provider (new_runner 2 1) (demo_request demo_tools) 3 1 (4 + 0) demo_retry_state \<lparr>w_state = 1, w_trace = []\<rparr>
      = (fst demo_retry_run, snd demo_retry_run)" by (simp add: demo_retry_run_def)
  have "st_tool_evidence demo_retry_state \<noteq> []" "st_output_attempts demo_retry_state < rn_max_attempts (new_runner 2 1)"
    "(rn_max_attempts (new_runner 2 1) - st_output_attempts demo_retry_state) + (3 - st_transport_retries demo_retry_state) \<le> 4"
    by (simp_all add: demo_retry_state_def initial_run_state_def new_runner_def)
  from evidence_retry_without_tools[OF this run] run show ?thesis
    by (simp add: demo_retry_run_value without_tools_def)
qed

end
