(* ===== verification/Spec2Isabelle.thy ===== *)
theory Spec2Isabelle
  imports Stage_Service Service_Lifecycle Concurrency Json_Journal Finding_Dedup Graph_Annotations Finding_Admission
    Node_Chunks C_Linking Prompt_Runner
begin

text \<open>
  Metis reviews source code for vulnerabilities. Its engine runs configured \<^emph>\<open>stages\<close>, graphs of
  \<^emph>\<open>nodes\<close> whose typed ports are wired to one another; the nodes parse the code into a graph of
  functions, analyse it, ask language models about parts of it, and consolidate what they report.
  This development models the deterministic core of the engine and proves it correct. Paths below
  are relative to \<open>src/src/metis\<close>.

  \<^bold>\<open>Running stages.\<close>
  \<^item> \<open>Stage_Graph\<close> (\<open>engine/execution/graph.py\<close>): the configuration of a stage with its validators, and
    \<open>topological_order\<close>; the order respects every dependency and exists exactly for graphs without
    unknown names and cycles.
  \<^item> \<open>Annotations\<close> (\<open>contracts.py\<close>, \<open>compiler.py\<close> of \<open>engine/execution\<close>): port types and their
    compatibility, a recursion over recursive aliases that is shown to terminate.
  \<^item> \<open>Contracts\<close> (\<open>contracts.py\<close>, \<open>catalog.py\<close>): registrations, results and the catalog of nodes.
  \<^item> \<open>Compiler\<close> (\<open>compiler.py\<close>): from a configuration to a plan, every check included; plans are
    ordered, well typed, and supply every port.
  \<^item> \<open>Runner\<close> (\<open>runner.py\<close>): the scheduling loop as a transition system over an arbitrary order of
    completions; every complete trace gives the result of the sequential evaluation, every run can be
    completed, and failures stop exactly the nodes that depend on them.
  \<^item> \<open>Concurrency\<close> (\<open>engine/concurrency.py\<close>): the shared scheduler as a state with one function per
    operation under its lock, and their interleavings; limits and quotas are never exceeded, every
    job runs once, free capacity is used, and runs take turns.

  \<^item> \<open>Stage_Configuration\<close>, \<open>Stage_Service\<close> (\<open>configuration.py\<close>, \<open>catalog.py\<close>, \<open>contracts.py\<close>,
    \<open>service.py\<close> of \<open>engine/stages\<close>): the configuration of a whole run with its validator, the
    compilation of its stages, the selection of the stages a request needs and their execution;
    accepted configurations have an order, and executing them misses no value; an exception that
    leaves an execution comes from outside (a cancellation, a refused scope, the construction of
    the triage request, the callback after a stage).
    \<open>Service_Lifecycle\<close> (\<open>service.py\<close>): admission of executions and closing of the service.

  \<^bold>\<open>Asking a model.\<close>
  \<^item> \<open>Effects\<close>: computations that raise and that call the outside, with a trace of the calls and a
    calculus for the events they emit. A service of the outside may depend on a state of any type,
    so the theorems hold for every behaviour of the provider.
  \<^item> \<open>Model_Tools\<close> (\<open>engine/model_tool_runner.py\<close>): the tool loop; the conversations it sends are well
    formed and within the budget, and the evidence it returns is that of the tools it ran.
  \<^item> \<open>Prompt_Runner\<close> (\<open>engine/llm_runner.py\<close>, \<open>chat_model_options.py\<close>): the retry loop around it; the
    number of attempts and the length of the waits are bounded, and gathered evidence is reused
    without running tools again.

  \<^item> \<open>Text_Split\<close> (\<open>utils.py\<close>): splitting text into chunks within a token limit; \<open>Node_Chunks\<close>
    (\<open>engine/nodes/reachability/source_context.py\<close>): the functions of each file grouped into prompts
    within the limit, by a search that finds the greedy boundary.

  \<^bold>\<open>Findings.\<close>
  \<^item> \<open>Json_Validation\<close>, \<open>Json_Journal\<close> (\<open>json_io.py\<close>): the check that an object is a tree of JSON values,
    and the journal of records, with one writer thread, as a transition system over every
    interleaving and every outcome of a write; what a flush promises can be read back.
  \<^item> \<open>External_Sort\<close> (\<open>json_io.py\<close>): the external merge sort is a stable sort that keeps its bounds on open
    files and on records in memory.
  \<^item> \<open>Union_Find\<close>, \<open>Finding_Dedup\<close> (\<open>engine/nodes/finding_dedup/core.py\<close>): consolidation of findings
    keeps one representative of every class of findings judged equal, and never loses a finding.

  \<^item> \<open>Source_Map\<close> (\<open>engine/source\<close>): locating the snippet of a reported issue in a file; what each
    confidence of an anchor says about the text of the file.

  \<^bold>\<open>The code graph.\<close>
  \<^item> \<open>Posix_Path\<close> (\<open>os.path\<close> of the standard library), \<open>Code_Graph\<close> (\<open>engine/codegraph\<close>): the graph, its
    operations, and its invariant over every sequence of operations (\<open>constructed\<close>).
  \<^item> \<open>C_Linking\<close> (\<open>plugins/c_family/linking.py\<close>): resolution of the calls of C and C++ functions.
  \<^item> \<open>Graph_Search\<close>, \<open>Reachability\<close> (\<open>engine/nodes/reachability\<close>): file focus, shortest paths from a
    source to a finding, copies of a part of the graph; the searches are stated over the locale
    \<open>call_edges\<close>, interpreted on the plain and the sorted reverse edges of the graph.
  \<^item> \<open>Graph_Annotations\<close> (\<open>engine/nodes/codegraph/annotations.py\<close>): marking of sources and sinks.
  \<^item> \<open>Null_Contracts\<close>, \<open>Contract_Fixpoint\<close> (\<open>engine/nodes/reachability/state.py\<close>): for each function, when
    its result is not null, as the fixed point of a worklist; \<open>Finding_Admission\<close>
    (\<open>finding_admission.py\<close>): which findings these contracts refute.
  The theorem of this theory puts linking and the contracts together.

  \<^bold>\<open>Conventions.\<close> \<open>Prelude\<close> holds the Python values: a dictionary is an association list in insertion
  order, code that raises returns a sum whose left side is the error, integers are \<open>int\<close>, strings are
  lists of one-byte characters. Recursions that are not structural have a termination proof with a
  measure; loops for which termination is itself a claim (\<open>trace_path\<close>, \<open>path_loop\<close>,
  \<open>split_pending\<close>, \<open>validate_loop\<close>, \<open>grow_chunk\<close>, \<open>chunk_loop\<close>) are partial functions into \<open>option\<close>
  and are shown to return. No model uses fuel.
  Code outside the repository is a parameter: handlers of nodes, model answers, tokenizers, hashes,
  parsers, thread pools and validation libraries.

  \<^bold>\<open>Not modelled.\<close> The command line, the adapters to providers of language models, prompts,
  vector stores and memory databases, the run log, SARIF files, usage accounting, and the services
  that only move data between these (threat model, triage, simple review, stage output) are input
  and output around the engine. The extraction of syntax facts from tree-sitter trees
  (\<open>plugins/c_family/ast.py\<close>, \<open>codegraph.py\<close>) depends on grammars outside the repository. Within the
  modelled files, log events and the progress callbacks of nodes have no effect on results and are
  left out (an exception that a progress callback raises is not modelled); the callback after a
  stage is modelled, since its exceptions leave the execution.
\<close>

section \<open>Contracts of a linked program\<close>

text \<open>
  C40. Linking prepares the graph for the function contracts: after the calls of the parsed
  functions have been resolved, the derivation of contracts succeeds and ends at a fixed point, with
  a contract for every function. In particular no contract is missed because a caller was not
  scheduled again: the resolved calls contain every target that a call site refers to.
\<close>

theorem linked_program_contracts:
  assumes "constructed g" and "holds_functions g functions"
    and "resolve_calls g functions declarations languages scopes decls = Inr h"
    and "named_functions g" and "located_exits h"
  shows "\<exists>contracts. augment_function_contracts h = Inr contracts \<and>
    keys contracts = map (fn_unique_name \<circ> pf_node) functions \<and>
    (\<forall>k n c t. get_node h k = Some n \<longrightarrow> map_of contracts k = Some c \<longrightarrow>
       derive_nonnull_return_transfer n contracts = Inr (Some t) \<longrightarrow> t \<in> set (fc_normal_return_transfers c))"
proof -
  have inv: "link_inv functions [] h" by (rule resolve_calls_inv[OF constructed_inv[OF assms(1)] assms(2,3)])
  then have h: "graph_inv h" "keys (cg_nodes h) = map (fn_unique_name \<circ> pf_node) functions" by (auto simp: link_inv_def)
  have "named_functions h" using assms(2,4) h(2) by (simp add: named_functions_def holds_functions_def keys_def comp_def)
  from augment_function_contracts_ok[OF h(1) this assms(5)] link_inv_linked(1)[OF inv] h(2) show ?thesis
    by (auto simp: contracts_ok_def stable_def)
qed

theorem linked_program_contracts_witness:
  "\<exists>h contracts. resolve_calls demo_unlinked demo_parsed_functions [] [] [] [] = Inr h \<and>
     augment_function_contracts h = Inr contracts \<and> keys contracts = [''a.c::run'', ''b.c::log'', ''c.c::log'']"
proof -
  have "case resolve_calls demo_unlinked demo_parsed_functions [] [] [] [] of Inl _ \<Rightarrow> False | Inr h \<Rightarrow> located_exits h" by code_simp
  then obtain h where h: "resolve_calls demo_unlinked demo_parsed_functions [] [] [] [] = Inr h" "located_exits h"
    by (auto split: sum.splits)
  have "named_functions demo_unlinked" by code_simp
  from linked_program_contracts[OF demo_unlinked_constructed demo_unlinked_holds h(1) this h(2)] obtain contracts where
    "augment_function_contracts h = Inr contracts" "keys contracts = map (fn_unique_name \<circ> pf_node) demo_parsed_functions" by blast
  moreover have "map (fn_unique_name \<circ> pf_node) demo_parsed_functions = [''a.c::run'', ''b.c::log'', ''c.c::log'']" by code_simp
  ultimately show ?thesis using h(1) by auto
qed

end
